(* ===== verification/Prelude.thy ===== *)
theory Prelude
  imports Main "HOL-Library.Word" "HOL-Library.List_Lexorder"
begin

text \<open>
  Shared vocabulary of the development (\<open>include/bitcask/common.h\<close>): machine integers, byte
  strings, the exceptions of the engine as a datatype, results as sums, the little-endian
  encodings that several components write, and the generic facts about lists and words that the
  component theories share.
\<close>

unbundle bit_operations_syntax

named_theorems request_simps "how the servers run a request: tables, handlers, and what they catch"

section \<open>Machine integers, byte strings, exceptions\<close>

type_synonym u8 = "8 word"
type_synonym u32 = "32 word"
type_synonym u64 = "64 word"
type_synonym bytes = "u8 list"

text \<open>
  The exception classes of \<open>common.h\<close>. \<open>BitcaskException\<close> carries its message; \<open>StdException\<close>
  stands for the exceptions that the C++ library functions called by the code throw
  (\<open>std::stoi\<close>, \<open>std::string::substr\<close>), which the code catches as \<open>std::exception\<close>.
  The last three are no exceptions: a model function returns \<open>UndefinedBehaviour\<close> where the C++
  program has no defined behaviour (a null pointer that is followed, a variable read before it is
  set), \<open>Terminated\<close> where \<open>std::terminate\<close> is called (an exception leaves a destructor), and
  \<open>OutOfFuel\<close> where the bound of a loop of the model is used up; theorems show that the bounds are
  never used up.
\<close>

datatype exn =
    BitcaskException string
  | KeyEmptyError
  | KeyNotFoundError
  | DataFileNotFoundError
  | DatabaseIsUsingError
  | DataDirectoryCorruptedError
  | InvalidCRCError
  | IndexUpdateFailedError
  | ReadDataFileEOFError
  | MergeInProgressError
  | MergeRatioUnreachedError
  | NoEnoughSpaceForMergeError
  | StdException string
  | UndefinedBehaviour
  | Terminated
  | OutOfFuel

fun exn_what :: "exn \<Rightarrow> string" where
  "exn_what (BitcaskException m) = m"
| "exn_what KeyEmptyError = ''Key is empty''"
| "exn_what KeyNotFoundError = ''Key not found''"
| "exn_what DataFileNotFoundError = ''Data file not found''"
| "exn_what DatabaseIsUsingError = ''Database is being used by another process''"
| "exn_what DataDirectoryCorruptedError = ''Data directory corrupted''"
| "exn_what InvalidCRCError = ''Invalid CRC value, log record may be corrupted''"
| "exn_what IndexUpdateFailedError = ''Failed to update index''"
| "exn_what ReadDataFileEOFError = ''Read data file EOF''"
| "exn_what MergeInProgressError = ''Merge is in progress''"
| "exn_what MergeRatioUnreachedError = ''Merge ratio unreached''"
| "exn_what NoEnoughSpaceForMergeError = ''No enough space for merge''"
| "exn_what (StdException m) = m"
| "exn_what UndefinedBehaviour = []"
| "exn_what Terminated = []"
| "exn_what OutOfFuel = []"

text \<open>What \<open>catch (const std::exception&)\<close> catches.\<close>

definition catchable :: "exn \<Rightarrow> bool" where
  "catchable e \<longleftrightarrow> e \<notin> {UndefinedBehaviour, Terminated, OutOfFuel}"

type_synonym 'a res = "exn + 'a"

text \<open>
  Sequencing of calls that may throw and that change a state: an exception ends the sequence and
  keeps the state reached.
\<close>

definition bind_res :: "'a res \<times> 's \<Rightarrow> ('a \<Rightarrow> 's \<Rightarrow> 'b res \<times> 's) \<Rightarrow> 'b res \<times> 's" where
  "bind_res m k = (case m of (Inl e, s) \<Rightarrow> (Inl e, s) | (Inr x, s) \<Rightarrow> k x s)"

lemma bind_res_simps [simp]:
  "bind_res (Inl e, s) k = (Inl e, s)" "bind_res (Inr x, s) k = k x s"
  by (simp_all add: bind_res_def)

datatype log_record_type = NORMAL | DELETED | TXN_FINISHED | OTHER_TYPE u8

datatype io_type = STANDARD_FIO | MEMORY_MAP

datatype index_type = BTREE | ART | SKIPLIST | BPLUS_TREE

text \<open>
  \<open>enum class LogRecordType : uint8_t\<close>: a cast from a byte read from a file may yield a value
  that is no enumerator; such a byte is \<open>OTHER_TYPE b\<close>.
\<close>

definition type_to_byte :: "log_record_type \<Rightarrow> u8" where
  "type_to_byte t = (case t of NORMAL \<Rightarrow> 1 | DELETED \<Rightarrow> 2 | TXN_FINISHED \<Rightarrow> 3 | OTHER_TYPE b \<Rightarrow> b)"

definition type_of_byte :: "u8 \<Rightarrow> log_record_type" where
  "type_of_byte b =
     (if b = 1 then NORMAL else if b = 2 then DELETED else if b = 3 then TXN_FINISHED
      else OTHER_TYPE b)"

definition real_type :: "log_record_type \<Rightarrow> bool" where
  "real_type t = (case t of OTHER_TYPE b \<Rightarrow> b \<notin> {1, 2, 3} | _ \<Rightarrow> True)"

lemma type_of_byte_to_byte [simp]: "real_type t \<Longrightarrow> type_of_byte (type_to_byte t) = t"
  by (cases t) (auto simp: type_of_byte_def type_to_byte_def real_type_def)

lemma type_to_byte_of_byte [simp]: "type_to_byte (type_of_byte b) = b"
  by (auto simp: type_of_byte_def type_to_byte_def)

lemma real_type_simps [simp]:
  "real_type NORMAL" "real_type DELETED" "real_type TXN_FINISHED" "real_type (type_of_byte b)"
  by (auto simp: real_type_def type_of_byte_def)

section \<open>Constants of common.h\<close>

definition DATA_FILE_SUFFIX :: string where "DATA_FILE_SUFFIX = ''.data''"
definition HINT_FILE_NAME :: string where "HINT_FILE_NAME = ''hint-index''"
definition MERGE_FINISHED_FILE_NAME :: string where "MERGE_FINISHED_FILE_NAME = ''merge-finished''"
definition SEQ_NO_FILE_NAME :: string where "SEQ_NO_FILE_NAME = ''seq-no''"
definition FILE_LOCK_NAME :: string where "FILE_LOCK_NAME = ''flock''"
definition MERGE_DIR_SUFFIX :: string where "MERGE_DIR_SUFFIX = ''-merge''"
definition MERGE_FINISHED_KEY :: string where "MERGE_FINISHED_KEY = ''merge.finished''"
definition INITIAL_FILE_ID :: u32 where "INITIAL_FILE_ID = 0"
definition NON_TRANSACTION_SEQ_NO :: u64 where "NON_TRANSACTION_SEQ_NO = 0"
definition MAX_LOG_RECORD_HEADER_SIZE :: nat where "MAX_LOG_RECORD_HEADER_SIZE = 15"

section \<open>Strings and bytes\<close>

definition string_to_bytes :: "string \<Rightarrow> bytes" where
  "string_to_bytes s = map (\<lambda>c. word_of_nat (of_char c)) s"

definition bytes_to_string :: "bytes \<Rightarrow> string" where
  "bytes_to_string bs = map (\<lambda>b. char_of (unat b)) bs"

lemma string_bytes_string [simp]: "bytes_to_string (string_to_bytes s) = s"
  by (induction s) (simp_all add: bytes_to_string_def string_to_bytes_def unat_of_nat take_bit_eq_mod)

lemma bytes_string_bytes [simp]: "string_to_bytes (bytes_to_string b) = b"
proof -
  have "of_char (char_of (unat x) :: char) = unat x" for x :: u8
  proof -
    have "unat x < 2 ^ LENGTH(8)" by (rule unsigned_less)
    then show ?thesis by simp
  qed
  then show ?thesis
    by (induction b) (simp_all add: bytes_to_string_def string_to_bytes_def)
qed

lemma string_to_bytes_inj [simp]: "string_to_bytes s = string_to_bytes t \<longleftrightarrow> s = t"
  by (metis string_bytes_string)

lemma length_string_to_bytes [simp]: "length (string_to_bytes s) = length s"
  by (simp add: string_to_bytes_def)

section \<open>Little-endian encodings\<close>

text \<open>
  \<open>for (i = 0; i < n; ++i) result.push_back((x >> (i * 8)) & 0xFF)\<close> and its inverse
  \<open>for (i = 0; i < n; ++i) x |= uint64_t(data[off + i]) << (i * 8)\<close>.
\<close>

definition le_encode :: "nat \<Rightarrow> u64 \<Rightarrow> bytes" where
  "le_encode n x = map (\<lambda>i. ucast (drop_bit (8 * i) x AND 0xFF)) [0..<n]"

definition le_decode :: "bytes \<Rightarrow> u64" where
  "le_decode bs = fold (\<lambda>i x. x OR push_bit (8 * i) (ucast (bs ! i))) [0..<length bs] 0"

lemma length_le_encode [simp]: "length (le_encode n x) = n"
  by (simp add: le_encode_def)

lemma upt_8: "[0..<8] = [0, 1, 2, 3, 4, 5, 6, 7]"
  by (simp add: upt_rec)

lemma bit_shifted_byte:
  "bit (push_bit (8 * n) (ucast (b :: u8)) :: u64) k \<longleftrightarrow> k < 64 \<and> k div 8 = n \<and> bit b (k mod 8)"
proof -
  have bound: "bit b j \<Longrightarrow> j < 8" for j
    using bit_imp_le_length [of b j] by simp
  have "bit (push_bit (8 * n) (ucast b) :: u64) k \<longleftrightarrow> 8 * n \<le> k \<and> k < 64 \<and> bit b (k - 8 * n)"
    by (simp add: bit_push_bit_iff bit_unsigned_iff) (auto dest: bound)
  also have "\<dots> \<longleftrightarrow> k < 64 \<and> k div 8 = n \<and> bit b (k mod 8)"
  proof (cases "k div 8 = n")
    case True
    have "k = 8 * (k div 8) + k mod 8" by simp
    with True have "8 * n \<le> k" "k - 8 * n = k mod 8" by linarith+
    with True show ?thesis by simp
  next
    case False
    have "k = 8 * (k div 8) + k mod 8" "k mod 8 < 8" by simp_all
    with False have "k < 8 * n \<or> \<not> k - 8 * n < 8" by linarith
    then have "\<not> (8 * n \<le> k \<and> bit b (k - 8 * n))" using bound by (meson not_less)
    with False show ?thesis by blast
  qed
  finally show ?thesis .
qed

lemma bit_le_fold:
  "bit (fold (\<lambda>i x. x OR push_bit (8 * i) (ucast (bs ! i :: u8))) [0..<n] (a :: u64)) k
    \<longleftrightarrow> bit a k \<or> (k < 64 \<and> k div 8 < n \<and> bit (bs ! (k div 8)) (k mod 8))"
proof (induction n)
  case 0
  then show ?case by simp
next
  case (Suc n)
  then show ?case
    by (simp only: upt_Suc_append le0 fold_append fold.simps o_def id_def bit_or_iff
        bit_shifted_byte less_Suc_eq) blast
qed

lemma bit_le_decode:
  "bit (le_decode bs) k \<longleftrightarrow> k < 64 \<and> k div 8 < length bs \<and> bit (bs ! (k div 8)) (k mod 8)"
  by (simp add: le_decode_def bit_le_fold)

lemma bit_0xFF: "bit (0xFF :: u64) k \<longleftrightarrow> k < 8"
proof -
  have "(0xFF :: u64) = mask 8" by (simp add: mask_eq_exp_minus_1)
  then show ?thesis by (simp only: bit_mask_iff possible_bit_word) auto
qed

lemma bit_0x7F_u64: "bit (0x7F :: u64) k \<longleftrightarrow> k < 7"
proof -
  have "(0x7F :: u64) = mask 7" by (simp add: mask_eq_exp_minus_1)
  then show ?thesis by (simp only: bit_mask_iff possible_bit_word) auto
qed

lemma bit_0x7F_u8: "bit (0x7F :: u8) k \<longleftrightarrow> k < 7"
proof -
  have "(0x7F :: u8) = mask 7" by (simp add: mask_eq_exp_minus_1)
  then show ?thesis by (simp only: bit_mask_iff possible_bit_word) auto
qed

lemma bit_0x80_u64: "bit (0x80 :: u64) k \<longleftrightarrow> k = 7"
proof -
  have "(0x80 :: u64) = 2 ^ 7" by (simp)
  then show ?thesis by (simp only: bit_exp_iff possible_bit_word) auto
qed

lemma bit_0x80_u8: "bit (0x80 :: u8) k \<longleftrightarrow> k = 7"
proof -
  have "(0x80 :: u8) = 2 ^ 7" by (simp)
  then show ?thesis by (simp only: bit_exp_iff possible_bit_word) auto
qed

lemmas bit_masks = bit_0xFF bit_0x7F_u64 bit_0x7F_u8 bit_0x80_u64 bit_0x80_u8

lemma bit_byte_of: "bit (ucast (drop_bit m x AND 0xFF :: u64) :: u8) j \<longleftrightarrow> j < 8 \<and> bit x (m + j)"
proof -
  have "(0xFF :: u64) = mask 8" by (simp add: mask_eq_exp_minus_1)
  then show ?thesis
    by (simp only: bit_unsigned_iff bit_and_iff bit_drop_bit_eq bit_mask_iff o_def)
       (auto simp: add.commute)
qed

lemma le_decode_encode: "le_decode (le_encode 8 x) = x"
proof (rule bit_word_eqI)
  fix k :: nat
  assume k: "k < LENGTH(64)"
  then have "k div 8 < 8" by simp
  with k show "bit (le_decode (le_encode 8 x)) k = bit x k"
    by (simp add: bit_le_decode le_encode_def bit_byte_of)
qed

lemma le_encode_decode: "length bs = 8 \<Longrightarrow> le_encode 8 (le_decode bs) = bs"
proof (rule nth_equalityI)
  fix i
  assume len: "length bs = 8" and "i < length (le_encode 8 (le_decode bs))"
  then have i: "i < 8" by simp
  show "le_encode 8 (le_decode bs) ! i = bs ! i"
  proof (rule bit_word_eqI)
    fix j :: nat
    assume "j < LENGTH(8)"
    then have j: "j < 8" by simp
    then have "(8 * i + j) div 8 = i" "(8 * i + j) mod 8 = j" "8 * i + j < 64"
      using i by auto
    then show "bit (le_encode 8 (le_decode bs) ! i) j = bit (bs ! i) j"
      using i j len by (simp add: le_encode_def bit_byte_of bit_le_decode)
  qed
qed simp

text \<open>Fewer than eight bytes hold a number that fits.\<close>

lemma bit_less: "unat (x :: u64) < 2 ^ m \<Longrightarrow> bit x k \<Longrightarrow> k < m"
proof (rule ccontr)
  assume x: "unat x < 2 ^ m" and b: "bit x k" and "\<not> k < m"
  then have "2 ^ m \<le> (2 :: nat) ^ k" by (intro power_increasing) simp_all
  with x have "unat x < 2 ^ k" by (rule less_le_trans)
  then have z: "unat x div 2 ^ k = 0" by (rule div_less)
  have "bit (unat x) k" using b by (simp only: bit_unsigned_iff possible_bit_def) simp
  then have "odd (unat x div 2 ^ k)" by (rule bit_iff_odd [THEN iffD1])
  then show False unfolding z by simp
qed

lemma le_decode_encode_n:
  assumes "n \<le> 8" "unat x < 2 ^ (8 * n)"
  shows "le_decode (le_encode n x) = x"
proof (rule bit_word_eqI)
  fix k :: nat
  assume k: "k < LENGTH(64)"
  show "bit (le_decode (le_encode n x)) k = bit x k"
  proof (cases "k div 8 < n")
    case True
    with k show ?thesis by (simp add: bit_le_decode le_encode_def bit_byte_of)
  next
    case False
    then have "\<not> k < 8 * n" by (simp add: less_mult_imp_div_less mult.commute)
    with False show ?thesis using bit_less [OF assms(2)] by (auto simp: bit_le_decode)
  qed
qed

lemma le_encode_inj: "le_encode 8 x = le_encode 8 y \<longleftrightarrow> x = y"
  by (metis le_decode_encode)

lemma le_decode_append_take: "le_decode (take 8 (le_encode 8 x @ ys)) = x"
  by (simp add: le_decode_encode)

end
