(* ===== verification/Varint.thy ===== *)
theory Varint
  imports Prelude
begin

text \<open>
  The variable-length integers of \<open>src/log_record.cpp\<close> (\<open>encode_varint\<close>, \<open>decode_varint\<close>): seven
  payload bits per byte, least significant group first, the top bit of a byte says that another
  one follows. The lemmas give the length of an encoding, the round trip on any buffer that
  starts with an encoding, and the failures of the decoder.
\<close>

section \<open>Definitions\<close>

lemma unat_drop_bit_7: "unat (drop_bit 7 (v :: u64)) = unat v div 128"
  by (simp add: drop_bit_eq_div unat_div)

lemma drop_bit_7_less: "v \<ge> (0x80 :: u64) \<Longrightarrow> unat (drop_bit 7 v) < unat v"
  by (simp add: unat_drop_bit_7 word_le_nat_alt)

text \<open>
  \<open>while (value >= 0x80) { buffer[pos++] = (value & 0xFF) | 0x80; value >>= 7; }\<close> and the last
  byte. The function returns the bytes written; the C++ return value \<open>pos\<close> is their number.
\<close>

function encode_varint :: "u64 \<Rightarrow> bytes" where
  "encode_varint value =
     (if value \<ge> 0x80
      then ucast ((value AND 0xFF) OR 0x80) # encode_varint (drop_bit 7 value)
      else [ucast (value AND 0xFF)])"
  by pat_completeness auto

termination
  by (relation "measure unat") (simp_all add: drop_bit_7_less)

declare encode_varint.simps [simp del]

text \<open>
  The loop of \<open>decode_varint\<close>, over the bytes not read yet; \<open>pos\<close> counts the bytes read,
  \<open>shift\<close> is the C++ \<open>int shift\<close> and \<open>result\<close> the value so far.
\<close>

fun decode_varint_loop :: "bytes \<Rightarrow> nat \<Rightarrow> nat \<Rightarrow> u64 \<Rightarrow> (u64 \<times> nat) res" where
  "decode_varint_loop [] pos shift result = Inl (BitcaskException ''Incomplete varint'')"
| "decode_varint_loop (byte # buffer) pos shift result =
     (let result = result OR push_bit shift (ucast (byte AND 0x7F)) in
      if byte AND 0x80 = 0 then Inr (result, Suc pos)
      else if shift + 7 \<ge> 64 then Inl (BitcaskException ''Varint too long'')
      else decode_varint_loop buffer (Suc pos) (shift + 7) result)"

definition decode_varint :: "bytes \<Rightarrow> (u64 \<times> nat) res" where
  "decode_varint buffer =
     (if buffer = [] then Inl (BitcaskException ''Empty buffer for varint'')
      else decode_varint_loop buffer 0 0 0)"

section \<open>Lengths\<close>

lemma encode_varint_small: "unat v < 128 \<Longrightarrow> encode_varint v = [ucast (v AND 0xFF)]"
  by (subst encode_varint.simps) (simp add: word_le_nat_alt)

lemma encode_varint_big:
  "128 \<le> unat v \<Longrightarrow>
    encode_varint v = ucast ((v AND 0xFF) OR 0x80) # encode_varint (drop_bit 7 v)"
  by (subst encode_varint.simps) (simp add: word_le_nat_alt)

lemma encode_varint_not_Nil [simp]: "encode_varint v \<noteq> []"
  by (subst encode_varint.simps) simp

lemma length_encode_varint_pos [simp]: "0 < length (encode_varint v)"
  by simp

lemma length_encode_varint_le:
  "unat v < 128 ^ n \<Longrightarrow> 0 < n \<Longrightarrow> length (encode_varint v) \<le> n"
proof (induction v arbitrary: n rule: encode_varint.induct)
  case (1 v)
  show ?case
  proof (cases "unat v < 128")
    case True
    with "1.prems" show ?thesis by (simp add: encode_varint_small)
  next
    case False
    have "n \<noteq> 1" using False "1.prems"(1) by auto
    then obtain m where n: "n = Suc m" "0 < m"
      using "1.prems"(2) by (cases n) auto
    have "unat (drop_bit 7 v) < 128 ^ m"
      using "1.prems"(1) n by (simp add: unat_drop_bit_7 less_mult_imp_div_less mult.commute)
    with False n "1.IH" have "length (encode_varint (drop_bit 7 v)) \<le> m"
      by (simp add: word_le_nat_alt)
    with False n show ?thesis by (simp add: encode_varint_big)
  qed
qed

lemma length_encode_varint_10: "length (encode_varint v) \<le> 10"
proof (rule length_encode_varint_le)
  have "unat v < 2 ^ LENGTH(64)" by (rule unsigned_less)
  then show "unat v < 128 ^ 10" by simp
qed simp

lemma length_encode_varint_u32: "unat v < 2 ^ 32 \<Longrightarrow> length (encode_varint v) \<le> 5"
  by (rule length_encode_varint_le) simp_all

section \<open>Round trip\<close>

lemma bit_ucast8: "bit (ucast (x :: u64) :: u8) k \<longleftrightarrow> k < 8 \<and> bit x k"
  by (simp add: bit_unsigned_iff)

lemma bit_ucast64: "bit (ucast (x :: u8) :: u64) k \<longleftrightarrow> bit x k"
proof -
  have "bit x k \<Longrightarrow> k < 8" using bit_imp_le_length [of x k] by simp
  then show ?thesis by (auto simp: bit_unsigned_iff)
qed

lemmas bit_bytes = bit_and_iff bit_or_iff bit_ucast8 bit_ucast64 bit_masks

lemma varint_byte_more:
  "(ucast ((v AND 0xFF) OR 0x80 :: u64) :: u8) AND 0x80 \<noteq> 0"
  "ucast ((ucast ((v AND 0xFF) OR 0x80 :: u64) :: u8) AND 0x7F) = v AND (0x7F :: u64)"
proof -
  have "bit ((ucast ((v AND 0xFF) OR 0x80 :: u64) :: u8) AND 0x80) 7"
    by (simp only: bit_bytes) simp
  then show "(ucast ((v AND 0xFF) OR 0x80 :: u64) :: u8) AND 0x80 \<noteq> 0" by auto
  show "ucast ((ucast ((v AND 0xFF) OR 0x80 :: u64) :: u8) AND 0x7F) = v AND (0x7F :: u64)"
    by (rule bit_word_eqI) (simp only: bit_bytes, auto)
qed

lemma varint_byte_last:
  assumes "unat (v :: u64) < 128"
  shows "(ucast (v AND 0xFF) :: u8) AND 0x80 = 0"
    and "ucast ((ucast (v AND 0xFF) :: u8) AND 0x7F) = v"
proof -
  have "take_bit 7 v = v"
    using assms by (simp add: word_unat_eq_iff unsigned_take_bit_eq take_bit_nat_eq_self)
  then have bound: "bit v k \<Longrightarrow> k < 7" for k
    by (metis bit_take_bit_iff)
  show "(ucast (v AND 0xFF) :: u8) AND 0x80 = 0"
    by (rule bit_word_eqI) (simp only: bit_bytes, auto dest: bound)
  show "ucast ((ucast (v AND 0xFF) :: u8) AND 0x7F) = v"
    by (rule bit_word_eqI) (simp only: bit_bytes, auto dest: bound)
qed

lemma drop_bit_7_mod: "(v :: u64) = (v AND 0x7F) OR push_bit 7 (drop_bit 7 v)"
proof (rule bit_word_eqI)
  fix n :: nat
  show "bit v n \<longleftrightarrow> bit ((v AND 0x7F) OR push_bit 7 (drop_bit 7 v)) n" if "n < LENGTH(64)"
    using that by (cases "n < 7")
      (simp_all only: bit_bytes bit_push_bit_iff bit_drop_bit_eq o_def possible_bit_word
        not_less le_add_diff_inverse, auto)
qed

lemma decode_loop_encode:
  assumes "shift + 7 * (length (encode_varint v) - 1) < 64"
  shows "decode_varint_loop (encode_varint v @ rest) pos shift acc =
           Inr (acc OR push_bit shift v, pos + length (encode_varint v))"
  using assms
proof (induction v arbitrary: pos shift acc rule: encode_varint.induct)
  case (1 v)
  show ?case
  proof (cases "unat v < 128")
    case True
    then show ?thesis by (simp add: encode_varint_small varint_byte_last)
  next
    case False
    let ?l = "length (encode_varint (drop_bit 7 v))"
    have l: "0 < ?l" by simp
    have big: "length (encode_varint v) = Suc ?l" using False by (simp add: encode_varint_big)
    have sh: "(shift + 7) + 7 * (?l - 1) < 64" "shift + 7 < 64"
      using "1.prems" l unfolding big by linarith+
    have "push_bit shift v = push_bit shift (v AND 0x7F) OR push_bit (shift + 7) (drop_bit 7 v)"
      by (subst drop_bit_7_mod [of v]) (simp add: push_bit_or push_bit_push_bit add.commute)
    moreover have "decode_varint_loop (encode_varint (drop_bit 7 v) @ rest) (Suc pos) (shift + 7)
        (acc OR push_bit shift (v AND 0x7F)) =
        Inr ((acc OR push_bit shift (v AND 0x7F)) OR push_bit (shift + 7) (drop_bit 7 v),
             Suc pos + ?l)"
      using False "1.IH" sh by (simp add: word_le_nat_alt)
    ultimately show ?thesis
      using False sh(2) by (simp add: encode_varint_big varint_byte_more or.assoc)
  qed
qed

lemma decode_varint_encode [simp]:
  "decode_varint (encode_varint v @ rest) = Inr (v, length (encode_varint v))"
proof -
  have "0 + 7 * (length (encode_varint v) - 1) < 64"
    using length_encode_varint_10 [of v] by simp
  from decode_loop_encode [OF this] show ?thesis by (simp add: decode_varint_def)
qed

text \<open>
  Any 64-bit value that \<open>encode_varint\<close> writes is read back by \<open>decode_varint\<close>, from a buffer
  that goes on with arbitrary bytes, and exactly the bytes written are consumed; an encoding has
  at most ten bytes, and at most five when the value fits in 32 bits.
\<close>

theorem decode_encode_varint:
  "decode_varint (encode_varint v @ rest) = Inr (v, length (encode_varint v))
    \<and> length (encode_varint v) \<le> (if unat v < 2 ^ 32 then 5 else 10)"
  by (simp add: length_encode_varint_u32 length_encode_varint_10)

section \<open>What the decoder consumes\<close>

lemma decode_loop_consumes:
  "decode_varint_loop bs pos shift acc = Inr (v, n) \<Longrightarrow>
     pos < n \<and> n \<le> pos + length bs \<and> 7 * (n - pos) < 71 - shift \<or> 64 \<le> shift \<and> n = Suc pos"
  by (induction bs pos shift acc rule: decode_varint_loop.induct)
     (fastforce simp: Let_def split: if_splits)+

lemma decode_varint_consumes:
  assumes "decode_varint bs = Inr (v, n)"
  shows "0 < n" "n \<le> length bs" "n \<le> 10"
proof -
  have "decode_varint_loop bs 0 0 0 = Inr (v, n)"
    using assms by (simp add: decode_varint_def split: if_splits)
  from decode_loop_consumes [OF this] show "0 < n" "n \<le> length bs" "n \<le> 10" by auto
qed

end
