(* ===== verification/Crc32.thy ===== *)
theory Crc32
  imports Prelude
begin

text \<open>
  The checksum of \<open>src/log_record.cpp\<close> (namespace \<open>crc32c\<close>, the table-driven implementation that is
  compiled when \<open>USE_ZLIB_CRC32\<close> is not set): the table of 256 words, \<open>Crc32c\<close> and \<open>Extend\<close>. It is
  proved equal to a bit-by-bit division by the reflected polynomial \<open>0xEDB88320\<close>, which makes the
  table itself an object of verification, and from that every change of a single byte is detected.
\<close>

section \<open>Definitions\<close>

definition crc32_table :: "u32 list" where
  "crc32_table = [
    0x00000000, 0x77073096, 0xEE0E612C, 0x990951BA, 0x076DC419, 0x706AF48F,
    0xE963A535, 0x9E6495A3, 0x0EDB8832, 0x79DCB8A4, 0xE0D5E91E, 0x97D2D988,
    0x09B64C2B, 0x7EB17CBD, 0xE7B82D07, 0x90BF1D91, 0x1DB71064, 0x6AB020F2,
    0xF3B97148, 0x84BE41DE, 0x1ADAD47D, 0x6DDDE4EB, 0xF4D4B551, 0x83D385C7,
    0x136C9856, 0x646BA8C0, 0xFD62F97A, 0x8A65C9EC, 0x14015C4F, 0x63066CD9,
    0xFA0F3D63, 0x8D080DF5, 0x3B6E20C8, 0x4C69105E, 0xD56041E4, 0xA2677172,
    0x3C03E4D1, 0x4B04D447, 0xD20D85FD, 0xA50AB56B, 0x35B5A8FA, 0x42B2986C,
    0xDBBBC9D6, 0xACBCF940, 0x32D86CE3, 0x45DF5C75, 0xDCD60DCF, 0xABD13D59,
    0x26D930AC, 0x51DE003A, 0xC8D75180, 0xBFD06116, 0x21B4F4B5, 0x56B3C423,
    0xCFBA9599, 0xB8BDA50F, 0x2802B89E, 0x5F058808, 0xC60CD9B2, 0xB10BE924,
    0x2F6F7C87, 0x58684C11, 0xC1611DAB, 0xB6662D3D, 0x76DC4190, 0x01DB7106,
    0x98D220BC, 0xEFD5102A, 0x71B18589, 0x06B6B51F, 0x9FBFE4A5, 0xE8B8D433,
    0x7807C9A2, 0x0F00F934, 0x9609A88E, 0xE10E9818, 0x7F6A0DBB, 0x086D3D2D,
    0x91646C97, 0xE6635C01, 0x6B6B51F4, 0x1C6C6162, 0x856530D8, 0xF262004E,
    0x6C0695ED, 0x1B01A57B, 0x8208F4C1, 0xF50FC457, 0x65B0D9C6, 0x12B7E950,
    0x8BBEB8EA, 0xFCB9887C, 0x62DD1DDF, 0x15DA2D49, 0x8CD37CF3, 0xFBD44C65,
    0x4DB26158, 0x3AB551CE, 0xA3BC0074, 0xD4BB30E2, 0x4ADFA541, 0x3DD895D7,
    0xA4D1C46D, 0xD3D6F4FB, 0x4369E96A, 0x346ED9FC, 0xAD678846, 0xDA60B8D0,
    0x44042D73, 0x33031DE5, 0xAA0A4C5F, 0xDD0D7CC9, 0x5005713C, 0x270241AA,
    0xBE0B1010, 0xC90C2086, 0x5768B525, 0x206F85B3, 0xB966D409, 0xCE61E49F,
    0x5EDEF90E, 0x29D9C998, 0xB0D09822, 0xC7D7A8B4, 0x59B33D17, 0x2EB40D81,
    0xB7BD5C3B, 0xC0BA6CAD, 0xEDB88320, 0x9ABFB3B6, 0x03B6E20C, 0x74B1D29A,
    0xEAD54739, 0x9DD277AF, 0x04DB2615, 0x73DC1683, 0xE3630B12, 0x94643B84,
    0x0D6D6A3E, 0x7A6A5AA8, 0xE40ECF0B, 0x9309FF9D, 0x0A00AE27, 0x7D079EB1,
    0xF00F9344, 0x8708A3D2, 0x1E01F268, 0x6906C2FE, 0xF762575D, 0x806567CB,
    0x196C3671, 0x6E6B06E7, 0xFED41B76, 0x89D32BE0, 0x10DA7A5A, 0x67DD4ACC,
    0xF9B9DF6F, 0x8EBEEFF9, 0x17B7BE43, 0x60B08ED5, 0xD6D6A3E8, 0xA1D1937E,
    0x38D8C2C4, 0x4FDFF252, 0xD1BB67F1, 0xA6BC5767, 0x3FB506DD, 0x48B2364B,
    0xD80D2BDA, 0xAF0A1B4C, 0x36034AF6, 0x41047A60, 0xDF60EFC3, 0xA867DF55,
    0x316E8EEF, 0x4669BE79, 0xCB61B38C, 0xBC66831A, 0x256FD2A0, 0x5268E236,
    0xCC0C7795, 0xBB0B4703, 0x220216B9, 0x5505262F, 0xC5BA3BBE, 0xB2BD0B28,
    0x2BB45A92, 0x5CB36A04, 0xC2D7FFA7, 0xB5D0CF31, 0x2CD99E8B, 0x5BDEAE1D,
    0x9B64C2B0, 0xEC63F226, 0x756AA39C, 0x026D930A, 0x9C0906A9, 0xEB0E363F,
    0x72076785, 0x05005713, 0x95BF4A82, 0xE2B87A14, 0x7BB12BAE, 0x0CB61B38,
    0x92D28E9B, 0xE5D5BE0D, 0x7CDCEFB7, 0x0BDBDF21, 0x86D3D2D4, 0xF1D4E242,
    0x68DDB3F8, 0x1FDA836E, 0x81BE16CD, 0xF6B9265B, 0x6FB077E1, 0x18B74777,
    0x88085AE6, 0xFF0F6A70, 0x66063BCA, 0x11010B5C, 0x8F659EFF, 0xF862AE69,
    0x616BFFD3, 0x166CCF45, 0xA00AE278, 0xD70DD2EE, 0x4E048354, 0x3903B3C2,
    0xA7672661, 0xD06016F7, 0x4969474D, 0x3E6E77DB, 0xAED16A4A, 0xD9D65ADC,
    0x40DF0B66, 0x37D83BF0, 0xA9BCAE53, 0xDEBB9EC5, 0x47B2CF7F, 0x30B5FFE9,
    0xBDBDF21C, 0xCABAC28A, 0x53B39330, 0x24B4A3A6, 0xBAD03605, 0xCDD70693,
    0x54DE5729, 0x23D967BF, 0xB3667A2E, 0xC4614AB8, 0x5D681B02, 0x2A6F2B94,
    0xB40BBE37, 0xC30C8EA1, 0x5A05DF1B, 0x2D02EF8D]"

text \<open>\<open>crc = (crc >> 8) ^ crc32_table[(crc ^ byte) & 0xFF]\<close>, the body of both loops.\<close>

definition crc_step :: "u32 \<Rightarrow> u8 \<Rightarrow> u32" where
  "crc_step crc byte = drop_bit 8 crc XOR crc32_table ! unat ((crc XOR ucast byte) AND 0xFF)"

fun crc_loop :: "u32 \<Rightarrow> bytes \<Rightarrow> u32" where
  "crc_loop crc [] = crc"
| "crc_loop crc (byte # bytes) = crc_loop (crc_step crc byte) bytes"

definition Crc32c :: "bytes \<Rightarrow> u32" where
  "Crc32c data = (if data = [] then 0 else crc_loop 0xFFFFFFFF data XOR 0xFFFFFFFF)"

definition Extend :: "u32 \<Rightarrow> bytes \<Rightarrow> u32" where
  "Extend crc data = crc_loop (crc XOR 0xFFFFFFFF) data XOR 0xFFFFFFFF"

section \<open>The reference: division bit by bit\<close>

text \<open>
  One step of the division by the reflected polynomial \<open>0xEDB88320\<close>, and eight of them for a byte.
\<close>

definition crc_bit :: "u32 \<Rightarrow> u32" where
  "crc_bit c = (if bit c 0 then drop_bit 1 c XOR 0xEDB88320 else drop_bit 1 c)"

definition crc_byte_ref :: "u32 \<Rightarrow> u8 \<Rightarrow> u32" where
  "crc_byte_ref c b = (crc_bit ^^ 8) (c XOR ucast b)"

fun crc_ref :: "u32 \<Rightarrow> bytes \<Rightarrow> u32" where
  "crc_ref c [] = c"
| "crc_ref c (b # bs) = crc_ref (crc_byte_ref c b) bs"

section \<open>Algebra of the reference\<close>

lemma crc_bit_xor: "crc_bit (c XOR d) = crc_bit c XOR crc_bit d"
  by (cases "bit c 0"; cases "bit d 0")
     (simp_all add: crc_bit_def bit_xor_iff drop_bit_xor ac_simps)

lemma crc_bits_xor: "(crc_bit ^^ n) (c XOR d) = (crc_bit ^^ n) c XOR (crc_bit ^^ n) d"
  by (induction n) (simp_all add: crc_bit_xor)

lemma bit_31_crc_bit: "bit (crc_bit c) 31 \<longleftrightarrow> bit c 0"
proof -
  have "\<not> bit (drop_bit 1 c) 31"
    using bit_imp_le_length [of c 32] by (auto simp: bit_drop_bit_eq)
  moreover have "bit (0xEDB88320 :: u32) 31" by simp
  ultimately show ?thesis by (simp add: crc_bit_def bit_xor_iff)
qed

lemma xor_right_inj: "(c :: u32) XOR w = d XOR w \<longleftrightarrow> c = d"
  by (metis xor.assoc xor_self_eq xor.right_neutral)

lemma xor_left_inj: "w XOR (c :: u32) = w XOR d \<longleftrightarrow> c = d"
  by (simp add: xor.commute [of w] xor_right_inj)

lemma crc_bit_inj: "crc_bit c = crc_bit d \<longleftrightarrow> c = d"
proof
  assume eq: "crc_bit c = crc_bit d"
  then have b0: "bit c 0 = bit d 0" by (metis bit_31_crc_bit)
  with eq have drop: "drop_bit 1 c = drop_bit 1 d"
    by (auto simp: crc_bit_def xor_right_inj split: if_splits)
  show "c = d"
  proof (rule bit_word_eqI)
    fix n :: nat
    show "bit c n = bit d n"
    proof (cases n)
      case 0
      then show ?thesis using b0 by simp
    next
      case (Suc m)
      have "bit (drop_bit 1 c) m = bit (drop_bit 1 d) m" using drop by simp
      then show ?thesis using Suc by (simp add: bit_drop_bit_eq)
    qed
  qed
qed simp

lemma crc_bits_inj: "(crc_bit ^^ n) c = (crc_bit ^^ n) d \<longleftrightarrow> c = d"
  by (induction n) (simp_all add: crc_bit_inj)

lemma crc_bits_low_zero: "\<forall>k < n. \<not> bit c k \<Longrightarrow> (crc_bit ^^ n) c = drop_bit n c"
proof (induction n)
  case 0
  then show ?case by simp
next
  case (Suc n)
  then have "(crc_bit ^^ n) c = drop_bit n c" by simp
  then have "(crc_bit ^^ Suc n) c = crc_bit (drop_bit n c)" by (simp only: funpow.simps o_apply)
  moreover have "\<not> bit (drop_bit n c) 0" using Suc.prems by (simp add: bit_drop_bit_eq)
  then have "crc_bit (drop_bit n c) = drop_bit (Suc n) c" by (simp add: crc_bit_def)
  ultimately show ?case by (simp only:)
qed

section \<open>The table\<close>

text \<open>
  The table read in pairs: entry \<open>2j\<close> is mapped by \<open>crc_bit\<close> to entry \<open>j\<close>, and entry \<open>2j + 1\<close>
  differs from entry \<open>2j\<close> by entry \<open>1\<close>.
\<close>

fun table_ok :: "u32 list \<Rightarrow> u32 list \<Rightarrow> bool" where
  "table_ok (a # b # xs) (t # ts) \<longleftrightarrow> crc_bit a = t \<and> b = a XOR 0x77073096 \<and> table_ok xs ts"
| "table_ok _ _ = True"

lemma crc32_table_ok: "table_ok crc32_table crc32_table"
  by (simp add: crc32_table_def crc_bit_def)

lemma length_crc32_table: "length crc32_table = 256"
  by (simp add: crc32_table_def)

lemma table_ok_nth:
  "table_ok xs ts \<Longrightarrow> Suc (2 * j) < length xs \<Longrightarrow> j < length ts \<Longrightarrow>
     crc_bit (xs ! (2 * j)) = ts ! j \<and> xs ! Suc (2 * j) = xs ! (2 * j) XOR 0x77073096"
proof (induction xs ts arbitrary: j rule: table_ok.induct)
  case (1 a b xs t ts)
  then show ?case by (cases j) auto
qed auto

lemma funpow_8: "(f ^^ 8) x = f (f (f (f (f (f (f (f x)))))))"
  by (simp add: eval_nat_numeral)

lemma crc_bits_one: "(crc_bit ^^ 8) 1 = 0x77073096"
  by (simp add: funpow_8 crc_bit_def)

lemma crc32_table_0: "crc32_table ! 0 = 0"
  by (simp add: crc32_table_def)

lemma crc_bit_double:
  assumes "j < 128"
  shows "crc_bit (word_of_nat (2 * j)) = word_of_nat j"
    and "word_of_nat (Suc (2 * j)) = word_of_nat (2 * j) XOR (1 :: u32)"
proof -
  have u: "unat (word_of_nat (2 * j) :: u32) = 2 * j" "unat (word_of_nat j :: u32) = j"
    using assms by (simp_all only: unsigned_of_nat, simp_all add: take_bit_nat_eq_self)
  have even: "even (word_of_nat (2 * j) :: u32)" by simp
  then have "crc_bit (word_of_nat (2 * j)) = drop_bit 1 (word_of_nat (2 * j))"
    by (simp add: crc_bit_def bit_0)
  also have "\<dots> = word_of_nat j"
    using u by (simp add: word_unat_eq_iff drop_bit_eq_div unat_div del: of_nat_mult)
  finally show "crc_bit (word_of_nat (2 * j)) = word_of_nat j" .
  show "word_of_nat (Suc (2 * j)) = word_of_nat (2 * j) XOR (1 :: u32)"
    using even by (simp add: xor_one_eq)
qed

lemma crc_table_ref: "i < 256 \<Longrightarrow> crc32_table ! i = (crc_bit ^^ 8) (word_of_nat i)"
proof (induction i rule: less_induct)
  case (less i)
  define j where "j = i div 2"
  have i: "i = 2 * j \<or> i = Suc (2 * j)" unfolding j_def by arith
  have j: "j < 128" using less.prems unfolding j_def by simp
  from j have tab: "crc_bit (crc32_table ! (2 * j)) = crc32_table ! j"
      "crc32_table ! Suc (2 * j) = crc32_table ! (2 * j) XOR 0x77073096"
    using table_ok_nth [OF crc32_table_ok, of j] by (simp_all add: length_crc32_table)
  have even: "crc32_table ! (2 * j) = (crc_bit ^^ 8) (word_of_nat (2 * j))"
  proof (cases "j = 0")
    case True
    have "(crc_bit ^^ 8) (0 :: u32) = 0" by (simp add: crc_bits_low_zero)
    with True show ?thesis by (simp add: crc32_table_0)
  next
    case False
    then have "crc32_table ! j = (crc_bit ^^ 8) (word_of_nat j)"
      using less.IH [of j] i j by auto
    also have "\<dots> = (crc_bit ^^ 8) (crc_bit (word_of_nat (2 * j)))"
      by (simp only: crc_bit_double(1) [OF j])
    also have "\<dots> = crc_bit ((crc_bit ^^ 8) (word_of_nat (2 * j)))"
      by (simp only: funpow_swap1)
    finally show ?thesis using tab(1) crc_bit_inj by metis
  qed
  show ?case
  proof (cases "i = 2 * j")
    case True
    with even show ?thesis by simp
  next
    case False
    with i have "i = Suc (2 * j)" by simp
    then show ?thesis
      by (simp only: tab(2) even crc_bit_double(2) [OF j] crc_bits_xor crc_bits_one)
  qed
qed

section \<open>The table-driven step is the reference step\<close>

lemma bit_0xFF_u32: "bit (0xFF :: u32) k \<longleftrightarrow> k < 8"
proof -
  have "(0xFF :: u32) = mask 8" by (simp add: mask_eq_exp_minus_1)
  then show ?thesis by (simp only: bit_mask_iff possible_bit_word) auto
qed

lemma crc_step_ref: "crc_step c b = crc_byte_ref c b"
proof -
  define x where "x = c XOR ucast b"
  define lo where "lo = x AND 0xFF"
  define hi where "hi = x AND NOT 0xFF"
  have x: "x = lo XOR hi"
    unfolding lo_def hi_def by (rule bit_word_eqI) (auto simp: bit_simps)
  have "unat lo \<le> unat (0xFF :: u32)"
    unfolding lo_def by (rule word_and_le1 [THEN word_le_nat_alt [THEN iffD1]])
  then have lo: "unat lo < 256" by simp
  have "\<forall>k < 8. \<not> bit hi k"
    unfolding hi_def by (simp only: bit_and_iff bit_not_iff bit_0xFF_u32) simp
  then have "(crc_bit ^^ 8) hi = drop_bit 8 hi" by (rule crc_bits_low_zero)
  also have "\<dots> = drop_bit 8 c"
  proof (rule bit_word_eqI)
    fix n :: nat
    have "\<not> bit b (8 + n)" using bit_imp_le_length [of b "8 + n"] by auto
    then show "bit (drop_bit 8 hi) n = bit (drop_bit 8 c) n" if "n < LENGTH(32)"
      using that bit_imp_le_length [of c "8 + n"]
      by (simp only: hi_def x_def bit_drop_bit_eq o_apply bit_and_iff bit_not_iff bit_0xFF_u32
          bit_xor_iff bit_unsigned_iff possible_bit_word) fastforce
  qed
  finally have "(crc_bit ^^ 8) x = (crc_bit ^^ 8) lo XOR drop_bit 8 c"
    by (simp add: x crc_bits_xor)
  moreover have "crc32_table ! unat lo = (crc_bit ^^ 8) lo"
    using crc_table_ref [OF lo] by simp
  ultimately show ?thesis
    unfolding crc_step_def crc_byte_ref_def x_def lo_def by (simp add: xor.commute)
qed

lemma crc_loop_ref: "crc_loop c bs = crc_ref c bs"
  by (induction bs arbitrary: c) (simp_all add: crc_step_ref)

lemma crc_loop_append: "crc_loop c (xs @ ys) = crc_loop (crc_loop c xs) ys"
  by (induction xs arbitrary: c) simp_all

lemma crc_step_inj: "crc_step c b = crc_step d b \<longleftrightarrow> c = d"
  by (simp add: crc_step_ref crc_byte_ref_def crc_bits_inj xor_right_inj)

lemma ucast_u8_u32_inj: "(ucast (a :: u8) :: u32) = ucast b \<longleftrightarrow> a = b"
proof
  assume eq: "(ucast a :: u32) = ucast b"
  show "a = b"
  proof (rule bit_word_eqI)
    fix n :: nat
    assume "n < LENGTH(8)"
    moreover have "bit (ucast a :: u32) n = bit (ucast b :: u32) n" by (simp only: eq)
    ultimately show "bit a n = bit b n" by (simp add: bit_unsigned_iff)
  qed
qed simp

lemma crc_step_inj_byte: "crc_step c a = crc_step c b \<longleftrightarrow> a = b"
  by (simp add: crc_step_ref crc_byte_ref_def crc_bits_inj xor_left_inj ucast_u8_u32_inj)

lemma crc_loop_inj: "crc_loop c bs = crc_loop d bs \<longleftrightarrow> c = d"
  by (induction bs arbitrary: c d) (simp_all add: crc_step_inj)

lemma Crc32c_alt: "Crc32c data = crc_loop 0xFFFFFFFF data XOR 0xFFFFFFFF"
  by (cases data) (simp_all add: Crc32c_def)

lemma Extend_Crc32c: "Extend (Crc32c xs) ys = Crc32c (xs @ ys)"
  by (simp add: Extend_def Crc32c_alt xor.assoc crc_loop_append)

text \<open>
  C39: the table-driven \<open>Crc32c\<close> computes the CRC-32 of its input, that is, the remainder obtained
  bit by bit with the reflected polynomial \<open>0xEDB88320\<close>, for every input; and \<open>Extend\<close> continues
  a checksum: extending the checksum of \<open>xs\<close> over \<open>ys\<close> gives that of the concatenation.
\<close>

theorem Crc32c_correct:
  "Crc32c data = crc_ref 0xFFFFFFFF data XOR 0xFFFFFFFF
    \<and> Extend (Crc32c xs) ys = Crc32c (xs @ ys)"
  by (intro conjI Extend_Crc32c) (simp add: Crc32c_alt crc_loop_ref)

lemma Crc32c_byte_change: "a \<noteq> b \<Longrightarrow> Crc32c (xs @ a # ys) \<noteq> Crc32c (xs @ b # ys)"
  by (simp add: Crc32c_alt crc_loop_append xor_right_inj crc_loop_inj crc_step_inj_byte)

text \<open>
  C40: the checksum detects every change of a single byte, whatever surrounds it.
\<close>

theorem Crc32c_detects_byte_change:
  "Crc32c (xs @ a # ys) = Crc32c (xs @ b # ys) \<longleftrightarrow> a = b"
  by (metis Crc32c_byte_change)

end
