(* ===== verification/Log_Record.thy ===== *)
theory Log_Record
  imports Varint Crc32
begin

text \<open>
  The record format of the engine (\<open>include/bitcask/log_record.h\<close>, \<open>src/log_record.cpp\<close>): positions
  in data files and their encoding, log records, their encoding with checksum, type byte and two
  variable-length sizes, and the header decoder. A \<open>std::vector<uint8_t>\<close> is a list of bytes and
  its \<open>size()\<close> (a 64-bit \<open>size_t\<close>) is \<open>of_nat\<close> of the length.
\<close>

section \<open>Data\<close>

record log_record_pos =
  pos_fid :: u32
  pos_offset :: u64
  pos_size :: u32

record log_record_header =
  hdr_crc :: u32
  hdr_type :: log_record_type
  hdr_key_size :: u32
  hdr_value_size :: u32

record log_record =
  lr_key :: bytes
  lr_value :: bytes
  lr_type :: log_record_type

record read_log_record =
  rr_record :: log_record
  rr_size :: nat

record transaction_record =
  tr_record :: log_record
  tr_pos :: log_record_pos

section \<open>Positions\<close>

definition LogRecordPos_encode :: "log_record_pos \<Rightarrow> bytes" where
  "LogRecordPos_encode p =
     encode_varint (ucast (pos_fid p)) @ encode_varint (pos_offset p)
       @ encode_varint (ucast (pos_size p))"

definition LogRecordPos_decode :: "bytes \<Rightarrow> log_record_pos res" where
  "LogRecordPos_decode data =
     (case decode_varint data of
        Inl e \<Rightarrow> Inl e
      | Inr (fid_val, fid_len) \<Rightarrow>
          (let ptr = drop fid_len data in
           case decode_varint ptr of
             Inl e \<Rightarrow> Inl e
           | Inr (offset_val, offset_len) \<Rightarrow>
               (let ptr = drop offset_len ptr in
                case decode_varint ptr of
                  Inl e \<Rightarrow> Inl e
                | Inr (size_val, size_len) \<Rightarrow>
                    Inr \<lparr>pos_fid = ucast fid_val, pos_offset = offset_val,
                         pos_size = ucast size_val\<rparr>)))"

section \<open>Records\<close>

text \<open>The four checksum bytes, little-endian.\<close>

definition crc_to_bytes :: "u32 \<Rightarrow> bytes" where
  "crc_to_bytes crc =
     [ucast (crc AND 0xFF), ucast (drop_bit 8 crc AND 0xFF),
      ucast (drop_bit 16 crc AND 0xFF), ucast (drop_bit 24 crc AND 0xFF)]"

definition crc_of_bytes :: "u8 \<Rightarrow> u8 \<Rightarrow> u8 \<Rightarrow> u8 \<Rightarrow> u32" where
  "crc_of_bytes a b c d =
     ucast a OR push_bit 8 (ucast b) OR push_bit 16 (ucast c) OR push_bit 24 (ucast d)"

text \<open>The checksummed part of a record: what \<open>encode\<close> appends after the four checksum bytes and
  what \<open>get_crc\<close> builds in its temporary buffer.\<close>

definition record_body :: "log_record \<Rightarrow> bytes" where
  "record_body r =
     type_to_byte (lr_type r) # encode_varint (of_nat (length (lr_key r)))
       @ encode_varint (of_nat (length (lr_value r))) @ lr_key r @ lr_value r"

definition LogRecord_encode :: "log_record \<Rightarrow> bytes \<times> nat" where
  "LogRecord_encode r =
     (let result = replicate 4 0 @ record_body r;
          crc = Crc32c (drop 4 result);
          result = result[0 := ucast (crc AND 0xFF)];
          result = result[1 := ucast (drop_bit 8 crc AND 0xFF)];
          result = result[2 := ucast (drop_bit 16 crc AND 0xFF)];
          result = result[3 := ucast (drop_bit 24 crc AND 0xFF)]
      in (result, length result))"

definition LogRecord_get_crc :: "log_record \<Rightarrow> u32" where
  "LogRecord_get_crc r = Crc32c (record_body r)"

text \<open>\<open>while (len >= 0x80) { size++; len >>= 7; }\<close>\<close>

function varint_size_loop :: "u64 \<Rightarrow> nat \<Rightarrow> nat" where
  "varint_size_loop len sz =
     (if len \<ge> 0x80 then varint_size_loop (drop_bit 7 len) (Suc sz) else sz)"
  by pat_completeness auto
termination
  by (relation "measure (\<lambda>(len, sz). unat len)") (simp_all add: drop_bit_7_less)

declare varint_size_loop.simps [simp del]

definition LogRecord_encoded_size :: "log_record \<Rightarrow> nat" where
  "LogRecord_encoded_size r =
     (let sz = 4 + 1;
          sz = Suc (varint_size_loop (of_nat (length (lr_key r))) sz);
          sz = Suc (varint_size_loop (of_nat (length (lr_value r))) sz)
      in sz + (length (lr_key r) + length (lr_value r)))"

definition decode_log_record_header :: "bytes \<Rightarrow> (log_record_header \<times> nat) res" where
  "decode_log_record_header data =
     (if length data < 5 then Inl (BitcaskException ''Invalid header data'')
      else
        (let crc = crc_of_bytes (data ! 0) (data ! 1) (data ! 2) (data ! 3);
             type = type_of_byte (data ! 4);
             pos = 5
         in case decode_varint (drop pos data) of
              Inl e \<Rightarrow> Inl e
            | Inr (key_size, key_len) \<Rightarrow>
                (let pos = pos + key_len in
                 case decode_varint (drop pos data) of
                   Inl e \<Rightarrow> Inl e
                 | Inr (value_size, value_len) \<Rightarrow>
                     Inr (\<lparr>hdr_crc = crc, hdr_type = type, hdr_key_size = ucast key_size,
                           hdr_value_size = ucast value_size\<rparr>, pos + value_len))))"

definition get_log_record_crc :: "log_record \<Rightarrow> bytes \<Rightarrow> u32" where
  "get_log_record_crc r header =
     (let crc = Crc32c header; crc = Extend crc (lr_key r) in Extend crc (lr_value r))"

section \<open>Positions: round trip\<close>

lemma unat_u32_less: "unat (x :: u32) < 2 ^ 32"
proof -
  have "unat x < 2 ^ LENGTH(32)" by (rule unsigned_less)
  then show ?thesis by simp
qed

lemma unat_ucast_u32_u64: "unat (ucast (x :: u32) :: u64) = unat x"
proof -
  have "unat x < 2 ^ LENGTH(64)" using unat_u32_less [of x] by simp
  then show ?thesis by (simp only: unsigned_ucast_eq take_bit_nat_eq_self)
qed

lemma unat_ucast_u64_u32: "unat (ucast (y :: u64) :: u32) = take_bit LENGTH(32) (unat y)"
  by (rule unsigned_ucast_eq)

lemma ucast_ucast_u32 [simp]: "ucast (ucast (x :: u32) :: u64) = x"
proof -
  have "unat x < 2 ^ LENGTH(32)" by (rule unsigned_less)
  then show ?thesis
    by (simp only: word_unat_eq_iff unat_ucast_u64_u32 unat_ucast_u32_u64 take_bit_nat_eq_self)
qed

lemma unat_of_nat_u64: "n < 2 ^ 64 \<Longrightarrow> unat (of_nat n :: u64) = n"
proof -
  assume "n < 2 ^ 64"
  then have "n < 2 ^ LENGTH(64)" by simp
  then show ?thesis by (simp only: unsigned_of_nat take_bit_nat_eq_self of_nat_id)
qed

lemma unat_ucast_of_nat: "n < 2 ^ 32 \<Longrightarrow> unat (ucast (of_nat n :: u64) :: u32) = n"
proof -
  assume n: "n < 2 ^ 32"
  then have "n < 2 ^ 64" by simp
  moreover have "n < 2 ^ LENGTH(32)" using n by simp
  ultimately show ?thesis
    by (simp only: unat_ucast_u64_u32 unat_of_nat_u64 take_bit_nat_eq_self)
qed

lemma LogRecordPos_decode_encode_append:
  "LogRecordPos_decode (LogRecordPos_encode p @ rest) = Inr p"
  by (simp add: LogRecordPos_decode_def LogRecordPos_encode_def)

text \<open>
  A position survives encoding and decoding, whatever follows it in the buffer, and its
  encoding takes between 3 and 20 bytes.
\<close>

theorem LogRecordPos_roundtrip:
  "LogRecordPos_decode (LogRecordPos_encode p @ rest) = Inr p
    \<and> 3 \<le> length (LogRecordPos_encode p) \<and> length (LogRecordPos_encode p) \<le> 20"
proof -
  have five: "length (encode_varint (ucast (x :: u32))) \<le> 5" for x
    by (intro length_encode_varint_u32) (simp only: unat_ucast_u32_u64 unat_u32_less)
  have one: "1 \<le> length (encode_varint v)" for v
    using length_encode_varint_pos [of v] by (simp only: Suc_le_eq One_nat_def)
  have "3 \<le> length (LogRecordPos_encode p)" "length (LogRecordPos_encode p) \<le> 20"
    using five [of "pos_fid p"] five [of "pos_size p"] length_encode_varint_10 [of "pos_offset p"]
      one [of "ucast (pos_fid p)"] one [of "pos_offset p"] one [of "ucast (pos_size p)"]
    unfolding LogRecordPos_encode_def length_append by linarith+
  then show ?thesis by (simp add: LogRecordPos_decode_encode_append)
qed

section \<open>Records: shape and length of an encoding\<close>

lemma LogRecord_encode_eq:
  "LogRecord_encode r =
     (crc_to_bytes (LogRecord_get_crc r) @ record_body r, 4 + length (record_body r))"
  by (simp add: LogRecord_encode_def LogRecord_get_crc_def crc_to_bytes_def Let_def
      numeral_eq_Suc)

lemma fst_LogRecord_encode:
  "fst (LogRecord_encode r) = crc_to_bytes (LogRecord_get_crc r) @ record_body r"
  by (simp add: LogRecord_encode_eq)

lemma length_crc_to_bytes [simp]: "length (crc_to_bytes c) = 4"
  by (simp add: crc_to_bytes_def)

lemma snd_LogRecord_encode [simp]: "snd (LogRecord_encode r) = length (fst (LogRecord_encode r))"
  by (simp add: LogRecord_encode_eq)

definition header_length :: "log_record \<Rightarrow> nat" where
  "header_length r =
     5 + length (encode_varint (of_nat (length (lr_key r))))
       + length (encode_varint (of_nat (length (lr_value r))))"

lemma length_LogRecord_encode:
  "length (fst (LogRecord_encode r)) = header_length r + length (lr_key r) + length (lr_value r)"
  by (simp add: LogRecord_encode_eq record_body_def header_length_def)

lemma varint_size_loop_eq:
  "Suc (varint_size_loop len sz) = sz + length (encode_varint len)"
proof (induction len sz rule: varint_size_loop.induct)
  case (1 len sz)
  then show ?case
    by (subst varint_size_loop.simps, subst encode_varint.simps) auto
qed

text \<open>
  \<open>encoded_size\<close> is exact: it computes the number of bytes that \<open>encode\<close> produces, which is
  also the size that \<open>encode\<close> returns.
\<close>

theorem encoded_size_exact:
  "LogRecord_encoded_size r = length (fst (LogRecord_encode r))
    \<and> LogRecord_encoded_size r = snd (LogRecord_encode r)"
  by (simp add: LogRecord_encoded_size_def varint_size_loop_eq length_LogRecord_encode
      header_length_def del: varint_size_loop.simps)

section \<open>Records: the header decoder\<close>

lemma bit_u8_bound: "bit (b :: u8) k \<Longrightarrow> k < 8"
  using bit_imp_le_length [of b k] by simp

lemma bit_byte32: "bit (push_bit m (ucast (b :: u8)) :: u32) k \<longleftrightarrow> m \<le> k \<and> k < 32 \<and> bit b (k - m)"
  by (simp only: bit_push_bit_iff bit_unsigned_iff possible_bit_word) (auto dest: bit_u8_bound)

lemma bit_crc_byte: "bit (ucast (drop_bit m (c :: u32) AND 0xFF) :: u8) k \<longleftrightarrow> k < 8 \<and> bit c (m + k)"
  by (simp only: bit_unsigned_iff bit_and_iff bit_drop_bit_eq bit_0xFF_u32 possible_bit_word o_def)
     auto

lemma crc_of_to_bytes:
  "crc_to_bytes c = [b0, b1, b2, b3] \<Longrightarrow> crc_of_bytes b0 b1 b2 b3 = c"
proof -
  assume "crc_to_bytes c = [b0, b1, b2, b3]"
  then have b: "b0 = ucast (drop_bit 0 c AND 0xFF)" "b1 = ucast (drop_bit 8 c AND 0xFF)"
    "b2 = ucast (drop_bit 16 c AND 0xFF)" "b3 = ucast (drop_bit 24 c AND 0xFF)"
    by (simp_all add: crc_to_bytes_def)
  have "crc_of_bytes b0 b1 b2 b3 =
      push_bit 0 (ucast b0) OR push_bit 8 (ucast b1) OR push_bit 16 (ucast b2) OR push_bit 24 (ucast b3)"
    by (simp add: crc_of_bytes_def)
  also have "\<dots> = c"
  proof (rule bit_word_eqI)
    fix k :: nat
    assume k: "k < LENGTH(32)"
    have c: "k < 8 \<or> 8 \<le> k \<and> k < 16 \<or> 16 \<le> k \<and> k < 24 \<or> 24 \<le> k \<and> k < 32"
      using k by simp arith
    have "bit (push_bit 0 (ucast b0) OR push_bit 8 (ucast b1) OR push_bit 16 (ucast b2)
        OR push_bit 24 (ucast b3) :: u32) k \<longleftrightarrow>
      (((0 \<le> k \<and> k < 32 \<and> bit b0 (k - 0)) \<or> (8 \<le> k \<and> k < 32 \<and> bit b1 (k - 8)))
        \<or> (16 \<le> k \<and> k < 32 \<and> bit b2 (k - 16))) \<or> (24 \<le> k \<and> k < 32 \<and> bit b3 (k - 24))"
      by (simp only: bit_or_iff bit_byte32 disj_assoc)
    also have "\<dots> \<longleftrightarrow> bit c k"
      using c by (simp only: b bit_crc_byte) (elim disjE; auto)
    finally show "bit (push_bit 0 (ucast b0) OR push_bit 8 (ucast b1) OR push_bit 16 (ucast b2)
        OR push_bit 24 (ucast b3) :: u32) k = bit c k" .
  qed
  finally show ?thesis .
qed

text \<open>
  The header of an encoded record, read from any prefix of the encoding (followed by anything)
  that contains it: the engine reads at most 15 bytes of header.
\<close>

definition header_of :: "log_record \<Rightarrow> log_record_header" where
  "header_of r = \<lparr>hdr_crc = LogRecord_get_crc r, hdr_type = lr_type r,
     hdr_key_size = of_nat (length (lr_key r)), hdr_value_size = of_nat (length (lr_value r))\<rparr>"

lemma ucast_of_nat_u64_u32: "(ucast (of_nat n :: u64) :: u32) = of_nat n"
  by (simp only: word_unat_eq_iff unat_ucast_u64_u32 unsigned_of_nat take_bit_take_bit) simp

lemma decode_log_record_header_prefix:
  assumes "real_type (lr_type r)"
  shows "decode_log_record_header
           (crc_to_bytes c @ type_to_byte (lr_type r)
              # encode_varint (of_nat (length (lr_key r)))
              @ encode_varint (of_nat (length (lr_value r))) @ rest)
         = Inr ((header_of r)\<lparr>hdr_crc := c\<rparr>, header_length r)"
proof -
  obtain b0 b1 b2 b3 where c: "crc_to_bytes c = [b0, b1, b2, b3]"
    by (simp add: crc_to_bytes_def)
  show ?thesis
    using assms
    by (simp add: decode_log_record_header_def c crc_of_to_bytes [OF c] Let_def header_of_def
        header_length_def ucast_of_nat_u64_u32 numeral_eq_Suc)
qed

lemma header_length_bounds:
  assumes "length (lr_key r) < 2 ^ 32" "length (lr_value r) < 2 ^ 32"
  shows "7 \<le> header_length r" "header_length r \<le> 15"
proof -
  have one: "1 \<le> length (encode_varint v)" for v
    using length_encode_varint_pos [of v] by (simp only: Suc_le_eq One_nat_def)
  have "length (encode_varint (of_nat n)) \<le> 5" if "n < 2 ^ 32" for n
    using that by (intro length_encode_varint_u32) (simp add: unat_of_nat_u64)
  from this [OF assms(1)] this [OF assms(2)]
    one [of "of_nat (length (lr_key r))"] one [of "of_nat (length (lr_value r))"]
  show "7 \<le> header_length r" "header_length r \<le> 15"
    unfolding header_length_def by linarith+
qed

text \<open>Any checksum may stand in front of the body of the record.\<close>

lemma decode_log_record_header_body:
  assumes "real_type (lr_type r)" and "header_length r \<le> n"
  shows "decode_log_record_header (take n (crc_to_bytes c @ record_body r @ rest))
           = Inr ((header_of r)\<lparr>hdr_crc := c\<rparr>, header_length r)"
proof -
  let ?h = "crc_to_bytes c @ type_to_byte (lr_type r)
              # encode_varint (of_nat (length (lr_key r)))
              @ encode_varint (of_nat (length (lr_value r)))"
  let ?kv = "lr_key r @ lr_value r @ rest"
  have len: "length ?h = header_length r" by (simp add: header_length_def)
  have "crc_to_bytes c @ record_body r @ rest = ?h @ ?kv"
    by (simp add: record_body_def)
  moreover have "take n (?h @ ?kv) = ?h @ take (n - header_length r) ?kv"
    using assms(2) len take_append [of n ?h ?kv] take_all [of ?h n] by metis
  ultimately have "take n (crc_to_bytes c @ record_body r @ rest)
      = ?h @ take (n - header_length r) ?kv"
    by metis
  then show ?thesis
    using decode_log_record_header_prefix [OF assms(1)] by simp
qed

lemma decode_log_record_header_encode:
  assumes "real_type (lr_type r)" and "header_length r \<le> n"
  shows "decode_log_record_header (take n (fst (LogRecord_encode r) @ rest))
           = Inr (header_of r, header_length r)"
  using decode_log_record_header_body [OF assms, of "LogRecord_get_crc r" rest]
  by (simp add: fst_LogRecord_encode header_of_def)

text \<open>
  Whatever follows a record in a file, decoding the header from its first 15 bytes
  (\<open>MAX_LOG_RECORD_HEADER_SIZE\<close>, the number of bytes the engine reads) gives the checksum, type
  and sizes of the record and the length of the header, when key and value are shorter than
  \<open>2^32\<close> bytes.
\<close>

theorem decode_header_of_encoding:
  assumes "real_type (lr_type r)"
    and "length (lr_key r) < 2 ^ 32" and "length (lr_value r) < 2 ^ 32"
  shows "decode_log_record_header
           (take MAX_LOG_RECORD_HEADER_SIZE (fst (LogRecord_encode r) @ rest))
         = Inr (\<lparr>hdr_crc = LogRecord_get_crc r, hdr_type = lr_type r,
                 hdr_key_size = of_nat (length (lr_key r)),
                 hdr_value_size = of_nat (length (lr_value r))\<rparr>,
                length (fst (LogRecord_encode r)) - length (lr_key r) - length (lr_value r))"
  using decode_log_record_header_encode [OF assms(1)] header_length_bounds [OF assms(2,3)]
  by (simp add: header_of_def length_LogRecord_encode MAX_LOG_RECORD_HEADER_SIZE_def)

theorem decode_header_of_encoding_witness:
  "decode_log_record_header
     (take MAX_LOG_RECORD_HEADER_SIZE
        (fst (LogRecord_encode \<lparr>lr_key = [107], lr_value = [1, 2], lr_type = NORMAL\<rparr>) @ [0, 0]))
   = Inr (\<lparr>hdr_crc = LogRecord_get_crc \<lparr>lr_key = [107], lr_value = [1, 2], lr_type = NORMAL\<rparr>,
           hdr_type = NORMAL, hdr_key_size = 1, hdr_value_size = 2\<rparr>, 7)"
  using decode_header_of_encoding
    [of "\<lparr>lr_key = [107], lr_value = [1, 2], lr_type = NORMAL\<rparr>" "[0, 0]"]
  by (simp add: length_LogRecord_encode header_length_def encode_varint_small)

text \<open>
  The two ways the code computes a record's checksum agree: \<open>get_log_record_crc\<close> over the part
  of the header after the checksum gives the checksum of \<open>get_crc\<close>, the one stored by \<open>encode\<close>.
\<close>

theorem get_log_record_crc_agrees:
  "get_log_record_crc r (take (header_length r - 4) (drop 4 (fst (LogRecord_encode r))))
     = LogRecord_get_crc r
   \<and> take 4 (fst (LogRecord_encode r)) = crc_to_bytes (LogRecord_get_crc r)"
proof -
  let ?h = "type_to_byte (lr_type r) # encode_varint (of_nat (length (lr_key r)))
              @ encode_varint (of_nat (length (lr_value r)))"
  have len: "length ?h = header_length r - 4" by (simp add: header_length_def)
  have body: "record_body r = ?h @ lr_key r @ lr_value r" by (simp add: record_body_def)
  have "take (header_length r - 4) (drop 4 (fst (LogRecord_encode r))) = ?h"
    unfolding fst_LogRecord_encode body len [symmetric] by simp
  then show ?thesis
    by (simp add: get_log_record_crc_def Extend_Crc32c LogRecord_get_crc_def body
        fst_LogRecord_encode)
qed

end
