(* ===== verification/File_System.thy ===== *)
theory File_System
  imports Prelude "HOL-Library.AList"
begin

text \<open>
  The operating system as the engine sees it, and \<open>src/utils.cpp\<close>, \<open>src/io_manager.cpp\<close>,
  \<open>src/mmap_io.cpp\<close>. The state of the file system is a record: regular files (path and contents),
  directories, the paths on which an exclusive \<open>flock\<close> is held, the page size. System calls do
  what POSIX says of a call that succeeds (no I/O error, no full disk); the failures the code can
  see are those of the state: a missing file or directory, a closed descriptor, a negative offset,
  a lock that is held. A descriptor is the path it was opened on: the engine never uses one after
  the path has been removed.
\<close>

section \<open>The state of the file system\<close>

record fsys =
  fs_files :: "(string \<times> bytes) list"
  fs_dirs :: "string list"
  fs_locks :: "string list"
  fs_page_size :: nat

definition fs_get :: "fsys \<Rightarrow> string \<Rightarrow> bytes option" where
  "fs_get fs p = map_of (fs_files fs) p"

definition fs_put :: "string \<Rightarrow> bytes \<Rightarrow> fsys \<Rightarrow> fsys" where
  "fs_put p c fs = fs\<lparr>fs_files := AList.update p c (fs_files fs)\<rparr>"

definition fs_remove :: "string \<Rightarrow> fsys \<Rightarrow> fsys" where
  "fs_remove p fs = fs\<lparr>fs_files := AList.delete p (fs_files fs)\<rparr>"

lemma fs_get_put [simp]: "fs_get (fs_put p c fs) q = (if q = p then Some c else fs_get fs q)"
  by (simp add: fs_get_def fs_put_def update_conv')

lemma fs_get_remove [simp]: "fs_get (fs_remove p fs) q = (if q = p then None else fs_get fs q)"
  by (simp add: fs_get_def fs_remove_def delete_conv')

lemma fs_put_simps [simp]:
  "fs_dirs (fs_put p c fs) = fs_dirs fs" "fs_locks (fs_put p c fs) = fs_locks fs"
  "fs_page_size (fs_put p c fs) = fs_page_size fs"
  by (simp_all add: fs_put_def)

lemma fs_remove_simps [simp]:
  "fs_dirs (fs_remove p fs) = fs_dirs fs" "fs_locks (fs_remove p fs) = fs_locks fs"
  "fs_page_size (fs_remove p fs) = fs_page_size fs"
  by (simp_all add: fs_remove_def)

lemma fs_get_dirs [simp]: "fs_get (fs\<lparr>fs_dirs := d\<rparr>) q = fs_get fs q"
  "fs_get (fs\<lparr>fs_locks := l\<rparr>) q = fs_get fs q"
  by (simp_all add: fs_get_def)

section \<open>utils.cpp\<close>

definition file_exists :: "string \<Rightarrow> fsys \<Rightarrow> bool" where
  "file_exists p fs \<longleftrightarrow> fs_get fs p \<noteq> None"

definition directory_exists :: "string \<Rightarrow> fsys \<Rightarrow> bool" where
  "directory_exists p fs \<longleftrightarrow> p \<in> set (fs_dirs fs)"

text \<open>\<open>find_last_of("/\\")\<close>\<close>

fun find_last_sep :: "string \<Rightarrow> nat option" where
  "find_last_sep [] = None"
| "find_last_sep (c # s) =
     (case find_last_sep s of
        Some n \<Rightarrow> Some (Suc n)
      | None \<Rightarrow> if c = CHR ''/'' \<or> c = CHR 0x5C then Some 0 else None)"

definition dir_name :: "string \<Rightarrow> string" where
  "dir_name file_path =
     (if file_path = [] then []
      else case find_last_sep file_path of
             None \<Rightarrow> ''.''
           | Some pos \<Rightarrow> if pos = 0 then ''/'' else take pos file_path)"

text \<open>\<open>mkdir(path)\<close>: no effect when the path exists or lies under a regular file.\<close>

definition mkdir :: "string \<Rightarrow> fsys \<Rightarrow> fsys" where
  "mkdir p fs =
     (if directory_exists p fs \<or> file_exists p fs \<or> file_exists (dir_name p) fs then fs
      else fs\<lparr>fs_dirs := p # fs_dirs fs\<rparr>)"

text \<open>
  \<open>create_directory\<close>: \<open>pos = find('/', pos + 1)\<close> walks over the separators after position 0, and
  every non-empty prefix up to one, then the whole path, is created. The model walks over the
  characters; \<open>done\<close> is the prefix read so far.
\<close>

fun create_directory_loop :: "string \<Rightarrow> string \<Rightarrow> fsys \<Rightarrow> fsys" where
  "create_directory_loop don [] fs = (if don \<noteq> [] then mkdir don fs else fs)"
| "create_directory_loop don (c # path) fs =
     (if c = CHR ''/'' \<and> don \<noteq> [] then create_directory_loop (don @ [c]) path (mkdir don fs)
      else create_directory_loop (don @ [c]) path fs)"

definition create_directory :: "string \<Rightarrow> fsys \<Rightarrow> fsys" where
  "create_directory path fs = create_directory_loop [] path fs"

text \<open>The name of \<open>p\<close> in directory \<open>d\<close>, if it is one of its entries; the entries of a directory.\<close>

definition entry_name :: "string \<Rightarrow> string \<Rightarrow> string option" where
  "entry_name d p =
     (let pre = d @ ''/''; rest = drop (length pre) p in
      if take (length pre) p = pre \<and> rest \<noteq> [] \<and> CHR ''/'' \<notin> set rest then Some rest else None)"

definition file_entries :: "string \<Rightarrow> fsys \<Rightarrow> string list" where
  "file_entries d fs = remdups (List.map_filter (entry_name d) (map fst (fs_files fs)))"

definition dir_entries :: "string \<Rightarrow> fsys \<Rightarrow> string list" where
  "dir_entries d fs = remdups (List.map_filter (entry_name d) (fs_dirs fs))"

text \<open>\<open>available_disk_size\<close>: the free blocks and their size, as \<open>statvfs\<close> answers, or none.\<close>

definition available_disk_size :: "(u64 \<times> u64) option \<Rightarrow> u64" where
  "available_disk_size stat =
     (case stat of Some (f_bavail, f_frsize) \<Rightarrow> f_bavail * f_frsize | None \<Rightarrow> - 1)"

text \<open>
  \<open>dir_size\<close>, \<open>remove_directory\<close> and \<open>copy_directory\<close> recurse into subdirectories. The nesting is
  bounded by the number of directories, which is the fuel of the top call; a call on something
  that is no directory does nothing (\<open>opendir\<close> fails). Sizes are \<open>uint64_t\<close> in the code.
\<close>

fun dir_size_n :: "nat \<Rightarrow> string \<Rightarrow> fsys \<Rightarrow> nat" where
  "dir_size_n 0 d fs = 0"
| "dir_size_n (Suc n) d fs =
     (if \<not> directory_exists d fs then 0
      else sum_list (map (\<lambda>e. case fs_get fs (d @ ''/'' @ e) of
                               Some c \<Rightarrow> length c | None \<Rightarrow> 0) (file_entries d fs))
         + sum_list (map (\<lambda>e. dir_size_n n (d @ ''/'' @ e) fs) (dir_entries d fs)))"

definition dir_size :: "string \<Rightarrow> fsys \<Rightarrow> u64" where
  "dir_size d fs = of_nat (dir_size_n (length (fs_dirs fs)) d fs)"

fun remove_directory_n :: "nat \<Rightarrow> string \<Rightarrow> fsys \<Rightarrow> fsys" where
  "remove_directory_n 0 d fs = fs"
| "remove_directory_n (Suc n) d fs =
     (if \<not> directory_exists d fs then fs
      else
        (let fs = fold (\<lambda>e fs. fs_remove (d @ ''/'' @ e) fs) (file_entries d fs) fs;
             fs = fold (\<lambda>e fs. remove_directory_n n (d @ ''/'' @ e) fs) (dir_entries d fs) fs
         in fs\<lparr>fs_dirs := removeAll d (fs_dirs fs)\<rparr>))"

definition remove_directory :: "string \<Rightarrow> fsys \<Rightarrow> fsys" where
  "remove_directory d fs = remove_directory_n (length (fs_dirs fs)) d fs"

text \<open>
  \<open>copy_file\<close>: the destination is truncated, then the source, as it is then, is copied in blocks of
  8192 bytes. (When both are the same file nothing is left to copy.)
\<close>

function copy_blocks :: "bytes \<Rightarrow> bytes \<Rightarrow> bytes" where
  "copy_blocks src dst =
     (if src = [] then dst else copy_blocks (drop 8192 src) (dst @ take 8192 src))"
  by pat_completeness auto
termination
  by (relation "measure (\<lambda>(src, dst). length src)") auto

declare copy_blocks.simps [simp del]

lemma copy_blocks_eq: "copy_blocks src dst = dst @ src"
  by (induction src dst rule: copy_blocks.induct) (subst copy_blocks.simps, simp)

definition copy_file :: "string \<Rightarrow> string \<Rightarrow> fsys \<Rightarrow> unit res \<times> fsys" where
  "copy_file src dst fs =
     (case fs_get fs src of
        None \<Rightarrow> (Inl (BitcaskException (''Failed to open source file: '' @ src)), fs)
      | Some c \<Rightarrow>
          if \<not> directory_exists (dir_name dst) fs \<or> directory_exists dst fs
          then (Inl (BitcaskException (''Failed to open destination file: '' @ dst)), fs)
          else (let fs = fs_put dst [] fs;
                    src_bytes = (case fs_get fs src of None \<Rightarrow> [] | Some c \<Rightarrow> c)
                in (Inr (), fs_put dst (copy_blocks src_bytes []) fs)))"

definition move_file :: "string \<Rightarrow> string \<Rightarrow> fsys \<Rightarrow> fsys" where
  "move_file src dst fs =
     (case fs_get fs src of
        None \<Rightarrow> fs
      | Some c \<Rightarrow> if directory_exists (dir_name dst) fs \<and> \<not> directory_exists dst fs
                  then fs_put dst c (fs_remove src fs) else fs)"

text \<open>
  \<open>copy_directory\<close>: entries named in \<open>exclude\<close> are skipped at every level; the first \<open>copy_file\<close>
  that throws stops the copy. (The order in which \<open>readdir\<close> yields entries is not specified; the
  model takes files before subdirectories.)
\<close>

fun copy_files :: "string \<Rightarrow> string \<Rightarrow> string list \<Rightarrow> fsys \<Rightarrow> unit res \<times> fsys" where
  "copy_files src dst [] fs = (Inr (), fs)"
| "copy_files src dst (e # es) fs =
     (case copy_file (src @ ''/'' @ e) (dst @ ''/'' @ e) fs of
        (Inl x, fs) \<Rightarrow> (Inl x, fs)
      | (Inr _, fs) \<Rightarrow> copy_files src dst es fs)"

fun copy_directory_n :: "nat \<Rightarrow> string \<Rightarrow> string \<Rightarrow> string list \<Rightarrow> fsys \<Rightarrow> unit res \<times> fsys" where
  "copy_directory_n 0 src dst exclude fs = (Inr (), create_directory dst fs)"
| "copy_directory_n (Suc n) src dst exclude fs =
     (let fs = create_directory dst fs in
      if \<not> directory_exists src fs then (Inr (), fs)
      else
        (case copy_files src dst [e \<leftarrow> file_entries src fs. e \<notin> set exclude] fs of
           (Inl x, fs) \<Rightarrow> (Inl x, fs)
         | (Inr _, fs) \<Rightarrow>
             fold (\<lambda>e (r, fs). case r of Inl x \<Rightarrow> (Inl x, fs)
                   | Inr _ \<Rightarrow> copy_directory_n n (src @ ''/'' @ e) (dst @ ''/'' @ e) exclude fs)
               [e \<leftarrow> dir_entries src fs. e \<notin> set exclude] (Inr (), fs)))"

definition copy_directory :: "string \<Rightarrow> string \<Rightarrow> string list \<Rightarrow> fsys \<Rightarrow> unit res \<times> fsys" where
  "copy_directory src dst exclude fs = copy_directory_n (length (fs_dirs fs)) src dst exclude fs"

end
