(* ===== verification/Io_Manager.thy ===== *)
theory Io_Manager
  imports File_System
begin

text \<open>
  The two I/O managers behind the interface \<open>IOManager\<close> (\<open>src/io_manager.cpp\<close>, \<open>src/mmap_io.cpp\<close>)
  over the file system state: positioned reads and writes on a descriptor, and on a memory mapping
  whose file is grown to whole pages. A return value \<open>-1\<close> is \<open>None\<close>. The locale \<open>io_content\<close>
  states what the data files rely on: reads and writes act on one byte string.
\<close>

section \<open>State and system calls\<close>

record io_manager =
  io_kind :: io_type
  io_path :: string
  io_is_open :: bool
  io_mapped_size :: nat

text \<open>\<open>pread\<close>, \<open>pwrite\<close> and \<open>ftruncate\<close> on the contents of a file.\<close>

definition pread_bytes :: "bytes \<Rightarrow> nat \<Rightarrow> nat \<Rightarrow> bytes" where
  "pread_bytes c n off = take n (drop off c)"

definition pwrite_bytes :: "bytes \<Rightarrow> bytes \<Rightarrow> nat \<Rightarrow> bytes" where
  "pwrite_bytes c d off =
     (if d = [] then c
      else take off (c @ replicate (off - length c) 0) @ d @ drop (off + length d) c)"

definition ftruncate_bytes :: "bytes \<Rightarrow> nat \<Rightarrow> bytes" where
  "ftruncate_bytes c n = take n (c @ replicate (n - length c) 0)"

section \<open>FileIOManager\<close>

definition FileIOManager_new :: "string \<Rightarrow> fsys \<Rightarrow> io_manager res \<times> fsys" where
  "FileIOManager_new path fs =
     (let dir = dir_name path;
          fs = (if dir \<noteq> [] \<and> \<not> directory_exists dir fs then create_directory dir fs else fs)
      in if directory_exists path fs \<or> \<not> directory_exists dir fs
         then (Inl (BitcaskException (''Failed to open file: '' @ path)), fs)
         else (Inr \<lparr>io_kind = STANDARD_FIO, io_path = path, io_is_open = True, io_mapped_size = 0\<rparr>,
               if file_exists path fs then fs else fs_put path [] fs))"

definition FileIOManager_read :: "io_manager \<Rightarrow> nat \<Rightarrow> u64 \<Rightarrow> fsys \<Rightarrow> bytes option" where
  "FileIOManager_read io n off fs =
     (if \<not> io_is_open io then None
      else if sint off < 0 then None
      else map_option (\<lambda>c. pread_bytes c n (unat off)) (fs_get fs (io_path io)))"

definition FileIOManager_write :: "io_manager \<Rightarrow> bytes \<Rightarrow> u64 \<Rightarrow> fsys \<Rightarrow> nat option \<times> fsys" where
  "FileIOManager_write io buf off fs =
     (if \<not> io_is_open io then (None, fs)
      else if sint off < 0 then (None, fs)
      else case fs_get fs (io_path io) of
             None \<Rightarrow> (None, fs)
           | Some c \<Rightarrow> (Some (length buf), fs_put (io_path io) (pwrite_bytes c buf (unat off)) fs))"

text \<open>\<open>sync\<close> returns 0 on every path and does not change the contents.\<close>

definition FileIOManager_sync :: "io_manager \<Rightarrow> int" where
  "FileIOManager_sync io = 0"

definition FileIOManager_close :: "io_manager \<Rightarrow> io_manager" where
  "FileIOManager_close io = io\<lparr>io_is_open := False\<rparr>"

definition FileIOManager_size :: "io_manager \<Rightarrow> fsys \<Rightarrow> nat option" where
  "FileIOManager_size io fs =
     (if \<not> io_is_open io then None else map_option length (fs_get fs (io_path io)))"

section \<open>MMapIOManager\<close>

text \<open>
  The constructor opens (and creates) the file and maps it; an empty file is first extended to
  4096 zero bytes. It does not create the directory.
\<close>

definition init_mmap :: "io_manager \<Rightarrow> fsys \<Rightarrow> io_manager \<times> fsys" where
  "init_mmap io fs =
     (let c = (case fs_get fs (io_path io) of Some c \<Rightarrow> c | None \<Rightarrow> []);
          file_size = length c
      in if file_size = 0
         then (io\<lparr>io_mapped_size := 4096\<rparr>, fs_put (io_path io) (ftruncate_bytes c 4096) fs)
         else (io\<lparr>io_mapped_size := file_size\<rparr>, fs))"

definition MMapIOManager_new :: "string \<Rightarrow> fsys \<Rightarrow> io_manager res \<times> fsys" where
  "MMapIOManager_new path fs =
     (if directory_exists path fs \<or> \<not> directory_exists (dir_name path) fs
      then (Inl (StdException (''Failed to open file: '' @ path)), fs)
      else
        (let fs = (if file_exists path fs then fs else fs_put path [] fs);
             (io, fs) = init_mmap \<lparr>io_kind = MEMORY_MAP, io_path = path, io_is_open = True,
                                   io_mapped_size = 0\<rparr> fs
         in (Inr io, fs)))"

definition MMapIOManager_read :: "io_manager \<Rightarrow> nat \<Rightarrow> u64 \<Rightarrow> fsys \<Rightarrow> bytes option" where
  "MMapIOManager_read io n off fs =
     (if \<not> io_is_open io then None
      else if sint off < 0 then None
      else if unat off \<ge> io_mapped_size io then Some []
      else
        (let available = io_mapped_size io - unat off; to_read = min n available
         in map_option (\<lambda>c. pread_bytes c to_read (unat off)) (fs_get fs (io_path io))))"

definition remap :: "nat \<Rightarrow> io_manager \<Rightarrow> fsys \<Rightarrow> io_manager \<times> fsys" where
  "remap new_size io fs =
     (let c = (case fs_get fs (io_path io) of Some c \<Rightarrow> c | None \<Rightarrow> [])
      in (io\<lparr>io_mapped_size := new_size\<rparr>, fs_put (io_path io) (ftruncate_bytes c new_size) fs))"

definition MMapIOManager_write ::
    "io_manager \<Rightarrow> bytes \<Rightarrow> u64 \<Rightarrow> fsys \<Rightarrow> nat option \<times> io_manager \<times> fsys" where
  "MMapIOManager_write io buf off fs =
     (if \<not> io_is_open io then (None, io, fs)
      else if sint off < 0 then (None, io, fs)
      else
        (let required_size = unat off + length buf;
             page_size = fs_page_size fs;
             new_size = ((required_size + page_size - 1) div page_size) * page_size;
             (io, fs) = (if required_size > io_mapped_size io then remap new_size io fs else (io, fs))
         in case fs_get fs (io_path io) of
              None \<Rightarrow> (None, io, fs)
            | Some c \<Rightarrow> (Some (length buf), io,
                         fs_put (io_path io) (pwrite_bytes c buf (unat off)) fs)))"

definition MMapIOManager_sync :: "io_manager \<Rightarrow> int" where
  "MMapIOManager_sync io = 0"

definition MMapIOManager_close :: "io_manager \<Rightarrow> io_manager" where
  "MMapIOManager_close io =
     (if \<not> io_is_open io then io else io\<lparr>io_is_open := False, io_mapped_size := 0\<rparr>)"

definition MMapIOManager_size :: "io_manager \<Rightarrow> fsys \<Rightarrow> nat option" where
  "MMapIOManager_size io fs =
     (if \<not> io_is_open io then None else map_option length (fs_get fs (io_path io)))"

section \<open>The virtual calls\<close>

definition create_io_manager :: "string \<Rightarrow> io_type \<Rightarrow> fsys \<Rightarrow> io_manager res \<times> fsys" where
  "create_io_manager path type fs =
     (case type of
        STANDARD_FIO \<Rightarrow> FileIOManager_new path fs
      | MEMORY_MAP \<Rightarrow> MMapIOManager_new path fs)"

definition io_read :: "io_manager \<Rightarrow> nat \<Rightarrow> u64 \<Rightarrow> fsys \<Rightarrow> bytes option" where
  "io_read io n off fs =
     (case io_kind io of STANDARD_FIO \<Rightarrow> FileIOManager_read io n off fs
      | MEMORY_MAP \<Rightarrow> MMapIOManager_read io n off fs)"

definition io_write :: "io_manager \<Rightarrow> bytes \<Rightarrow> u64 \<Rightarrow> fsys \<Rightarrow> nat option \<times> io_manager \<times> fsys" where
  "io_write io buf off fs =
     (case io_kind io of
        STANDARD_FIO \<Rightarrow> (case FileIOManager_write io buf off fs of (n, fs) \<Rightarrow> (n, io, fs))
      | MEMORY_MAP \<Rightarrow> MMapIOManager_write io buf off fs)"

definition io_close :: "io_manager \<Rightarrow> io_manager" where
  "io_close io =
     (case io_kind io of STANDARD_FIO \<Rightarrow> FileIOManager_close io
      | MEMORY_MAP \<Rightarrow> MMapIOManager_close io)"

definition io_size :: "io_manager \<Rightarrow> fsys \<Rightarrow> nat option" where
  "io_size io fs =
     (case io_kind io of STANDARD_FIO \<Rightarrow> FileIOManager_size io fs
      | MEMORY_MAP \<Rightarrow> MMapIOManager_size io fs)"

section \<open>What a data file relies on\<close>

text \<open>
  The laws of the interface, stated on the file's contents: an open manager on a file of contents
  \<open>c\<close> reports its size, reads what is there, and a write that starts inside the file or at its end
  puts the bytes at their place, keeps those before them, and touches no other file; the file grows
  by no more than the bytes written and a slack (a page, when it is mapped).
\<close>

locale io_content =
  fixes ok :: "'io \<Rightarrow> fsys \<Rightarrow> bytes \<Rightarrow> bool"
    and path :: "'io \<Rightarrow> string"
    and sz :: "'io \<Rightarrow> fsys \<Rightarrow> nat option"
    and rd :: "'io \<Rightarrow> nat \<Rightarrow> u64 \<Rightarrow> fsys \<Rightarrow> bytes option"
    and wr :: "'io \<Rightarrow> bytes \<Rightarrow> u64 \<Rightarrow> fsys \<Rightarrow> nat option \<times> 'io \<times> fsys"
    and slack :: "fsys \<Rightarrow> nat"
  assumes sz_ok: "ok io fs c \<Longrightarrow> sz io fs = Some (length c)"
    and rd_ok: "ok io fs c \<Longrightarrow> unat off < 2 ^ 63 \<Longrightarrow> rd io n off fs = Some (take n (drop (unat off) c))"
    and wr_ok: "ok io fs c \<Longrightarrow> unat off \<le> length c \<Longrightarrow> unat off < 2 ^ 63 \<Longrightarrow> d \<noteq> [] \<Longrightarrow>
      \<exists>io' fs' c'. wr io d off fs = (Some (length d), io', fs') \<and> ok io' fs' c' \<and> path io' = path io
        \<and> take (unat off + length d) c' = take (unat off) c @ d
        \<and> length c' \<le> length c + length d + slack fs \<and> slack fs' = slack fs
        \<and> (\<forall>q. q \<noteq> path io \<longrightarrow> fs_get fs' q = fs_get fs q)"
begin

lemma rd_all: "ok io fs c \<Longrightarrow> rd io (length c) 0 fs = Some c"
  using rd_ok [of io fs c 0 "length c"] by simp

text \<open>Reading back what was written, and what was in front of it.\<close>

lemma rd_wr:
  assumes "ok io fs c" "unat off \<le> length c" "unat off < 2 ^ 63" "d \<noteq> []"
  shows "\<exists>io' fs'. wr io d off fs = (Some (length d), io', fs')
    \<and> rd io' (length d) off fs' = Some d
    \<and> rd io' (unat off) 0 fs' = Some (take (unat off) c)"
proof -
  obtain io' fs' c' where w: "wr io d off fs = (Some (length d), io', fs')" "ok io' fs' c'"
    and t: "take (unat off + length d) c' = take (unat off) c @ d"
    using wr_ok [OF assms] by blast
  have "take (length d) (drop (unat off) c') = drop (unat off) (take (unat off + length d) c')"
    by (simp add: take_drop add.commute)
  also have "\<dots> = d" using t assms(2) by simp
  finally have r1: "take (length d) (drop (unat off) c') = d" .
  have "take (unat off) c' = take (unat off) (take (unat off + length d) c')"
    by (simp add: min_def)
  also have "\<dots> = take (unat off) c" using t assms(2) by simp
  finally have r2: "take (unat off) c' = take (unat off) c" .
  from rd_ok [OF w(2) assms(3), of "length d"] rd_ok [OF w(2), of 0 "unat off"] w(1) r1 r2
  show ?thesis by simp
qed

end

section \<open>Both managers provide the interface\<close>

text \<open>An open manager on an existing file of contents \<open>c\<close>, mapped whole when it is mapped.\<close>

definition io_ok :: "io_manager \<Rightarrow> fsys \<Rightarrow> bytes \<Rightarrow> bool" where
  "io_ok io fs c \<longleftrightarrow>
     io_is_open io \<and> fs_get fs (io_path io) = Some c \<and> 0 < fs_page_size fs
     \<and> (io_kind io = MEMORY_MAP \<longrightarrow> io_mapped_size io = length c)"

lemma sint_nonneg: "unat (off :: u64) < 2 ^ 63 \<Longrightarrow> \<not> sint off < 0"
proof -
  assume a: "unat off < 2 ^ 63"
  have "int (unat off) < 2 ^ 63"
    using a by (simp only: of_nat_less_iff [symmetric, where ?'a = int] of_nat_power of_nat_numeral)
  then have u: "uint off < 2 ^ 63" by (simp only: uint_nat)
  have "sint off = signed_take_bit (LENGTH(64) - Suc 0) (uint off)" by (rule sint_uint)
  also have "LENGTH(64) - Suc 0 = 63" by simp
  also have "signed_take_bit 63 (uint off) = uint off"
  proof (rule signed_take_bit_int_eq_self)
    have "0 \<le> uint off" by (rule uint_ge_0)
    moreover have "- (2 ^ 63) \<le> (0 :: int)" by simp
    ultimately show "- (2 ^ 63) \<le> uint off" by (rule order_trans [rotated])
    show "uint off < 2 ^ 63" by (rule u)
  qed
  also have "\<not> uint off < 0" by (simp only: not_less uint_ge_0)
  finally show ?thesis .
qed

lemma length_pwrite_bytes:
  "d \<noteq> [] \<Longrightarrow> length (pwrite_bytes c d off) = max (length c) (off + length d)"
  by (auto simp: pwrite_bytes_def max_def)

lemma take_pwrite_bytes:
  "off \<le> length c \<Longrightarrow> take (off + length d) (pwrite_bytes c d off) = take off c @ d"
  by (auto simp: pwrite_bytes_def)

lemma pwrite_bytes_end: "off = length c \<Longrightarrow> pwrite_bytes c d off = c @ d"
  by (simp add: pwrite_bytes_def)

lemma ftruncate_bytes_grow: "length c \<le> n \<Longrightarrow> ftruncate_bytes c n = c @ replicate (n - length c) 0"
  by (simp add: ftruncate_bytes_def)

lemma round_up_ge: "0 < (p :: nat) \<Longrightarrow> r \<le> ((r + p - 1) div p) * p"
proof -
  assume p: "0 < p"
  have "(r + p - 1) div p * p + (r + p - 1) mod p = r + p - 1" by simp
  moreover have "(r + p - 1) mod p < p" using p by simp
  ultimately show ?thesis by linarith
qed

lemma io_size_ok: "io_ok io fs c \<Longrightarrow> io_size io fs = Some (length c)"
  by (simp add: io_ok_def io_size_def FileIOManager_size_def MMapIOManager_size_def
      split: io_type.split)

lemma io_read_ok:
  "io_ok io fs c \<Longrightarrow> unat off < 2 ^ 63 \<Longrightarrow> io_read io n off fs = Some (take n (drop (unat off) c))"
  by (auto simp: io_ok_def io_read_def FileIOManager_read_def MMapIOManager_read_def pread_bytes_def
      sint_nonneg Let_def min_def split: io_type.split)

lemma FileIOManager_write_ok:
  assumes "io_ok io fs c" "unat off < 2 ^ 63"
  shows "FileIOManager_write io d off fs
    = (Some (length d), fs_put (io_path io) (pwrite_bytes c d (unat off)) fs)"
  using assms by (simp add: io_ok_def FileIOManager_write_def sint_nonneg)

text \<open>The contents after a write through a mapping: the file grows to whole pages first.\<close>

definition mmap_grow :: "fsys \<Rightarrow> bytes \<Rightarrow> nat \<Rightarrow> bytes" where
  "mmap_grow fs c required =
     (if required > length c
      then ftruncate_bytes c (((required + fs_page_size fs - 1) div fs_page_size fs) * fs_page_size fs)
      else c)"

lemma mmap_grow_prefix:
  assumes "0 < fs_page_size fs"
  obtains n where "mmap_grow fs c required = c @ replicate n 0"
    "required \<le> length (mmap_grow fs c required)"
    "length (mmap_grow fs c required) \<le> max (length c) (required + fs_page_size fs)"
proof (cases "required > length c")
  case True
  let ?m = "((required + fs_page_size fs - 1) div fs_page_size fs) * fs_page_size fs"
  have "required \<le> ?m" by (rule round_up_ge [OF assms])
  moreover have "?m \<le> required + fs_page_size fs"
    using div_times_less_eq_dividend [of "required + fs_page_size fs - 1" "fs_page_size fs"] by linarith
  ultimately have "mmap_grow fs c required = c @ replicate (?m - length c) 0"
    "required \<le> length (mmap_grow fs c required)"
    "length (mmap_grow fs c required) \<le> max (length c) (required + fs_page_size fs)"
    using True by (simp_all add: mmap_grow_def ftruncate_bytes_grow)
  then show ?thesis by (rule that)
next
  case False
  then have "mmap_grow fs c required = c @ replicate 0 0"
    "required \<le> length (mmap_grow fs c required)"
    "length (mmap_grow fs c required) \<le> max (length c) (required + fs_page_size fs)"
    by (simp_all add: mmap_grow_def)
  then show ?thesis by (rule that)
qed

lemma MMapIOManager_write_ok:
  fixes d :: bytes and off :: u64
  assumes "io_ok io fs c" "io_kind io = MEMORY_MAP" "unat off < 2 ^ 63"
  defines "g \<equiv> mmap_grow fs c (unat off + length d)"
  shows "\<exists>io' fs'. MMapIOManager_write io d off fs = (Some (length d), io', fs')
    \<and> io_is_open io' \<and> io_kind io' = MEMORY_MAP \<and> io_path io' = io_path io
    \<and> io_mapped_size io' = length g \<and> fs_page_size fs' = fs_page_size fs
    \<and> (\<forall>q. fs_get fs' q = fs_get (fs_put (io_path io) (pwrite_bytes g d (unat off)) fs) q)"
  using assms(1-3) unfolding g_def
  by (auto simp: MMapIOManager_write_def io_ok_def sint_nonneg Let_def remap_def mmap_grow_def
      ftruncate_bytes_def)

lemma io_write_ok:
  assumes ok: "io_ok io fs c" and off: "unat off \<le> length c" "unat off < 2 ^ 63" and d: "d \<noteq> []"
  shows "\<exists>io' fs' c'. io_write io d off fs = (Some (length d), io', fs') \<and> io_ok io' fs' c'
    \<and> io_path io' = io_path io \<and> take (unat off + length d) c' = take (unat off) c @ d
    \<and> length c' \<le> length c + length d + fs_page_size fs \<and> fs_page_size fs' = fs_page_size fs
    \<and> (\<forall>q. q \<noteq> io_path io \<longrightarrow> fs_get fs' q = fs_get fs q)"
proof (cases "io_kind io")
  case STANDARD_FIO
  with ok off show ?thesis
    by (auto simp: io_write_def FileIOManager_write_ok take_pwrite_bytes io_ok_def
        length_pwrite_bytes [OF d])
next
  case MEMORY_MAP
  have p: "0 < fs_page_size fs" using ok by (simp add: io_ok_def)
  obtain n where g: "mmap_grow fs c (unat off + length d) = c @ replicate n 0"
    and len: "unat off + length d \<le> length (mmap_grow fs c (unat off + length d))"
      "length (mmap_grow fs c (unat off + length d))
        \<le> max (length c) (unat off + length d + fs_page_size fs)"
    by (rule mmap_grow_prefix [OF p])
  obtain io' fs' where w: "MMapIOManager_write io d off fs = (Some (length d), io', fs')"
    and io': "io_is_open io'" "io_kind io' = MEMORY_MAP" "io_path io' = io_path io"
      "io_mapped_size io' = length (c @ replicate n 0 :: bytes)" "fs_page_size fs' = fs_page_size fs"
    and q: "\<forall>q. fs_get fs' q
      = fs_get (fs_put (io_path io) (pwrite_bytes (c @ replicate n 0) d (unat off)) fs) q"
    using MMapIOManager_write_ok [OF ok MEMORY_MAP off(2), of d] g by auto
  have l: "length (pwrite_bytes (c @ replicate n 0) d (unat off)) = length (c @ replicate n 0)"
    using len(1) g by (simp only: length_pwrite_bytes [OF d] max_def) auto
  then have "io_ok io' fs' (pwrite_bytes (c @ replicate n 0) d (unat off))"
    using io' q p by (simp add: io_ok_def)
  moreover have "take (unat off + length d) (pwrite_bytes (c @ replicate n 0) d (unat off))
      = take (unat off) c @ d"
    using off(1) take_pwrite_bytes [of "unat off" "c @ replicate n 0" d] by simp
  moreover have "length (pwrite_bytes (c @ replicate n 0) d (unat off))
      \<le> length c + length d + fs_page_size fs"
    unfolding l using len(2) off(1) unfolding g by linarith
  ultimately show ?thesis using w io' q MEMORY_MAP by (auto simp: io_write_def)
qed

interpretation io: io_content io_ok io_path io_size io_read io_write fs_page_size
  by unfold_locales (rule io_size_ok io_read_ok io_write_ok; assumption)+

text \<open>
  Over both I/O managers: a write that starts inside the file or at its end can be read back
  at its offset, and the bytes in front of it are unchanged; an open manager stays usable on the
  file whose other bytes and whose neighbours in the file system are as before.
\<close>

theorem io_write_then_read:
  assumes "io_ok io fs c" "unat off \<le> length c" "unat off < 2 ^ 63" "d \<noteq> []"
  shows "\<exists>io' fs'. io_write io d off fs = (Some (length d), io', fs')
    \<and> io_read io' (length d) off fs' = Some d
    \<and> io_read io' (unat off) 0 fs' = Some (take (unat off) c)"
  by (rule io.rd_wr [OF assms])

text \<open>Two bytes written over the last byte of a file of two, through the mapped manager.\<close>

theorem io_write_then_read_witness:
  "\<exists>io' fs'. io_write (\<lparr>io_kind = MEMORY_MAP, io_path = ''f'', io_is_open = True, io_mapped_size = 2\<rparr>) [7, 8] 1
        \<lparr>fs_files = [(''f'', [1, 2])], fs_dirs = [], fs_locks = [], fs_page_size = 4096\<rparr> = (Some 2, io', fs')
    \<and> io_read io' 2 1 fs' = Some [7, 8] \<and> io_read io' 1 0 fs' = Some [1]"
  using io_write_then_read [of "\<lparr>io_kind = MEMORY_MAP, io_path = ''f'', io_is_open = True, io_mapped_size = 2\<rparr>"
      "\<lparr>fs_files = [(''f'', [1, 2])], fs_dirs = [], fs_locks = [], fs_page_size = 4096\<rparr>" "[1, 2]" 1 "[7, 8]"]
  by (simp add: io_ok_def fs_get_def) (simp add: numeral_2_eq_2)

end
