(* ===== verification/Text.thy ===== *)
theory Text
  imports Prelude
begin

text \<open>
  The conversions between numbers and text that the code takes from the C++ library:
  \<open>std::to_string\<close>, \<open>std::setw\<close>/\<open>std::setfill\<close>, \<open>std::stoi\<close> and \<open>std::stoull\<close> (leading white space, an optional sign, then the
  longest run of digits; anything after it is ignored). The library's exceptions are
  \<open>StdException\<close>.
\<close>

section \<open>Printing\<close>

definition digit_char :: "nat \<Rightarrow> char" where
  "digit_char d = char_of (48 + d)"

fun show_nat :: "nat \<Rightarrow> string" where
  "show_nat n = (if n < 10 then [digit_char n] else show_nat (n div 10) @ [digit_char (n mod 10)])"

declare show_nat.simps [simp del]

definition show_int :: "int \<Rightarrow> string" where
  "show_int i = (if i < 0 then CHR ''-'' # show_nat (nat (- i)) else show_nat (nat i))"

definition pad_left :: "nat \<Rightarrow> char \<Rightarrow> string \<Rightarrow> string" where
  "pad_left w c s = replicate (w - length s) c @ s"

section \<open>Parsing\<close>

definition is_digit :: "char \<Rightarrow> bool" where
  "is_digit c \<longleftrightarrow> 48 \<le> (of_char c :: nat) \<and> (of_char c :: nat) \<le> 57"

definition digit_val :: "char \<Rightarrow> nat" where
  "digit_val c = of_char c - 48"

definition is_space :: "char \<Rightarrow> bool" where
  "is_space c \<longleftrightarrow> (of_char c :: nat) = 32 \<or> 9 \<le> (of_char c :: nat) \<and> (of_char c :: nat) \<le> 13"

definition digits_val :: "string \<Rightarrow> nat" where
  "digits_val s = fold (\<lambda>c n. 10 * n + digit_val c) s 0"

text \<open>The sign and the value of the number at the front of a text, if there is one.\<close>

definition strto :: "string \<Rightarrow> (bool \<times> nat) option" where
  "strto s =
     (let s = dropWhile is_space s;
          (neg, s) = (case s of
             c # t \<Rightarrow> if c = CHR ''-'' then (True, t) else if c = CHR ''+'' then (False, t)
                      else (False, s)
           | [] \<Rightarrow> (False, []));
          ds = takeWhile is_digit s
      in if ds = [] then None else Some (neg, digits_val ds))"

definition stoi :: "string \<Rightarrow> int res" where
  "stoi s =
     (case strto s of
        None \<Rightarrow> Inl (StdException ''stoi'')
      | Some (neg, n) \<Rightarrow>
          (let i = (if neg then - int n else int n) in
           if - (2 ^ 31) \<le> i \<and> i < 2 ^ 31 then Inr i else Inl (StdException ''stoi'')))"

definition stoull :: "string \<Rightarrow> u64 res" where
  "stoull s =
     (case strto s of
        None \<Rightarrow> Inl (StdException ''stoull'')
      | Some (neg, n) \<Rightarrow>
          if n < 2 ^ 64 then Inr (if neg then - of_nat n else of_nat n)
          else Inl (StdException ''stoull''))"

section \<open>Printing then parsing\<close>

lemma of_char_digit: "d < 10 \<Longrightarrow> (of_char (digit_char d) :: nat) = 48 + d"
  by (simp add: digit_char_def)

lemma is_digit_digit_char [simp]: "d < 10 \<Longrightarrow> is_digit (digit_char d)"
  by (simp add: is_digit_def of_char_digit)

lemma digit_val_digit_char [simp]: "d < 10 \<Longrightarrow> digit_val (digit_char d) = d"
  by (simp add: digit_val_def of_char_digit)

lemma show_nat_digits: "c \<in> set (show_nat n) \<Longrightarrow> is_digit c"
  by (induction n rule: show_nat.induct) (subst (asm) (2) show_nat.simps, auto split: if_splits)

lemma show_nat_not_Nil [simp]: "show_nat n \<noteq> []"
  by (subst show_nat.simps) simp

lemma digits_val_snoc [simp]: "digits_val (s @ [c]) = 10 * digits_val s + digit_val c"
  by (simp add: digits_val_def)

lemma digits_val_Nil [simp]: "digits_val [] = 0"
  by (simp add: digits_val_def)

lemma digits_val_show_nat [simp]: "digits_val (show_nat n) = n"
proof (induction n rule: show_nat.induct)
  case (1 n)
  show ?case
  proof (cases "n < 10")
    case True
    then show ?thesis using digits_val_snoc [of "[]" "digit_char n"]
      by (subst show_nat.simps) simp
  next
    case False
    then show ?thesis using 1 by (subst show_nat.simps) simp
  qed
qed

lemma show_nat_inj [simp]: "show_nat m = show_nat n \<longleftrightarrow> m = n"
  by (metis digits_val_show_nat)

lemma digits_val_zeros: "digits_val (replicate k (digit_char 0) @ s) = digits_val s"
proof -
  have "fold (\<lambda>c n. 10 * n + digit_val c) (replicate k (digit_char 0)) 0 = 0"
    by (induction k) simp_all
  then show ?thesis by (simp add: digits_val_def)
qed

lemma pad_left_show_nat_inj:
  "pad_left w (digit_char 0) (show_nat m) = pad_left w (digit_char 0) (show_nat n) \<longleftrightarrow> m = n"
  by (metis digits_val_show_nat digits_val_zeros pad_left_def)

lemma pad_left_digits:
  "c \<in> set (pad_left w (digit_char 0) (show_nat m)) \<Longrightarrow> is_digit c"
  by (auto simp: pad_left_def dest: show_nat_digits)

lemma takeWhile_digits:
  "\<lbrakk>\<forall>c \<in> set s. is_digit c; t = [] \<or> \<not> is_digit (hd t)\<rbrakk> \<Longrightarrow> takeWhile is_digit (s @ t) = s"
  by (cases t) auto

lemma not_digit_chars [simp]:
  "\<not> is_digit (CHR ''-'')" "\<not> is_digit (CHR ''+'')" "\<not> is_digit (CHR ''/'')"
  "\<not> is_digit (CHR ''.'')" "\<not> is_digit (CHR 0x0D)" "\<not> is_digit (CHR 0x0A)"
  by (simp_all add: is_digit_def)

lemma strto_show_nat:
  assumes "t = [] \<or> \<not> is_digit (hd t)"
  shows "strto (show_nat n @ t) = Some (False, n)"
proof -
  obtain c cs where s: "show_nat n = c # cs" by (cases "show_nat n") simp_all
  then have c: "is_digit c" using show_nat_digits [of c n] by simp
  then have "\<not> is_space c" "c \<noteq> CHR ''-''" "c \<noteq> CHR ''+''"
    by (auto simp: is_digit_def is_space_def)
  moreover have "takeWhile is_digit (show_nat n @ t) = show_nat n"
    using assms show_nat_digits by (intro takeWhile_digits) blast+
  ultimately show ?thesis by (simp add: strto_def s Let_def) (simp add: s [symmetric])
qed

lemma stoull_show_nat:
  "n < 2 ^ 64 \<Longrightarrow> stoull (show_nat n) = Inr (of_nat n)"
  using strto_show_nat [of "[]" n] by (simp add: stoull_def)

lemma stoi_show_nat:
  "n < 2 ^ 31 \<Longrightarrow> t = [] \<or> \<not> is_digit (hd t) \<Longrightarrow> stoi (show_nat n @ t) = Inr (int n)"
  by (simp add: stoi_def strto_show_nat)

end
