(* ===== verification/Data_File.thy ===== *)
theory Data_File
  imports Log_Record Io_Manager Text
begin

text \<open>
  A data file (\<open>include/bitcask/data_file.h\<close>, \<open>src/data_file.cpp\<close>): an I/O manager, a file number
  and a write offset. Records are appended at the write offset and read back at any offset. The
  mutex of the class is not modelled: every operation is one step.
\<close>

section \<open>State and names\<close>

record data_file =
  df_file_id :: u32
  df_write_off :: u64
  df_io :: io_manager

definition get_data_file_name :: "string \<Rightarrow> u32 \<Rightarrow> string" where
  "get_data_file_name dir_path file_id =
     dir_path @ ''/'' @ pad_left 9 (digit_char 0) (show_nat (unat file_id)) @ DATA_FILE_SUFFIX"

section \<open>Opening\<close>

definition DataFile_new :: "string \<Rightarrow> u32 \<Rightarrow> io_type \<Rightarrow> fsys \<Rightarrow> data_file res \<times> fsys" where
  "DataFile_new dir_path file_id type fs =
     (case create_io_manager (get_data_file_name dir_path file_id) type fs of
        (Inl e, fs) \<Rightarrow> (Inl e, fs)
      | (Inr io, fs) \<Rightarrow> (Inr \<lparr>df_file_id = file_id, df_write_off = 0, df_io = io\<rparr>, fs))"

definition open_data_file :: "string \<Rightarrow> u32 \<Rightarrow> io_type \<Rightarrow> fsys \<Rightarrow> data_file res \<times> fsys" where
  "open_data_file dir_path file_id type fs = DataFile_new dir_path file_id type fs"

text \<open>
  The three special files: the constructor first opens (and creates) the data file number 0, whose
  manager is then replaced.
\<close>

definition open_special_file :: "string \<Rightarrow> string \<Rightarrow> fsys \<Rightarrow> data_file res \<times> fsys" where
  "open_special_file name dir_path fs =
     (case DataFile_new dir_path 0 STANDARD_FIO fs of
        (Inl e, fs) \<Rightarrow> (Inl e, fs)
      | (Inr df, fs) \<Rightarrow>
          (case create_io_manager (dir_path @ ''/'' @ name) STANDARD_FIO fs of
             (Inl e, fs) \<Rightarrow> (Inl e, fs)
           | (Inr io, fs) \<Rightarrow> (Inr (df\<lparr>df_io := io\<rparr>), fs)))"

definition open_hint_file :: "string \<Rightarrow> fsys \<Rightarrow> data_file res \<times> fsys" where
  "open_hint_file dir_path fs = open_special_file HINT_FILE_NAME dir_path fs"

definition open_merge_finished_file :: "string \<Rightarrow> fsys \<Rightarrow> data_file res \<times> fsys" where
  "open_merge_finished_file dir_path fs = open_special_file MERGE_FINISHED_FILE_NAME dir_path fs"

definition open_seq_no_file :: "string \<Rightarrow> fsys \<Rightarrow> data_file res \<times> fsys" where
  "open_seq_no_file dir_path fs = open_special_file SEQ_NO_FILE_NAME dir_path fs"

section \<open>Reading\<close>

text \<open>\<open>read_n_bytes\<close>; the buffer is cut to the bytes that were read.\<close>

definition read_n_bytes :: "data_file \<Rightarrow> nat \<Rightarrow> u64 \<Rightarrow> fsys \<Rightarrow> bytes res" where
  "read_n_bytes df n off fs =
     (if n = 0 then Inr []
      else case io_size (df_io df) fs of
        None \<Rightarrow> Inl (BitcaskException ''Failed to get file size'')
      | Some file_size \<Rightarrow>
          if unat off \<ge> file_size then Inl ReadDataFileEOFError
          else
            (let actual_read_size = min n (file_size - unat off) in
             if actual_read_size = 0 then Inl ReadDataFileEOFError
             else case io_read (df_io df) actual_read_size off fs of
               None \<Rightarrow> Inl (BitcaskException (''Failed to read from file at offset ''
                                @ show_nat (unat off)))
             | Some buffer \<Rightarrow>
                 if length buffer \<noteq> actual_read_size \<and> n = actual_read_size
                 then Inl (BitcaskException (''Incomplete read: expected '' @ show_nat actual_read_size
                              @ '' bytes, got '' @ show_nat (length buffer)))
                 else Inr buffer))"

text \<open>
  The split of the bytes behind the header into key and value: what is there is used, however
  short it is.
\<close>

definition split_key_value :: "nat \<Rightarrow> nat \<Rightarrow> bytes \<Rightarrow> bytes \<times> bytes" where
  "split_key_value key_size value_size kv_buf =
     (let key = (if key_size > 0 then (if length kv_buf \<ge> key_size then take key_size kv_buf else kv_buf)
                 else []);
          value = (if value_size > 0 then
                     (let key_actual_size = min key_size (length kv_buf) in
                      if length kv_buf > key_actual_size then
                        (let value_available = length kv_buf - key_actual_size;
                             value_to_read = min value_size value_available
                         in take value_to_read (drop key_actual_size kv_buf))
                      else [])
                   else [])
      in (key, value))"

text \<open>
  The checksum test: it is made only when key and value are complete, and a mismatch is an error
  only for the three stored values that the code lists.
\<close>

definition crc_rejected :: "log_record \<Rightarrow> log_record_header \<Rightarrow> bool" where
  "crc_rejected r h \<longleftrightarrow>
     length (lr_key r) = unat (hdr_key_size h) \<and> length (lr_value r) = unat (hdr_value_size h)
     \<and> (let calculated_crc = LogRecord_get_crc r in
        calculated_crc \<noteq> hdr_crc h
        \<and> (hdr_crc h = 0 \<and> calculated_crc \<noteq> 0 \<or> hdr_crc h = 0xDEADBEEF \<or> hdr_crc h = 0x12345678))"

definition MAX_RECORD_SIZE :: nat where "MAX_RECORD_SIZE = 67108864"

definition read_log_record :: "data_file \<Rightarrow> u64 \<Rightarrow> fsys \<Rightarrow> read_log_record res" where
  "read_log_record df off fs =
     (case io_size (df_io df) fs of
        None \<Rightarrow> Inl (BitcaskException ''Failed to get file size'')
      | Some file_size \<Rightarrow>
        if unat off \<ge> file_size then Inl ReadDataFileEOFError
        else
          (let header_bytes = min MAX_LOG_RECORD_HEADER_SIZE (file_size - unat off) in
           if header_bytes < 5 then Inl ReadDataFileEOFError
           else case read_n_bytes df header_bytes off fs of
             Inl e \<Rightarrow> Inl e
           | Inr header_buf \<Rightarrow>
             if length header_buf < 5 then Inl ReadDataFileEOFError
             else case decode_log_record_header header_buf of
               Inl e \<Rightarrow> Inl e
             | Inr (header, header_size) \<Rightarrow>
               if hdr_crc header = 0 \<and> hdr_key_size header = 0 \<and> hdr_value_size header = 0
               then Inl ReadDataFileEOFError
               else if unat (hdr_key_size header) > MAX_RECORD_SIZE
                       \<or> unat (hdr_value_size header) > MAX_RECORD_SIZE
               then Inl (BitcaskException ''Record size too large, data may be corrupted'')
               else if unat off + header_size > file_size
               then Inl (BitcaskException ''Header extends beyond file size, data may be corrupted'')
               else
                 (let kv_size = unat (hdr_key_size header) + unat (hdr_value_size header);
                      record_size = header_size + kv_size
                  in case (if kv_size > 0
                           then read_n_bytes df kv_size (off + of_nat header_size) fs else Inr []) of
                       Inl e \<Rightarrow> Inl e
                     | Inr kv_buf \<Rightarrow>
                       (let (key, value) = split_key_value (unat (hdr_key_size header))
                                             (unat (hdr_value_size header)) kv_buf;
                            log_record = \<lparr>lr_key = key, lr_value = value, lr_type = hdr_type header\<rparr>
                        in if crc_rejected log_record header then Inl InvalidCRCError
                           else Inr \<lparr>rr_record = log_record, rr_size = record_size\<rparr>))))"

section \<open>Writing and the rest\<close>

definition DataFile_write :: "data_file \<Rightarrow> bytes \<Rightarrow> fsys \<Rightarrow> nat res \<times> data_file \<times> fsys" where
  "DataFile_write df data fs =
     (case io_write (df_io df) data (df_write_off df) fs of
        (None, io, fs) \<Rightarrow> (Inl (BitcaskException ''Failed to write data to file''), df\<lparr>df_io := io\<rparr>, fs)
      | (Some n, io, fs) \<Rightarrow>
          (Inr n, df\<lparr>df_io := io, df_write_off := df_write_off df + of_nat n\<rparr>, fs))"

definition write_hint_record ::
    "data_file \<Rightarrow> bytes \<Rightarrow> log_record_pos \<Rightarrow> fsys \<Rightarrow> unit res \<times> data_file \<times> fsys" where
  "write_hint_record df key pos fs =
     (let hint_record = \<lparr>lr_key = key, lr_value = LogRecordPos_encode pos, lr_type = NORMAL\<rparr>;
          (encoded_data, sz) = LogRecord_encode hint_record
      in case DataFile_write df encoded_data fs of
           (Inl e, df, fs) \<Rightarrow> (Inl e, df, fs)
         | (Inr _, df, fs) \<Rightarrow> (Inr (), df, fs))"

text \<open>\<open>sync\<close> changes neither the file nor the state of the object.\<close>

definition DataFile_sync :: "data_file \<Rightarrow> unit res" where
  "DataFile_sync df = Inr ()"

definition DataFile_close :: "data_file \<Rightarrow> data_file" where
  "DataFile_close df = df\<lparr>df_io := io_close (df_io df)\<rparr>"

definition DataFile_file_size :: "data_file \<Rightarrow> fsys \<Rightarrow> u64 res" where
  "DataFile_file_size df fs =
     (case io_size (df_io df) fs of
        None \<Rightarrow> Inl (BitcaskException ''Failed to get file size'')
      | Some n \<Rightarrow> Inr (of_nat n))"

definition get_write_off :: "data_file \<Rightarrow> u64" where
  "get_write_off df = df_write_off df"

definition set_write_off :: "u64 \<Rightarrow> data_file \<Rightarrow> data_file" where
  "set_write_off off df = df\<lparr>df_write_off := off\<rparr>"

definition set_io_manager ::
    "string \<Rightarrow> io_type \<Rightarrow> data_file \<Rightarrow> fsys \<Rightarrow> unit res \<times> data_file \<times> fsys" where
  "set_io_manager dir_path type df fs =
     (let df = df\<lparr>df_io := io_close (df_io df)\<rparr> in
      case create_io_manager (get_data_file_name dir_path (df_file_id df)) type fs of
        (Inl e, fs) \<Rightarrow> (Inl e, df, fs)
      | (Inr io, fs) \<Rightarrow> (Inr (), df\<lparr>df_io := io\<rparr>, fs))"

section \<open>File names\<close>

lemma get_data_file_name_eq [simp]:
  "get_data_file_name d x = get_data_file_name d y \<longleftrightarrow> x = y"
proof
  assume "get_data_file_name d x = get_data_file_name d y"
  then have "pad_left 9 (digit_char 0) (show_nat (unat x)) = pad_left 9 (digit_char 0) (show_nat (unat y))"
    by (simp add: get_data_file_name_def)
  then have "unat x = unat y" by (simp only: pad_left_show_nat_inj)
  then show "x = y" by (simp only: word_unat_eq_iff)
qed simp

lemma get_data_file_name_special:
  assumes "CHR ''.'' \<notin> set name"
  shows "get_data_file_name d x \<noteq> d @ ''/'' @ name"
  using assms by (auto simp: get_data_file_name_def DATA_FILE_SUFFIX_def)

lemma special_names [simp]:
  "get_data_file_name d x \<noteq> d @ CHR ''/'' # SEQ_NO_FILE_NAME"
  "get_data_file_name d x \<noteq> d @ CHR ''/'' # HINT_FILE_NAME"
  "get_data_file_name d x \<noteq> d @ CHR ''/'' # MERGE_FINISHED_FILE_NAME"
  "get_data_file_name d x \<noteq> d @ CHR ''/'' # FILE_LOCK_NAME"
  using get_data_file_name_special [of SEQ_NO_FILE_NAME d x]
    get_data_file_name_special [of HINT_FILE_NAME d x]
    get_data_file_name_special [of MERGE_FINISHED_FILE_NAME d x]
    get_data_file_name_special [of FILE_LOCK_NAME d x]
  by (simp_all add: SEQ_NO_FILE_NAME_def HINT_FILE_NAME_def MERGE_FINISHED_FILE_NAME_def
        FILE_LOCK_NAME_def)

text \<open>
  The names of data files identify them: two numbers have the same name in a directory only if
  they are equal, and no data file has the name of one of the special files.
\<close>

theorem data_file_names_distinct:
  "(get_data_file_name d x = get_data_file_name d y \<longleftrightarrow> x = y)
   \<and> get_data_file_name d x \<notin> (\<lambda>name. d @ ''/'' @ name)
       ` {HINT_FILE_NAME, MERGE_FINISHED_FILE_NAME, SEQ_NO_FILE_NAME, FILE_LOCK_NAME}"
  by (simp add: image_iff)

section \<open>Reading as a function of the contents\<close>

text \<open>
  The reference for \<open>read_log_record\<close>: what it returns depends on nothing but the bytes of the
  file from the offset on.
\<close>

definition parse_record :: "bytes \<Rightarrow> read_log_record res" where
  "parse_record b =
     (if length b < 5 then Inl ReadDataFileEOFError
      else case decode_log_record_header (take MAX_LOG_RECORD_HEADER_SIZE b) of
        Inl e \<Rightarrow> Inl e
      | Inr (h, hs) \<Rightarrow>
          if hdr_crc h = 0 \<and> hdr_key_size h = 0 \<and> hdr_value_size h = 0
          then Inl ReadDataFileEOFError
          else if unat (hdr_key_size h) > MAX_RECORD_SIZE \<or> unat (hdr_value_size h) > MAX_RECORD_SIZE
          then Inl (BitcaskException ''Record size too large, data may be corrupted'')
          else
            (let kv = unat (hdr_key_size h) + unat (hdr_value_size h) in
             if kv > 0 \<and> length b = hs then Inl ReadDataFileEOFError
             else
               (let (k, v) = split_key_value (unat (hdr_key_size h)) (unat (hdr_value_size h))
                               (take kv (drop hs b));
                    r = \<lparr>lr_key = k, lr_value = v, lr_type = hdr_type h\<rparr>
                in if crc_rejected r h then Inl InvalidCRCError
                   else Inr \<lparr>rr_record = r, rr_size = hs + kv\<rparr>)))"

lemma read_n_bytes_ok:
  assumes "io_ok (df_io df) fs c" "length c < 2 ^ 63" "0 < n"
  shows "read_n_bytes df n off fs =
    (if length c \<le> unat off then Inl ReadDataFileEOFError else Inr (take n (drop (unat off) c)))"
proof (cases "length c \<le> unat off")
  case True
  then show ?thesis using assms by (simp add: read_n_bytes_def io_size_ok)
next
  case False
  then have off: "unat off < 2 ^ 63" using assms(2) by linarith
  have "take (min n (length c - unat off)) (drop (unat off) c) = take n (drop (unat off) c)"
    by (simp add: min_def)
  with False assms off show ?thesis
    by (auto simp: read_n_bytes_def io_size_ok io_read_ok Let_def)
qed

lemma decode_varint_length:
  "decode_varint data = Inr (v, n) \<Longrightarrow> n \<le> length data"
  by (rule decode_varint_consumes)

lemma header_size_le:
  "decode_log_record_header b = Inr (h, hs) \<Longrightarrow> hs \<le> length b"
  by (auto simp: decode_log_record_header_def Let_def split: if_splits sum.splits prod.splits
      dest!: decode_varint_length)

lemma unat_add_of_nat:
  assumes "unat (a :: u64) + n < 2 ^ 64"
  shows "unat (a + of_nat n) = unat a + n"
proof -
  have "unat a + n < 2 ^ LENGTH(64)" using assms by simp
  moreover have "unat (of_nat n :: u64) = n" using assms by (intro unat_of_nat_u64) linarith
  ultimately show ?thesis by (simp only: unat_word_ariths mod_less)
qed

text \<open>
  Reading a record is a function of the file's contents: for an open file of contents \<open>c\<close>,
  whichever I/O manager serves it, \<open>read_log_record\<close> at an offset gives what \<open>parse_record\<close> gives
  for the bytes of \<open>c\<close> from that offset on.
\<close>

lemma read_log_record_parse:
  assumes ok: "io_ok (df_io df) fs c" and len: "length c < 2 ^ 63"
  shows "read_log_record df off fs = parse_record (drop (unat off) c)"
proof (cases "length c - unat off < 5")
  case True
  then show ?thesis
    by (auto simp: read_log_record_def parse_record_def io_size_ok [OF ok] Let_def min_def
        MAX_LOG_RECORD_HEADER_SIZE_def)
next
  case False
  let ?b = "drop (unat off) c" and ?m = "min MAX_LOG_RECORD_HEADER_SIZE (length c - unat off)"
  have m: "0 < ?m" "\<not> ?m < 5" "\<not> length ?b < 5" "\<not> length c \<le> unat off"
    using False by (simp_all add: MAX_LOG_RECORD_HEADER_SIZE_def)
  have hb: "take ?m ?b = take MAX_LOG_RECORD_HEADER_SIZE ?b"
    by (simp add: min_def)
  have rd: "read_n_bytes df ?m off fs = Inr (take MAX_LOG_RECORD_HEADER_SIZE ?b)"
    using read_n_bytes_ok [OF ok len m(1), of off] m(4) hb by simp
  have l5: "\<not> length (take MAX_LOG_RECORD_HEADER_SIZE ?b) < 5"
    using m(3) by (simp add: MAX_LOG_RECORD_HEADER_SIZE_def)
  show ?thesis
  proof (cases "decode_log_record_header (take MAX_LOG_RECORD_HEADER_SIZE ?b)")
    case (Inl e)
    then show ?thesis using m l5 rd
      by (simp add: read_log_record_def parse_record_def io_size_ok [OF ok] Let_def)
  next
    case (Inr x)
    obtain h hs where x: "x = (h, hs)" by (cases x)
    have hs: "hs \<le> length ?b" using header_size_le [OF Inr [unfolded x]] by simp
    then have hs': "\<not> length c < unat off + hs" using m(4) by simp
    from hs have off: "unat (off + of_nat hs) = unat off + hs"
      using len m(4) by (intro unat_add_of_nat) simp
    have kv: "read_n_bytes df n (off + of_nat hs) fs =
      (if length ?b = hs then Inl ReadDataFileEOFError else Inr (take n (drop hs ?b)))" if "0 < n" for n
      using read_n_bytes_ok [OF ok len that, of "off + of_nat hs"] hs m(4)
      by (auto simp: off add.commute)
    show ?thesis using m l5 rd Inr x hs'
      by (simp add: read_log_record_def parse_record_def io_size_ok [OF ok] Let_def kv not_le
          del: length_drop)
  qed
qed

text \<open>
  Reading a record is a function of the file's contents: for an open file of contents \<open>c\<close>,
  whichever I/O manager serves it, \<open>read_log_record\<close> at an offset gives what \<open>parse_record\<close> gives
  for the bytes of \<open>c\<close> from that offset on.
\<close>

theorem read_log_record_refines:
  assumes "io_ok (df_io df) fs c" and "length c < 2 ^ 63"
  shows "read_log_record df off fs = parse_record (drop (unat off) c)"
  by (rule read_log_record_parse [OF assms])

theorem read_log_record_refines_witness:
  "read_log_record \<lparr>df_file_id = 0, df_write_off = 0,
       df_io = \<lparr>io_kind = STANDARD_FIO, io_path = ''f'', io_is_open = True, io_mapped_size = 0\<rparr>\<rparr> 1
     \<lparr>fs_files = [(''f'', [1, 2, 3])], fs_dirs = [], fs_locks = [], fs_page_size = 4096\<rparr>
   = parse_record [2, 3]"
  using read_log_record_refines [of "\<lparr>df_file_id = 0, df_write_off = 0,
       df_io = \<lparr>io_kind = STANDARD_FIO, io_path = ''f'', io_is_open = True, io_mapped_size = 0\<rparr>\<rparr>"
     "\<lparr>fs_files = [(''f'', [1, 2, 3])], fs_dirs = [], fs_locks = [], fs_page_size = 4096\<rparr>"
     "[1, 2, 3]" 1]
  by (simp add: io_ok_def fs_get_def)

section \<open>Reading what was encoded\<close>

text \<open>
  The records that the reader returns as they were written: at most 64 MB of key and of value, a
  type that is an enumerator, and not the empty record whose checksum is zero (which reads as the
  end of the file).
\<close>

definition readable :: "log_record \<Rightarrow> bool" where
  "readable r \<longleftrightarrow>
     length (lr_key r) \<le> MAX_RECORD_SIZE \<and> length (lr_value r) \<le> MAX_RECORD_SIZE
     \<and> real_type (lr_type r) \<and> (lr_key r \<noteq> [] \<or> lr_value r \<noteq> [])"

abbreviation enc :: "log_record \<Rightarrow> bytes" where
  "enc r \<equiv> fst (LogRecord_encode r)"

lemma split_key_value_append:
  "split_key_value (length k) (length v) (k @ v) = (k, v)"
  by (cases "k = []"; cases "v = []") (auto simp: split_key_value_def Let_def)

lemma unat_of_nat_u32: "n < 2 ^ 32 \<Longrightarrow> unat (of_nat n :: u32) = n"
proof -
  assume "n < 2 ^ 32"
  then have "n < 2 ^ LENGTH(32)" by simp
  then show ?thesis by (simp only: unsigned_of_nat take_bit_nat_eq_self of_nat_id)
qed

lemma readable_less: "readable r \<Longrightarrow> length (lr_key r) < 2 ^ 32 \<and> length (lr_value r) < 2 ^ 32"
  by (simp add: readable_def MAX_RECORD_SIZE_def)

lemma hdr_sizes [simp]:
  "readable r \<Longrightarrow> unat (hdr_key_size (header_of r)) = length (lr_key r)"
  "readable r \<Longrightarrow> unat (hdr_value_size (header_of r)) = length (lr_value r)"
  using readable_less [of r] by (simp_all add: header_of_def unat_of_nat_u32)

text \<open>The three stored checksums that the reader refuses when they do not match.\<close>

definition bad_crc :: "u32 \<Rightarrow> bool" where
  "bad_crc c \<longleftrightarrow> c = 0 \<or> c = 0xDEADBEEF \<or> c = 0x12345678"

lemma crc_rejected_iff:
  "readable r \<Longrightarrow>
   crc_rejected r ((header_of r)\<lparr>hdr_crc := c\<rparr>) \<longleftrightarrow> c \<noteq> LogRecord_get_crc r \<and> bad_crc c"
  by (auto simp: crc_rejected_def header_of_def bad_crc_def Let_def unat_of_nat_u32
      dest!: readable_less)

lemma drop_header_body:
  "drop (header_length r) (crc_to_bytes c @ record_body r @ rest) = lr_key r @ lr_value r @ rest"
proof -
  let ?h = "crc_to_bytes c @ type_to_byte (lr_type r)
              # encode_varint (of_nat (length (lr_key r)))
              @ encode_varint (of_nat (length (lr_value r)))"
  have "crc_to_bytes c @ record_body r @ rest = ?h @ lr_key r @ lr_value r @ rest"
    by (simp add: record_body_def)
  moreover have "length ?h = header_length r" by (simp add: header_length_def)
  ultimately show ?thesis by (metis append_eq_conv_conj)
qed

lemma length_body: "length (crc_to_bytes c @ record_body r) = length (enc r)"
  by (simp add: fst_LogRecord_encode)

lemma parse_record_body:
  assumes r: "readable r"
  shows "parse_record (crc_to_bytes c @ record_body r @ rest) =
    (if c \<noteq> LogRecord_get_crc r \<and> bad_crc c then Inl InvalidCRCError
     else Inr \<lparr>rr_record = r, rr_size = length (enc r)\<rparr>)"
proof -
  have hb: "7 \<le> header_length r" "header_length r \<le> 15"
    using header_length_bounds readable_less [OF r] by blast+
  define b where "b = crc_to_bytes c @ record_body r @ rest"
  define h where "h = (header_of r)\<lparr>hdr_crc := c\<rparr>"
  have lb: "length b = length (enc r) + length rest"
    using length_body [of c r] by (simp add: b_def)
  have len: "\<not> length b < 5" using hb lb by (simp add: length_LogRecord_encode)
  have dec: "decode_log_record_header (take MAX_LOG_RECORD_HEADER_SIZE b) = Inr (h, header_length r)"
    unfolding b_def h_def using r hb by (intro decode_log_record_header_body)
      (simp_all add: readable_def MAX_LOG_RECORD_HEADER_SIZE_def)
  have ks: "unat (hdr_key_size h) = length (lr_key r)"
    "unat (hdr_value_size h) = length (lr_value r)" "hdr_type h = log_record.lr_type r"
    using r by (simp_all add: h_def) (simp add: header_of_def)
  have nz: "\<not> (hdr_key_size h = 0 \<and> hdr_value_size h = 0)"
    using r ks unfolding readable_def by (metis length_0_conv unat_0)
  have sz: "\<not> (length (lr_key r) > MAX_RECORD_SIZE \<or> length (lr_value r) > MAX_RECORD_SIZE)"
    using r by (simp add: readable_def)
  have ne: "length b \<noteq> header_length r"
    using r by (auto simp: lb length_LogRecord_encode readable_def)
  have kv: "take (length (lr_key r) + length (lr_value r)) (drop (header_length r) b)
      = lr_key r @ lr_value r"
    unfolding b_def drop_header_body by simp
  have rec: "\<lparr>lr_key = lr_key r, lr_value = lr_value r, lr_type = log_record.lr_type r\<rparr> = r"
    by simp
  show ?thesis unfolding b_def [symmetric]
    using nz sz ne len dec kv crc_rejected_iff [OF r, of c, folded h_def]
    by (auto simp: parse_record_def ks split_key_value_append rec Let_def length_LogRecord_encode)
qed

lemma parse_record_enc:
  "readable r \<Longrightarrow> parse_record (enc r @ rest) = Inr \<lparr>rr_record = r, rr_size = length (enc r)\<rparr>"
  using parse_record_body [of r "LogRecord_get_crc r" rest] by (simp add: fst_LogRecord_encode)

lemma parse_record_size:
  assumes "parse_record b = Inr x"
  shows "7 \<le> rr_size x"
proof -
  from assms obtain h hs where "decode_log_record_header (take MAX_LOG_RECORD_HEADER_SIZE b) = Inr (h, hs)"
    and "hs \<le> rr_size x"
    by (auto simp: parse_record_def Let_def split: if_splits sum.splits prod.splits)
  then show ?thesis
    by (auto simp: decode_log_record_header_def Let_def split: if_splits sum.splits prod.splits
        dest!: decode_varint_consumes(1))
qed

text \<open>
  C37: which checksums the reader accepts: for a record whose key and value are complete in the
  file, a stored checksum that does not match is an error only when it is one of three constants;
  with any other wrong checksum the record is returned as if it were intact.
\<close>

theorem crc_check_of_read:
  assumes "io_ok (df_io df) fs c" "length c < 2 ^ 63"
    and "drop (unat off) c = crc_to_bytes stored @ record_body r @ rest"
    and "readable r"
  shows "read_log_record df off fs =
    (if stored \<noteq> LogRecord_get_crc r \<and> (stored = 0 \<or> stored = 0xDEADBEEF \<or> stored = 0x12345678)
     then Inl InvalidCRCError
     else Inr \<lparr>rr_record = r, rr_size = length (fst (LogRecord_encode r))\<rparr>)"
  using read_log_record_parse [OF assms(1,2), of off] parse_record_body [OF assms(4)] assms(3)
  by (simp add: bad_crc_def)

text \<open>
  The premises hold of a one-record file whose checksum bytes are 1, 0, 0, 0: the record is read.
\<close>

abbreviation wit_io :: "string \<Rightarrow> io_manager" where
  "wit_io p \<equiv> \<lparr>io_kind = STANDARD_FIO, io_path = p, io_is_open = True, io_mapped_size = 0\<rparr>"

abbreviation wit_fs :: "string \<Rightarrow> bytes \<Rightarrow> fsys" where
  "wit_fs p c \<equiv> \<lparr>fs_files = [(p, c)], fs_dirs = [], fs_locks = [], fs_page_size = 4096\<rparr>"

lemma io_ok_wit: "io_ok (wit_io p) (wit_fs p c) c"
  by (simp add: io_ok_def fs_get_def)

theorem crc_check_of_read_witness:
  "read_log_record \<lparr>df_file_id = 0, df_write_off = 0, df_io = wit_io ''f''\<rparr> 0
     (wit_fs ''f'' (crc_to_bytes 0xDEADBEEF
        @ record_body \<lparr>lr_key = [107], lr_value = [1], lr_type = NORMAL\<rparr>))
   = (if LogRecord_get_crc \<lparr>lr_key = [107], lr_value = [1], lr_type = NORMAL\<rparr> = 0xDEADBEEF
      then Inr \<lparr>rr_record = \<lparr>lr_key = [107], lr_value = [1], lr_type = NORMAL\<rparr>, rr_size = 9\<rparr>
      else Inl InvalidCRCError)"
  using crc_check_of_read [of "\<lparr>df_file_id = 0, df_write_off = 0, df_io = wit_io ''f''\<rparr>"
      "wit_fs ''f'' (crc_to_bytes 0xDEADBEEF
        @ record_body \<lparr>lr_key = [107], lr_value = [1], lr_type = NORMAL\<rparr>)"
      "crc_to_bytes 0xDEADBEEF @ record_body \<lparr>lr_key = [107], lr_value = [1], lr_type = NORMAL\<rparr>"
      0 "0xDEADBEEF" "\<lparr>lr_key = [107], lr_value = [1], lr_type = NORMAL\<rparr>" "[]"]
  by (simp add: io_ok_wit record_body_def encode_varint_small readable_def MAX_RECORD_SIZE_def
      length_LogRecord_encode header_length_def)

section \<open>Appending\<close>

text \<open>
  An open data file of contents \<open>c\<close> whose write offset lies inside them or at their end. The bound
  keeps offsets in the range of \<open>off_t\<close>.
\<close>

definition df_ok :: "data_file \<Rightarrow> fsys \<Rightarrow> bytes \<Rightarrow> bool" where
  "df_ok df fs c \<longleftrightarrow>
     io_ok (df_io df) fs c \<and> unat (df_write_off df) \<le> length c \<and> length c < 2 ^ 63"

text \<open>Record \<open>r\<close> lies at offset \<open>off\<close> of \<open>c\<close>, all of it before offset \<open>lim\<close>.\<close>

definition stored_at :: "bytes \<Rightarrow> nat \<Rightarrow> nat \<Rightarrow> log_record \<Rightarrow> bool" where
  "stored_at c lim off r \<longleftrightarrow>
     off + length (enc r) \<le> lim \<and> take (length (enc r)) (drop off c) = enc r"

lemma stored_at_read:
  assumes "io_ok (df_io df) fs c" "length c < 2 ^ 63" "stored_at c lim (unat off) r" "readable r"
  shows "read_log_record df off fs = Inr \<lparr>rr_record = r, rr_size = length (enc r)\<rparr>"
proof -
  have "drop (unat off) c = enc r @ drop (length (enc r)) (drop (unat off) c)"
    using assms(3) append_take_drop_id [of "length (enc r)" "drop (unat off) c"]
    by (simp add: stored_at_def)
  then show ?thesis
    using read_log_record_parse [OF assms(1,2), of off] parse_record_enc [OF assms(4)] by metis
qed

lemma stored_at_prefix:
  assumes "stored_at c lim off r" "take n c' = take n c" "lim \<le> n"
  shows "stored_at c' lim off r"
proof -
  have n: "off + length (enc r) \<le> n" using assms by (simp add: stored_at_def)
  have "take (length (enc r)) (drop off c') = drop off (take (off + length (enc r)) c')"
    by (simp add: take_drop add.commute)
  also have "take (off + length (enc r)) c' = take (off + length (enc r)) (take n c')"
    using n by (simp add: min_def)
  also have "\<dots> = take (off + length (enc r)) c" using n assms(2) by (simp add: min_def)
  also have "drop off (take (off + length (enc r)) c) = take (length (enc r)) (drop off c)"
    by (simp add: take_drop add.commute)
  finally show ?thesis using assms(1) by (simp add: stored_at_def)
qed

lemma stored_at_mono: "stored_at c lim off r \<Longrightarrow> lim \<le> lim' \<Longrightarrow> stored_at c lim' off r"
  by (simp add: stored_at_def)

lemma DataFile_write_ok:
  assumes df: "df_ok df fs c" and d: "d \<noteq> []"
    and room: "length c + length d + fs_page_size fs < 2 ^ 63"
  shows "\<exists>df' fs' c'. DataFile_write df d fs = (Inr (length d), df', fs') \<and> df_ok df' fs' c'
    \<and> df_file_id df' = df_file_id df \<and> io_path (df_io df') = io_path (df_io df)
    \<and> unat (df_write_off df') = unat (df_write_off df) + length d
    \<and> take (unat (df_write_off df')) c' = take (unat (df_write_off df)) c @ d
    \<and> length c' \<le> length c + length d + fs_page_size fs \<and> fs_page_size fs' = fs_page_size fs
    \<and> (\<forall>q. q \<noteq> io_path (df_io df) \<longrightarrow> fs_get fs' q = fs_get fs q)"
proof -
  have ok: "io_ok (df_io df) fs c" and off: "unat (df_write_off df) \<le> length c"
    "unat (df_write_off df) < 2 ^ 63"
    using df by (simp_all add: df_ok_def)
  obtain io' fs' c' where w: "io_write (df_io df) d (df_write_off df) fs = (Some (length d), io', fs')"
    and ok': "io_ok io' fs' c'" "io_path io' = io_path (df_io df)"
    and t: "take (unat (df_write_off df) + length d) c' = take (unat (df_write_off df)) c @ d"
    and l: "length c' \<le> length c + length d + fs_page_size fs" "fs_page_size fs' = fs_page_size fs"
    and q: "\<forall>q. q \<noteq> io_path (df_io df) \<longrightarrow> fs_get fs' q = fs_get fs q"
    using io_write_ok [OF ok off d] by blast
  have u: "unat (df_write_off df + of_nat (length d)) = unat (df_write_off df) + length d"
    using off room by (intro unat_add_of_nat) simp
  have "length (take (unat (df_write_off df) + length d) c') = unat (df_write_off df) + length d"
    unfolding t using off(1) by simp
  then have "unat (df_write_off df) + length d \<le> length c'"
    unfolding length_take by linarith
  then show ?thesis
    using w ok' t q u l room
    by (intro exI [of _ "df\<lparr>df_io := io', df_write_off := df_write_off df + of_nat (length d)\<rparr>"]
        exI [of _ fs'] exI [of _ c']) (simp add: DataFile_write_def df_ok_def)
qed

lemma enc_not_Nil [simp]: "enc r \<noteq> []"
  by (simp add: fst_LogRecord_encode crc_to_bytes_def)

text \<open>
  C36: what is appended is read back, and nothing that was there is lost: after writing the encoding
  of a record, reading at the old write offset returns the record with the size of its encoding,
  the write offset has moved behind it, and every record stored before it still reads the same.
\<close>

theorem write_then_read_log_record:
  assumes "df_ok df fs c" and "readable r"
    and "length c + length (fst (LogRecord_encode r)) + fs_page_size fs < 2 ^ 63"
  shows "\<exists>df' fs'. DataFile_write df (fst (LogRecord_encode r)) fs
        = (Inr (length (fst (LogRecord_encode r))), df', fs')
    \<and> read_log_record df' (df_write_off df) fs'
        = Inr \<lparr>rr_record = r, rr_size = length (fst (LogRecord_encode r))\<rparr>
    \<and> unat (get_write_off df') = unat (get_write_off df) + length (fst (LogRecord_encode r))
    \<and> (\<forall>off r'. stored_at c (unat (get_write_off df)) (unat off) r' \<and> readable r'
         \<longrightarrow> read_log_record df' off fs' = Inr \<lparr>rr_record = r', rr_size = length (enc r')\<rparr>)"
proof -
  obtain df' fs' c' where w: "DataFile_write df (enc r) fs = (Inr (length (enc r)), df', fs')"
    and ok': "df_ok df' fs' c'"
    and u: "unat (df_write_off df') = unat (df_write_off df) + length (enc r)"
    and t: "take (unat (df_write_off df')) c' = take (unat (df_write_off df)) c @ enc r"
    using DataFile_write_ok [OF assms(1) enc_not_Nil assms(3)] by blast
  have off: "unat (df_write_off df) \<le> length c" using assms(1) by (simp add: df_ok_def)
  have ok: "io_ok (df_io df') fs' c'" "length c' < 2 ^ 63" using ok' by (simp_all add: df_ok_def)
  have "take (length (enc r)) (drop (unat (df_write_off df)) c')
      = drop (unat (df_write_off df)) (take (unat (df_write_off df')) c')"
    unfolding u by (simp add: take_drop add.commute)
  also have "\<dots> = enc r" unfolding t using off by simp
  finally have st: "stored_at c' (unat (df_write_off df')) (unat (df_write_off df)) r"
    by (simp add: stored_at_def u)
  have "take (unat (df_write_off df)) c' = take (unat (df_write_off df)) (take (unat (df_write_off df')) c')"
    unfolding u by (simp add: min_def)
  also have "\<dots> = take (unat (df_write_off df)) c" unfolding t using off by simp
  finally have pre: "take (unat (df_write_off df)) c' = take (unat (df_write_off df)) c" .
  show ?thesis
    using w u stored_at_read [OF ok st assms(2)] stored_at_read [OF ok stored_at_prefix [OF _ pre order_refl]]
    by (simp add: get_write_off_def)
qed

theorem write_then_read_log_record_witness:
  "\<exists>df' fs'. DataFile_write \<lparr>df_file_id = 0, df_write_off = 2, df_io = wit_io ''f''\<rparr>
       (fst (LogRecord_encode \<lparr>lr_key = [107], lr_value = [1], lr_type = NORMAL\<rparr>))
       (wit_fs ''f'' [5, 6]) = (Inr 9, df', fs')
    \<and> read_log_record df' 2 fs'
        = Inr \<lparr>rr_record = \<lparr>lr_key = [107], lr_value = [1], lr_type = NORMAL\<rparr>, rr_size = 9\<rparr>"
  using write_then_read_log_record [of "\<lparr>df_file_id = 0, df_write_off = 2, df_io = wit_io ''f''\<rparr>"
      "wit_fs ''f'' [5, 6]" "[5, 6]" "\<lparr>lr_key = [107], lr_value = [1], lr_type = NORMAL\<rparr>"]
  by (auto simp: df_ok_def io_ok_wit readable_def MAX_RECORD_SIZE_def encode_varint_small
      length_LogRecord_encode header_length_def)

section \<open>Opening on a file system\<close>

lemma find_last_sep_None: "find_last_sep s = None \<longleftrightarrow> CHR ''/'' \<notin> set s \<and> CHR 0x5C \<notin> set s"
  by (induction s) (auto split: option.splits)

lemma find_last_sep_append:
  "find_last_sep s = None \<Longrightarrow> find_last_sep (d @ CHR ''/'' # s) = Some (length d)"
  by (induction d) (simp_all split: option.splits)

lemma dir_name_append:
  "d \<noteq> [] \<Longrightarrow> find_last_sep s = None \<Longrightarrow> dir_name (d @ CHR ''/'' # s) = d"
  by (simp add: dir_name_def find_last_sep_append)

lemma dir_name_data_file [simp]: "d \<noteq> [] \<Longrightarrow> dir_name (get_data_file_name d fid) = d"
proof -
  assume d: "d \<noteq> []"
  let ?s = "pad_left 9 (digit_char 0) (show_nat (unat fid)) @ DATA_FILE_SUFFIX"
  have "\<not> is_digit (CHR 0x5C)" by (simp add: is_digit_def)
  then have "CHR ''/'' \<notin> set ?s" "CHR 0x5C \<notin> set ?s"
    using pad_left_digits not_digit_chars by (fastforce simp: DATA_FILE_SUFFIX_def)+
  then have "find_last_sep ?s = None" by (simp add: find_last_sep_None)
  from dir_name_append [OF d this] show ?thesis by (simp add: get_data_file_name_def)
qed

text \<open>The manager of an open data file.\<close>

definition file_io :: "string \<Rightarrow> io_manager" where
  "file_io p = \<lparr>io_kind = STANDARD_FIO, io_path = p, io_is_open = True, io_mapped_size = 0\<rparr>"

text \<open>In a directory that exists, a data file is opened, created empty when it is not there.\<close>

lemma open_data_file_ok:
  assumes "directory_exists d fs" "d \<noteq> []" "\<not> directory_exists (get_data_file_name d fid) fs"
  shows "open_data_file d fid STANDARD_FIO fs =
    (Inr \<lparr>df_file_id = fid, df_write_off = 0, df_io = file_io (get_data_file_name d fid)\<rparr>,
     if file_exists (get_data_file_name d fid) fs then fs
     else fs_put (get_data_file_name d fid) [] fs)"
  using assms
  by (simp add: open_data_file_def DataFile_new_def create_io_manager_def FileIOManager_new_def
      file_io_def Let_def)

lemma file_io_simps [simp]: "io_path (file_io p) = p"
  by (simp add: file_io_def)

lemma file_io_ok: "fs_get fs p = Some c \<Longrightarrow> 0 < fs_page_size fs \<Longrightarrow> io_ok (file_io p) fs c"
  by (simp add: io_ok_def file_io_def)

text \<open>Opening a special file where data file 0 is there: only its own path changes, which exists then.\<close>

lemma open_special_file_ok:
  assumes "dir \<noteq> []" "directory_exists dir fs" "file_exists (get_data_file_name dir 0) fs"
    "\<not> directory_exists (get_data_file_name dir 0) fs" "\<not> directory_exists (dir @ ''/'' @ name) fs"
    "find_last_sep name = None"
  shows "open_special_file name dir fs =
    (Inr \<lparr>df_file_id = 0, df_write_off = 0, df_io = file_io (dir @ ''/'' @ name)\<rparr>,
     if file_exists (dir @ ''/'' @ name) fs then fs else fs_put (dir @ ''/'' @ name) [] fs)"
  using open_data_file_ok [OF assms(2,1,4)] assms dir_name_append [OF assms(1,6)]
  by (simp add: open_special_file_def open_data_file_def create_io_manager_def FileIOManager_new_def
      file_io_def Let_def)

lemma plain_names:
  "find_last_sep HINT_FILE_NAME = None" "find_last_sep MERGE_FINISHED_FILE_NAME = None"
  "find_last_sep FILE_LOCK_NAME = None" "find_last_sep SEQ_NO_FILE_NAME = None" "find_last_sep ''merge'' = None"
  by (simp_all add: HINT_FILE_NAME_def MERGE_FINISHED_FILE_NAME_def FILE_LOCK_NAME_def SEQ_NO_FILE_NAME_def)

end
