(* ===== verification/Index.thy ===== *)
theory Index
  imports Log_Record
begin

text \<open>
  The index interface (\<open>include/bitcask/index.h\<close>) as a locale over an abstract map from keys to
  positions, the iterator interface as a locale over the list of entries still to be visited, and
  the ordered-map index \<open>BTreeIndex\<close> with its iterator (\<open>src/index.cpp\<close>). \<open>std::map\<close> is an
  association list in increasing key order; \<open>operator<\<close> on byte vectors is the lexicographic order.
\<close>

section \<open>The interface\<close>

type_synonym entry = "bytes \<times> log_record_pos"

text \<open>An update of an index: \<open>Some p\<close> puts, \<open>None\<close> removes.\<close>

definition index_update ::
    "(bytes \<Rightarrow> log_record_pos \<Rightarrow> 'i \<Rightarrow> log_record_pos option \<times> 'i)
     \<Rightarrow> (bytes \<Rightarrow> 'i \<Rightarrow> (log_record_pos option \<times> bool) \<times> 'i)
     \<Rightarrow> bytes \<times> log_record_pos option \<Rightarrow> 'i \<Rightarrow> 'i" where
  "index_update put remove u i =
     (case u of (k, Some p) \<Rightarrow> snd (put k p i) | (k, None) \<Rightarrow> snd (remove k i))"

locale indexer =
  fixes inv :: "'i \<Rightarrow> bool"
    and abs :: "'i \<Rightarrow> bytes \<Rightarrow> log_record_pos option"
    and put :: "bytes \<Rightarrow> log_record_pos \<Rightarrow> 'i \<Rightarrow> log_record_pos option \<times> 'i"
    and get :: "bytes \<Rightarrow> 'i \<Rightarrow> log_record_pos option"
    and remove :: "bytes \<Rightarrow> 'i \<Rightarrow> (log_record_pos option \<times> bool) \<times> 'i"
    and sz :: "'i \<Rightarrow> nat"
    and keys :: "'i \<Rightarrow> bytes list"
  assumes put_ret: "inv i \<Longrightarrow> fst (put k p i) = abs i k"
    and put_abs: "inv i \<Longrightarrow> abs (snd (put k p i)) = (abs i)(k \<mapsto> p)"
    and put_inv: "inv i \<Longrightarrow> inv (snd (put k p i))"
    and get_abs: "inv i \<Longrightarrow> get k i = abs i k"
    and remove_ret: "inv i \<Longrightarrow> fst (remove k i) = (abs i k, abs i k \<noteq> None)"
    and remove_abs: "inv i \<Longrightarrow> abs (snd (remove k i)) = (abs i)(k := None)"
    and remove_inv: "inv i \<Longrightarrow> inv (snd (remove k i))"
    and keys_set: "inv i \<Longrightarrow> set (keys i) = dom (abs i)"
    and keys_sorted: "inv i \<Longrightarrow> sorted (keys i) \<and> distinct (keys i)"
    and sz_keys: "inv i \<Longrightarrow> sz i = length (keys i)"
begin

lemma sz_card: "inv i \<Longrightarrow> sz i = card (dom (abs i))"
  using sz_keys keys_set keys_sorted distinct_card by metis

lemma get_put: "inv i \<Longrightarrow> get k (snd (put k' p i)) = (if k = k' then Some p else get k i)"
  by (simp add: get_abs put_abs put_inv)

lemma get_remove: "inv i \<Longrightarrow> get k (snd (remove k' i)) = (if k = k' then None else get k i)"
  by (simp add: get_abs remove_abs remove_inv)

lemma remove_twice: "inv i \<Longrightarrow> fst (remove k (snd (remove k i))) = (None, False)"
  by (simp add: remove_ret remove_abs remove_inv)

lemma put_put_abs: "inv i \<Longrightarrow> abs (snd (put k q (snd (put k p i)))) = abs (snd (put k q i))"
  by (simp add: put_abs put_inv)

lemma update_abs:
  "inv i \<Longrightarrow> abs (index_update put remove u i) = (abs i)(fst u := snd u)
    \<and> inv (index_update put remove u i)"
  by (cases u) (auto simp: index_update_def put_abs put_inv remove_abs remove_inv split: option.split)

lemma history_abs:
  "inv i \<Longrightarrow> abs (fold (index_update put remove) us i) = fold (\<lambda>u m. m(fst u := snd u)) us (abs i)
    \<and> inv (fold (index_update put remove) us i)"
  by (induction us arbitrary: i) (simp_all add: update_abs)

text \<open>What the operations return after a sequence of updates of an index that was empty.\<close>

lemma history_results:
  fixes us :: "(bytes \<times> log_record_pos option) list"
  assumes "inv i" "abs i = Map.empty"
  defines "i' \<equiv> fold (index_update put remove) us i"
    and "m \<equiv> fold (\<lambda>u m. m(fst u := snd u)) us (Map.empty :: bytes \<Rightarrow> log_record_pos option)"
  shows "(\<forall>k. get k i' = m k) \<and> keys i' = sorted_list_of_set (dom m) \<and> sz i' = card (dom m)"
proof -
  have i': "abs i' = m" "inv i'" using history_abs [OF assms(1), of us] assms(2) by (simp_all add: i'_def m_def)
  have "keys i' = sorted_list_of_set (dom m)"
    using keys_sorted [OF i'(2)] keys_set [OF i'(2)] i'(1)
    by (metis sorted_list_of_set.idem_if_sorted_distinct)
  then show ?thesis using i' get_abs sz_card by auto
qed

end

text \<open>\<open>for (; iter->valid(); iter->next())\<close>: the entries that a loop of at most \<open>n\<close> steps visits.\<close>

fun visit :: "('it \<Rightarrow> bool) \<Rightarrow> ('it \<Rightarrow> entry) \<Rightarrow> ('it \<Rightarrow> 'it) \<Rightarrow> nat \<Rightarrow> 'it \<Rightarrow> entry list" where
  "visit valid cur nxt 0 it = []"
| "visit valid cur nxt (Suc n) it =
     (if valid it then cur it # visit valid cur nxt n (nxt it) else [])"

text \<open>
  The iterator interface: \<open>rest\<close> is the list of entries from the current position on, \<open>full\<close> the
  list that a rewind returns to.
\<close>

locale index_iterator =
  fixes iinv :: "'it \<Rightarrow> bool"
    and rest :: "'it \<Rightarrow> entry list"
    and full :: "'it \<Rightarrow> entry list"
    and rewind :: "'it \<Rightarrow> 'it"
    and nxt :: "'it \<Rightarrow> 'it"
    and valid :: "'it \<Rightarrow> bool"
    and cur :: "'it \<Rightarrow> entry"
  assumes valid_rest: "iinv it \<Longrightarrow> valid it \<longleftrightarrow> rest it \<noteq> []"
    and cur_rest: "iinv it \<Longrightarrow> rest it \<noteq> [] \<Longrightarrow> cur it = hd (rest it)"
    and next_rest: "iinv it \<Longrightarrow> rest (nxt it) = tl (rest it)"
    and next_inv: "iinv it \<Longrightarrow> iinv (nxt it) \<and> full (nxt it) = full it"
    and rewind_rest: "iinv it \<Longrightarrow> rest (rewind it) = full it"
    and rewind_inv: "iinv it \<Longrightarrow> iinv (rewind it) \<and> full (rewind it) = full it"
begin

lemma visit_rest: "iinv it \<Longrightarrow> visit valid cur nxt n it = take n (rest it)"
proof (induction n arbitrary: it)
  case (Suc n)
  show ?case
  proof (cases "rest it")
    case Nil
    then show ?thesis using Suc.prems valid_rest by simp
  next
    case (Cons e es)
    then show ?thesis using Suc.prems Suc.IH [of "nxt it"] valid_rest cur_rest next_rest next_inv
      by simp
  qed
qed simp

lemma visit_all: "iinv it \<Longrightarrow> length (full it) \<le> n \<Longrightarrow> visit valid cur nxt n (rewind it) = full it"
  by (simp add: visit_rest rewind_inv rewind_rest)

end

text \<open>\<open>key_matches_prefix\<close> of the iterators.\<close>

definition key_matches_prefix :: "bytes \<Rightarrow> bytes \<Rightarrow> bool" where
  "key_matches_prefix prefix key =
     (if prefix = [] then True
      else if length key < length prefix then False
      else take (length prefix) key = prefix)"

lemma key_matches_prefix_Nil [simp]: "key_matches_prefix [] key"
  by (simp add: key_matches_prefix_def)

section \<open>\<open>std::map\<close>\<close>

fun map_set :: "bytes \<Rightarrow> log_record_pos \<Rightarrow> entry list \<Rightarrow> entry list" where
  "map_set k p [] = [(k, p)]"
| "map_set k p ((k', p') # m) =
     (if k < k' then (k, p) # (k', p') # m
      else if k = k' then (k, p) # m
      else (k', p') # map_set k p m)"

fun map_find :: "bytes \<Rightarrow> entry list \<Rightarrow> log_record_pos option" where
  "map_find k [] = None"
| "map_find k ((k', p') # m) = (if k = k' then Some p' else map_find k m)"

fun map_erase :: "bytes \<Rightarrow> entry list \<Rightarrow> entry list" where
  "map_erase k [] = []"
| "map_erase k ((k', p') # m) = (if k = k' then m else (k', p') # map_erase k m)"

definition ordered :: "entry list \<Rightarrow> bool" where
  "ordered m \<longleftrightarrow> sorted_wrt (<) (map fst m)"

lemma ordered_simps [simp]:
  "ordered []" "ordered ((k, p) # m) \<longleftrightarrow> (\<forall>k' \<in> fst ` set m. k < k') \<and> ordered m"
  by (auto simp: ordered_def)

lemma map_find_map_of: "map_find k m = map_of m k"
  by (induction k m rule: map_find.induct) auto

lemma map_set_keys: "fst ` set (map_set k p m) = insert k (fst ` set m)"
  by (induction k p m rule: map_set.induct) auto

lemma ordered_map_set: "ordered m \<Longrightarrow> ordered (map_set k p m)"
  by (induction k p m rule: map_set.induct) (auto simp: map_set_keys)

lemma map_find_set: "ordered m \<Longrightarrow> map_find j (map_set k p m) = (if j = k then Some p else map_find j m)"
  by (induction k p m rule: map_set.induct) auto

lemma map_erase_keys: "ordered m \<Longrightarrow> fst ` set (map_erase k m) = fst ` set m - {k}"
  by (induction k m rule: map_erase.induct) auto

lemma ordered_map_erase: "ordered m \<Longrightarrow> ordered (map_erase k m)"
  by (induction k m rule: map_erase.induct) (auto simp: map_erase_keys)

lemma map_find_None: "map_find k m = None \<longleftrightarrow> k \<notin> fst ` set m"
  by (simp add: map_find_map_of map_of_eq_None_iff)

lemma map_find_erase:
  "ordered m \<Longrightarrow> map_find j (map_erase k m) = (if j = k then None else map_find j m)"
  by (induction k m rule: map_erase.induct) (auto simp: map_find_None, force+)

lemma map_erase_absent: "map_find k m = None \<Longrightarrow> map_erase k m = m"
  by (induction k m rule: map_erase.induct) (auto split: if_splits)

lemma ordered_keys: "ordered m \<Longrightarrow> sorted (map fst m) \<and> distinct (map fst m)"
  by (simp add: ordered_def strict_sorted_iff)

text \<open>
  A map cut at a key: every key of the first part is less than \<open>k\<close>, every key of the second is at
  least \<open>k\<close>. Searches that stop at the first key not below \<open>k\<close> find this cut.
\<close>

definition cut_at :: "bytes \<Rightarrow> entry list \<Rightarrow> entry list \<Rightarrow> bool" where
  "cut_at k m1 m2 \<longleftrightarrow> (\<forall>e \<in> set m1. fst e < k) \<and> (\<forall>e \<in> set m2. k \<le> fst e) \<and> ordered m2"

lemma map_set_cut:
  "cut_at k m1 m2 \<Longrightarrow>
   map_set k p (m1 @ m2) = m1 @ (k, p) # (if m2 \<noteq> [] \<and> fst (hd m2) = k then tl m2 else m2)"
proof (induction m1)
  case Nil
  then show ?case by (cases m2) (auto simp: cut_at_def)
next
  case (Cons e m1)
  then have "fst e < k" "cut_at k m1 m2" by (auto simp: cut_at_def)
  with Cons show ?case by (cases e) auto
qed

lemma map_find_cut:
  "cut_at k m1 m2 \<Longrightarrow>
   map_find k (m1 @ m2) = (if m2 \<noteq> [] \<and> fst (hd m2) = k then Some (snd (hd m2)) else None)"
proof (induction m1)
  case Nil
  then show ?case by (cases m2) (auto simp: cut_at_def map_find_None, metis fst_conv leD)
next
  case (Cons e m1)
  then have "fst e < k" "cut_at k m1 m2" by (auto simp: cut_at_def)
  with Cons show ?case by (cases e) auto
qed

lemma map_erase_cut:
  "cut_at k m1 m2 \<Longrightarrow> m2 \<noteq> [] \<Longrightarrow> fst (hd m2) = k \<Longrightarrow> map_erase k (m1 @ m2) = m1 @ tl m2"
proof (induction m1)
  case Nil
  then show ?case by (cases m2) auto
next
  case (Cons e m1)
  then have "fst e < k" "cut_at k m1 m2" by (auto simp: cut_at_def)
  with Cons show ?case by (cases e) auto
qed

section \<open>\<open>BTreeIndex\<close>\<close>

type_synonym btree_index = "entry list"

definition BTreeIndex_new :: btree_index where
  "BTreeIndex_new = []"

definition BTreeIndex_put :: "bytes \<Rightarrow> log_record_pos \<Rightarrow> btree_index \<Rightarrow> log_record_pos option \<times> btree_index" where
  "BTreeIndex_put key pos tree =
     (case map_find key tree of
        Some old_pos \<Rightarrow> (Some old_pos, map_set key pos tree)
      | None \<Rightarrow> (None, map_set key pos tree))"

definition BTreeIndex_get :: "bytes \<Rightarrow> btree_index \<Rightarrow> log_record_pos option" where
  "BTreeIndex_get key tree = map_find key tree"

definition BTreeIndex_remove ::
    "bytes \<Rightarrow> btree_index \<Rightarrow> (log_record_pos option \<times> bool) \<times> btree_index" where
  "BTreeIndex_remove key tree =
     (case map_find key tree of
        Some old_pos \<Rightarrow> ((Some old_pos, True), map_erase key tree)
      | None \<Rightarrow> ((None, False), tree))"

definition BTreeIndex_size :: "btree_index \<Rightarrow> nat" where
  "BTreeIndex_size tree = length tree"

definition BTreeIndex_list_keys :: "btree_index \<Rightarrow> bytes list" where
  "BTreeIndex_list_keys tree = map fst tree"

definition BTreeIndex_close :: "btree_index \<Rightarrow> btree_index" where
  "BTreeIndex_close tree = []"

interpretation bt: indexer ordered "\<lambda>m k. map_find k m" BTreeIndex_put BTreeIndex_get
    BTreeIndex_remove BTreeIndex_size BTreeIndex_list_keys
proof unfold_locales
  fix m :: "entry list" and k p
  assume m: "ordered m"
  show "(\<lambda>j. map_find j (snd (BTreeIndex_put k p m))) = (\<lambda>j. map_find j m)(k \<mapsto> p)"
    using m by (auto simp: BTreeIndex_put_def map_find_set split: option.split)
  show "(\<lambda>j. map_find j (snd (BTreeIndex_remove k m))) = (\<lambda>j. map_find j m)(k := None)"
    using m by (auto simp: BTreeIndex_remove_def map_find_erase split: option.split)
  show "set (BTreeIndex_list_keys m) = dom (\<lambda>k. map_find k m)"
    by (auto simp: BTreeIndex_list_keys_def dom_def map_find_None)
qed (auto simp: BTreeIndex_put_def BTreeIndex_remove_def BTreeIndex_get_def BTreeIndex_size_def
    BTreeIndex_list_keys_def ordered_map_set ordered_map_erase ordered_keys split: option.split)

section \<open>\<open>BTreeIterator\<close>\<close>

record btree_iterator =
  bi_items :: "entry list"
  bi_index :: nat
  bi_reverse :: bool

definition BTreeIterator_new :: "entry list \<Rightarrow> bool \<Rightarrow> btree_iterator" where
  "BTreeIterator_new tree reverse =
     \<lparr>bi_items = (if reverse then rev tree else tree), bi_index = 0, bi_reverse = reverse\<rparr>"

definition BTreeIterator_rewind :: "btree_iterator \<Rightarrow> btree_iterator" where
  "BTreeIterator_rewind it = it\<lparr>bi_index := 0\<rparr>"

text \<open>\<open>for (i = 0; i < items.size(); ++i) if (P(items[i].first)) return i\<close>, else \<open>items.size()\<close>.\<close>

fun find_index :: "(bytes \<Rightarrow> bool) \<Rightarrow> entry list \<Rightarrow> nat" where
  "find_index P [] = 0"
| "find_index P ((k, p) # m) = (if P k then 0 else Suc (find_index P m))"

definition BTreeIterator_seek :: "bytes \<Rightarrow> btree_iterator \<Rightarrow> btree_iterator" where
  "BTreeIterator_seek key it =
     (if bi_reverse it then it\<lparr>bi_index := find_index (\<lambda>k. k \<le> key) (bi_items it)\<rparr>
      else it\<lparr>bi_index := find_index (\<lambda>k. k \<ge> key) (bi_items it)\<rparr>)"

definition BTreeIterator_next :: "btree_iterator \<Rightarrow> btree_iterator" where
  "BTreeIterator_next it =
     (if bi_index it < length (bi_items it) then it\<lparr>bi_index := bi_index it + 1\<rparr> else it)"

definition BTreeIterator_valid :: "btree_iterator \<Rightarrow> bool" where
  "BTreeIterator_valid it \<longleftrightarrow> bi_index it < length (bi_items it)"

definition BTreeIterator_key :: "btree_iterator \<Rightarrow> bytes res" where
  "BTreeIterator_key it =
     (if \<not> BTreeIterator_valid it then Inl (BitcaskException ''Iterator is not valid'')
      else Inr (fst (bi_items it ! bi_index it)))"

definition BTreeIterator_value :: "btree_iterator \<Rightarrow> log_record_pos res" where
  "BTreeIterator_value it =
     (if \<not> BTreeIterator_valid it then Inl (BitcaskException ''Iterator is not valid'')
      else Inr (snd (bi_items it ! bi_index it)))"

definition BTreeIterator_close :: "btree_iterator \<Rightarrow> btree_iterator" where
  "BTreeIterator_close it = it\<lparr>bi_items := [], bi_index := 0\<rparr>"

definition bi_rest :: "btree_iterator \<Rightarrow> entry list" where
  "bi_rest it = drop (bi_index it) (bi_items it)"

definition bi_entry :: "btree_iterator \<Rightarrow> entry" where
  "bi_entry it = bi_items it ! bi_index it"

abbreviation bi_visit :: "nat \<Rightarrow> btree_iterator \<Rightarrow> entry list" where
  "bi_visit \<equiv> visit BTreeIterator_valid bi_entry BTreeIterator_next"

interpretation bi: index_iterator "\<lambda>_. True" bi_rest bi_items BTreeIterator_rewind
    BTreeIterator_next BTreeIterator_valid bi_entry
  by unfold_locales (auto simp: bi_rest_def BTreeIterator_rewind_def BTreeIterator_next_def
      BTreeIterator_valid_def bi_entry_def hd_drop_conv_nth tl_drop drop_Suc [symmetric] simp flip: drop_Suc)

lemma find_index_drop: "drop (find_index P m) m = dropWhile (\<lambda>e. \<not> P (fst e)) m"
  by (induction P m rule: find_index.induct) auto

lemma dropWhile_less_filter:
  "ordered m \<Longrightarrow> dropWhile (\<lambda>e. \<not> fst e \<ge> k) m = [e \<leftarrow> m. fst e \<ge> k]"
proof (induction m)
  case (Cons e m)
  show ?case
  proof (cases "fst e \<ge> k")
    case True
    then have "\<forall>e' \<in> set m. fst e' \<ge> k" using Cons.prems by (cases e) fastforce
    with True show ?thesis by (simp add: filter_id_conv [THEN iffD2])
  next
    case False
    with Cons show ?thesis by (cases e) simp
  qed
qed simp

lemma dropWhile_greater_filter:
  "ordered m \<Longrightarrow> dropWhile (\<lambda>e. \<not> fst e \<le> k) (rev m) = rev [e \<leftarrow> m. fst e \<le> k]"
proof (induction m)
  case (Cons e m)
  have m: "dropWhile (\<lambda>e. \<not> fst e \<le> k) (rev m) = rev [e \<leftarrow> m. fst e \<le> k]"
    using Cons by (cases e) simp
  show ?case
  proof (cases "\<exists>e' \<in> set m. fst e' \<le> k")
    case True
    then have "fst e \<le> k" using Cons.prems by (cases e) fastforce
    with True m show ?thesis by (auto simp: dropWhile_append)
  next
    case False
    then have "[e \<leftarrow> m. fst e \<le> k] = []" by (simp add: filter_empty_conv)
    with False m show ?thesis by (auto simp: dropWhile_append)
  qed
qed simp

text \<open>
  What a cursor of the ordered-map index visits: after a rewind every entry, in increasing key
  order, or decreasing when reversed; after a \<open>seek\<close> exactly the entries whose key is not less
  (reversed: not greater) than the one sought, in the same order.
\<close>

theorem BTreeIterator_visits:
  assumes "ordered tree" and "length tree \<le> n"
  shows "bi_visit n (BTreeIterator_rewind (BTreeIterator_new tree False)) = tree
    \<and> bi_visit n (BTreeIterator_rewind (BTreeIterator_new tree True)) = rev tree
    \<and> bi_visit n (BTreeIterator_seek k (BTreeIterator_new tree False)) = [e \<leftarrow> tree. k \<le> fst e]
    \<and> bi_visit n (BTreeIterator_seek k (BTreeIterator_new tree True)) = rev [e \<leftarrow> tree. fst e \<le> k]"
proof -
  have len: "length (filter P tree) \<le> n" for P
    using assms(2) length_filter_le [of P tree] by linarith
  have "bi_visit n (BTreeIterator_rewind (BTreeIterator_new tree False)) = tree"
    "bi_visit n (BTreeIterator_rewind (BTreeIterator_new tree True)) = rev tree"
    using assms(2) by (simp_all add: bi.visit_all BTreeIterator_new_def)
  moreover have "bi_visit n (BTreeIterator_seek k (BTreeIterator_new tree False))
      = [e \<leftarrow> tree. k \<le> fst e]"
    using dropWhile_less_filter [OF assms(1), of k] len
    by (simp add: bi.visit_rest bi_rest_def BTreeIterator_seek_def BTreeIterator_new_def
        find_index_drop)
  moreover have "bi_visit n (BTreeIterator_seek k (BTreeIterator_new tree True))
      = rev [e \<leftarrow> tree. fst e \<le> k]"
    using dropWhile_greater_filter [OF assms(1), of k] len
    by (simp add: bi.visit_rest bi_rest_def BTreeIterator_seek_def BTreeIterator_new_def
        find_index_drop)
  ultimately show ?thesis by blast
qed

abbreviation wit_tree :: "entry list" where
  "wit_tree \<equiv> [([1], \<lparr>pos_fid = 0, pos_offset = 0, pos_size = 9\<rparr>),
               ([1, 2], \<lparr>pos_fid = 0, pos_offset = 9, pos_size = 9\<rparr>),
               ([3], \<lparr>pos_fid = 0, pos_offset = 18, pos_size = 9\<rparr>)]"

theorem BTreeIterator_visits_witness:
  "map fst (bi_visit 3 (BTreeIterator_seek [2] (BTreeIterator_new wit_tree True))) = [[1, 2], [1]]"
  using BTreeIterator_visits [of wit_tree 3 "[2]"] by simp

end
