(* ===== verification/Bplus_Tree.thy ===== *)
theory Bplus_Tree
  imports Index File_System
begin

text \<open>
  The B+ tree index (\<open>include/bitcask/bplus_tree_index.h\<close>, \<open>src/bplus_tree_index.cpp\<close>): nodes, the
  binary search inside a node, insertion into and deletion from a leaf, the iterator, and the index
  file it is saved to. Insertion never splits a node, so a tree that the program builds is one
  leaf; inner nodes come only from a file. The \<open>next\<close> pointers are set by \<open>split_leaf\<close> alone, which
  nothing calls: the model leaves them out. Integers in the file have the little-endian layout of
  the host.
\<close>

section \<open>Nodes\<close>

text \<open>The type byte: 0 is \<open>INTERNAL\<close>, 1 is \<open>LEAF\<close>; a file may hold any other.\<close>

datatype bnode =
  BNode (bn_type: u8) (bn_keys: "bytes list") (bn_values: "log_record_pos list")
        (bn_children: "bnode list")

definition INTERNAL :: u8 where "INTERNAL = 0"
definition LEAF :: u8 where "LEAF = 1"
definition MAX_KEYS :: nat where "MAX_KEYS = 64"

definition new_leaf :: bnode where
  "new_leaf = BNode LEAF [] [] []"

record bptree =
  bp_dir :: string
  bp_root :: bnode

text \<open>\<open>compare_keys\<close>: the loop over the common length, then the comparison of the lengths.\<close>

fun compare_keys :: "bytes \<Rightarrow> bytes \<Rightarrow> int" where
  "compare_keys [] [] = 0"
| "compare_keys [] (y # ys) = -1"
| "compare_keys (x # xs) [] = 1"
| "compare_keys (x # xs) (y # ys) = (if x < y then -1 else if x > y then 1 else compare_keys xs ys)"

function find_key_loop :: "bytes list \<Rightarrow> bytes \<Rightarrow> nat \<Rightarrow> nat \<Rightarrow> nat" where
  "find_key_loop ks key left right =
     (if left < right then
        (let mid = left + (right - left) div 2 in
         if compare_keys (ks ! mid) key < 0 then find_key_loop ks key (mid + 1) right
         else find_key_loop ks key left mid)
      else left)"
  by pat_completeness auto
termination
  by (relation "measure (\<lambda>(ks, key, left, right). right - left)") auto

declare find_key_loop.simps [simp del]

definition find_key_position :: "bnode \<Rightarrow> bytes \<Rightarrow> nat" where
  "find_key_position node key = find_key_loop (bn_keys node) key 0 (length (bn_keys node))"

definition insert_to_leaf ::
    "bytes \<Rightarrow> log_record_pos \<Rightarrow> bnode \<Rightarrow> log_record_pos option \<times> bnode" where
  "insert_to_leaf key pos leaf =
     (case leaf of BNode t ks vs cs \<Rightarrow>
        (let insert_pos = find_key_position leaf key in
         if insert_pos < length ks \<and> compare_keys (ks ! insert_pos) key = 0
         then (Some (vs ! insert_pos), BNode t ks (vs[insert_pos := pos]) cs)
         else (None, BNode t (take insert_pos ks @ key # drop insert_pos ks)
                       (take insert_pos vs @ pos # drop insert_pos vs) cs)))"

definition delete_from_leaf ::
    "bytes \<Rightarrow> bnode \<Rightarrow> (log_record_pos option \<times> bool) \<times> bnode" where
  "delete_from_leaf key leaf =
     (case leaf of BNode t ks vs cs \<Rightarrow>
        (let pos = find_key_position leaf key in
         if pos < length ks \<and> compare_keys (ks ! pos) key = 0
         then ((Some (vs ! pos), True),
               BNode t (take pos ks @ drop (Suc pos) ks) (take pos vs @ drop (Suc pos) vs) cs)
         else ((None, False), leaf)))"

text \<open>
  \<open>find_leaf\<close> follows \<open>children[pos]\<close> while the node is internal; the leaf is then read or changed
  in place. \<open>at_leaf f\<close> applies \<open>f\<close> to that leaf and puts the result back. (An internal node that
  was loaded has one child more than keys, so the position is always one of a child.)
\<close>

lemma size_child [termination_simp]: "n < length cs \<Longrightarrow> size (cs ! n) < Suc (size_list size cs)"
  by (metis less_Suc_eq_le less_or_eq_imp_le nth_mem size_list_estimation')

function at_leaf :: "(bnode \<Rightarrow> 'r \<times> bnode) \<Rightarrow> bytes \<Rightarrow> bnode \<Rightarrow> 'r \<times> bnode" where
  "at_leaf f key (BNode t ks vs cs) =
     (let pos = find_key_position (BNode t ks vs cs) key in
      if t = INTERNAL \<and> pos < length cs
      then (case at_leaf f key (cs ! pos) of (r, c) \<Rightarrow> (r, BNode t ks vs (cs[pos := c])))
      else f (BNode t ks vs cs))"
  by pat_completeness auto
termination
  by (relation "measure (\<lambda>(f, key, n). size n)") (auto simp: size_child)

declare at_leaf.simps [simp del]

function find_first_leaf :: "bnode \<Rightarrow> bnode" where
  "find_first_leaf (BNode t ks vs cs) =
     (if t = INTERNAL \<and> 0 < length cs then find_first_leaf (cs ! 0) else BNode t ks vs cs)"
  by pat_completeness auto
termination
  by (relation "measure size") (auto simp: size_child)

declare find_first_leaf.simps [simp del]

text \<open>
  \<open>split_leaf\<close>, which no operation calls: the second half of the entries goes to a new leaf, which
  follows the old one in the list of leaves. The result is the old leaf and the new one.
\<close>

definition BPlusTreeIndex_split_leaf :: "bnode \<Rightarrow> bnode \<times> bnode" where
  "BPlusTreeIndex_split_leaf leaf =
     (case leaf of BNode t ks vs cs \<Rightarrow>
        (let mid = length ks div 2 in
         (BNode t (take mid ks) (take mid vs) cs, BNode LEAF (drop mid ks) (drop mid vs) [])))"

lemma split_leaf_keeps:
  assumes "BPlusTreeIndex_split_leaf leaf = (l, r)" "sorted (bn_keys leaf)"
  shows "zip (bn_keys l) (bn_values l) @ zip (bn_keys r) (bn_values r) = zip (bn_keys leaf) (bn_values leaf)"
    and "sorted (bn_keys l) \<and> sorted (bn_keys r) \<and> (\<forall>a \<in> set (bn_keys l). \<forall>b \<in> set (bn_keys r). a \<le> b)"
    and "length (bn_keys l) \<le> length (bn_keys r) \<and> length (bn_keys r) \<le> length (bn_keys l) + 1"
proof -
  obtain t ks vs cs where leaf: "leaf = BNode t ks vs cs" by (cases leaf)
  let ?m = "length ks div 2"
  have lr: "l = BNode t (take ?m ks) (take ?m vs) cs" "r = BNode LEAF (drop ?m ks) (drop ?m vs) []"
    using assms(1) by (auto simp: BPlusTreeIndex_split_leaf_def leaf Let_def)
  show "zip (bn_keys l) (bn_values l) @ zip (bn_keys r) (bn_values r) = zip (bn_keys leaf) (bn_values leaf)"
    by (simp add: lr leaf take_zip [symmetric] drop_zip [symmetric])
  have "sorted (take ?m ks @ drop ?m ks)" using assms(2) by (simp add: leaf)
  then show "sorted (bn_keys l) \<and> sorted (bn_keys r) \<and> (\<forall>a \<in> set (bn_keys l). \<forall>b \<in> set (bn_keys r). a \<le> b)"
    unfolding sorted_append by (simp add: lr)
  show "length (bn_keys l) \<le> length (bn_keys r) \<and> length (bn_keys r) \<le> length (bn_keys l) + 1"
    by (simp add: lr) linarith
qed

section \<open>The operations of the index\<close>

definition BPlusTreeIndex_put ::
    "bytes \<Rightarrow> log_record_pos \<Rightarrow> bptree \<Rightarrow> log_record_pos option \<times> bptree" where
  "BPlusTreeIndex_put key pos t =
     (case at_leaf (insert_to_leaf key pos) key (bp_root t) of
        (old_pos, root) \<Rightarrow> (old_pos, t\<lparr>bp_root := root\<rparr>))"

definition BPlusTreeIndex_get :: "bytes \<Rightarrow> bptree \<Rightarrow> log_record_pos option" where
  "BPlusTreeIndex_get key t =
     fst (at_leaf (\<lambda>leaf.
        (let pos = find_key_position leaf key in
         if pos < length (bn_keys leaf) \<and> compare_keys (bn_keys leaf ! pos) key = 0
         then Some (bn_values leaf ! pos) else None, leaf)) key (bp_root t))"

definition BPlusTreeIndex_remove ::
    "bytes \<Rightarrow> bptree \<Rightarrow> (log_record_pos option \<times> bool) \<times> bptree" where
  "BPlusTreeIndex_remove key t =
     (case at_leaf (delete_from_leaf key) key (bp_root t) of
        (r, root) \<Rightarrow> (r, t\<lparr>bp_root := root\<rparr>))"

definition BPlusTreeIndex_list_keys :: "bptree \<Rightarrow> bytes list" where
  "BPlusTreeIndex_list_keys t = bn_keys (find_first_leaf (bp_root t))"

definition BPlusTreeIndex_size :: "bptree \<Rightarrow> nat" where
  "BPlusTreeIndex_size t = length (bn_keys (find_first_leaf (bp_root t)))"

section \<open>Keys and binary search\<close>

lemma compare_keys_less: "compare_keys a b < 0 \<longleftrightarrow> a < b"
  by (induction a b rule: compare_keys.induct) (auto simp: list_less_def)

lemma compare_keys_zero: "compare_keys a b = 0 \<longleftrightarrow> a = b"
  by (induction a b rule: compare_keys.induct) auto

lemma find_key_loop_step:
  "left < right \<Longrightarrow> mid = left + (right - left) div 2 \<Longrightarrow>
   find_key_loop ks key left right =
     (if compare_keys (ks ! mid) key < 0 then find_key_loop ks key (mid + 1) right
      else find_key_loop ks key left mid)"
  by (subst find_key_loop.simps) (simp add: Let_def)

lemma find_key_loop_stop: "\<not> left < right \<Longrightarrow> find_key_loop ks key left right = left"
  by (subst find_key_loop.simps) simp

lemma find_key_loop_spec:
  assumes "sorted ks" "left \<le> right" "right \<le> length ks"
    and "\<forall>i < left. ks ! i < key" "\<forall>i. right \<le> i \<and> i < length ks \<longrightarrow> key \<le> ks ! i"
  shows "(\<forall>i < find_key_loop ks key left right. ks ! i < key)
    \<and> (\<forall>i. find_key_loop ks key left right \<le> i \<and> i < length ks \<longrightarrow> key \<le> ks ! i)
    \<and> find_key_loop ks key left right \<le> length ks"
  using assms
proof (induction ks key left right rule: find_key_loop.induct)
  case (1 ks key left right)
  show ?case
  proof (cases "left < right")
    case False
    then have "left = right" using 1(4) by simp
    then show ?thesis using 1(5-7) find_key_loop_stop [OF False] by simp
  next
    case True
    define mid where "mid = left + (right - left) div 2"
    have m: "left \<le> mid" "mid < right" using True by (auto simp: mid_def)
    show ?thesis
    proof (cases "compare_keys (ks ! mid) key < 0")
      case less: True
      have "ks ! i < key" if "i < mid + 1" for i
      proof -
        have "ks ! i \<le> ks ! mid" using that m 1(3,5) by (intro sorted_nth_mono) simp_all
        also have "ks ! mid < key" using less by (simp add: compare_keys_less)
        finally show ?thesis .
      qed
      then have p: "\<forall>i < mid + 1. ks ! i < key" by blast
      have e: "find_key_loop ks key left right = find_key_loop ks key (mid + 1) right"
        using find_key_loop_step [OF True mid_def] less by simp
      have "mid + 1 \<le> right" using m by simp
      from 1(1) [OF True mid_def less 1(3) this 1(5) p 1(7)] show ?thesis unfolding e .
    next
      case ge: False
      have "key \<le> ks ! i" if "mid \<le> i" "i < length ks" for i
      proof -
        have "key \<le> ks ! mid" using ge by (simp add: compare_keys_less)
        also have "ks ! mid \<le> ks ! i" using that 1(3) by (intro sorted_nth_mono) simp_all
        finally show ?thesis .
      qed
      then have p: "\<forall>i. mid \<le> i \<and> i < length ks \<longrightarrow> key \<le> ks ! i" by blast
      have e: "find_key_loop ks key left right = find_key_loop ks key left mid"
        using find_key_loop_step [OF True mid_def] ge by simp
      have "mid \<le> length ks" using m 1(5) by simp
      from 1(2) [OF True mid_def ge 1(3) m(1) this 1(6) p] show ?thesis unfolding e .
    qed
  qed
qed

text \<open>In a node with increasing keys the binary search finds the first key not below the one sought.\<close>

lemma find_key_position_spec:
  assumes "sorted (bn_keys node)"
  shows "\<forall>i < find_key_position node key. bn_keys node ! i < key"
    and "\<forall>i. find_key_position node key \<le> i \<and> i < length (bn_keys node) \<longrightarrow> key \<le> bn_keys node ! i"
    and "find_key_position node key \<le> length (bn_keys node)"
proof -
  have "(\<forall>i < find_key_loop (bn_keys node) key 0 (length (bn_keys node)). bn_keys node ! i < key)
    \<and> (\<forall>i. find_key_loop (bn_keys node) key 0 (length (bn_keys node)) \<le> i
         \<and> i < length (bn_keys node) \<longrightarrow> key \<le> bn_keys node ! i)
    \<and> find_key_loop (bn_keys node) key 0 (length (bn_keys node)) \<le> length (bn_keys node)"
    by (rule find_key_loop_spec [OF assms]) auto
  then show "\<forall>i < find_key_position node key. bn_keys node ! i < key"
    and "\<forall>i. find_key_position node key \<le> i \<and> i < length (bn_keys node) \<longrightarrow> key \<le> bn_keys node ! i"
    and "find_key_position node key \<le> length (bn_keys node)"
    by (simp_all add: find_key_position_def)
qed

section \<open>A tree of one leaf is an ordered map\<close>

definition leaf_entries :: "bnode \<Rightarrow> entry list" where
  "leaf_entries n = zip (bn_keys n) (bn_values n)"

definition leaf_ok :: "bnode \<Rightarrow> bool" where
  "leaf_ok n \<longleftrightarrow> bn_type n \<noteq> INTERNAL \<and> length (bn_values n) = length (bn_keys n)
     \<and> ordered (leaf_entries n)"

lemma leaf_ok_keys: "leaf_ok n \<Longrightarrow> map fst (leaf_entries n) = bn_keys n"
  by (simp add: leaf_ok_def leaf_entries_def)

lemma leaf_ok_sorted: "leaf_ok n \<Longrightarrow> sorted (bn_keys n)"
  using leaf_ok_keys ordered_keys unfolding leaf_ok_def by metis

lemma at_leaf_ok: "leaf_ok n \<Longrightarrow> at_leaf f key n = f n"
  by (cases n) (simp add: leaf_ok_def at_leaf.simps)

lemma find_first_leaf_ok: "leaf_ok n \<Longrightarrow> find_first_leaf n = n"
  by (cases n) (simp add: leaf_ok_def find_first_leaf.simps)

lemma leaf_cut:
  assumes "leaf_ok n"
  shows "cut_at key (take (find_key_position n key) (leaf_entries n))
                    (drop (find_key_position n key) (leaf_entries n))"
proof -
  let ?p = "find_key_position n key"
  note spec = find_key_position_spec [OF leaf_ok_sorted [OF assms], of key]
  have len: "length (bn_values n) = length (bn_keys n)" using assms by (simp add: leaf_ok_def)
  have "\<forall>e \<in> set (take ?p (leaf_entries n)). fst e < key"
    using spec(1) by (auto simp: in_set_conv_nth leaf_entries_def len)
  moreover have "\<forall>e \<in> set (drop ?p (leaf_entries n)). key \<le> fst e"
  proof
    fix e
    assume "e \<in> set (drop ?p (leaf_entries n))"
    then obtain i where "i < length (drop ?p (leaf_entries n))" "e = drop ?p (leaf_entries n) ! i"
      unfolding in_set_conv_nth by blast
    then have "?p + i < length (bn_keys n)" "e = leaf_entries n ! (?p + i)"
      by (simp_all add: leaf_entries_def len)
    then show "key \<le> fst e" using spec(2) by (simp add: leaf_entries_def len)
  qed
  moreover have "ordered (drop ?p (leaf_entries n))"
    using assms by (simp add: leaf_ok_def ordered_def drop_map [symmetric] sorted_wrt_drop)
  ultimately show ?thesis by (simp add: cut_at_def)
qed

text \<open>What the two tests at the found position mean for the entries behind the cut.\<close>

lemma leaf_hit:
  assumes "leaf_ok n"
  shows "find_key_position n key < length (bn_keys n)
      \<and> compare_keys (bn_keys n ! find_key_position n key) key = 0
    \<longleftrightarrow> drop (find_key_position n key) (leaf_entries n) \<noteq> []
      \<and> fst (hd (drop (find_key_position n key) (leaf_entries n))) = key"
  using assms
  by (auto simp: leaf_ok_def compare_keys_zero leaf_entries_def hd_drop_conv_nth)

lemma leaf_find:
  assumes "leaf_ok n"
  shows "map_find key (leaf_entries n) =
    (let p = find_key_position n key in
     if p < length (bn_keys n) \<and> compare_keys (bn_keys n ! p) key = 0 then Some (bn_values n ! p) else None)"
proof -
  let ?p = "find_key_position n key"
  have "map_find key (leaf_entries n) = (if drop ?p (leaf_entries n) \<noteq> []
      \<and> fst (hd (drop ?p (leaf_entries n))) = key then Some (snd (hd (drop ?p (leaf_entries n)))) else None)"
    using map_find_cut [OF leaf_cut [OF assms, of key]] by simp
  then show ?thesis
    using assms unfolding leaf_hit [OF assms, symmetric] Let_def
    by (simp add: leaf_ok_def leaf_entries_def hd_drop_conv_nth)
qed

lemma insert_to_leaf_spec:
  assumes "leaf_ok n"
  shows "fst (insert_to_leaf key pos n) = map_find key (leaf_entries n)"
    and "leaf_entries (snd (insert_to_leaf key pos n)) = map_set key pos (leaf_entries n)"
    and "leaf_ok (snd (insert_to_leaf key pos n))"
proof -
  obtain t ks vs cs where n: "n = BNode t ks vs cs" by (cases n)
  let ?p = "find_key_position n key" and ?m = "leaf_entries n"
  have len: "length vs = length ks" using assms n by (simp add: leaf_ok_def)
  have p: "?p \<le> length ks"
    using find_key_position_spec(3) [OF leaf_ok_sorted [OF assms]] n by simp
  show ret: "fst (insert_to_leaf key pos n) = map_find key ?m"
    unfolding leaf_find [OF assms] by (simp add: n insert_to_leaf_def Let_def)
  have set: "map_set key pos ?m = take ?p ?m @ (key, pos) #
      (if drop ?p ?m \<noteq> [] \<and> fst (hd (drop ?p ?m)) = key then tl (drop ?p ?m) else drop ?p ?m)"
    using map_set_cut [OF leaf_cut [OF assms, of key]] by simp
  show ent: "leaf_entries (snd (insert_to_leaf key pos n)) = map_set key pos ?m"
  proof (cases "?p < length ks \<and> compare_keys (ks ! ?p) key = 0")
    case True
    then have hit: "drop ?p ?m \<noteq> [] \<and> fst (hd (drop ?p ?m)) = key"
      using leaf_hit [OF assms, of key] n by simp
    have "vs[?p := pos] = take ?p vs @ pos # drop (Suc ?p) vs"
      using True len by (simp add: upd_conv_take_nth_drop)
    moreover have "ks = take ?p ks @ key # drop (Suc ?p) ks"
      using True id_take_nth_drop [of ?p ks] by (simp add: compare_keys_zero)
    ultimately have "zip ks (vs[?p := pos]) = zip (take ?p ks @ key # drop (Suc ?p) ks)
        (take ?p vs @ pos # drop (Suc ?p) vs)" by metis
    also have "\<dots> = take ?p ?m @ (key, pos) # tl (drop ?p ?m)"
      using len by (simp add: n leaf_entries_def take_zip drop_zip tl_drop drop_Suc zip_append)
        (simp add: drop_zip [symmetric] drop_Suc [symmetric] tl_drop)
    finally have "zip ks (vs[?p := pos]) = map_set key pos ?m" using set hit by simp
    with True show ?thesis by (simp add: n insert_to_leaf_def leaf_entries_def Let_def)
  next
    case False
    have "\<not> (drop ?p ?m \<noteq> [] \<and> fst (hd (drop ?p ?m)) = key)"
      unfolding leaf_hit [OF assms, of key, symmetric] using False by (simp add: n)
    then have "map_set key pos ?m = take ?p ?m @ (key, pos) # drop ?p ?m" unfolding set by auto
    also have "\<dots> = zip (take ?p ks @ key # drop ?p ks) (take ?p vs @ pos # drop ?p vs)"
      using len by (simp add: n leaf_entries_def take_zip drop_zip)
    finally show ?thesis using False by (auto simp: n insert_to_leaf_def leaf_entries_def Let_def)
  qed
  have "ordered (leaf_entries (snd (insert_to_leaf key pos n)))"
    unfolding ent using assms by (simp add: leaf_ok_def ordered_map_set)
  then show "leaf_ok (snd (insert_to_leaf key pos n))"
    using assms p len by (auto simp: leaf_ok_def n insert_to_leaf_def Let_def)
qed

lemma delete_from_leaf_spec:
  assumes "leaf_ok n"
  shows "fst (delete_from_leaf key n) = (map_find key (leaf_entries n), map_find key (leaf_entries n) \<noteq> None)"
    and "leaf_entries (snd (delete_from_leaf key n)) = map_erase key (leaf_entries n)"
    and "leaf_ok (snd (delete_from_leaf key n))"
proof -
  obtain t ks vs cs where n: "n = BNode t ks vs cs" by (cases n)
  let ?p = "find_key_position n key" and ?m = "leaf_entries n"
  have len: "length vs = length ks" using assms n by (simp add: leaf_ok_def)
  show "fst (delete_from_leaf key n) = (map_find key ?m, map_find key ?m \<noteq> None)"
    unfolding leaf_find [OF assms] by (simp add: n delete_from_leaf_def Let_def)
  show ent: "leaf_entries (snd (delete_from_leaf key n)) = map_erase key ?m"
  proof (cases "?p < length ks \<and> compare_keys (ks ! ?p) key = 0")
    case True
    then have hit: "drop ?p ?m \<noteq> [] \<and> fst (hd (drop ?p ?m)) = key"
      using leaf_hit [OF assms, of key] n by simp
    have "map_erase key ?m = take ?p ?m @ tl (drop ?p ?m)"
      using map_erase_cut [OF leaf_cut [OF assms, of key]] hit by simp
    also have "\<dots> = zip (take ?p ks @ drop (Suc ?p) ks) (take ?p vs @ drop (Suc ?p) vs)"
      using len by (simp add: n leaf_entries_def take_zip drop_zip tl_drop drop_Suc zip_append)
        (simp add: drop_zip [symmetric] drop_Suc [symmetric] tl_drop)
    finally show ?thesis using True by (simp add: n delete_from_leaf_def leaf_entries_def Let_def)
  next
    case False
    have "map_find key ?m = None"
      unfolding leaf_find [OF assms, of key] Let_def using False by (simp add: n)
    then have "map_erase key ?m = ?m" by (rule map_erase_absent)
    with False show ?thesis by (auto simp: n delete_from_leaf_def leaf_entries_def Let_def)
  qed
  have "ordered (leaf_entries (snd (delete_from_leaf key n)))"
    unfolding ent using assms by (simp add: leaf_ok_def ordered_map_erase)
  then show "leaf_ok (snd (delete_from_leaf key n))"
    using assms len by (auto simp: leaf_ok_def n delete_from_leaf_def Let_def)
qed

definition bp_ok :: "bptree \<Rightarrow> bool" where
  "bp_ok t \<longleftrightarrow> leaf_ok (bp_root t)"

definition bp_abs :: "bptree \<Rightarrow> bytes \<Rightarrow> log_record_pos option" where
  "bp_abs t k = map_find k (leaf_entries (bp_root t))"

interpretation bp: indexer bp_ok bp_abs BPlusTreeIndex_put BPlusTreeIndex_get
    BPlusTreeIndex_remove BPlusTreeIndex_size BPlusTreeIndex_list_keys
proof unfold_locales
  fix t :: bptree and k p
  assume "bp_ok t"
  then have ok: "leaf_ok (bp_root t)" by (simp add: bp_ok_def)
  then have ord: "ordered (leaf_entries (bp_root t))" by (simp add: leaf_ok_def)
  note ins = insert_to_leaf_spec [OF ok, of k p] and del = delete_from_leaf_spec [OF ok, of k]
    and simps = BPlusTreeIndex_put_def BPlusTreeIndex_remove_def at_leaf_ok [OF ok] bp_abs_def
      bp_ok_def split_beta
  show "fst (BPlusTreeIndex_put k p t) = bp_abs t k" using ins by (simp add: simps)
  show "bp_abs (snd (BPlusTreeIndex_put k p t)) = (bp_abs t)(k \<mapsto> p)"
    using ins by (auto simp: simps map_find_set [OF ord])
  show "bp_ok (snd (BPlusTreeIndex_put k p t))" using ins by (simp add: simps)
  show "fst (BPlusTreeIndex_remove k t) = (bp_abs t k, bp_abs t k \<noteq> None)" using del by (simp add: simps)
  show "bp_abs (snd (BPlusTreeIndex_remove k t)) = (bp_abs t)(k := None)"
    using del by (auto simp: simps map_find_erase [OF ord])
  show "bp_ok (snd (BPlusTreeIndex_remove k t))" using del by (simp add: simps)
  show "BPlusTreeIndex_get k t = bp_abs t k"
    by (simp add: BPlusTreeIndex_get_def at_leaf_ok [OF ok] bp_abs_def leaf_find [OF ok] Let_def)
  show "set (BPlusTreeIndex_list_keys t) = dom (bp_abs t)"
    using leaf_ok_keys [OF ok]
    by (auto simp: BPlusTreeIndex_list_keys_def find_first_leaf_ok [OF ok] bp_abs_def dom_def
        map_find_None simp flip: leaf_ok_keys [OF ok])
  show "sorted (BPlusTreeIndex_list_keys t) \<and> distinct (BPlusTreeIndex_list_keys t)"
    using ordered_keys [OF ord] leaf_ok_keys [OF ok]
    by (simp add: BPlusTreeIndex_list_keys_def find_first_leaf_ok [OF ok])
  show "BPlusTreeIndex_size t = length (BPlusTreeIndex_list_keys t)"
    by (simp add: BPlusTreeIndex_size_def BPlusTreeIndex_list_keys_def)
qed

section \<open>The index file\<close>

definition serialize_bytes :: "bytes \<Rightarrow> bytes" where
  "serialize_bytes b = le_encode 4 (of_nat (length b)) @ b"

definition serialize_pos :: "log_record_pos \<Rightarrow> bytes" where
  "serialize_pos p =
     le_encode 4 (ucast (pos_fid p)) @ le_encode 8 (pos_offset p) @ le_encode 4 (ucast (pos_size p))"

fun serialize_node :: "bnode \<Rightarrow> bytes" where
  "serialize_node (BNode t ks vs cs) =
     t # le_encode 4 (of_nat (length ks)) @ concat (map serialize_bytes ks)
       @ (if t = LEAF then concat (map serialize_pos vs) else concat (map serialize_node cs))"

text \<open>
  Reading from the stream: the value and what is left. A stream that ends inside a size, a key or a
  position leaves variables unset that the code then uses: \<open>UndefinedBehaviour\<close>.
\<close>

definition read_n :: "nat \<Rightarrow> bytes \<Rightarrow> (bytes \<times> bytes) option" where
  "read_n n s = (if length s < n then None else Some (take n s, drop n s))"

definition deserialize_bytes :: "bytes \<Rightarrow> (bytes \<times> bytes) res" where
  "deserialize_bytes s =
     (case read_n 4 s of
        None \<Rightarrow> Inl UndefinedBehaviour
      | Some (sz, s) \<Rightarrow> (case read_n (unat (le_decode sz)) s of
                           None \<Rightarrow> Inl UndefinedBehaviour
                         | Some r \<Rightarrow> Inr r))"

definition deserialize_pos :: "bytes \<Rightarrow> (log_record_pos \<times> bytes) res" where
  "deserialize_pos s =
     (case read_n 16 s of
        None \<Rightarrow> Inl UndefinedBehaviour
      | Some (b, s) \<Rightarrow>
          Inr (\<lparr>pos_fid = ucast (le_decode (take 4 b)), pos_offset = le_decode (take 8 (drop 4 b)),
                pos_size = ucast (le_decode (drop 12 b))\<rparr>, s))"

text \<open>\<open>for (i = 0; i < n; i++) v.push_back(rd(is))\<close>\<close>

fun read_list :: "(bytes \<Rightarrow> ('a \<times> bytes) res) \<Rightarrow> nat \<Rightarrow> bytes \<Rightarrow> ('a list \<times> bytes) res" where
  "read_list rd 0 s = Inr ([], s)"
| "read_list rd (Suc n) s =
     (case rd s of
        Inl e \<Rightarrow> Inl e
      | Inr (x, s) \<Rightarrow> (case read_list rd n s of Inl e \<Rightarrow> Inl e | Inr (xs, s) \<Rightarrow> Inr (x # xs, s)))"

text \<open>Every nested node takes at least five bytes, so the length of the stream bounds the nesting.\<close>

fun deserialize_node :: "nat \<Rightarrow> bytes \<Rightarrow> (bnode \<times> bytes) res" where
  "deserialize_node 0 s = Inl (BitcaskException ''Failed to read node type'')"
| "deserialize_node (Suc d) s =
     (case s of
        [] \<Rightarrow> Inl (BitcaskException ''Failed to read node type'')
      | t # s \<Rightarrow>
        (case read_n 4 s of
           None \<Rightarrow> Inl (BitcaskException ''Failed to read key count'')
         | Some (kc, s) \<Rightarrow>
           (let key_count = unat (le_decode kc) in
            if key_count > MAX_KEYS * 2
            then Inl (BitcaskException ''Invalid key count in serialized node'')
            else case read_list deserialize_bytes key_count s of
              Inl e \<Rightarrow> Inl e
            | Inr (ks, s) \<Rightarrow>
                if t = LEAF then
                  (case read_list deserialize_pos key_count s of
                     Inl e \<Rightarrow> Inl e
                   | Inr (vs, s) \<Rightarrow> Inr (BNode t ks vs [], s))
                else
                  (case read_list (deserialize_node d) (Suc key_count) s of
                     Inl e \<Rightarrow> Inl e
                   | Inr (cs, s) \<Rightarrow> Inr (BNode t ks [] cs, s)))))"

definition INDEX_FILE_NAME :: string where "INDEX_FILE_NAME = ''bptree-index.db''"

definition index_file_path :: "string \<Rightarrow> string" where
  "index_file_path dir = dir @ ''/'' @ INDEX_FILE_NAME"

text \<open>\<open>load_from_file\<close>: the root read from the file, the empty leaf when reading throws.\<close>

definition load_from_file :: "bptree \<Rightarrow> fsys \<Rightarrow> bptree res" where
  "load_from_file t fs =
     (case fs_get fs (index_file_path (bp_dir t)) of
        None \<Rightarrow> Inr t
      | Some c \<Rightarrow>
          if c = [] then Inr t
          else case deserialize_node (length c) c of
            Inr (root, _) \<Rightarrow> Inr (t\<lparr>bp_root := root\<rparr>)
          | Inl e \<Rightarrow> if catchable e then Inr (t\<lparr>bp_root := new_leaf\<rparr>) else Inl e)"

definition save_to_file :: "bptree \<Rightarrow> fsys \<Rightarrow> fsys" where
  "save_to_file t fs =
     (if \<not> directory_exists (bp_dir t) fs then fs
      else fs_put (index_file_path (bp_dir t)) (serialize_node (bp_root t)) fs)"

definition BPlusTreeIndex_sync :: "bptree \<Rightarrow> fsys \<Rightarrow> fsys" where
  "BPlusTreeIndex_sync t fs = save_to_file t fs"

definition BPlusTreeIndex_close :: "bptree \<Rightarrow> fsys \<Rightarrow> fsys" where
  "BPlusTreeIndex_close t fs = BPlusTreeIndex_sync t fs"

definition BPlusTreeIndex_new :: "string \<Rightarrow> fsys \<Rightarrow> bptree res \<times> fsys" where
  "BPlusTreeIndex_new dir fs =
     (let fs = create_directory dir fs;
          t = \<lparr>bp_dir = dir, bp_root = new_leaf\<rparr>
      in if file_exists (index_file_path dir) fs then (load_from_file t fs, fs) else (Inr t, fs))"

section \<open>Saving and loading\<close>

lemma read_n_append [simp]: "length b = n \<Longrightarrow> read_n n (b @ s) = Some (b, s)"
  by (auto simp: read_n_def)

lemma le_decode_u32 [simp]: "le_decode (le_encode 4 (ucast (x :: u32))) = ucast x"
proof (rule le_decode_encode_n)
  show "unat (ucast x :: u64) < 2 ^ (8 * 4)"
    using unat_u32_less [of x] by (simp only: unat_ucast_u32_u64) simp
qed simp

lemma le_decode_len:
  "n < 2 ^ 32 \<Longrightarrow> unat (le_decode (le_encode 4 (of_nat n))) = n"
proof -
  assume n: "n < 2 ^ 32"
  then have u: "unat (of_nat n :: u64) = n" by (intro unat_of_nat_u64) simp
  have "le_decode (le_encode 4 (of_nat n)) = of_nat n"
    using n by (intro le_decode_encode_n) (simp_all only: u, simp_all)
  with u show ?thesis by simp
qed

lemma deserialize_bytes_serialize:
  "length b < 2 ^ 32 \<Longrightarrow> deserialize_bytes (serialize_bytes b @ s) = Inr (b, s)"
  by (simp add: deserialize_bytes_def serialize_bytes_def le_decode_len)

lemma deserialize_pos_serialize:
  "deserialize_pos (serialize_pos p @ s) = Inr (p, s)"
proof -
  have "read_n 16 (serialize_pos p @ s) = Some (serialize_pos p, s)"
    by (intro read_n_append) (simp add: serialize_pos_def)
  then show ?thesis
    by (simp add: deserialize_pos_def serialize_pos_def le_decode_encode)
qed

lemma read_list_map:
  assumes "\<And>x s. x \<in> set xs \<Longrightarrow> rd (wr x @ s) = Inr (x, s)"
  shows "read_list rd (length xs) (concat (map wr xs) @ s) = Inr (xs, s)"
  using assms by (induction xs) simp_all

text \<open>
  C38: the index file: what \<open>sync\<close> saves, the constructor loads again, provided the tree is a leaf
  of at most 128 keys (each shorter than \<open>2^32\<close> bytes); a leaf of more keys is written as well, but
  the loader rejects it and starts from an empty tree.
\<close>

theorem index_file_roundtrip:
  assumes "bp_ok t" and "bn_type (bp_root t) = LEAF" and "bn_children (bp_root t) = []"
    and "\<forall>k \<in> set (bn_keys (bp_root t)). length k < 2 ^ 32"
    and "length (bn_keys (bp_root t)) < 2 ^ 32"
    and "directory_exists (bp_dir t) fs"
  shows "load_from_file \<lparr>bp_dir = bp_dir t, bp_root = new_leaf\<rparr> (BPlusTreeIndex_sync t fs) =
    Inr (if length (bn_keys (bp_root t)) \<le> 128 then \<lparr>bp_dir = bp_dir t, bp_root = bp_root t\<rparr>
         else \<lparr>bp_dir = bp_dir t, bp_root = new_leaf\<rparr>)"
proof -
  obtain ks vs where root: "bp_root t = BNode LEAF ks vs []"
    using assms(2,3) by (cases "bp_root t") simp
  have len: "length vs = length ks" using assms(1) root by (simp add: bp_ok_def leaf_ok_def)
  let ?c = "serialize_node (bp_root t)"
  have c: "?c = LEAF # le_encode 4 (of_nat (length ks)) @ concat (map serialize_bytes ks)
      @ concat (map serialize_pos vs)"
    by (simp add: root)
  obtain d where d: "length ?c = Suc d" by (simp add: c)
  have cnt: "unat (le_decode (le_encode 4 (of_nat (length ks)))) = length ks"
    using assms(5) root by (intro le_decode_len) simp
  have rk: "read_list deserialize_bytes (length ks)
      (concat (map serialize_bytes ks) @ concat (map serialize_pos vs))
      = Inr (ks, concat (map serialize_pos vs))"
    using assms(4) root by (intro read_list_map deserialize_bytes_serialize) simp
  have rv: "read_list deserialize_pos (length ks) (concat (map serialize_pos vs)) = Inr (vs, [])"
    using read_list_map [of vs deserialize_pos serialize_pos "[]"] deserialize_pos_serialize len
    by simp
  have "deserialize_node (length ?c) ?c =
    (if length ks \<le> 128 then Inr (BNode LEAF ks vs [], [])
     else Inl (BitcaskException ''Invalid key count in serialized node''))"
    unfolding d unfolding c by (simp add: cnt rk rv MAX_KEYS_def)
  then show ?thesis
    using assms(6) root c
    by (simp add: load_from_file_def BPlusTreeIndex_sync_def save_to_file_def catchable_def)
qed

theorem index_file_roundtrip_witness:
  "load_from_file \<lparr>bp_dir = ''d'', bp_root = new_leaf\<rparr>
     (BPlusTreeIndex_sync
        \<lparr>bp_dir = ''d'', bp_root = BNode LEAF [[107]] [\<lparr>pos_fid = 1, pos_offset = 2, pos_size = 9\<rparr>] []\<rparr>
        \<lparr>fs_files = [], fs_dirs = [''d''], fs_locks = [], fs_page_size = 4096\<rparr>)
   = Inr \<lparr>bp_dir = ''d'', bp_root = BNode LEAF [[107]] [\<lparr>pos_fid = 1, pos_offset = 2, pos_size = 9\<rparr>] []\<rparr>"
  using index_file_roundtrip [of
      "\<lparr>bp_dir = ''d'', bp_root = BNode LEAF [[107]] [\<lparr>pos_fid = 1, pos_offset = 2, pos_size = 9\<rparr>] []\<rparr>"
      "\<lparr>fs_files = [], fs_dirs = [''d''], fs_locks = [], fs_page_size = 4096\<rparr>"]
  by (simp add: bp_ok_def leaf_ok_def leaf_entries_def LEAF_def INTERNAL_def directory_exists_def)

section \<open>\<open>BPlusTreeIterator\<close>\<close>

text \<open>
  A forward iterator shares the nodes of the tree: its operations take the root as an argument and
  see the keys the leaf has at the time of the call. A reverse iterator copies the entries when it
  is made. \<open>pi_leaf\<close> tells whether \<open>current_leaf_\<close> is set: it is the first leaf or null.
\<close>

record bplus_iterator =
  pi_leaf :: bool
  pi_index :: nat
  pi_prefix :: bytes
  pi_items :: "entry list"
  pi_items_index :: nat
  pi_use_items :: bool

definition pi_valid :: "bnode \<Rightarrow> bplus_iterator \<Rightarrow> bool" where
  "pi_valid root it =
     (if pi_use_items it then pi_items_index it < length (pi_items it)
      else pi_leaf it \<and> pi_index it < length (bn_keys (find_first_leaf root)))"

definition pi_key :: "bnode \<Rightarrow> bplus_iterator \<Rightarrow> bytes" where
  "pi_key root it =
     (if \<not> pi_valid root it then []
      else if pi_use_items it then fst (pi_items it ! pi_items_index it)
      else bn_keys (find_first_leaf root) ! pi_index it)"

definition pi_value :: "bnode \<Rightarrow> bplus_iterator \<Rightarrow> log_record_pos" where
  "pi_value root it =
     (if pi_use_items it then
        (if pi_items_index it < length (pi_items it) then snd (pi_items it ! pi_items_index it)
         else \<lparr>pos_fid = 0, pos_offset = 0, pos_size = 0\<rparr>)
      else if pi_leaf it \<and> pi_index it < length (bn_values (find_first_leaf root))
      then bn_values (find_first_leaf root) ! pi_index it
      else \<lparr>pos_fid = 0, pos_offset = 0, pos_size = 0\<rparr>)"

text \<open>\<open>current_index_++\<close>, and at the end of the leaf \<open>current_leaf_ = current_leaf_->next\<close>.\<close>

definition pi_advance :: "bnode \<Rightarrow> bplus_iterator \<Rightarrow> bplus_iterator" where
  "pi_advance root it =
     (let it = it\<lparr>pi_index := pi_index it + 1\<rparr> in
      if pi_leaf it \<and> pi_index it \<ge> length (bn_keys (find_first_leaf root))
      then it\<lparr>pi_leaf := False, pi_index := 0\<rparr> else it)"

definition pi_left :: "bnode \<Rightarrow> bplus_iterator \<Rightarrow> nat" where
  "pi_left root it =
     (if pi_leaf it then length (bn_keys (find_first_leaf root)) - pi_index it else 0)"

lemma pi_left_advance:
  "\<not> pi_use_items it \<Longrightarrow> pi_valid root it \<Longrightarrow> pi_left root (pi_advance root it) < pi_left root it"
  by (auto simp: pi_left_def pi_advance_def pi_valid_def Let_def)

function pi_skip :: "bnode \<Rightarrow> bplus_iterator \<Rightarrow> bplus_iterator" where
  "pi_skip root it =
     (if \<not> pi_use_items it \<and> pi_valid root it \<and> \<not> key_matches_prefix (pi_prefix it) (pi_key root it)
      then pi_skip root (pi_advance root it) else it)"
  by pat_completeness auto
termination
  by (relation "measure (\<lambda>(root, it). pi_left root it)") (auto simp: pi_left_advance)

declare pi_skip.simps [simp del]

definition pi_next :: "bnode \<Rightarrow> bplus_iterator \<Rightarrow> bplus_iterator" where
  "pi_next root it =
     (if pi_use_items it then it\<lparr>pi_items_index := pi_items_index it + 1\<rparr>
      else pi_skip root (pi_advance root it))"

text \<open>The loop of \<open>rewind\<close> calls \<open>next()\<close>, which skips in the same way: it is one loop.\<close>

definition pi_rewind :: "bnode \<Rightarrow> bplus_iterator \<Rightarrow> bplus_iterator" where
  "pi_rewind root it =
     (if pi_use_items it then it\<lparr>pi_items_index := 0\<rparr>
      else pi_skip root (it\<lparr>pi_leaf := True, pi_index := 0\<rparr>))"

lemma pi_skip_left: "pi_left root (pi_skip root it) \<le> pi_left root it"
proof (induction root it rule: pi_skip.induct)
  case (1 root it)
  show ?case
  proof (cases "\<not> pi_use_items it \<and> pi_valid root it \<and> \<not> key_matches_prefix (pi_prefix it) (pi_key root it)")
    case True
    then have "pi_left root (pi_skip root (pi_advance root it)) < pi_left root it"
      using 1 pi_left_advance by (meson order.strict_trans1)
    with True show ?thesis by (subst pi_skip.simps) simp
  next
    case False
    then show ?thesis by (subst pi_skip.simps) auto
  qed
qed

function pi_seek_loop :: "bytes \<Rightarrow> bnode \<Rightarrow> bplus_iterator \<Rightarrow> bplus_iterator" where
  "pi_seek_loop k root it =
     (if \<not> pi_use_items it \<and> pi_valid root it \<and> compare_keys (pi_key root it) k < 0
      then pi_seek_loop k root (pi_next root it) else it)"
  by pat_completeness auto
termination
  by (relation "measure (\<lambda>(k, root, it). pi_left root it)")
     (auto simp: pi_next_def intro: le_less_trans [OF pi_skip_left pi_left_advance])

declare pi_seek_loop.simps [simp del]

definition pi_seek :: "bytes \<Rightarrow> bnode \<Rightarrow> bplus_iterator \<Rightarrow> bplus_iterator" where
  "pi_seek k root it =
     (if pi_use_items it
      then it\<lparr>pi_items_index := find_index (\<lambda>x. compare_keys x k \<ge> 0) (pi_items it)\<rparr>
      else pi_seek_loop k root (it\<lparr>pi_leaf := True, pi_index := 0\<rparr>))"

definition pi_init_items :: "bytes \<Rightarrow> bool \<Rightarrow> bnode \<Rightarrow> entry list" where
  "pi_init_items prefix reverse root =
     (let leaf = find_first_leaf root;
          items = [e \<leftarrow> zip (bn_keys leaf) (bn_values leaf). key_matches_prefix prefix (fst e)]
      in if reverse then rev items else items)"

definition pi_new :: "bool \<Rightarrow> bytes \<Rightarrow> bnode \<Rightarrow> bplus_iterator" where
  "pi_new reverse prefix root =
     pi_rewind root \<lparr>pi_leaf = False, pi_index = 0, pi_prefix = prefix,
        pi_items = (if reverse then pi_init_items prefix reverse root else []),
        pi_items_index = 0, pi_use_items = reverse\<rparr>"

definition pi_close :: "bplus_iterator \<Rightarrow> bplus_iterator" where
  "pi_close it = it\<lparr>pi_leaf := False, pi_items := []\<rparr>"

text \<open>The iterator that the index hands out has no prefix.\<close>

definition BPlusTreeIndex_iterator :: "bool \<Rightarrow> bptree \<Rightarrow> bplus_iterator" where
  "BPlusTreeIndex_iterator reverse t = pi_new reverse [] (bp_root t)"

definition pi_ok :: "bnode \<Rightarrow> bplus_iterator \<Rightarrow> bool" where
  "pi_ok root it \<longleftrightarrow> leaf_ok root \<and> pi_prefix it = []"

definition pi_rest :: "bnode \<Rightarrow> bplus_iterator \<Rightarrow> entry list" where
  "pi_rest root it =
     (if pi_use_items it then drop (pi_items_index it) (pi_items it)
      else if pi_leaf it then drop (pi_index it) (leaf_entries root) else [])"

definition pi_full :: "bnode \<Rightarrow> bplus_iterator \<Rightarrow> entry list" where
  "pi_full root it = (if pi_use_items it then pi_items it else leaf_entries root)"

definition pi_entry :: "bnode \<Rightarrow> bplus_iterator \<Rightarrow> entry" where
  "pi_entry root it = (pi_key root it, pi_value root it)"

lemma pi_skip_no_prefix: "pi_prefix it = [] \<Longrightarrow> pi_skip root it = it"
  by (subst pi_skip.simps) simp

lemma pi_advance_simps [simp]:
  "pi_prefix (pi_advance root it) = pi_prefix it" "pi_items (pi_advance root it) = pi_items it"
  "pi_use_items (pi_advance root it) = pi_use_items it"
  "pi_items_index (pi_advance root it) = pi_items_index it"
  by (simp_all add: pi_advance_def Let_def)

interpretation pi: index_iterator "pi_ok root" "pi_rest root" "pi_full root" "pi_rewind root"
    "pi_next root" "pi_valid root" "pi_entry root" for root
proof unfold_locales
  fix it :: bplus_iterator
  assume "pi_ok root it"
  then have ok: "leaf_ok root" and pre: "pi_prefix it = []" by (simp_all add: pi_ok_def)
  note first = find_first_leaf_ok [OF ok]
  have len: "length (leaf_entries root) = length (bn_keys root)"
    "length (bn_values root) = length (bn_keys root)"
    using ok by (simp_all add: leaf_ok_def leaf_entries_def)
  show "pi_valid root it = (pi_rest root it \<noteq> [])"
    by (auto simp: pi_valid_def pi_rest_def first len)
  show "pi_entry root it = hd (pi_rest root it)" if "pi_rest root it \<noteq> []"
    using that
    by (auto simp: pi_entry_def pi_key_def pi_value_def pi_valid_def pi_rest_def first len
        hd_drop_conv_nth leaf_entries_def split: if_splits)
  show "pi_rest root (pi_next root it) = tl (pi_rest root it)"
    using pre len
    by (auto simp: pi_next_def pi_skip_no_prefix pi_rest_def tl_drop drop_Suc pi_advance_def
        first Let_def)
  show "pi_ok root (pi_next root it) \<and> pi_full root (pi_next root it) = pi_full root it"
    using ok pre by (simp add: pi_next_def pi_skip_no_prefix pi_ok_def pi_full_def)
  show "pi_rest root (pi_rewind root it) = pi_full root it"
    using pre by (simp add: pi_rewind_def pi_skip_no_prefix pi_rest_def pi_full_def)
  show "pi_ok root (pi_rewind root it) \<and> pi_full root (pi_rewind root it) = pi_full root it"
    using ok pre by (simp add: pi_rewind_def pi_skip_no_prefix pi_ok_def pi_full_def)
qed

lemma pi_seek_loop_rest:
  "pi_ok root it \<Longrightarrow> \<not> pi_use_items it \<Longrightarrow>
   pi_rest root (pi_seek_loop k root it) = dropWhile (\<lambda>e. \<not> k \<le> fst e) (pi_rest root it)
   \<and> pi_ok root (pi_seek_loop k root it)"
proof (induction k root it rule: pi_seek_loop.induct)
  case (1 k root it)
  show ?case
  proof (cases "pi_valid root it \<and> compare_keys (pi_key root it) k < 0")
    case True
    then have "pi_rest root it \<noteq> []" using 1(2) pi.valid_rest by blast
    moreover have "fst (hd (pi_rest root it)) < k"
      using pi.cur_rest [OF 1(2) calculation, symmetric] True by (simp add: compare_keys_less pi_entry_def)
    ultimately have "dropWhile (\<lambda>e. \<not> k \<le> fst e) (pi_rest root it)
        = dropWhile (\<lambda>e. \<not> k \<le> fst e) (tl (pi_rest root it))"
      by (cases "pi_rest root it") auto
    moreover have "\<not> pi_use_items (pi_next root it)"
      using 1(2,3) by (simp add: pi_next_def pi_skip_no_prefix pi_ok_def)
    ultimately show ?thesis
      using 1(1) True 1(2,3) pi.next_inv [OF 1(2)] pi.next_rest [OF 1(2)]
      by (subst (1 2) pi_seek_loop.simps) simp
  next
    case False
    then have "dropWhile (\<lambda>e. \<not> k \<le> fst e) (pi_rest root it) = pi_rest root it"
      using pi.valid_rest [OF 1(2)] pi.cur_rest [OF 1(2)]
      by (cases "pi_rest root it") (auto simp: compare_keys_less pi_entry_def)
    with False show ?thesis using 1(2,3) by (subst (1 2) pi_seek_loop.simps) auto
  qed
qed

lemma find_index_ge_rev:
  "ordered m \<Longrightarrow> drop (find_index (\<lambda>x. k \<le> x) (rev m)) (rev m)
     = (if m \<noteq> [] \<and> k \<le> fst (last m) then rev m else [])"
proof (cases m rule: rev_cases)
  case (snoc m' e)
  assume "ordered m"
  then have less: "\<forall>e' \<in> set m'. fst e' < fst e"
    using snoc by (auto simp: ordered_def sorted_wrt_append)
  show ?thesis
  proof (cases "k \<le> fst e")
    case True
    then show ?thesis using snoc by (cases e) simp
  next
    case False
    then have "\<forall>e' \<in> set (rev m). \<not> k \<le> fst e'" using less snoc by fastforce
    then show ?thesis using False snoc unfolding find_index_drop
      by (simp add: dropWhile_eq_Nil_conv)
  qed
qed simp

abbreviation pi_visit :: "nat \<Rightarrow> bptree \<Rightarrow> bplus_iterator \<Rightarrow> entry list" where
  "pi_visit n t \<equiv> visit (pi_valid (bp_root t)) (pi_entry (bp_root t)) (pi_next (bp_root t)) n"

text \<open>
  What a cursor of the B+ tree index visits: forward, like the ordered map, all entries after a
  rewind and those with a key of at least \<open>k\<close> after \<open>seek k\<close>; reversed, all entries in decreasing
  order after a rewind. A reversed \<open>seek k\<close>, however, takes the first entry with a key not less than
  \<open>k\<close> in the decreasing order: it starts at the largest key of all, or nowhere.
\<close>

theorem BPlusTreeIterator_visits:
  assumes "bp_ok t" and "BPlusTreeIndex_size t \<le> n"
  defines "m \<equiv> leaf_entries (bp_root t)"
  shows "pi_visit n t (BPlusTreeIndex_iterator False t) = m
    \<and> pi_visit n t (BPlusTreeIndex_iterator True t) = rev m
    \<and> pi_visit n t (pi_seek k (bp_root t) (BPlusTreeIndex_iterator False t)) = [e \<leftarrow> m. k \<le> fst e]
    \<and> pi_visit n t (pi_seek k (bp_root t) (BPlusTreeIndex_iterator True t))
        = (if m \<noteq> [] \<and> k \<le> fst (last m) then rev m else [])"
proof -
  let ?r = "bp_root t"
  have ok: "leaf_ok ?r" using assms(1) by (simp add: bp_ok_def)
  have ord: "ordered m" using ok by (simp add: m_def leaf_ok_def)
  have len: "length m \<le> n"
    using assms(2) leaf_ok_keys [OF ok]
    by (simp add: m_def BPlusTreeIndex_size_def find_first_leaf_ok [OF ok] flip: length_map [of fst])
  have items: "pi_init_items [] True ?r = rev m"
    by (simp add: pi_init_items_def find_first_leaf_ok [OF ok] m_def leaf_entries_def Let_def)
  have it: "BPlusTreeIndex_iterator b t = \<lparr>pi_leaf = \<not> b, pi_index = 0, pi_prefix = [],
      pi_items = (if b then rev m else []), pi_items_index = 0, pi_use_items = b\<rparr>" for b
    by (simp add: BPlusTreeIndex_iterator_def pi_new_def pi_rewind_def pi_skip_no_prefix items)
  have iok: "pi_ok ?r (BPlusTreeIndex_iterator b t)" for b
    using ok by (simp add: it pi_ok_def)
  have "pi_visit n t (BPlusTreeIndex_iterator False t) = m"
    "pi_visit n t (BPlusTreeIndex_iterator True t) = rev m"
    using len pi.visit_rest [OF iok, of n False] pi.visit_rest [OF iok, of n True]
    by (simp_all add: it pi_rest_def m_def)
  moreover have "pi_visit n t (pi_seek k ?r (BPlusTreeIndex_iterator False t)) = [e \<leftarrow> m. k \<le> fst e]"
  proof -
    let ?it = "(BPlusTreeIndex_iterator False t)\<lparr>pi_leaf := True, pi_index := 0\<rparr>"
    have "pi_ok ?r ?it" "\<not> pi_use_items ?it" using ok by (simp_all add: it pi_ok_def)
    from pi_seek_loop_rest [OF this, of k]
    have "pi_rest ?r (pi_seek_loop k ?r ?it) = [e \<leftarrow> m. k \<le> fst e]" "pi_ok ?r (pi_seek_loop k ?r ?it)"
      using dropWhile_less_filter [OF ord, of k] by (simp_all add: it pi_rest_def m_def)
    then show ?thesis
      using order_trans [OF length_filter_le [of "\<lambda>e. k \<le> fst e" m] len]
      by (simp add: pi_seek_def it pi.visit_rest)
  qed
  moreover have "pi_visit n t (pi_seek k ?r (BPlusTreeIndex_iterator True t))
      = (if m \<noteq> [] \<and> k \<le> fst (last m) then rev m else [])"
  proof -
    let ?it = "pi_seek k ?r (BPlusTreeIndex_iterator True t)"
    have "pi_ok ?r ?it" using ok by (simp add: it pi_ok_def pi_seek_def)
    moreover have "pi_rest ?r ?it = (if m \<noteq> [] \<and> k \<le> fst (last m) then rev m else [])"
      using find_index_ge_rev [OF ord, of k]
      by (simp add: it pi_seek_def pi_rest_def compare_keys_less flip: not_less)
    ultimately show ?thesis using len by (simp add: pi.visit_rest)
  qed
  ultimately show ?thesis by blast
qed

abbreviation wit_bptree :: bptree where
  "wit_bptree \<equiv> \<lparr>bp_dir = ''d'', bp_root = BNode LEAF [[1], [2]]
     [\<lparr>pos_fid = 0, pos_offset = 0, pos_size = 9\<rparr>, \<lparr>pos_fid = 0, pos_offset = 9, pos_size = 9\<rparr>] []\<rparr>"

theorem BPlusTreeIterator_visits_witness:
  "map fst (pi_visit 2 wit_bptree (pi_seek [1] (bp_root wit_bptree)
     (BPlusTreeIndex_iterator True wit_bptree))) = [[2], [1]]"
  using BPlusTreeIterator_visits [of wit_bptree 2 "[1]"]
  by (simp add: bp_ok_def leaf_ok_def leaf_entries_def LEAF_def INTERNAL_def
      BPlusTreeIndex_size_def find_first_leaf.simps)

end
