(* ===== verification/Skip_List.thy ===== *)
theory Skip_List
  imports Bplus_Tree
begin

text \<open>
  The skip list index (\<open>include/bitcask/skiplist_index.h\<close>, \<open>src/skiplist_index.cpp\<close>) on an explicit
  store: a node is a record with a vector of forward pointers, an address is its position in the
  list of nodes that were ever allocated, the header has address 0. A node that is removed stays in
  the store, unreachable. The random levels are drawn from a stream of answers to the test
  \<open>dis(rng_) < SKIPLIST_P\<close>, a part of the state with the number of answers used. \<open>close\<close> drops the
  header; no operation may follow it.
\<close>

section \<open>State\<close>

record sl_node =
  sn_key :: bytes
  sn_pos :: log_record_pos
  sn_forward :: "nat option list"

record skiplist =
  sl_nodes :: "sl_node list"
  sl_level :: nat
  sl_coins :: "nat \<Rightarrow> bool"
  sl_used :: nat

definition MAX_LEVEL :: nat where "MAX_LEVEL = 16"

definition new_node :: "bytes \<Rightarrow> log_record_pos \<Rightarrow> nat \<Rightarrow> sl_node" where
  "new_node k p level = \<lparr>sn_key = k, sn_pos = p, sn_forward = replicate (level + 1) None\<rparr>"

definition SkipListIndex_new :: "(nat \<Rightarrow> bool) \<Rightarrow> skiplist" where
  "SkipListIndex_new coins =
     \<lparr>sl_nodes = [new_node [] \<lparr>pos_fid = 0, pos_offset = 0, pos_size = 0\<rparr> MAX_LEVEL],
      sl_level = 0, sl_coins = coins, sl_used = 0\<rparr>"

definition forward :: "skiplist \<Rightarrow> nat \<Rightarrow> nat \<Rightarrow> nat option" where
  "forward s a i = sn_forward (sl_nodes s ! a) ! i"

definition nkey :: "skiplist \<Rightarrow> nat \<Rightarrow> bytes" where
  "nkey s a = sn_key (sl_nodes s ! a)"

definition npos :: "skiplist \<Rightarrow> nat \<Rightarrow> log_record_pos" where
  "npos s a = sn_pos (sl_nodes s ! a)"

definition set_forward :: "nat \<Rightarrow> nat \<Rightarrow> nat option \<Rightarrow> skiplist \<Rightarrow> skiplist" where
  "set_forward a i b s =
     s\<lparr>sl_nodes := (sl_nodes s)[a := (sl_nodes s ! a)
          \<lparr>sn_forward := (sn_forward (sl_nodes s ! a))[i := b]\<rparr>]\<rparr>"

section \<open>Search\<close>

text \<open>
  \<open>while (current->forward[i] && compare_keys(current->forward[i]->key, key) < 0)\<close>: the keys
  increase along a level, so the number of nodes bounds the steps (\<open>walk_linked\<close>).
\<close>

fun walk :: "skiplist \<Rightarrow> nat \<Rightarrow> bytes \<Rightarrow> nat \<Rightarrow> nat \<Rightarrow> nat" where
  "walk s i key 0 current = current"
| "walk s i key (Suc n) current =
     (case forward s current i of
        Some b \<Rightarrow> if compare_keys (nkey s b) key < 0 then walk s i key n b else current
      | None \<Rightarrow> current)"

text \<open>\<open>for (i = level_; i >= 0; i--)\<close>, filling \<open>update\<close>; returns the last node before the key.\<close>

fun find_levels :: "skiplist \<Rightarrow> bytes \<Rightarrow> nat \<Rightarrow> nat \<Rightarrow> nat option list \<Rightarrow> nat \<times> nat option list" where
  "find_levels s key 0 current upd =
     (let current = walk s 0 key (length (sl_nodes s)) current in (current, upd[0 := Some current]))"
| "find_levels s key (Suc i) current upd =
     (let current = walk s (Suc i) key (length (sl_nodes s)) current
      in find_levels s key i current (upd[Suc i := Some current]))"

definition find_node :: "skiplist \<Rightarrow> bytes \<Rightarrow> nat option \<times> nat option list" where
  "find_node s key =
     (case find_levels s key (sl_level s) 0 (replicate (MAX_LEVEL + 1) None) of
        (current, upd) \<Rightarrow> (forward s current 0, upd))"

section \<open>The operations of the index\<close>

function random_level_loop :: "(nat \<Rightarrow> bool) \<Rightarrow> nat \<Rightarrow> nat \<Rightarrow> nat \<times> nat" where
  "random_level_loop coins used level =
     (if coins used \<and> level < MAX_LEVEL then random_level_loop coins (Suc used) (Suc level)
      else (level, Suc used))"
  by pat_completeness auto
termination
  by (relation "measure (\<lambda>(coins, used, level). MAX_LEVEL - level)") auto

declare random_level_loop.simps [simp del]

definition random_level :: "skiplist \<Rightarrow> nat \<times> skiplist" where
  "random_level s =
     (case random_level_loop (sl_coins s) (sl_used s) 0 of (l, used) \<Rightarrow> (l, s\<lparr>sl_used := used\<rparr>))"

text \<open>\<open>new_node->forward[i] = update[i]->forward[i]; update[i]->forward[i] = new_node;\<close>\<close>

fun link_levels :: "nat \<Rightarrow> nat option list \<Rightarrow> nat list \<Rightarrow> skiplist \<Rightarrow> skiplist" where
  "link_levels n upd [] s = s"
| "link_levels n upd (i # is) s =
     (let s = set_forward n i (forward s (the (upd ! i)) i) s;
          s = set_forward (the (upd ! i)) i (Some n) s
      in link_levels n upd is s)"

definition hits :: "skiplist \<Rightarrow> nat option \<Rightarrow> bytes \<Rightarrow> bool" where
  "hits s node key = (case node of Some a \<Rightarrow> compare_keys (nkey s a) key = 0 | None \<Rightarrow> False)"

definition SkipListIndex_put ::
    "bytes \<Rightarrow> log_record_pos \<Rightarrow> skiplist \<Rightarrow> log_record_pos option \<times> skiplist" where
  "SkipListIndex_put key pos s =
     (case find_node s key of
        (node, upd) \<Rightarrow>
          if hits s node key
          then (Some (npos s (the node)),
                s\<lparr>sl_nodes := (sl_nodes s)[the node := (sl_nodes s ! the node)\<lparr>sn_pos := pos\<rparr>]\<rparr>)
          else
            (let (new_level, s) = random_level s;
                 upd = (if new_level > sl_level s
                        then fold (\<lambda>i u. u[i := Some 0]) [sl_level s + 1..<Suc new_level] upd
                        else upd);
                 s = (if new_level > sl_level s then s\<lparr>sl_level := new_level\<rparr> else s);
                 n = length (sl_nodes s);
                 s = s\<lparr>sl_nodes := sl_nodes s @ [new_node key pos new_level]\<rparr>
             in (None, link_levels n upd [0..<Suc new_level] s)))"

definition SkipListIndex_get :: "bytes \<Rightarrow> skiplist \<Rightarrow> log_record_pos option" where
  "SkipListIndex_get key s =
     (case find_node s key of
        (node, upd) \<Rightarrow> if hits s node key then Some (npos s (the node)) else None)"

text \<open>The loop of \<open>remove\<close> with its \<open>break\<close>, and the adjustment of the level.\<close>

fun unlink_levels :: "nat \<Rightarrow> nat option list \<Rightarrow> nat list \<Rightarrow> skiplist \<Rightarrow> skiplist" where
  "unlink_levels a upd [] s = s"
| "unlink_levels a upd (i # is) s =
     (if forward s (the (upd ! i)) i \<noteq> Some a then s
      else unlink_levels a upd is (set_forward (the (upd ! i)) i (forward s a i) s))"

fun lower_level :: "skiplist \<Rightarrow> nat \<Rightarrow> nat" where
  "lower_level s 0 = 0"
| "lower_level s (Suc l) = (if forward s 0 (Suc l) = None then lower_level s l else Suc l)"

definition SkipListIndex_remove ::
    "bytes \<Rightarrow> skiplist \<Rightarrow> (log_record_pos option \<times> bool) \<times> skiplist" where
  "SkipListIndex_remove key s =
     (case find_node s key of
        (node, upd) \<Rightarrow>
          if \<not> hits s node key then ((None, False), s)
          else
            (let old_pos = npos s (the node);
                 s = unlink_levels (the node) upd [0..<Suc (sl_level s)] s;
                 s = s\<lparr>sl_level := lower_level s (sl_level s)\<rparr>
             in ((Some old_pos, True), s)))"

text \<open>The addresses from \<open>header_->forward[0]\<close> on; the number of nodes bounds the walk.\<close>

fun level0_from :: "skiplist \<Rightarrow> nat \<Rightarrow> nat option \<Rightarrow> nat list" where
  "level0_from s 0 c = []"
| "level0_from s (Suc n) c = (case c of None \<Rightarrow> [] | Some a \<Rightarrow> a # level0_from s n (forward s a 0))"

definition level0 :: "skiplist \<Rightarrow> nat list" where
  "level0 s = level0_from s (length (sl_nodes s)) (forward s 0 0)"

definition SkipListIndex_list_keys :: "skiplist \<Rightarrow> bytes list" where
  "SkipListIndex_list_keys s = map (nkey s) (level0 s)"

definition SkipListIndex_size :: "skiplist \<Rightarrow> nat" where
  "SkipListIndex_size s = length (level0 s)"

definition SkipListIndex_close :: "skiplist \<Rightarrow> skiplist" where
  "SkipListIndex_close s = s\<lparr>sl_nodes := [], sl_level := 0\<rparr>"

section \<open>Linked levels\<close>

text \<open>\<open>linked f xs\<close>: following \<open>f\<close> from the head of \<open>xs\<close> visits \<open>xs\<close> and ends.\<close>

fun linked :: "(nat \<Rightarrow> nat option) \<Rightarrow> nat list \<Rightarrow> bool" where
  "linked f [] = True"
| "linked f [x] = (f x = None)"
| "linked f (x # y # zs) = (f x = Some y \<and> linked f (y # zs))"

lemma linked_suffix: "linked f (xs @ ys) \<Longrightarrow> linked f ys"
proof (induction xs)
  case (Cons x xs)
  then show ?case by (cases "xs @ ys") auto
qed simp

lemma linked_next: "linked f (x # ys) \<Longrightarrow> f x = (if ys = [] then None else Some (hd ys))"
  by (cases ys) auto

lemma linked_cong: "\<forall>x \<in> set xs. f x = g x \<Longrightarrow> linked f xs = linked g xs"
  by (induction f xs rule: linked.induct) auto

lemma linked_append:
  "linked f (xs @ u # ys) \<longleftrightarrow>
   linked (f(u := None)) (xs @ [u]) \<and> linked f (u # ys)" if "u \<notin> set xs"
  using that
proof (induction xs)
  case (Cons x xs)
  then show ?case by (cases xs) auto
qed (cases ys; auto)

lemma linked_insert:
  assumes "linked f (xs @ u # ys)" "u \<notin> set xs" "u \<notin> set ys" "n \<notin> set xs \<union> set ys" "n \<noteq> u"
    and "g n = f u" "g u = Some n" "\<And>x. x \<in> set xs \<union> set ys \<Longrightarrow> g x = f x"
  shows "linked g (xs @ u # n # ys)"
proof -
  have "linked (f(u := None)) (xs @ [u])" "linked f (u # ys)"
    using assms(1) linked_append [OF assms(2)] by blast+
  then have pre: "linked (g(u := None)) (xs @ [u])"
    using assms(2,8) linked_cong [of "xs @ [u]" "f(u := None)" "g(u := None)"] by auto
  have "linked f ys" using linked_suffix [of f "[u]" ys] \<open>linked f (u # ys)\<close> by simp
  then have "linked g ys" using assms(8) linked_cong [of ys f g] by simp
  moreover have "g n = (if ys = [] then None else Some (hd ys))"
    using linked_next [OF \<open>linked f (u # ys)\<close>] assms(6) by simp
  ultimately have "linked g (n # ys)" by (cases ys) auto
  then have "linked g (u # n # ys)" using assms(7) by simp
  then show ?thesis using pre linked_append [OF assms(2)] by blast
qed

lemma linked_delete:
  assumes "linked f (xs @ u # a # ys)" "u \<notin> set xs" "u \<notin> set ys"
    and "g u = f a" "\<And>x. x \<in> set xs \<union> set ys \<Longrightarrow> g x = f x"
  shows "linked g (xs @ u # ys)"
proof -
  have "linked (f(u := None)) (xs @ [u])" "linked f (u # a # ys)"
    using assms(1) linked_append [OF assms(2)] by blast+
  then have pre: "linked (g(u := None)) (xs @ [u])"
    using assms(2,5) linked_cong [of "xs @ [u]" "f(u := None)" "g(u := None)"] by auto
  have aft: "linked f (a # ys)" using \<open>linked f (u # a # ys)\<close> by simp
  then have "linked f ys" using linked_suffix [of f "[a]" ys] by simp
  then have "linked g ys" using assms(5) linked_cong [of ys f g] by simp
  moreover have "g u = (if ys = [] then None else Some (hd ys))"
    using linked_next [OF aft] assms(4) by simp
  ultimately have "linked g (u # ys)" by (cases ys) auto
  then show ?thesis using pre linked_append [OF assms(2)] by blast
qed

section \<open>The invariant\<close>

text \<open>
  \<open>L\<close> lists the linked nodes in key order; level \<open>i\<close> links the header and the nodes whose vector
  reaches level \<open>i\<close>.
\<close>

definition lv :: "skiplist \<Rightarrow> nat \<Rightarrow> nat" where
  "lv s a = length (sn_forward (sl_nodes s ! a)) - 1"

definition at_level :: "skiplist \<Rightarrow> nat \<Rightarrow> nat list \<Rightarrow> nat list" where
  "at_level s i L = [a \<leftarrow> L. i \<le> lv s a]"

definition sl_rep :: "skiplist \<Rightarrow> nat list \<Rightarrow> bool" where
  "sl_rep s L \<longleftrightarrow>
     sl_nodes s \<noteq> [] \<and> sl_level s \<le> MAX_LEVEL \<and> length (sn_forward (sl_nodes s ! 0)) = MAX_LEVEL + 1
     \<and> (\<forall>a \<in> set L. 0 < a \<and> a < length (sl_nodes s) \<and> sn_forward (sl_nodes s ! a) \<noteq> []
           \<and> lv s a \<le> sl_level s)
     \<and> distinct L \<and> sorted_wrt (<) (map (nkey s) L)
     \<and> (\<forall>i \<le> MAX_LEVEL. linked (\<lambda>a. forward s a i) (0 # at_level s i L))"

definition sl_entries :: "skiplist \<Rightarrow> nat list \<Rightarrow> entry list" where
  "sl_entries s L = map (\<lambda>a. (nkey s a, npos s a)) L"

lemma linked_level0_from:
  "linked (\<lambda>a. forward s a 0) (x # ys) \<Longrightarrow> length ys \<le> n \<Longrightarrow> level0_from s n (forward s x 0) = ys"
proof (induction ys arbitrary: x n)
  case Nil
  then show ?case by (cases n) simp_all
next
  case (Cons y ys)
  then obtain m where "n = Suc m" by (cases n) auto
  with Cons show ?case by simp
qed

lemma distinct_bound: "distinct L \<Longrightarrow> \<forall>a \<in> set L. 0 < a \<and> a < n \<Longrightarrow> length L \<le> n"
  using card_mono [of "{..<n}" "set L"] by (auto simp: distinct_card [symmetric])

lemma sl_rep_length: "sl_rep s L \<Longrightarrow> length L \<le> length (sl_nodes s)"
  unfolding sl_rep_def by (intro distinct_bound) auto

lemma at_level_0 [simp]: "at_level s 0 L = L"
  by (simp add: at_level_def)

lemma level0_rep: "sl_rep s L \<Longrightarrow> level0 s = L"
  unfolding level0_def
  by (rule linked_level0_from) (auto simp: sl_rep_length, auto simp: sl_rep_def dest: spec [of _ 0])

lemma sl_rep_ordered: "sl_rep s L \<Longrightarrow> ordered (sl_entries s L)"
  by (simp add: sl_rep_def ordered_def sl_entries_def o_def)

section \<open>The search finds the cut\<close>

definition below :: "skiplist \<Rightarrow> bytes \<Rightarrow> nat list \<Rightarrow> nat list" where
  "below s k L = takeWhile (\<lambda>a. nkey s a < k) L"

definition from_key :: "skiplist \<Rightarrow> bytes \<Rightarrow> nat list \<Rightarrow> nat list" where
  "from_key s k L = dropWhile (\<lambda>a. nkey s a < k) L"

lemma below_append: "below s k L @ from_key s k L = L"
  by (simp add: below_def from_key_def)

lemma below_less: "a \<in> set (below s k L) \<Longrightarrow> nkey s a < k"
  by (auto simp: below_def dest: set_takeWhileD)

lemma from_key_ge:
  "sorted_wrt (<) (map (nkey s) L) \<Longrightarrow> a \<in> set (from_key s k L) \<Longrightarrow> k \<le> nkey s a"
proof (induction L)
  case (Cons b L)
  then show ?case
    by (cases "nkey s b < k") (auto simp: from_key_def intro: order_trans dest: less_imp_le)
qed (simp add: from_key_def)

lemma at_level_append: "at_level s i (xs @ ys) = at_level s i xs @ at_level s i ys"
  by (simp add: at_level_def)

lemma walk_linked:
  "linked (\<lambda>a. forward s a i) (x # ys) \<Longrightarrow> length ys \<le> n \<Longrightarrow>
   walk s i key n x = last (x # takeWhile (\<lambda>a. nkey s a < key) ys)"
proof (induction ys arbitrary: x n)
  case Nil
  then show ?case by (cases n) simp_all
next
  case (Cons y ys)
  then obtain m where "n = Suc m" by (cases n) auto
  with Cons show ?case by (simp add: compare_keys_less)
qed

lemma walk_level:
  assumes rep: "sl_rep s L" and i: "i \<le> j" "i \<le> MAX_LEVEL"
  shows "walk s i key (length (sl_nodes s)) (last (0 # at_level s j (below s key L)))
    = last (0 # at_level s i (below s key L))"
proof -
  let ?A = "below s key L" and ?B = "from_key s key L"
  let ?cur = "last (0 # at_level s j ?A)"
  have "set (at_level s j ?A) \<subseteq> set (at_level s i ?A)" using i by (auto simp: at_level_def)
  moreover have "?cur \<in> set (0 # at_level s j ?A)" by (rule last_in_set) simp
  ultimately have "?cur \<in> set (0 # at_level s i ?A)" by auto
  then obtain pre q where q: "0 # at_level s i ?A = pre @ ?cur # q" by (meson split_list)
  have "at_level s i L = at_level s i ?A @ at_level s i ?B"
    by (metis at_level_append below_append)
  then have L: "0 # at_level s i L = pre @ ?cur # q @ at_level s i ?B" using q by simp
  have "linked (\<lambda>a. forward s a i) (0 # at_level s i L)" using rep i by (simp add: sl_rep_def)
  then have lk: "linked (\<lambda>a. forward s a i) (?cur # q @ at_level s i ?B)"
    unfolding L by (rule linked_suffix)
  have "length (0 # at_level s i L) \<le> Suc (length (sl_nodes s))"
    using order_trans [OF length_filter_le [of "\<lambda>a. i \<le> lv s a" L] sl_rep_length [OF rep]]
    by (simp add: at_level_def)
  then have len: "length (q @ at_level s i ?B) \<le> length (sl_nodes s)" unfolding L by simp
  have "set q \<subseteq> set (at_level s i ?A)" using q by (cases pre) auto
  then have "\<forall>a \<in> set q. nkey s a < key" using below_less by (auto simp: at_level_def)
  moreover have "\<forall>a \<in> set (at_level s i ?B). \<not> nkey s a < key"
    using from_key_ge rep by (auto simp: at_level_def sl_rep_def not_less)
  then have "takeWhile (\<lambda>a. nkey s a < key) (at_level s i ?B) = []"
    by (cases "at_level s i ?B") auto
  ultimately have "takeWhile (\<lambda>a. nkey s a < key) (q @ at_level s i ?B) = q"
    by (simp add: takeWhile_append2)
  then have "walk s i key (length (sl_nodes s)) ?cur = last (?cur # q)"
    using walk_linked [OF lk len, of key] by simp
  also have "\<dots> = last (0 # at_level s i ?A)" unfolding q by simp
  finally show ?thesis .
qed

lemma find_levels_spec:
  assumes "sl_rep s L" and "i \<le> MAX_LEVEL" and "i \<le> j" and "length upd = MAX_LEVEL + 1"
  shows "\<exists>upd'. find_levels s key i (last (0 # at_level s j (below s key L))) upd
      = (last (0 # below s key L), upd') \<and> length upd' = MAX_LEVEL + 1
    \<and> (\<forall>m \<le> i. upd' ! m = Some (last (0 # at_level s m (below s key L))))
    \<and> (\<forall>m. i < m \<longrightarrow> upd' ! m = upd ! m)"
  using assms(2-)
proof (induction i arbitrary: j upd)
  case 0
  then show ?case using walk_level [OF assms(1), of 0 j key] by (simp add: Let_def)
next
  case (Suc i)
  let ?c = "last (0 # at_level s (Suc i) (below s key L))"
  have w: "walk s (Suc i) key (length (sl_nodes s)) (last (0 # at_level s j (below s key L))) = ?c"
    using walk_level [OF assms(1), of "Suc i" j key] Suc.prems by simp
  obtain upd' where u: "find_levels s key i ?c (upd[Suc i := Some ?c]) = (last (0 # below s key L), upd')"
    "length upd' = MAX_LEVEL + 1"
    "\<forall>m \<le> i. upd' ! m = Some (last (0 # at_level s m (below s key L)))"
    "\<forall>m. i < m \<longrightarrow> upd' ! m = (upd[Suc i := Some ?c]) ! m"
    using Suc.IH [of "Suc i" "upd[Suc i := Some ?c]"] Suc.prems by auto
  have "find_levels s key (Suc i) (last (0 # at_level s j (below s key L))) upd
      = (last (0 # below s key L), upd')"
    unfolding find_levels.simps Let_def w by (rule u(1))
  moreover have "\<forall>m \<le> Suc i. upd' ! m = Some (last (0 # at_level s m (below s key L)))"
    using u(3,4) Suc.prems by (auto simp: le_Suc_eq)
  moreover have "\<forall>m. Suc i < m \<longrightarrow> upd' ! m = upd ! m" using u(4) by auto
  ultimately show ?case using u(2) by blast
qed

text \<open>Above the level of the list, no node reaches: the last node before the key is the header.\<close>

lemma at_level_above: "sl_rep s L \<Longrightarrow> sl_level s < i \<Longrightarrow> set xs \<subseteq> set L \<Longrightarrow> at_level s i xs = []"
  by (fastforce simp: sl_rep_def at_level_def filter_empty_conv)

lemma find_node_spec:
  assumes rep: "sl_rep s L"
  obtains upd where
    "find_node s key = (if from_key s key L = [] then None else Some (hd (from_key s key L)), upd)"
    "length upd = MAX_LEVEL + 1"
    "\<forall>m \<le> sl_level s. upd ! m = Some (last (0 # at_level s m (below s key L)))"
proof -
  have lvl: "sl_level s \<le> MAX_LEVEL" using rep by (simp add: sl_rep_def)
  have sub: "set (below s key L) \<subseteq> set L" by (auto simp: below_def dest: set_takeWhileD)
  have cur0: "last (0 # at_level s (Suc (sl_level s)) (below s key L)) = 0"
    using at_level_above [OF rep _ sub, of "Suc (sl_level s)"] by simp
  obtain upd where u: "find_levels s key (sl_level s) 0 (replicate (MAX_LEVEL + 1) None)
      = (last (0 # below s key L), upd)" "length upd = MAX_LEVEL + 1"
    "\<forall>m \<le> sl_level s. upd ! m = Some (last (0 # at_level s m (below s key L)))"
    using find_levels_spec [OF rep lvl, of "Suc (sl_level s)" "replicate (MAX_LEVEL + 1) None" key]
    unfolding cur0 by auto
  have "linked (\<lambda>a. forward s a 0) (0 # L)" using rep by (auto simp: sl_rep_def dest: spec [of _ 0])
  moreover have "0 # L = butlast (0 # below s key L) @ last (0 # below s key L) # from_key s key L"
    using append_butlast_last_id [of "0 # below s key L"] below_append [of s key L]
    by (metis append.assoc append_Cons append_Nil list.distinct(1))
  ultimately have "linked (\<lambda>a. forward s a 0) (last (0 # below s key L) # from_key s key L)"
    by (metis linked_suffix)
  then have "forward s (last (0 # below s key L)) 0
      = (if from_key s key L = [] then None else Some (hd (from_key s key L)))"
    by (rule linked_next)
  with u show ?thesis by (intro that [of upd]) (simp_all add: find_node_def)
qed

lemma sl_cut:
  assumes "sl_rep s L"
  shows "cut_at key (sl_entries s (below s key L)) (sl_entries s (from_key s key L))"
    and "sl_entries s L = sl_entries s (below s key L) @ sl_entries s (from_key s key L)"
proof -
  show split: "sl_entries s L = sl_entries s (below s key L) @ sl_entries s (from_key s key L)"
    unfolding sl_entries_def map_append [symmetric] below_append ..
  have "ordered (sl_entries s (from_key s key L))"
    using sl_rep_ordered [OF assms] unfolding split ordered_def map_append sorted_wrt_append by blast
  moreover have "\<forall>e \<in> set (sl_entries s (from_key s key L)). key \<le> fst e"
    using from_key_ge assms by (auto simp: sl_entries_def sl_rep_def)
  ultimately show "cut_at key (sl_entries s (below s key L)) (sl_entries s (from_key s key L))"
    using below_less by (auto simp: cut_at_def sl_entries_def)
qed

lemma hits_spec:
  "hits s (if B = [] then None else Some (hd B)) key \<longleftrightarrow> B \<noteq> [] \<and> nkey s (hd B) = key"
  by (simp add: hits_def compare_keys_zero)

lemma sl_find:
  assumes "sl_rep s L"
  shows "map_find key (sl_entries s L) =
    (let B = from_key s key L in if B \<noteq> [] \<and> nkey s (hd B) = key then Some (npos s (hd B)) else None)"
  using map_find_cut [OF sl_cut(1) [OF assms, of key]] sl_cut(2) [OF assms, of key]
  by (cases "from_key s key L") (simp_all add: sl_entries_def)

lemma SkipListIndex_get_spec:
  assumes "sl_rep s L"
  shows "SkipListIndex_get key s = map_find key (sl_entries s L)"
proof -
  obtain upd where
    "find_node s key = (if from_key s key L = [] then None else Some (hd (from_key s key L)), upd)"
    by (rule find_node_spec [OF assms])
  then show ?thesis unfolding sl_find [OF assms] SkipListIndex_get_def
    by (simp only: prod.case hits_spec Let_def) simp
qed

section \<open>Changing pointers\<close>

text \<open>\<open>same_nodes s s'\<close>: keys, positions and vector lengths agree, only pointers may differ.\<close>

definition same_nodes :: "skiplist \<Rightarrow> skiplist \<Rightarrow> bool" where
  "same_nodes s s' \<longleftrightarrow>
     length (sl_nodes s') = length (sl_nodes s) \<and> sl_level s' = sl_level s
     \<and> (\<forall>a. nkey s' a = nkey s a \<and> npos s' a = npos s a
           \<and> length (sn_forward (sl_nodes s' ! a)) = length (sn_forward (sl_nodes s ! a)))"

lemma same_nodes_refl [simp]: "same_nodes s s"
  by (simp add: same_nodes_def)

lemma same_nodes_trans: "same_nodes s t \<Longrightarrow> same_nodes t u \<Longrightarrow> same_nodes s u"
  by (simp add: same_nodes_def)

lemma same_nodes_set_forward [simp]: "same_nodes s (set_forward a i b s)"
  unfolding same_nodes_def set_forward_def nkey_def npos_def
  by (cases "a < length (sl_nodes s)") (auto simp: nth_list_update list_update_beyond)

lemma forward_set_forward:
  "a < length (sl_nodes s) \<Longrightarrow> i < length (sn_forward (sl_nodes s ! a)) \<Longrightarrow>
   forward (set_forward a i b s) c j = (if c = a \<and> j = i then b else forward s c j)"
  by (auto simp: forward_def set_forward_def nth_list_update)

lemma same_nodes_at_level: "same_nodes s s' \<Longrightarrow> at_level s' i L = at_level s i L"
  by (simp add: same_nodes_def at_level_def lv_def)

lemma same_nodes_entries: "same_nodes s s' \<Longrightarrow> sl_entries s' L = sl_entries s L"
  by (simp add: same_nodes_def sl_entries_def)

lemma link_levels_spec:
  assumes "n < length (sl_nodes s)"
    and "\<forall>i \<in> set is. the (upd ! i) < length (sl_nodes s) \<and> the (upd ! i) \<noteq> n
          \<and> i < length (sn_forward (sl_nodes s ! the (upd ! i)))
          \<and> i < length (sn_forward (sl_nodes s ! n))"
    and "distinct is"
  shows "same_nodes s (link_levels n upd is s)
    \<and> (\<forall>a i. forward (link_levels n upd is s) a i =
         (if i \<in> set is then (if a = n then forward s (the (upd ! i)) i
            else if a = the (upd ! i) then Some n else forward s a i)
          else forward s a i))"
  using assms
proof (induction "is" arbitrary: s)
  case (Cons i "is")
  let ?u = "the (upd ! i)"
  define s1 where "s1 = set_forward n i (forward s ?u i) s"
  define s2 where "s2 = set_forward ?u i (Some n) s1"
  have n1: "same_nodes s s1" by (simp add: s1_def)
  have n12: "same_nodes s1 s2" by (simp add: s2_def)
  have n2: "same_nodes s s2" by (rule same_nodes_trans [OF n1 n12])
  have f1: "forward s1 c j = (if c = n \<and> j = i then forward s ?u i else forward s c j)" for c j
    unfolding s1_def using Cons.prems by (intro forward_set_forward) auto
  have f2: "forward s2 c j = (if c = ?u \<and> j = i then Some n else forward s1 c j)" for c j
    unfolding s2_def using Cons.prems n1
    by (intro forward_set_forward) (auto simp: same_nodes_def)
  have "same_nodes s2 (link_levels n upd is s2)
    \<and> (\<forall>a j. forward (link_levels n upd is s2) a j =
         (if j \<in> set is then (if a = n then forward s2 (the (upd ! j)) j
            else if a = the (upd ! j) then Some n else forward s2 a j)
          else forward s2 a j))"
    using Cons.prems n2 by (intro Cons.IH) (auto simp: same_nodes_def)
  moreover have "link_levels n upd (i # is) s = link_levels n upd is s2"
    by (simp add: s1_def s2_def Let_def)
  ultimately show ?case
    using Cons.prems n2 by (auto simp: f2 f1 intro: same_nodes_trans)
qed simp

lemma unlink_levels_spec:
  assumes "\<forall>i. j \<le> i \<and> i \<le> m \<longrightarrow> (forward s (the (upd ! i)) i = Some a \<longleftrightarrow> i \<le> l)
      \<and> the (upd ! i) < length (sl_nodes s) \<and> i < length (sn_forward (sl_nodes s ! the (upd ! i)))
      \<and> the (upd ! i) \<noteq> a"
  shows "same_nodes s (unlink_levels a upd [j..<Suc m] s)
    \<and> (\<forall>x i. forward (unlink_levels a upd [j..<Suc m] s) x i =
         (if j \<le> i \<and> i \<le> m \<and> i \<le> l \<and> x = the (upd ! i) then forward s a i else forward s x i))"
  using assms
proof (induction "Suc m - j" arbitrary: j s)
  case 0
  then show ?case by auto
next
  case (Suc d)
  let ?u = "the (upd ! j)"
  have jm: "j \<le> m" using Suc.hyps(2) by simp
  then have cons: "[j..<Suc m] = j # [Suc j..<Suc m]" by (simp add: upt_conv_Cons)
  show ?case
  proof (cases "j \<le> l")
    case False
    then show ?thesis using Suc.prems jm unfolding cons by auto
  next
    case True
    define s1 where "s1 = set_forward ?u j (forward s a j) s"
    have n1: "same_nodes s s1" by (simp add: s1_def)
    have f1: "forward s1 c i = (if c = ?u \<and> i = j then forward s a j else forward s c i)" for c i
      unfolding s1_def using Suc.prems jm by (intro forward_set_forward) auto
    have r: "same_nodes s1 (unlink_levels a upd [Suc j..<Suc m] s1)
      \<and> (\<forall>x i. forward (unlink_levels a upd [Suc j..<Suc m] s1) x i =
         (if Suc j \<le> i \<and> i \<le> m \<and> i \<le> l \<and> x = the (upd ! i) then forward s1 a i else forward s1 x i))"
      using Suc.prems Suc.hyps(2) n1 by (intro Suc.hyps(1)) (auto simp: f1 same_nodes_def)
    have e: "unlink_levels a upd [j..<Suc m] s = unlink_levels a upd [Suc j..<Suc m] s1"
      using Suc.prems True jm unfolding cons by (simp add: s1_def)
    have ua: "?u \<noteq> a" using Suc.prems jm by blast
    have "forward (unlink_levels a upd [Suc j..<Suc m] s1) x i =
        (if j \<le> i \<and> i \<le> m \<and> i \<le> l \<and> x = the (upd ! i) then forward s a i else forward s x i)" for x i
      using r True jm ua by (cases "i = j") (simp_all add: f1 Suc_le_eq)
    then show ?thesis unfolding e using r n1 same_nodes_trans by blast
  qed
qed

lemma lower_level_spec:
  "lower_level s m \<le> m \<and> (\<forall>i. lower_level s m < i \<and> i \<le> m \<longrightarrow> forward s 0 i = None)"
  by (induction m) (auto simp: le_Suc_eq)

lemma random_level_loop_bound: "l \<le> MAX_LEVEL \<Longrightarrow> fst (random_level_loop c u l) \<le> MAX_LEVEL"
proof (induction c u l rule: random_level_loop.induct)
  case (1 c u l)
  then show ?case by (subst random_level_loop.simps) auto
qed

lemma random_level_spec:
  "fst (random_level s) \<le> MAX_LEVEL \<and> (\<exists>u. snd (random_level s) = s\<lparr>sl_used := u\<rparr>)"
  using random_level_loop_bound [of 0 "sl_coins s" "sl_used s"]
  by (auto simp: random_level_def split: prod.split)

lemma fold_upd_header:
  "length upd = N \<Longrightarrow> k \<le> N \<Longrightarrow> length (fold (\<lambda>i u. u[i := Some 0]) [m..<k] upd) = N
   \<and> (\<forall>i. fold (\<lambda>i u. u[i := Some 0]) [m..<k] upd ! i = (if m \<le> i \<and> i < k then Some 0 else upd ! i))"
  by (induction k) (auto simp: nth_list_update not_less le_Suc_eq less_Suc_eq)

section \<open>Every operation keeps the invariant and acts on the map\<close>

text \<open>The level-wise lists around the cut; the last node before the key at a level.\<close>

abbreviation last_below :: "skiplist \<Rightarrow> bytes \<Rightarrow> nat list \<Rightarrow> nat \<Rightarrow> nat" where
  "last_below s key L i \<equiv> last (0 # at_level s i (below s key L))"

lemma level_split:
  assumes "sl_rep s L"
  shows "0 # at_level s i L =
    butlast (0 # at_level s i (below s key L)) @ last_below s key L i # at_level s i (from_key s key L)"
proof -
  have "at_level s i L = at_level s i (below s key L) @ at_level s i (from_key s key L)"
    by (metis at_level_append below_append)
  moreover have "0 # at_level s i (below s key L)
      = butlast (0 # at_level s i (below s key L)) @ [last_below s key L i]"
    by (metis append_butlast_last_id list.distinct(1))
  ultimately show ?thesis by (metis append_Cons append_assoc append_Nil)
qed

lemma level_distinct:
  assumes "sl_rep s L"
  shows "distinct (0 # at_level s i L)"
  using assms by (auto simp: sl_rep_def at_level_def)

lemma last_below_in:
  assumes "sl_rep s L" "i \<le> MAX_LEVEL"
  shows "last_below s key L i < length (sl_nodes s)"
    and "i < length (sn_forward (sl_nodes s ! last_below s key L i))"
proof -
  have "last_below s key L i \<in> set (0 # at_level s i (below s key L))" by (rule last_in_set) simp
  then have *: "last_below s key L i = 0 \<or> last_below s key L i \<in> set L \<and> i \<le> lv s (last_below s key L i)"
    by (auto simp: at_level_def below_def dest: set_takeWhileD)
  then show "last_below s key L i < length (sl_nodes s)"
    using assms by (auto simp: sl_rep_def)
  have "i < length (sn_forward (sl_nodes s ! a))" if "a \<in> set L" "i \<le> lv s a" for a
    using that assms(1) by (cases "sn_forward (sl_nodes s ! a)") (auto simp: sl_rep_def lv_def)
  moreover have "i < length (sn_forward (sl_nodes s ! 0))" using assms by (simp add: sl_rep_def)
  ultimately show "i < length (sn_forward (sl_nodes s ! last_below s key L i))" using * by metis
qed

lemma sl_rep_linked: "sl_rep s L \<Longrightarrow> i \<le> MAX_LEVEL \<Longrightarrow> linked (\<lambda>a. forward s a i) (0 # at_level s i L)"
  by (simp add: sl_rep_def)

lemma update_pos_rep:
  fixes pos :: log_record_pos
  assumes rep: "sl_rep s L" and a: "a \<in> set L"
  defines "s' \<equiv> s\<lparr>sl_nodes := (sl_nodes s)[a := (sl_nodes s ! a)\<lparr>sn_pos := pos\<rparr>]\<rparr>"
  shows "sl_rep s' L" and "nkey s' = nkey s" and "npos s' b = (if b = a then pos else npos s b)"
proof -
  have al: "a < length (sl_nodes s)" using rep a by (simp add: sl_rep_def)
  show key: "nkey s' = nkey s" and pos: "npos s' b = (if b = a then pos else npos s b)"
    using al by (auto simp: s'_def nkey_def npos_def nth_list_update fun_eq_iff)
  have fwd: "sn_forward (sl_nodes s' ! b) = sn_forward (sl_nodes s ! b)" for b
    using al by (auto simp: s'_def nth_list_update)
  have "lv s' = lv s" by (simp add: lv_def fwd fun_eq_iff)
  moreover have "forward s' = forward s" by (simp add: forward_def fwd fun_eq_iff)
  ultimately show "sl_rep s' L"
    using rep by (simp add: sl_rep_def fwd key at_level_def) (simp add: s'_def)
qed

lemma SkipListIndex_put_hit:
  fixes pos :: log_record_pos
  assumes rep: "sl_rep s L" and hit: "from_key s key L = a # B" "nkey s a = key"
  defines "s' \<equiv> s\<lparr>sl_nodes := (sl_nodes s)[a := (sl_nodes s ! a)\<lparr>sn_pos := pos\<rparr>]\<rparr>"
  shows "SkipListIndex_put key pos s = (Some (npos s a), s')" and "sl_rep s' L"
    and "sl_entries s' L = map_set key pos (sl_entries s L)"
proof -
  obtain upd where f: "find_node s key = (Some a, upd)"
    using find_node_spec [OF rep, of key] hit(1) by (metis list.sel(1) list.distinct(1))
  show "SkipListIndex_put key pos s = (Some (npos s a), s')"
    using hit(2) by (simp add: SkipListIndex_put_def f hits_def compare_keys_zero s'_def)
  have L: "L = below s key L @ a # B" using below_append [of s key L] hit(1) by simp
  then have a: "a \<in> set L" by (metis in_set_conv_decomp)
  note upd = update_pos_rep [OF rep a, of pos, folded s'_def]
  show "sl_rep s' L" by (rule upd)
  have dist: "distinct (below s key L @ a # B)" using rep L by (simp add: sl_rep_def)
  have same: "sl_entries s' xs = sl_entries s xs" if "a \<notin> set xs" for xs
    using that by (simp add: sl_entries_def upd)
  have "sl_entries s' L = sl_entries s' (below s key L @ a # B)" using L by metis
  also have "\<dots> = sl_entries s (below s key L) @ (key, pos) # sl_entries s B"
    using dist same [of "below s key L"] same [of B] hit(2) by (simp add: sl_entries_def upd)
  also have "\<dots> = map_set key pos (sl_entries s L)"
    using map_set_cut [OF sl_cut(1) [OF rep, of key], of pos] sl_cut(2) [OF rep, of key] hit
    by (simp add: sl_entries_def)
  finally show "sl_entries s' L = map_set key pos (sl_entries s L)" .
qed

text \<open>The list after an insertion: the state before the pointers are set, then the pointers.\<close>

lemma insert_rep:
  fixes pos :: log_record_pos and key :: bytes and used new_level :: nat and upd :: "nat option list"
  assumes rep: "sl_rep s L" and miss: "from_key s key L = [] \<or> nkey s (hd (from_key s key L)) \<noteq> key"
    and lev: "new_level \<le> MAX_LEVEL"
    and upd: "\<forall>i \<le> new_level. the (upd ! i) = last_below s key L i"
  defines "n \<equiv> length (sl_nodes s)"
  defines "s1 \<equiv> s\<lparr>sl_nodes := sl_nodes s @ [new_node key pos new_level], sl_used := used,
                 sl_level := max (sl_level s) new_level\<rparr>"
  defines "s2 \<equiv> link_levels n upd [0..<Suc new_level] s1"
  shows "sl_rep s2 (below s key L @ n # from_key s key L)"
    and "sl_entries s2 (below s key L @ n # from_key s key L) = map_set key pos (sl_entries s L)"
proof -
  let ?A = "below s key L" and ?B = "from_key s key L"
  have L: "?A @ ?B = L" by (rule below_append)
  have old: "sl_nodes s1 ! a = sl_nodes s ! a" if "a < n" for a
    using that by (simp add: s1_def n_def nth_append)
  have new: "sl_nodes s1 ! n = new_node key pos new_level" by (simp add: s1_def n_def)
  have Ln: "\<forall>a \<in> set L. 0 < a \<and> a < n" using rep by (simp add: sl_rep_def n_def)
  have n0: "0 < n" using rep by (simp add: sl_rep_def n_def)
  have spec: "same_nodes s1 s2 \<and> (\<forall>a i. forward s2 a i =
      (if i \<in> set [0..<Suc new_level] then (if a = n then forward s1 (the (upd ! i)) i
         else if a = the (upd ! i) then Some n else forward s1 a i) else forward s1 a i))"
    unfolding s2_def
  proof (rule link_levels_spec)
    show "n < length (sl_nodes s1)" by (simp add: s1_def n_def)
    have u: "last_below s key L i < n" "i < length (sn_forward (sl_nodes s ! last_below s key L i))"
      if "i \<le> new_level" for i
      using last_below_in [OF rep, of i key] that lev by (simp_all add: n_def)
    show "\<forall>i \<in> set [0..<Suc new_level]. the (upd ! i) < length (sl_nodes s1) \<and> the (upd ! i) \<noteq> n
          \<and> i < length (sn_forward (sl_nodes s1 ! the (upd ! i)))
          \<and> i < length (sn_forward (sl_nodes s1 ! n))"
    proof
      fix i
      assume "i \<in> set [0..<Suc new_level]"
      then have i: "i \<le> new_level" by auto
      have un: "the (upd ! i) < n" "i < length (sn_forward (sl_nodes s ! the (upd ! i)))"
        using u [OF i] upd i by metis+
      have "n < length (sl_nodes s1)" "i < length (sn_forward (sl_nodes s1 ! n))"
        using i by (simp_all add: new new_node_def) (simp add: s1_def n_def)
      with un old [OF un(1)] show "the (upd ! i) < length (sl_nodes s1) \<and> the (upd ! i) \<noteq> n
          \<and> i < length (sn_forward (sl_nodes s1 ! the (upd ! i)))
          \<and> i < length (sn_forward (sl_nodes s1 ! n))"
        by simp
    qed
    show "distinct [0..<Suc new_level]" by simp
  qed
  have f2: "forward s2 a i = (if i \<le> new_level \<and> a = n then forward s (last_below s key L i) i
      else if i \<le> new_level \<and> a = last_below s key L i then Some n else forward s a i)"
    if "a < n \<or> i \<le> new_level" "a \<le> n" "i \<le> MAX_LEVEL" for a i
  proof -
    have "forward s1 b i = forward s b i" if "b < n" for b
      using old [OF that] by (simp add: forward_def)
    then show ?thesis using spec that upd last_below_in(1) [OF rep, of i key]
      by (auto simp: n_def [symmetric])
  qed
  have key2: "nkey s2 a = nkey s1 a" "npos s2 a = npos s1 a" for a
    using spec by (simp_all add: same_nodes_def)
  have keyL: "nkey s2 a = nkey s a \<and> npos s2 a = npos s a" if "a \<in> set L" for a
    using that Ln key2 [of a] old [of a] by (simp add: nkey_def npos_def)
  have keyn: "nkey s2 n = key" "npos s2 n = pos"
    using key2 [of n] new by (simp_all add: nkey_def npos_def new_node_def)
  have len2: "length (sn_forward (sl_nodes s2 ! a)) = length (sn_forward (sl_nodes s1 ! a))" for a
    using spec by (simp add: same_nodes_def)
  have lvL: "lv s2 a = lv s a" if "a < n" for a
    using len2 [of a] old [OF that] by (simp add: lv_def)
  have lvn: "lv s2 n = new_level" using len2 [of n] new by (simp add: lv_def new_node_def)
  have atL: "at_level s2 i xs = at_level s i xs" if "set xs \<subseteq> set L" for i xs
    unfolding at_level_def using that Ln lvL by (intro filter_cong) auto
  have sub: "set ?A \<subseteq> set L" "set ?B \<subseteq> set L" using L by (metis Un_upper1 Un_upper2 set_append)+
  have at2: "at_level s2 i (?A @ n # ?B)
      = at_level s i ?A @ (if i \<le> new_level then [n] else []) @ at_level s i ?B" for i
    using atL [OF sub(1)] atL [OF sub(2)] lvn by (simp add: at_level_append) (simp add: at_level_def)
  have entA: "sl_entries s2 ?A = sl_entries s ?A" "sl_entries s2 ?B = sl_entries s ?B"
    using keyL sub by (auto simp: sl_entries_def)
  have cut: "cut_at key (sl_entries s ?A) (sl_entries s ?B)" by (rule sl_cut [OF rep])
  have nohit: "\<not> (sl_entries s ?B \<noteq> [] \<and> fst (hd (sl_entries s ?B)) = key)"
    using miss by (cases ?B) (auto simp: sl_entries_def)
  have "map_set key pos (sl_entries s L) = sl_entries s ?A @ (key, pos) # sl_entries s ?B"
    using map_set_cut [OF cut, of pos] nohit sl_cut(2) [OF rep, of key] by auto
  then show ent: "sl_entries s2 (?A @ n # ?B) = map_set key pos (sl_entries s L)"
    using entA keyn by (simp add: sl_entries_def)
  have "ordered (sl_entries s2 (?A @ n # ?B))"
    unfolding ent by (rule ordered_map_set [OF sl_rep_ordered [OF rep]])
  then have sorted: "sorted_wrt (<) (map (nkey s2) (?A @ n # ?B))"
    by (simp add: ordered_def sl_entries_def o_def)
  have linked: "linked (\<lambda>a. forward s2 a i) (0 # at_level s2 i (?A @ n # ?B))" if i: "i \<le> MAX_LEVEL" for i
  proof -
    define u where "u = last_below s key L i"
    define X where "X = butlast (0 # at_level s i ?A)"
    have ls: "0 # at_level s i L = X @ u # at_level s i ?B"
      unfolding u_def X_def by (rule level_split [OF rep])
    note f2 = f2 [where i = i, folded u_def]
    have lk: "linked (\<lambda>a. forward s a i) (X @ u # at_level s i ?B)"
      using sl_rep_linked [OF rep i] unfolding ls .
    have dist: "distinct (X @ u # at_level s i ?B)" using level_distinct [OF rep, of i] unfolding ls .
    have bnd: "\<forall>a \<in> set (X @ u # at_level s i ?B). a < n"
      unfolding ls [symmetric] using Ln n0 by (auto simp: at_level_def)
    have X: "0 # at_level s i ?A = X @ [u]" unfolding u_def X_def by (metis append_butlast_last_id list.distinct(1))
    show ?thesis
    proof (cases "i \<le> new_level")
      case True
      have "linked (\<lambda>a. forward s2 a i) (X @ u # n # at_level s i ?B)"
      proof (rule linked_insert [OF lk])
        show "u \<notin> set X" "u \<notin> set (at_level s i ?B)" using dist by auto
        show "n \<notin> set X \<union> set (at_level s i ?B)" "n \<noteq> u" using bnd by auto
        show "forward s2 n i = forward s u i" using f2 [of n] True i by simp
        show "forward s2 u i = Some n" using f2 [of u] True i bnd by simp
        show "forward s2 x i = forward s x i" if "x \<in> set X \<union> set (at_level s i ?B)" for x
        proof -
          have "x < n" "x \<noteq> u" using that bnd dist by auto
          then show ?thesis using f2 [of x] i by simp
        qed
      qed
      moreover have "0 # at_level s2 i (?A @ n # ?B) = X @ u # n # at_level s i ?B"
        unfolding at2 append_Cons [symmetric] X using True by simp
      ultimately show ?thesis by metis
    next
      case False
      have "\<forall>a \<in> set (X @ u # at_level s i ?B). forward s a i = forward s2 a i"
      proof
        fix a
        assume "a \<in> set (X @ u # at_level s i ?B)"
        then have "a < n" using bnd by blast
        then show "forward s a i = forward s2 a i" using f2 [of a] False i by simp
      qed
      then have "linked (\<lambda>a. forward s2 a i) (X @ u # at_level s i ?B)"
        using lk linked_cong [of "X @ u # at_level s i ?B" "\<lambda>a. forward s a i" "\<lambda>a. forward s2 a i"]
        by blast
      moreover have "0 # at_level s2 i (?A @ n # ?B) = X @ u # at_level s i ?B"
        unfolding at2 append_Cons [symmetric] X using False by simp
      ultimately show ?thesis by metis
    qed
  qed
  have ne: "sl_nodes s2 \<noteq> []" "length (sl_nodes s2) = Suc n" "sl_level s2 = max (sl_level s) new_level"
    using spec by (auto simp: same_nodes_def s1_def n_def simp flip: length_0_conv)
  have hdr: "length (sn_forward (sl_nodes s2 ! 0)) = MAX_LEVEL + 1"
    using rep len2 [of 0] old [OF n0] by (simp add: sl_rep_def)
  have "0 < a \<and> a < Suc n \<and> sn_forward (sl_nodes s2 ! a) \<noteq> [] \<and> lv s2 a \<le> max (sl_level s) new_level"
    if "a \<in> set (?A @ n # ?B)" for a
  proof (cases "a = n")
    case True
    have "length (sn_forward (sl_nodes s2 ! n)) = Suc new_level"
      using len2 [of n] new by (simp add: new_node_def)
    then have "sn_forward (sl_nodes s2 ! n) \<noteq> []" by auto
    with True n0 lvn show ?thesis by simp
  next
    case False
    then have a: "a \<in> set L" using that sub by auto
    then have an: "a < n" "0 < a" using Ln by blast+
    have "sn_forward (sl_nodes s ! a) \<noteq> []" using rep a by (simp add: sl_rep_def)
    then have "0 < length (sn_forward (sl_nodes s2 ! a))"
      unfolding len2 old [OF an(1)] by simp
    then have "sn_forward (sl_nodes s2 ! a) \<noteq> []" by simp
    moreover have "lv s2 a = lv s a" by (rule lvL [OF an(1)])
    moreover have "lv s a \<le> sl_level s" using rep a by (simp add: sl_rep_def)
    ultimately show ?thesis using an by simp
  qed
  moreover have "distinct (?A @ n # ?B)"
  proof -
    have "distinct (?A @ ?B)" unfolding L using rep by (simp add: sl_rep_def)
    moreover have "n \<notin> set (?A @ ?B)" unfolding L using Ln by auto
    ultimately show ?thesis by auto
  qed
  ultimately show "sl_rep s2 (?A @ n # ?B)"
    using ne hdr sorted linked rep lev by (simp add: sl_rep_def)
qed

lemma SkipListIndex_put_miss:
  assumes rep: "sl_rep s L" and miss: "from_key s key L = [] \<or> nkey s (hd (from_key s key L)) \<noteq> key"
  shows "\<exists>s' L'. SkipListIndex_put key pos s = (None, s') \<and> sl_rep s' L'
    \<and> sl_entries s' L' = map_set key pos (sl_entries s L)"
proof -
  obtain upd where f: "find_node s key
      = (if from_key s key L = [] then None else Some (hd (from_key s key L)), upd)"
    and len: "length upd = MAX_LEVEL + 1"
    and upd: "\<forall>m \<le> sl_level s. upd ! m = Some (last_below s key L m)"
    by (rule find_node_spec [OF rep])
  obtain nl used where rl: "random_level s = (nl, s\<lparr>sl_used := used\<rparr>)" and nl: "nl \<le> MAX_LEVEL"
    using random_level_spec [of s] by (metis prod.collapse)
  define F where "F = fold (\<lambda>i u. u[i := Some (0 :: nat)]) [sl_level s + 1..<Suc nl] upd"
  define upd' where "upd' = (if nl > sl_level s then F else upd)"
  define s1 where "s1 = s\<lparr>sl_nodes := sl_nodes s @ [new_node key pos nl], sl_used := used,
      sl_level := max (sl_level s) nl\<rparr>"
  have sub: "set (below s key L) \<subseteq> set L" by (auto simp: below_def dest: set_takeWhileD)
  have u: "\<forall>i \<le> nl. the (upd' ! i) = last_below s key L i"
  proof (intro allI impI)
    fix i
    assume i: "i \<le> nl"
    have fold: "F ! i = (if sl_level s + 1 \<le> i \<and> i < Suc nl then Some 0 else upd ! i)"
      unfolding F_def using fold_upd_header [of upd "MAX_LEVEL + 1" "Suc nl" "sl_level s + 1"] len nl by simp
    have above: "last_below s key L i = 0" if "sl_level s < i"
      using at_level_above [OF rep that sub] by simp
    show "the (upd' ! i) = last_below s key L i"
    proof (cases "i \<le> sl_level s")
      case True
      then have "upd' ! i = upd ! i" unfolding upd'_def using fold by simp
      with True upd show ?thesis by (metis option.sel)
    next
      case False
      then have "upd' ! i = Some 0" unfolding upd'_def using fold i by simp
      with False above show ?thesis by (metis not_le option.sel)
    qed
  qed
  have "s\<lparr>sl_used := used, sl_nodes := sl_nodes s @ [new_node key pos nl]\<rparr> = s1" if "\<not> nl > sl_level s"
    using that by (cases s) (simp add: s1_def max_def)
  moreover have "s\<lparr>sl_used := used, sl_level := nl, sl_nodes := sl_nodes s @ [new_node key pos nl]\<rparr> = s1"
    if "nl > sl_level s"
    using that by (cases s) (simp add: s1_def max_def)
  ultimately have "SkipListIndex_put key pos s
      = (None, link_levels (length (sl_nodes s)) upd' [0..<Suc nl] s1)"
    using miss unfolding SkipListIndex_put_def f prod.case hits_spec rl Let_def upd'_def F_def by auto
  then show ?thesis
    using insert_rep [OF rep miss nl u, where pos = pos and used = used] unfolding s1_def by blast
qed

section \<open>Removal\<close>

lemma sl_rep_lower:
  assumes "sl_rep s L"
  shows "sl_rep (s\<lparr>sl_level := lower_level s (sl_level s)\<rparr>) L"
    and "sl_entries (s\<lparr>sl_level := lower_level s (sl_level s)\<rparr>) L = sl_entries s L"
proof -
  let ?l = "lower_level s (sl_level s)" and ?s = "s\<lparr>sl_level := lower_level s (sl_level s)\<rparr>"
  have same: "nkey ?s = nkey s" "npos ?s = npos s" "lv ?s = lv s" "forward ?s = forward s"
    by (simp_all add: nkey_def npos_def lv_def forward_def fun_eq_iff)
  note low = lower_level_spec [of s "sl_level s"]
  have "lv s a \<le> ?l" if a: "a \<in> set L" for a
  proof (rule ccontr)
    assume n: "\<not> lv s a \<le> ?l"
    have le: "lv s a \<le> sl_level s" "sl_level s \<le> MAX_LEVEL" using assms a by (simp_all add: sl_rep_def)
    then have "forward s 0 (lv s a) = None" using low n by simp
    moreover have "a \<in> set (at_level s (lv s a) L)" using a by (simp add: at_level_def)
    then have "at_level s (lv s a) L \<noteq> []" by auto
    ultimately show False
      using linked_next [OF sl_rep_linked [OF assms, of "lv s a"]] le by simp
  qed
  then show "sl_rep ?s L" using assms low by (auto simp: sl_rep_def same at_level_def)
  show "sl_entries ?s L = sl_entries s L" by (simp add: sl_entries_def same)
qed

lemma unlink_rep:
  assumes rep: "sl_rep s L" and hit: "from_key s key L = a # B"
    and upd: "\<forall>i \<le> sl_level s. the (upd ! i) = last_below s key L i"
  defines "s2 \<equiv> unlink_levels a upd [0..<Suc (sl_level s)] s"
  shows "sl_rep s2 (below s key L @ B)" and "sl_entries s2 (below s key L @ B) = sl_entries s (below s key L @ B)"
proof -
  let ?A = "below s key L"
  have L: "L = ?A @ a # B" using below_append [of s key L] hit by simp
  have a: "a \<in> set L" by (subst L) simp
  have dAB: "distinct (?A @ a # B)" using rep unfolding L [symmetric] by (simp add: sl_rep_def)
  have lva: "lv s a \<le> sl_level s" "0 < a" using rep a by (simp_all add: sl_rep_def)
  have lvl: "sl_level s \<le> MAX_LEVEL" using rep by (simp add: sl_rep_def)
  have ls: "0 # at_level s i L = butlast (0 # at_level s i ?A) @ last_below s key L i # at_level s i (a # B)" for i
    using level_split [OF rep, of i key] unfolding hit .
  have aB: "at_level s i (a # B) = (if i \<le> lv s a then a # at_level s i B else at_level s i B)" for i
    by (simp add: at_level_def)
  have nxt: "forward s (last_below s key L i) i = Some a \<longleftrightarrow> i \<le> lv s a" if "i \<le> sl_level s" for i
  proof -
    have "i \<le> MAX_LEVEL" using that lvl by simp
    from linked_suffix [OF sl_rep_linked [OF rep this, unfolded ls]]
    have "linked (\<lambda>a. forward s a i) (last_below s key L i # at_level s i (a # B))" .
    moreover have "a \<notin> set (at_level s i B)" using dAB by (auto simp: at_level_def)
    ultimately show ?thesis using linked_next unfolding aB by (fastforce split: if_splits)
  qed
  have spec: "same_nodes s s2 \<and> (\<forall>x i. forward s2 x i =
      (if 0 \<le> i \<and> i \<le> sl_level s \<and> i \<le> lv s a \<and> x = the (upd ! i) then forward s a i else forward s x i))"
    unfolding s2_def
  proof (rule unlink_levels_spec, intro allI impI, elim conjE)
    fix i
    assume i: "i \<le> sl_level s"
    have "last_below s key L i \<in> set (0 # at_level s i ?A)" by (rule last_in_set) simp
    moreover have "a \<notin> set ?A" using dAB by auto
    ultimately have "last_below s key L i \<noteq> a" using lva(2) by (auto simp: at_level_def)
    then show "(forward s (the (upd ! i)) i = Some a \<longleftrightarrow> i \<le> lv s a)
      \<and> the (upd ! i) < length (sl_nodes s) \<and> i < length (sn_forward (sl_nodes s ! the (upd ! i)))
      \<and> the (upd ! i) \<noteq> a"
      using nxt [OF i] last_below_in [OF rep, of i key] i lvl upd by simp
  qed
  have f2: "forward s2 x i = (if i \<le> lv s a \<and> x = last_below s key L i then forward s a i else forward s x i)" for x i
    using spec upd lva by simp
  show ent: "sl_entries s2 (?A @ B) = sl_entries s (?A @ B)"
    using spec same_nodes_entries by blast
  have lk: "linked (\<lambda>a. forward s2 a i) (0 # at_level s i (?A @ B))" if i: "i \<le> MAX_LEVEL" for i
  proof -
    define u where "u = last_below s key L i"
    define X where "X = butlast (0 # at_level s i ?A)"
    have X: "0 # at_level s i ?A = X @ [u]"
      unfolding u_def X_def by (metis append_butlast_last_id list.distinct(1))
    have l0: "linked (\<lambda>a. forward s a i) (X @ u # at_level s i (a # B))"
      and d0: "distinct (X @ u # at_level s i (a # B))"
      using sl_rep_linked [OF rep i] level_distinct [OF rep, of i] unfolding ls u_def X_def by blast+
    note f2u = f2 [where i = i, folded u_def]
    have goal: "0 # at_level s i (?A @ B) = X @ u # at_level s i B"
      unfolding at_level_append append_Cons [symmetric] X by simp
    have "linked (\<lambda>a. forward s2 a i) (X @ u # at_level s i B)"
    proof (cases "i \<le> lv s a")
      case True
      have l1: "linked (\<lambda>a. forward s a i) (X @ u # a # at_level s i B)"
        and d1: "distinct (X @ u # a # at_level s i B)"
        using l0 d0 True unfolding aB by simp_all
      show ?thesis
      proof (rule linked_delete [OF l1])
        show "u \<notin> set X" "u \<notin> set (at_level s i B)" using d1 by auto
        show "forward s2 u i = forward s a i" using True by (simp only: f2u simp_thms if_True)
        show "forward s2 x i = forward s x i" if "x \<in> set X \<union> set (at_level s i B)" for x
        proof -
          have "x \<noteq> u" using that d1 by auto
          then show ?thesis by (simp only: f2u simp_thms if_False)
        qed
      qed
    next
      case False
      then have "(\<lambda>a. forward s2 a i) = (\<lambda>a. forward s a i)" by (simp only: f2u simp_thms if_False)
      with False l0 show ?thesis unfolding aB by simp
    qed
    then show ?thesis unfolding goal .
  qed
  have "sorted_wrt (<) (map (nkey s) (?A @ a # B))"
    using rep unfolding L [symmetric] by (simp add: sl_rep_def)
  then have "sorted_wrt (<) (map (nkey s) (?A @ B))" by (simp add: sorted_wrt_append)
  moreover have "distinct (?A @ B)" using dAB by auto
  moreover have "set (?A @ B) \<subseteq> set (?A @ a # B)" by auto
  then have sub: "set (?A @ B) \<subseteq> set L" unfolding L [symmetric] .
  have same: "nkey s2 x = nkey s x" "lv s2 x = lv s x"
    "length (sn_forward (sl_nodes s2 ! x)) = length (sn_forward (sl_nodes s ! x))" for x
    using spec by (simp_all add: same_nodes_def lv_def)
  then have ne: "sn_forward (sl_nodes s2 ! x) = [] \<longleftrightarrow> sn_forward (sl_nodes s ! x) = []" for x
    by (metis length_0_conv)
  have len: "length (sl_nodes s2) = length (sl_nodes s)" "sl_level s2 = sl_level s"
    using spec by (simp_all add: same_nodes_def)
  have "0 < length (sl_nodes s)" using rep by (simp add: sl_rep_def)
  then have "sl_nodes s2 \<noteq> []" unfolding len(1) [symmetric] by (rule iffD1 [OF length_greater_0_conv])
  moreover have "at_level s2 i (?A @ B) = at_level s i (?A @ B)" for i
    using spec same_nodes_at_level by blast
  moreover have "\<forall>x \<in> set (?A @ B). 0 < x \<and> x < length (sl_nodes s)
      \<and> sn_forward (sl_nodes s ! x) \<noteq> [] \<and> lv s x \<le> sl_level s"
    using rep sub unfolding sl_rep_def by blast
  ultimately show "sl_rep s2 (?A @ B)"
    using rep lk unfolding sl_rep_def same ne len by simp
qed

lemma SkipListIndex_remove_hit:
  assumes rep: "sl_rep s L" and hit: "from_key s key L = a # B" "nkey s a = key"
  shows "\<exists>s' L'. SkipListIndex_remove key s = ((Some (npos s a), True), s') \<and> sl_rep s' L'
    \<and> sl_entries s' L' = map_erase key (sl_entries s L)"
proof -
  obtain upd where f: "find_node s key = (Some a, upd)"
    and upd: "\<forall>m \<le> sl_level s. upd ! m = Some (last_below s key L m)"
    by (rule find_node_spec [OF rep, of key]) (use hit(1) in simp)
  let ?s2 = "unlink_levels a upd [0..<Suc (sl_level s)] s" and ?L = "below s key L @ B"
  let ?s3 = "?s2\<lparr>sl_level := lower_level ?s2 (sl_level ?s2)\<rparr>"
  have u: "\<forall>i \<le> sl_level s. the (upd ! i) = last_below s key L i" using upd by (metis option.sel)
  note un = unlink_rep [OF rep hit(1) u]
  have "SkipListIndex_remove key s = ((Some (npos s a), True), ?s3)"
    using hit(2) by (simp add: SkipListIndex_remove_def f hits_def compare_keys_zero Let_def)
  moreover have "sl_rep ?s3 ?L" "sl_entries ?s3 ?L = sl_entries s ?L"
    using sl_rep_lower [OF un(1)] un(2) by simp_all
  moreover have "sl_entries s ?L = map_erase key (sl_entries s L)"
    using map_erase_cut [OF sl_cut(1) [OF rep, of key]] sl_cut(2) [OF rep, of key] hit
    by (simp add: sl_entries_def)
  ultimately show ?thesis by metis
qed

section \<open>The interface\<close>

text \<open>The nodes that are linked, read off the state; the abstract map.\<close>

definition sl_ok :: "skiplist \<Rightarrow> bool" where
  "sl_ok s \<longleftrightarrow> sl_rep s (level0 s)"

definition sl_abs :: "skiplist \<Rightarrow> bytes \<Rightarrow> log_record_pos option" where
  "sl_abs s k = map_find k (sl_entries s (level0 s))"

lemma sl_rep_ok: "sl_rep s L \<Longrightarrow> sl_ok s \<and> level0 s = L"
  by (simp add: sl_ok_def level0_rep)

lemma SkipListIndex_put_spec:
  assumes "sl_rep s L"
  shows "\<exists>s' L'. SkipListIndex_put key pos s = (map_find key (sl_entries s L), s') \<and> sl_rep s' L'
    \<and> sl_entries s' L' = map_set key pos (sl_entries s L)"
proof (cases "from_key s key L \<noteq> [] \<and> nkey s (hd (from_key s key L)) = key")
  case True
  then obtain a B where h: "from_key s key L = a # B" "nkey s a = key" by (cases "from_key s key L") auto
  then have "map_find key (sl_entries s L) = Some (npos s a)" using sl_find [OF assms] by simp
  then show ?thesis using SkipListIndex_put_hit [OF assms h, of pos] by metis
next
  case False
  then have "map_find key (sl_entries s L) = None" unfolding sl_find [OF assms] Let_def by simp
  moreover have "from_key s key L = [] \<or> nkey s (hd (from_key s key L)) \<noteq> key" using False by blast
  ultimately show ?thesis using SkipListIndex_put_miss [OF assms] by metis
qed

lemma SkipListIndex_remove_spec:
  assumes "sl_rep s L"
  shows "\<exists>s' L'. SkipListIndex_remove key s
      = ((map_find key (sl_entries s L), map_find key (sl_entries s L) \<noteq> None), s') \<and> sl_rep s' L'
    \<and> sl_entries s' L' = map_erase key (sl_entries s L)"
proof (cases "from_key s key L \<noteq> [] \<and> nkey s (hd (from_key s key L)) = key")
  case True
  then obtain a B where h: "from_key s key L = a # B" "nkey s a = key" by (cases "from_key s key L") auto
  then have "map_find key (sl_entries s L) = Some (npos s a)" using sl_find [OF assms] by simp
  then show ?thesis using SkipListIndex_remove_hit [OF assms h] by simp
next
  case False
  then have none: "map_find key (sl_entries s L) = None" unfolding sl_find [OF assms] Let_def by simp
  obtain upd where f: "find_node s key
      = (if from_key s key L = [] then None else Some (hd (from_key s key L)), upd)"
    by (rule find_node_spec [OF assms])
  have "SkipListIndex_remove key s = ((None, False), s)"
    unfolding SkipListIndex_remove_def f prod.case hits_spec using False by simp
  then show ?thesis using none assms map_erase_absent [OF none] by auto
qed

interpretation sl: indexer sl_ok sl_abs SkipListIndex_put SkipListIndex_get
    SkipListIndex_remove SkipListIndex_size SkipListIndex_list_keys
proof unfold_locales
  fix s :: skiplist and k p
  assume "sl_ok s"
  then have rep: "sl_rep s (level0 s)" by (simp add: sl_ok_def)
  have ord: "ordered (sl_entries s (level0 s))" by (rule sl_rep_ordered [OF rep])
  obtain s1 L1 where put: "SkipListIndex_put k p s = (sl_abs s k, s1)" "sl_rep s1 L1"
    "sl_entries s1 L1 = map_set k p (sl_entries s (level0 s))"
    using SkipListIndex_put_spec [OF rep] unfolding sl_abs_def by blast
  obtain s2 L2 where rem: "SkipListIndex_remove k s = ((sl_abs s k, sl_abs s k \<noteq> None), s2)"
    "sl_rep s2 L2" "sl_entries s2 L2 = map_erase k (sl_entries s (level0 s))"
    using SkipListIndex_remove_spec [OF rep] unfolding sl_abs_def by blast
  show "fst (SkipListIndex_put k p s) = sl_abs s k" by (simp add: put)
  show "sl_abs (snd (SkipListIndex_put k p s)) = (sl_abs s)(k \<mapsto> p)"
    by (auto simp: put sl_abs_def level0_rep [OF put(2)] map_find_set [OF ord])
  show "sl_ok (snd (SkipListIndex_put k p s))" using sl_rep_ok [OF put(2)] by (simp add: put)
  show "fst (SkipListIndex_remove k s) = (sl_abs s k, sl_abs s k \<noteq> None)" by (simp add: rem)
  show "sl_abs (snd (SkipListIndex_remove k s)) = (sl_abs s)(k := None)"
    by (auto simp: rem sl_abs_def level0_rep [OF rem(2)] map_find_erase [OF ord])
  show "sl_ok (snd (SkipListIndex_remove k s))" using sl_rep_ok [OF rem(2)] by (simp add: rem)
  show "SkipListIndex_get k s = sl_abs s k" by (simp add: SkipListIndex_get_spec [OF rep] sl_abs_def)
  show "set (SkipListIndex_list_keys s) = dom (sl_abs s)"
    by (auto simp: SkipListIndex_list_keys_def sl_abs_def dom_def map_find_None sl_entries_def image_image)
  show "sorted (SkipListIndex_list_keys s) \<and> distinct (SkipListIndex_list_keys s)"
    using ordered_keys [OF ord] by (simp add: SkipListIndex_list_keys_def sl_entries_def o_def)
  show "SkipListIndex_size s = length (SkipListIndex_list_keys s)"
    by (simp add: SkipListIndex_size_def SkipListIndex_list_keys_def)
qed

lemma SkipListIndex_new_rep: "sl_rep (SkipListIndex_new coins) []"
  by (simp add: sl_rep_def SkipListIndex_new_def new_node_def at_level_def forward_def MAX_LEVEL_def)

lemma SkipListIndex_new_ok: "sl_ok (SkipListIndex_new coins)" "sl_abs (SkipListIndex_new coins) = Map.empty"
  using sl_rep_ok [OF SkipListIndex_new_rep] by (auto simp: sl_abs_def sl_entries_def)

text \<open>
  The skip list is an ordered map, whatever the random levels: after any sequence of insertions
  and removals, starting from the empty list, a lookup finds what the last update of the key left,
  the keys are listed in increasing order without repetition, and the size is their number. This
  covers the termination of every search: the number of nodes bounds each walk.
\<close>

theorem SkipListIndex_is_map:
  fixes us :: "(bytes \<times> log_record_pos option) list"
  defines "m \<equiv> fold (\<lambda>u m. m(fst u := snd u)) us Map.empty"
  shows "let s = fold (index_update SkipListIndex_put SkipListIndex_remove) us (SkipListIndex_new coins)
    in (\<forall>k. SkipListIndex_get k s = m k) \<and> SkipListIndex_list_keys s = sorted_list_of_set (dom m)
       \<and> SkipListIndex_size s = card (dom m)"
  unfolding m_def Let_def by (rule sl.history_results [OF SkipListIndex_new_ok])

section \<open>\<open>SkipListIterator\<close>\<close>

text \<open>A forward iterator follows the nodes of the list; a reverse one copies the entries.\<close>

record sl_iterator =
  si_current :: "nat option"
  si_prefix :: bytes
  si_items :: "entry list"
  si_index :: nat
  si_use_items :: bool

fun si_skip :: "nat \<Rightarrow> skiplist \<Rightarrow> bytes \<Rightarrow> nat option \<Rightarrow> nat option" where
  "si_skip 0 s prefix c = c"
| "si_skip (Suc n) s prefix c =
     (case c of
        None \<Rightarrow> None
      | Some a \<Rightarrow> if \<not> key_matches_prefix prefix (nkey s a) then si_skip n s prefix (forward s a 0)
                  else Some a)"

definition si_rewind :: "skiplist \<Rightarrow> sl_iterator \<Rightarrow> sl_iterator" where
  "si_rewind s it =
     (if si_use_items it then it\<lparr>si_index := 0\<rparr>
      else it\<lparr>si_current := si_skip (length (sl_nodes s)) s (si_prefix it) (forward s 0 0)\<rparr>)"

text \<open>\<open>for (level = 15; level >= 0; level--)\<close>\<close>

fun si_seek_levels :: "skiplist \<Rightarrow> bytes \<Rightarrow> nat \<Rightarrow> nat \<Rightarrow> nat" where
  "si_seek_levels s key 0 current = walk s 0 key (length (sl_nodes s)) current"
| "si_seek_levels s key (Suc i) current =
     si_seek_levels s key i (walk s (Suc i) key (length (sl_nodes s)) current)"

definition si_seek :: "bytes \<Rightarrow> skiplist \<Rightarrow> sl_iterator \<Rightarrow> sl_iterator" where
  "si_seek key s it =
     (if si_use_items it
      then it\<lparr>si_index := find_index (\<lambda>x. compare_keys x key \<ge> 0) (si_items it)\<rparr>
      else it\<lparr>si_current := si_skip (length (sl_nodes s)) s (si_prefix it)
                 (forward s (si_seek_levels s key 15 0) 0)\<rparr>)"

definition si_next :: "skiplist \<Rightarrow> sl_iterator \<Rightarrow> sl_iterator" where
  "si_next s it =
     (if si_use_items it then it\<lparr>si_index := si_index it + 1\<rparr>
      else case si_current it of
        None \<Rightarrow> it
      | Some a \<Rightarrow> it\<lparr>si_current := si_skip (length (sl_nodes s)) s (si_prefix it) (forward s a 0)\<rparr>)"

definition si_valid :: "skiplist \<Rightarrow> sl_iterator \<Rightarrow> bool" where
  "si_valid s it =
     (if si_use_items it then si_index it < length (si_items it) else si_current it \<noteq> None)"

definition si_key :: "skiplist \<Rightarrow> sl_iterator \<Rightarrow> bytes" where
  "si_key s it =
     (if si_use_items it then (if si_index it < length (si_items it) then fst (si_items it ! si_index it) else [])
      else case si_current it of None \<Rightarrow> [] | Some a \<Rightarrow> nkey s a)"

definition si_value :: "skiplist \<Rightarrow> sl_iterator \<Rightarrow> log_record_pos" where
  "si_value s it =
     (let none = \<lparr>pos_fid = 0, pos_offset = 0, pos_size = 0\<rparr> in
      if si_use_items it
      then (if si_index it < length (si_items it) then snd (si_items it ! si_index it) else none)
      else case si_current it of None \<Rightarrow> none | Some a \<Rightarrow> npos s a)"

definition si_close :: "sl_iterator \<Rightarrow> sl_iterator" where
  "si_close it = it\<lparr>si_current := None, si_items := []\<rparr>"

definition si_init_items :: "bytes \<Rightarrow> bool \<Rightarrow> skiplist \<Rightarrow> entry list" where
  "si_init_items prefix reverse s =
     (let items = [e \<leftarrow> sl_entries s (level0 s). key_matches_prefix prefix (fst e)]
      in if reverse then rev items else items)"

definition si_new :: "bool \<Rightarrow> bytes \<Rightarrow> skiplist \<Rightarrow> sl_iterator" where
  "si_new reverse prefix s =
     si_rewind s \<lparr>si_current = None, si_prefix = prefix,
        si_items = (if reverse then si_init_items prefix reverse s else []),
        si_index = 0, si_use_items = reverse\<rparr>"

definition SkipListIndex_iterator :: "bool \<Rightarrow> skiplist \<Rightarrow> sl_iterator" where
  "SkipListIndex_iterator reverse s = si_new reverse [] s"

text \<open>The part of the list from the current node on.\<close>

definition si_ok :: "skiplist \<Rightarrow> sl_iterator \<Rightarrow> bool" where
  "si_ok s it \<longleftrightarrow> sl_ok s \<and> si_prefix it = []
     \<and> (case si_current it of None \<Rightarrow> True | Some a \<Rightarrow> a \<in> set (level0 s))"

definition si_rest :: "skiplist \<Rightarrow> sl_iterator \<Rightarrow> entry list" where
  "si_rest s it =
     (if si_use_items it then drop (si_index it) (si_items it)
      else sl_entries s (level0_from s (length (sl_nodes s)) (si_current it)))"

definition si_full :: "skiplist \<Rightarrow> sl_iterator \<Rightarrow> entry list" where
  "si_full s it = (if si_use_items it then si_items it else sl_entries s (level0 s))"

definition si_entry :: "skiplist \<Rightarrow> sl_iterator \<Rightarrow> entry" where
  "si_entry s it = (si_key s it, si_value s it)"

lemma si_skip_no_prefix [simp]: "si_skip n s [] c = c"
  by (cases n) (simp_all split: option.split)

lemma level0_from_split:
  assumes "sl_rep s L" "0 # L = pre @ x # post"
  shows "level0_from s (length (sl_nodes s)) (forward s x 0) = post"
    and "forward s x 0 = (if post = [] then None else Some (hd post))"
proof -
  have l: "linked (\<lambda>a. forward s a 0) (0 # L)" using sl_rep_linked [OF assms(1), of 0] by simp
  then have lx: "linked (\<lambda>a. forward s a 0) (x # post)" unfolding assms(2) by (rule linked_suffix)
  have "length (0 # L) = length pre + Suc (length post)" unfolding assms(2) by simp
  then have "length post \<le> length (sl_nodes s)" using sl_rep_length [OF assms(1)] by simp
  with lx show "level0_from s (length (sl_nodes s)) (forward s x 0) = post"
    by (rule linked_level0_from)
  show "forward s x 0 = (if post = [] then None else Some (hd post))" by (rule linked_next [OF lx])
qed

lemma level0_from_hd:
  assumes "sl_rep s L" "0 # L = pre @ x # y # post"
  shows "level0_from s (length (sl_nodes s)) (Some y) = y # post"
  using level0_from_split [OF assms] by simp

lemma level0_from_current:
  assumes "sl_rep s L" "a \<in> set L"
  shows "\<exists>post. level0_from s (length (sl_nodes s)) (Some a) = a # post
    \<and> level0_from s (length (sl_nodes s)) (forward s a 0) = post
    \<and> (\<forall>b. forward s a 0 = Some b \<longrightarrow> b \<in> set L)"
proof -
  obtain pre post where L: "L = pre @ a # post" using assms(2) by (meson split_list)
  then have 0: "0 # L = (0 # pre) @ a # post" by simp
  have "0 # L = butlast (0 # pre) @ last (0 # pre) # a # post"
    using 0 append_butlast_last_id [of "0 # pre"] by (metis append_assoc append_Cons append_Nil list.distinct(1))
  note hd = level0_from_hd [OF assms(1) this] and split = level0_from_split [OF assms(1) 0]
  have "b \<in> set L" if "forward s a 0 = Some b" for b
  proof -
    have "b \<in> set post" using that unfolding split(2) by (cases post) simp_all
    then show ?thesis by (simp add: L)
  qed
  with hd split(1) show ?thesis by blast
qed

interpretation si: index_iterator "si_ok s" "si_rest s" "si_full s" "si_rewind s"
    "si_next s" "si_valid s" "si_entry s" for s
proof unfold_locales
  fix it :: sl_iterator
  assume ok: "si_ok s it"
  then have rep: "sl_rep s (level0 s)" and pre: "si_prefix it = []" by (simp_all add: si_ok_def sl_ok_def)
  have ne: "sl_nodes s \<noteq> []" using rep by (simp add: sl_rep_def)
  have none: "level0_from s (length (sl_nodes s)) None = []"
    using ne by (cases "length (sl_nodes s)") simp_all
  have cur: "\<exists>post. level0_from s (length (sl_nodes s)) (Some a) = a # post
      \<and> level0_from s (length (sl_nodes s)) (forward s a 0) = post
      \<and> (\<forall>b. forward s a 0 = Some b \<longrightarrow> b \<in> set (level0 s))"
    if "si_current it = Some a" for a
    using level0_from_current [OF rep, of a] ok that by (simp add: si_ok_def)
  have first: "level0_from s (length (sl_nodes s)) (forward s 0 0) = level0 s"
    "forward s 0 0 = (if level0 s = [] then None else Some (hd (level0 s)))"
    using level0_from_split [OF rep, of "[]" 0 "level0 s"] by simp_all
  show "si_valid s it = (si_rest s it \<noteq> [])"
    using cur none by (cases "si_current it") (auto simp: si_valid_def si_rest_def sl_entries_def)
  show "si_entry s it = hd (si_rest s it)" if "si_rest s it \<noteq> []"
    using that cur none
    by (cases "si_current it")
       (auto simp: si_entry_def si_key_def si_value_def si_rest_def sl_entries_def Let_def
          hd_drop_conv_nth split: if_splits)
  show "si_rest s (si_next s it) = tl (si_rest s it)"
    using cur none pre
    by (cases "si_current it") (auto simp: si_next_def si_rest_def sl_entries_def tl_drop drop_Suc)
  show "si_ok s (si_next s it) \<and> si_full s (si_next s it) = si_full s it"
    using cur ok pre
    by (cases "si_current it") (auto simp: si_next_def si_full_def si_ok_def split: option.split)
  show "si_rest s (si_rewind s it) = si_full s it"
    using pre first by (simp add: si_rewind_def si_rest_def si_full_def)
  show "si_ok s (si_rewind s it) \<and> si_full s (si_rewind s it) = si_full s it"
    using pre ok first(2) by (auto simp: si_rewind_def si_ok_def si_full_def)
qed

lemma si_seek_levels_spec:
  assumes "sl_rep s L" "i \<le> j" "i \<le> MAX_LEVEL"
  shows "si_seek_levels s key i (last_below s key L j) = last (0 # below s key L)"
  using assms(2,3)
proof (induction i arbitrary: j)
  case 0
  then show ?case using walk_level [OF assms(1), of 0 j key] by (simp only: si_seek_levels.simps at_level_0)
next
  case (Suc i)
  then have "walk s (Suc i) key (length (sl_nodes s)) (last_below s key L j) = last_below s key L (Suc i)"
    by (intro walk_level [OF assms(1)]) simp_all
  with Suc show ?case by (simp only: si_seek_levels.simps)
qed

lemma si_seek_rest:
  assumes "si_ok s it" "\<not> si_use_items it"
  shows "si_ok s (si_seek k s it) \<and> \<not> si_use_items (si_seek k s it)
    \<and> si_rest s (si_seek k s it) = [e \<leftarrow> sl_entries s (level0 s). k \<le> fst e]"
proof -
  let ?L = "level0 s" and ?x = "last (0 # below s k (level0 s))"
  have rep: "sl_rep s ?L" and pre: "si_prefix it = []" using assms(1) by (simp_all add: si_ok_def sl_ok_def)
  have sub: "set (below s k ?L) \<subseteq> set ?L" by (auto simp: below_def dest: set_takeWhileD)
  have "sl_level s < 17" using rep by (simp add: sl_rep_def MAX_LEVEL_def)
  then have "last_below s k ?L 17 = 0" using at_level_above [OF rep _ sub] by simp
  then have lev: "si_seek_levels s k 15 0 = ?x"
    using si_seek_levels_spec [OF rep, of 15 17 k] by (simp add: MAX_LEVEL_def)
  have L: "0 # ?L = butlast (0 # below s k ?L) @ ?x # from_key s k ?L"
    using append_butlast_last_id [of "0 # below s k ?L"] below_append [of s k ?L]
    by (metis append.assoc append_Cons append_Nil list.distinct(1))
  note split = level0_from_split [OF rep L]
  have "sl_entries s (from_key s k ?L) = dropWhile (\<lambda>e. \<not> k \<le> fst e) (sl_entries s ?L)"
    by (simp add: sl_entries_def from_key_def dropWhile_map o_def not_le)
  then have rest: "sl_entries s (from_key s k ?L) = [e \<leftarrow> sl_entries s ?L. k \<le> fst e]"
    using dropWhile_less_filter [OF sl_rep_ordered [OF rep], of k] by simp
  have "set (from_key s k ?L) \<subseteq> set ?L" by (auto simp: from_key_def dest: set_dropWhileD)
  then have "case forward s ?x 0 of None \<Rightarrow> True | Some a \<Rightarrow> a \<in> set ?L"
    unfolding split(2) by (cases "from_key s k ?L") auto
  then show ?thesis
    using assms pre rest split(1) by (simp add: si_seek_def lev si_ok_def si_rest_def)
qed

abbreviation si_visit :: "nat \<Rightarrow> skiplist \<Rightarrow> sl_iterator \<Rightarrow> entry list" where
  "si_visit n s \<equiv> visit (si_valid s) (si_entry s) (si_next s) n"

text \<open>
  What a cursor of the skip list visits: forward, all entries in key order, or those not below
  the key sought; reversed, all in decreasing order. As with the B+ tree, a reversed \<open>seek\<close> starts at
  the largest key of all, or nowhere.
\<close>

theorem SkipListIterator_visits:
  assumes "sl_ok s" and "SkipListIndex_size s \<le> n"
  shows "si_visit n s (SkipListIndex_iterator False s) = sl_entries s (level0 s)
    \<and> si_visit n s (SkipListIndex_iterator True s) = rev (sl_entries s (level0 s))
    \<and> si_visit n s (si_seek k s (SkipListIndex_iterator False s))
        = [e \<leftarrow> sl_entries s (level0 s). k \<le> fst e]
    \<and> si_visit n s (si_seek k s (SkipListIndex_iterator True s))
        = (if level0 s \<noteq> [] \<and> k \<le> fst (last (sl_entries s (level0 s)))
           then rev (sl_entries s (level0 s)) else [])"
proof -
  define m where "m = sl_entries s (level0 s)"
  have rep: "sl_rep s (level0 s)" using assms(1) by (simp add: sl_ok_def)
  have ord: "ordered m" unfolding m_def by (rule sl_rep_ordered [OF rep])
  have len: "length m \<le> n" using assms(2) by (simp add: m_def SkipListIndex_size_def sl_entries_def)
  have m0: "level0 s \<noteq> [] \<longleftrightarrow> m \<noteq> []" by (simp add: m_def sl_entries_def)
  let ?f = "\<lparr>si_current = None, si_prefix = [], si_items = [], si_index = 0, si_use_items = False\<rparr>"
  let ?r = "\<lparr>si_current = None, si_prefix = [], si_items = rev m, si_index = 0, si_use_items = True\<rparr>"
  have it: "SkipListIndex_iterator False s = si_rewind s ?f" "SkipListIndex_iterator True s = si_rewind s ?r"
    by (simp_all add: SkipListIndex_iterator_def si_new_def si_init_items_def m_def)
  have ok: "si_ok s ?f" "si_ok s ?r" using assms(1) by (simp_all add: si_ok_def)
  have okf: "si_ok s (SkipListIndex_iterator False s)" "\<not> si_use_items (SkipListIndex_iterator False s)"
    unfolding it using si.rewind_inv [OF ok(1)] by (simp_all add: si_rewind_def)
  have "si_visit n s (SkipListIndex_iterator False s) = m"
    "si_visit n s (SkipListIndex_iterator True s) = rev m"
    unfolding it using si.visit_all [OF ok(1), of n] si.visit_all [OF ok(2), of n] len
    by (simp_all add: si_full_def m_def)
  moreover have "si_visit n s (si_seek k s (SkipListIndex_iterator False s)) = [e \<leftarrow> m. k \<le> fst e]"
    using si_seek_rest [OF okf, of k] si.visit_rest [of s _ n]
      order_trans [OF length_filter_le [of "\<lambda>e. k \<le> fst e" m] len] by (simp add: m_def)
  moreover have "si_visit n s (si_seek k s (SkipListIndex_iterator True s))
      = (if m \<noteq> [] \<and> k \<le> fst (last m) then rev m else [])"
  proof -
    let ?it = "si_seek k s (SkipListIndex_iterator True s)"
    have "si_ok s ?it" using assms(1) by (simp add: it si_ok_def si_seek_def si_rewind_def)
    moreover have "si_rest s ?it = (if m \<noteq> [] \<and> k \<le> fst (last m) then rev m else [])"
      using find_index_ge_rev [OF ord, of k]
      by (simp add: it si_seek_def si_rest_def si_rewind_def compare_keys_less flip: not_less)
    ultimately show ?thesis using len by (simp add: si.visit_rest)
  qed
  ultimately show ?thesis unfolding m0 m_def [symmetric] by blast
qed

theorem SkipListIterator_visits_witness:
  "si_visit 1 (SkipListIndex_new (\<lambda>_. False)) (SkipListIndex_iterator True (SkipListIndex_new (\<lambda>_. False))) = []"
  using SkipListIterator_visits [of "SkipListIndex_new (\<lambda>_. False)" 1 "[]"]
    level0_rep [OF SkipListIndex_new_rep, of "\<lambda>_. False"]
  by (simp add: SkipListIndex_new_ok SkipListIndex_size_def sl_entries_def)

end
