(* ===== verification/Indexer.thy ===== *)
theory Indexer
  imports Skip_List
begin

text \<open>
  The fourth index, \<open>ARTIndex\<close> as it runs (\<open>src/art_index.cpp\<close>): its operations work on the ordered
  map \<open>simple_map_\<close> and the counter \<open>size_\<close>; the radix tree of the same file is never built. Then the
  virtual calls: the sum of the four indexes, \<open>create_indexer\<close>, and the sum of the iterators.
\<close>

section \<open>\<open>ARTIndex\<close>\<close>

record art_index =
  ar_map :: "entry list"
  ar_size :: nat

definition ARTIndex_new :: art_index where
  "ARTIndex_new = \<lparr>ar_map = [], ar_size = 0\<rparr>"

definition ARTIndex_put :: "bytes \<Rightarrow> log_record_pos \<Rightarrow> art_index \<Rightarrow> log_record_pos option \<times> art_index" where
  "ARTIndex_put key pos a =
     (let old_value = map_find key (ar_map a);
          a = (if old_value = None then a\<lparr>ar_size := ar_size a + 1\<rparr> else a)
      in (old_value, a\<lparr>ar_map := map_set key pos (ar_map a)\<rparr>))"

definition ARTIndex_get :: "bytes \<Rightarrow> art_index \<Rightarrow> log_record_pos option" where
  "ARTIndex_get key a = map_find key (ar_map a)"

text \<open>\<open>size_--\<close> on a \<open>size_t\<close>.\<close>

definition ARTIndex_remove ::
    "bytes \<Rightarrow> art_index \<Rightarrow> (log_record_pos option \<times> bool) \<times> art_index" where
  "ARTIndex_remove key a =
     (case map_find key (ar_map a) of
        Some old_value \<Rightarrow>
          ((Some old_value, True),
           a\<lparr>ar_map := map_erase key (ar_map a),
             ar_size := (if ar_size a = 0 then 2 ^ 64 - 1 else ar_size a - 1)\<rparr>)
      | None \<Rightarrow> ((None, False), a))"

definition ARTIndex_size :: "art_index \<Rightarrow> nat" where
  "ARTIndex_size a = ar_size a"

definition ARTIndex_list_keys :: "art_index \<Rightarrow> bytes list" where
  "ARTIndex_list_keys a = map fst (ar_map a)"

definition ARTIndex_iterator :: "bool \<Rightarrow> art_index \<Rightarrow> btree_iterator" where
  "ARTIndex_iterator reverse a = BTreeIterator_new (ar_map a) reverse"

text \<open>\<open>close\<close> forgets the tree and the counter, not the map.\<close>

definition ARTIndex_close :: "art_index \<Rightarrow> art_index" where
  "ARTIndex_close a = a\<lparr>ar_size := 0\<rparr>"

definition ar_ok :: "art_index \<Rightarrow> bool" where
  "ar_ok a \<longleftrightarrow> ordered (ar_map a) \<and> ar_size a = length (ar_map a)"

lemma length_map_set_new: "map_find k m = None \<Longrightarrow> length (map_set k p m) = Suc (length m)"
  by (induction k p m rule: map_set.induct) (auto split: if_splits)

lemma length_map_set_old:
  "ordered m \<Longrightarrow> map_find k m = Some q \<Longrightarrow> length (map_set k p m) = length m"
proof (induction k p m rule: map_set.induct)
  case (2 k p k' p' m)
  then have "k < k' \<Longrightarrow> k \<notin> fst ` set m" by (auto dest: order.strict_trans)
  with 2 show ?case by (auto simp: map_find_None [symmetric] split: if_splits)
qed simp

lemma length_map_erase: "map_find k m \<noteq> None \<Longrightarrow> Suc (length (map_erase k m)) = length m"
  by (induction k m rule: map_erase.induct) (auto split: if_splits)

interpretation ar: indexer ar_ok "\<lambda>a k. map_find k (ar_map a)" ARTIndex_put ARTIndex_get
    ARTIndex_remove ARTIndex_size ARTIndex_list_keys
proof unfold_locales
  fix a :: art_index and k p
  assume "ar_ok a"
  then have ord: "ordered (ar_map a)" and sz: "ar_size a = length (ar_map a)" by (simp_all add: ar_ok_def)
  show "(\<lambda>j. map_find j (ar_map (snd (ARTIndex_put k p a)))) = (\<lambda>j. map_find j (ar_map a))(k \<mapsto> p)"
    using ord by (auto simp: ARTIndex_put_def Let_def map_find_set)
  show "(\<lambda>j. map_find j (ar_map (snd (ARTIndex_remove k a)))) = (\<lambda>j. map_find j (ar_map a))(k := None)"
    using ord by (auto simp: ARTIndex_remove_def map_find_erase split: option.split)
  show "ar_ok (snd (ARTIndex_put k p a))"
    using ord sz length_map_set_new [of k "ar_map a" p] length_map_set_old [OF ord, of k _ p]
    by (auto simp: ARTIndex_put_def Let_def ar_ok_def ordered_map_set)
  show "ar_ok (snd (ARTIndex_remove k a))"
    using ord sz length_map_erase [of k "ar_map a"]
    by (auto simp: ARTIndex_remove_def ar_ok_def ordered_map_erase split: option.split)
  show "set (ARTIndex_list_keys a) = dom (\<lambda>k. map_find k (ar_map a))"
    by (auto simp: ARTIndex_list_keys_def dom_def map_find_None)
  show "sorted (ARTIndex_list_keys a) \<and> distinct (ARTIndex_list_keys a)"
    using ordered_keys [OF ord] by (simp add: ARTIndex_list_keys_def)
  show "ARTIndex_size a = length (ARTIndex_list_keys a)"
    by (simp add: ARTIndex_size_def ARTIndex_list_keys_def sz)
qed (auto simp: ARTIndex_put_def ARTIndex_remove_def ARTIndex_get_def Let_def split: option.split)

section \<open>The four indexes behind \<open>Indexer\<close>\<close>

datatype index =
    BTreeIdx btree_index
  | ARTIdx art_index
  | SkipListIdx skiplist
  | BPlusTreeIdx bptree

fun idx_put :: "bytes \<Rightarrow> log_record_pos \<Rightarrow> index \<Rightarrow> log_record_pos option \<times> index" where
  "idx_put k p (BTreeIdx i) = (case BTreeIndex_put k p i of (r, i) \<Rightarrow> (r, BTreeIdx i))"
| "idx_put k p (ARTIdx i) = (case ARTIndex_put k p i of (r, i) \<Rightarrow> (r, ARTIdx i))"
| "idx_put k p (SkipListIdx i) = (case SkipListIndex_put k p i of (r, i) \<Rightarrow> (r, SkipListIdx i))"
| "idx_put k p (BPlusTreeIdx i) = (case BPlusTreeIndex_put k p i of (r, i) \<Rightarrow> (r, BPlusTreeIdx i))"

fun idx_get :: "bytes \<Rightarrow> index \<Rightarrow> log_record_pos option" where
  "idx_get k (BTreeIdx i) = BTreeIndex_get k i"
| "idx_get k (ARTIdx i) = ARTIndex_get k i"
| "idx_get k (SkipListIdx i) = SkipListIndex_get k i"
| "idx_get k (BPlusTreeIdx i) = BPlusTreeIndex_get k i"

fun idx_remove :: "bytes \<Rightarrow> index \<Rightarrow> (log_record_pos option \<times> bool) \<times> index" where
  "idx_remove k (BTreeIdx i) = (case BTreeIndex_remove k i of (r, i) \<Rightarrow> (r, BTreeIdx i))"
| "idx_remove k (ARTIdx i) = (case ARTIndex_remove k i of (r, i) \<Rightarrow> (r, ARTIdx i))"
| "idx_remove k (SkipListIdx i) = (case SkipListIndex_remove k i of (r, i) \<Rightarrow> (r, SkipListIdx i))"
| "idx_remove k (BPlusTreeIdx i) = (case BPlusTreeIndex_remove k i of (r, i) \<Rightarrow> (r, BPlusTreeIdx i))"

fun idx_size :: "index \<Rightarrow> nat" where
  "idx_size (BTreeIdx i) = BTreeIndex_size i"
| "idx_size (ARTIdx i) = ARTIndex_size i"
| "idx_size (SkipListIdx i) = SkipListIndex_size i"
| "idx_size (BPlusTreeIdx i) = BPlusTreeIndex_size i"

fun idx_list_keys :: "index \<Rightarrow> bytes list" where
  "idx_list_keys (BTreeIdx i) = BTreeIndex_list_keys i"
| "idx_list_keys (ARTIdx i) = ARTIndex_list_keys i"
| "idx_list_keys (SkipListIdx i) = SkipListIndex_list_keys i"
| "idx_list_keys (BPlusTreeIdx i) = BPlusTreeIndex_list_keys i"

fun idx_close :: "index \<Rightarrow> fsys \<Rightarrow> index \<times> fsys" where
  "idx_close (BTreeIdx i) fs = (BTreeIdx (BTreeIndex_close i), fs)"
| "idx_close (ARTIdx i) fs = (ARTIdx (ARTIndex_close i), fs)"
| "idx_close (SkipListIdx i) fs = (SkipListIdx (SkipListIndex_close i), fs)"
| "idx_close (BPlusTreeIdx i) fs = (BPlusTreeIdx i, BPlusTreeIndex_close i fs)"

text \<open>\<open>coins\<close> stands for the answers of the random device that a new skip list is seeded with.\<close>

definition create_indexer ::
    "(nat \<Rightarrow> bool) \<Rightarrow> index_type \<Rightarrow> string \<Rightarrow> fsys \<Rightarrow> index res \<times> fsys" where
  "create_indexer coins type dir_path fs =
     (case type of
        BTREE \<Rightarrow> (Inr (BTreeIdx BTreeIndex_new), fs)
      | SKIPLIST \<Rightarrow> (Inr (SkipListIdx (SkipListIndex_new coins)), fs)
      | BPLUS_TREE \<Rightarrow>
          (case BPlusTreeIndex_new dir_path fs of
             (Inl e, fs) \<Rightarrow> (Inl e, fs)
           | (Inr t, fs) \<Rightarrow> (Inr (BPlusTreeIdx t), fs))
      | ART \<Rightarrow> (Inr (ARTIdx ARTIndex_new), fs))"

fun idx_ok :: "index \<Rightarrow> bool" where
  "idx_ok (BTreeIdx i) = ordered i"
| "idx_ok (ARTIdx i) = ar_ok i"
| "idx_ok (SkipListIdx i) = sl_ok i"
| "idx_ok (BPlusTreeIdx i) = bp_ok i"

fun idx_abs :: "index \<Rightarrow> bytes \<Rightarrow> log_record_pos option" where
  "idx_abs (BTreeIdx i) = (\<lambda>k. map_find k i)"
| "idx_abs (ARTIdx i) = (\<lambda>k. map_find k (ar_map i))"
| "idx_abs (SkipListIdx i) = sl_abs i"
| "idx_abs (BPlusTreeIdx i) = bp_abs i"

text \<open>Whichever index is chosen, the contract of the interface holds.\<close>

lemmas idx_laws =
  bt.put_ret bt.put_abs bt.put_inv bt.get_abs bt.remove_ret bt.remove_abs bt.remove_inv
  bt.keys_set bt.keys_sorted bt.sz_keys
  ar.put_ret ar.put_abs ar.put_inv ar.get_abs ar.remove_ret ar.remove_abs ar.remove_inv
  ar.keys_set ar.keys_sorted ar.sz_keys
  sl.put_ret sl.put_abs sl.put_inv sl.get_abs sl.remove_ret sl.remove_abs sl.remove_inv
  sl.keys_set sl.keys_sorted sl.sz_keys
  bp.put_ret bp.put_abs bp.put_inv bp.get_abs bp.remove_ret bp.remove_abs bp.remove_inv
  bp.keys_set bp.keys_sorted bp.sz_keys

interpretation ix: indexer idx_ok idx_abs idx_put idx_get idx_remove idx_size idx_list_keys
proof unfold_locales
  fix i :: index and k p
  assume "idx_ok i"
  then show "fst (idx_put k p i) = idx_abs i k" "idx_abs (snd (idx_put k p i)) = (idx_abs i)(k \<mapsto> p)"
    "idx_ok (snd (idx_put k p i))" "idx_get k i = idx_abs i k"
    "fst (idx_remove k i) = (idx_abs i k, idx_abs i k \<noteq> None)"
    "idx_abs (snd (idx_remove k i)) = (idx_abs i)(k := None)" "idx_ok (snd (idx_remove k i))"
    "set (idx_list_keys i) = dom (idx_abs i)" "sorted (idx_list_keys i) \<and> distinct (idx_list_keys i)"
    "idx_size i = length (idx_list_keys i)"
    by (cases i; simp add: idx_laws split_beta)+
qed

text \<open>The kinds of index that keep nothing on disk: closing them does not touch the file system.\<close>

definition in_memory :: "index \<Rightarrow> bool" where
  "in_memory i \<longleftrightarrow> (\<forall>t. i \<noteq> BPlusTreeIdx t)"

lemma in_memory_kept [simp]:
  "in_memory (snd (idx_put k p i)) = in_memory i"
  "in_memory (snd (idx_remove k i)) = in_memory i"
  by (cases i; simp add: in_memory_def split: prod.split)+

lemma in_memory_close: "in_memory i \<Longrightarrow> snd (idx_close i fs) = fs"
  by (cases i) (simp_all add: in_memory_def)

lemma create_indexer_new:
  assumes "type \<noteq> BPLUS_TREE"
  shows "\<exists>i. create_indexer coins type dir fs = (Inr i, fs) \<and> idx_ok i \<and> idx_abs i = Map.empty
    \<and> in_memory i"
  using assms
  by (cases type) (auto simp: create_indexer_def BTreeIndex_new_def ARTIndex_new_def ar_ok_def
      SkipListIndex_new_ok in_memory_def)

text \<open>
  C34: the index that the engine is configured with does not matter: starting from a new index of
  any of the three in-memory kinds, every sequence of updates leaves the same observable contents,
  those of a finite map, and \<open>list_keys\<close> is the increasing list of its keys.
\<close>

theorem create_indexer_is_map:
  fixes us :: "(bytes \<times> log_record_pos option) list"
  assumes "type \<noteq> BPLUS_TREE"
  defines "m \<equiv> fold (\<lambda>u m. m(fst u := snd u)) us Map.empty"
  shows "\<exists>i. create_indexer coins type dir fs = (Inr i, fs)
    \<and> (let i' = fold (index_update idx_put idx_remove) us i
       in (\<forall>k. idx_get k i' = m k) \<and> idx_list_keys i' = sorted_list_of_set (dom m)
          \<and> idx_size i' = card (dom m))"
proof -
  obtain i where i: "create_indexer coins type dir fs = (Inr i, fs)" "idx_ok i" "idx_abs i = Map.empty"
    using create_indexer_new [OF assms(1)] by blast
  show ?thesis
    using ix.history_results [OF i(2,3), of us] i(1) unfolding m_def Let_def by blast
qed

theorem create_indexer_is_map_witness:
  "\<exists>i. create_indexer (\<lambda>n. even n) SKIPLIST ''d'' \<lparr>fs_files = [], fs_dirs = [''d''], fs_locks = [], fs_page_size = 4096\<rparr> = (Inr i, \<lparr>fs_files = [], fs_dirs = [''d''], fs_locks = [], fs_page_size = 4096\<rparr>)
     \<and> idx_get [1] (fold (index_update idx_put idx_remove)
           [([1], Some \<lparr>pos_fid = 0, pos_offset = 0, pos_size = 9\<rparr>), ([1], None)] i) = None"
  using create_indexer_is_map [of SKIPLIST "\<lambda>n. even n" "''d''" "\<lparr>fs_files = [], fs_dirs = [''d''], fs_locks = [], fs_page_size = 4096\<rparr>"
      "[([1], Some \<lparr>pos_fid = 0, pos_offset = 0, pos_size = 9\<rparr>), ([1], None)]"]
  by (auto simp: Let_def)

lemma BPlusTreeIndex_new_fresh:
  assumes "\<not> file_exists (index_file_path dir) (create_directory dir fs)"
  shows "BPlusTreeIndex_new dir fs = (Inr \<lparr>bp_dir = dir, bp_root = new_leaf\<rparr>, create_directory dir fs)"
  using assms by (simp add: BPlusTreeIndex_new_def)

lemma bp_new_ok: "bp_ok \<lparr>bp_dir = dir, bp_root = new_leaf\<rparr>"
  "bp_abs \<lparr>bp_dir = dir, bp_root = new_leaf\<rparr> = Map.empty"
  by (auto simp: bp_ok_def leaf_ok_def bp_abs_def leaf_entries_def new_leaf_def LEAF_def INTERNAL_def)

section \<open>The iterators behind \<open>IndexIterator\<close>\<close>

datatype index_iter =
    BTreeIt btree_iterator
  | SkipListIt sl_iterator
  | BPlusTreeIt bplus_iterator

fun idx_iterator :: "bool \<Rightarrow> index \<Rightarrow> index_iter" where
  "idx_iterator reverse (BTreeIdx i) = BTreeIt (BTreeIterator_new i reverse)"
| "idx_iterator reverse (ARTIdx i) = BTreeIt (ARTIndex_iterator reverse i)"
| "idx_iterator reverse (SkipListIdx i) = SkipListIt (SkipListIndex_iterator reverse i)"
| "idx_iterator reverse (BPlusTreeIdx i) = BPlusTreeIt (BPlusTreeIndex_iterator reverse i)"

text \<open>
  The calls on an iterator get the index, whose nodes the iterators of the skip list and of the B+
  tree share. An iterator is only used with an index of its own kind.
\<close>

definition the_sl :: "index \<Rightarrow> skiplist" where
  "the_sl i = (case i of SkipListIdx s \<Rightarrow> s | _ \<Rightarrow> SkipListIndex_new (\<lambda>_. False))"

definition the_root :: "index \<Rightarrow> bnode" where
  "the_root i = (case i of BPlusTreeIdx t \<Rightarrow> bp_root t | _ \<Rightarrow> new_leaf)"

fun it_rewind :: "index \<Rightarrow> index_iter \<Rightarrow> index_iter" where
  "it_rewind i (BTreeIt it) = BTreeIt (BTreeIterator_rewind it)"
| "it_rewind i (SkipListIt it) = SkipListIt (si_rewind (the_sl i) it)"
| "it_rewind i (BPlusTreeIt it) = BPlusTreeIt (pi_rewind (the_root i) it)"

fun it_seek :: "bytes \<Rightarrow> index \<Rightarrow> index_iter \<Rightarrow> index_iter" where
  "it_seek k i (BTreeIt it) = BTreeIt (BTreeIterator_seek k it)"
| "it_seek k i (SkipListIt it) = SkipListIt (si_seek k (the_sl i) it)"
| "it_seek k i (BPlusTreeIt it) = BPlusTreeIt (pi_seek k (the_root i) it)"

fun it_next :: "index \<Rightarrow> index_iter \<Rightarrow> index_iter" where
  "it_next i (BTreeIt it) = BTreeIt (BTreeIterator_next it)"
| "it_next i (SkipListIt it) = SkipListIt (si_next (the_sl i) it)"
| "it_next i (BPlusTreeIt it) = BPlusTreeIt (pi_next (the_root i) it)"

fun it_valid :: "index \<Rightarrow> index_iter \<Rightarrow> bool" where
  "it_valid i (BTreeIt it) = BTreeIterator_valid it"
| "it_valid i (SkipListIt it) = si_valid (the_sl i) it"
| "it_valid i (BPlusTreeIt it) = pi_valid (the_root i) it"

fun it_key :: "index \<Rightarrow> index_iter \<Rightarrow> bytes res" where
  "it_key i (BTreeIt it) = BTreeIterator_key it"
| "it_key i (SkipListIt it) = Inr (si_key (the_sl i) it)"
| "it_key i (BPlusTreeIt it) = Inr (pi_key (the_root i) it)"

fun it_value :: "index \<Rightarrow> index_iter \<Rightarrow> log_record_pos res" where
  "it_value i (BTreeIt it) = BTreeIterator_value it"
| "it_value i (SkipListIt it) = Inr (si_value (the_sl i) it)"
| "it_value i (BPlusTreeIt it) = Inr (pi_value (the_root i) it)"

fun it_close :: "index_iter \<Rightarrow> index_iter" where
  "it_close (BTreeIt it) = BTreeIt (BTreeIterator_close it)"
| "it_close (SkipListIt it) = SkipListIt (si_close it)"
| "it_close (BPlusTreeIt it) = BPlusTreeIt (pi_close it)"

text \<open>The entries of an index in key order.\<close>

fun idx_entries :: "index \<Rightarrow> entry list" where
  "idx_entries (BTreeIdx i) = i"
| "idx_entries (ARTIdx i) = ar_map i"
| "idx_entries (SkipListIdx i) = sl_entries i (level0 i)"
| "idx_entries (BPlusTreeIdx i) = leaf_entries (bp_root i)"

lemma idx_entries_ordered: "idx_ok i \<Longrightarrow> ordered (idx_entries i)"
  by (cases i) (auto simp: ar_ok_def sl_ok_def bp_ok_def leaf_ok_def sl_rep_ordered)

lemma idx_entries_find: "idx_ok i \<Longrightarrow> map_find k (idx_entries i) = idx_abs i k"
  by (cases i) (auto simp: sl_abs_def bp_abs_def)

lemma idx_entries_keys: "idx_ok i \<Longrightarrow> map fst (idx_entries i) = idx_list_keys i"
  by (cases i) (auto simp: BTreeIndex_list_keys_def ARTIndex_list_keys_def
      SkipListIndex_list_keys_def sl_entries_def BPlusTreeIndex_list_keys_def bp_ok_def leaf_ok_keys
      find_first_leaf_ok)

lemma idx_entries_length: "idx_ok i \<Longrightarrow> length (idx_entries i) = idx_size i"
  using idx_entries_keys [of i] ix.sz_keys [of i] by (metis length_map)

fun it_ok :: "index \<Rightarrow> index_iter \<Rightarrow> bool" where
  "it_ok i (BTreeIt it) \<longleftrightarrow> True"
| "it_ok i (SkipListIt it) \<longleftrightarrow> si_ok (the_sl i) it"
| "it_ok i (BPlusTreeIt it) \<longleftrightarrow> pi_ok (the_root i) it"

fun it_rest :: "index \<Rightarrow> index_iter \<Rightarrow> entry list" where
  "it_rest i (BTreeIt it) = bi_rest it"
| "it_rest i (SkipListIt it) = si_rest (the_sl i) it"
| "it_rest i (BPlusTreeIt it) = pi_rest (the_root i) it"

fun it_full :: "index \<Rightarrow> index_iter \<Rightarrow> entry list" where
  "it_full i (BTreeIt it) = bi_items it"
| "it_full i (SkipListIt it) = si_full (the_sl i) it"
| "it_full i (BPlusTreeIt it) = pi_full (the_root i) it"

fun it_entry :: "index \<Rightarrow> index_iter \<Rightarrow> entry" where
  "it_entry i (BTreeIt it) = bi_entry it"
| "it_entry i (SkipListIt it) = si_entry (the_sl i) it"
| "it_entry i (BPlusTreeIt it) = pi_entry (the_root i) it"

interpretation it: index_iterator "it_ok i" "it_rest i" "it_full i" "it_rewind i"
    "it_next i" "it_valid i" "it_entry i" for i
proof unfold_locales
  fix t :: index_iter
  assume ok: "it_ok i t"
  show "it_valid i t = (it_rest i t \<noteq> [])"
    using ok bi.valid_rest si.valid_rest pi.valid_rest by (cases t) auto
  show "it_entry i t = hd (it_rest i t)" if "it_rest i t \<noteq> []"
    using ok that bi.cur_rest si.cur_rest pi.cur_rest by (cases t) auto
  show "it_rest i (it_next i t) = tl (it_rest i t)"
    using ok bi.next_rest si.next_rest pi.next_rest by (cases t) auto
  show "it_ok i (it_next i t) \<and> it_full i (it_next i t) = it_full i t"
    using ok bi.next_inv si.next_inv pi.next_inv by (cases t) auto
  show "it_rest i (it_rewind i t) = it_full i t"
    using ok bi.rewind_rest si.rewind_rest pi.rewind_rest by (cases t) auto
  show "it_ok i (it_rewind i t) \<and> it_full i (it_rewind i t) = it_full i t"
    using ok bi.rewind_inv si.rewind_inv pi.rewind_inv by (cases t) auto
qed

lemma idx_iterator_full:
  "idx_ok i \<Longrightarrow> it_ok i (idx_iterator r i) \<and> it_full i (idx_iterator r i)
    = (if r then rev (idx_entries i) else idx_entries i)"
proof (cases i)
  case (SkipListIdx s)
  assume "idx_ok i"
  then have "sl_rep s (level0 s)" using SkipListIdx by (simp add: sl_ok_def)
  moreover have "si_ok s \<lparr>si_current = None, si_prefix = [],
      si_items = (if r then si_init_items [] r s else []), si_index = 0, si_use_items = r\<rparr>"
    using \<open>idx_ok i\<close> SkipListIdx by (simp add: si_ok_def)
  ultimately show ?thesis using si.rewind_inv [of s] SkipListIdx
    by (auto simp: the_sl_def SkipListIndex_iterator_def si_new_def si_full_def si_init_items_def)
next
  case (BPlusTreeIdx t)
  assume "idx_ok i"
  then have ok: "leaf_ok (bp_root t)" using BPlusTreeIdx by (simp add: bp_ok_def)
  have "pi_ok (bp_root t) \<lparr>pi_leaf = False, pi_index = 0, pi_prefix = [],
        pi_items = (if r then pi_init_items [] r (bp_root t) else []),
        pi_items_index = 0, pi_use_items = r\<rparr>"
    using ok by (simp add: pi_ok_def)
  then show ?thesis using pi.rewind_inv [of "bp_root t"] BPlusTreeIdx
    by (auto simp: the_root_def BPlusTreeIndex_iterator_def pi_new_def pi_full_def pi_init_items_def
        find_first_leaf_ok [OF ok] leaf_entries_def Let_def)
qed (auto simp: BTreeIterator_new_def ARTIndex_iterator_def)

lemma it_entry_key_value:
  "it_ok i t \<Longrightarrow> it_valid i t \<Longrightarrow> it_key i t = Inr (fst (it_entry i t)) \<and> it_value i t = Inr (snd (it_entry i t))"
  by (cases t) (simp_all add: BTreeIterator_key_def BTreeIterator_value_def bi_entry_def
      si_entry_def pi_entry_def)

text \<open>
  Iterating any index visits each of its entries once, in key order, or in the opposite order
  when the iterator is reversed.
\<close>

theorem idx_iteration:
  assumes "idx_ok i" and "idx_size i \<le> n"
  shows "visit (it_valid i) (it_entry i) (it_next i) n (it_rewind i (idx_iterator r i))
    = (if r then rev (idx_entries i) else idx_entries i)
    \<and> map fst (idx_entries i) = idx_list_keys i \<and> sorted (idx_list_keys i)
    \<and> (\<forall>e \<in> set (idx_entries i). idx_get (fst e) i = Some (snd e))"
proof -
  note full = idx_iterator_full [OF assms(1), of r]
  have "length (it_full i (idx_iterator r i)) \<le> n"
    using full idx_entries_length [OF assms(1)] assms(2) by simp
  then have "visit (it_valid i) (it_entry i) (it_next i) n (it_rewind i (idx_iterator r i))
      = (if r then rev (idx_entries i) else idx_entries i)"
    using it.visit_all full by metis
  moreover have "idx_get (fst e) i = Some (snd e)" if "e \<in> set (idx_entries i)" for e
  proof -
    have "distinct (map fst (idx_entries i))"
      using ordered_keys [OF idx_entries_ordered [OF assms(1)]] by blast
    then show ?thesis
      using that idx_entries_find [OF assms(1), of "fst e"] ix.get_abs [OF assms(1)]
      by (cases e) (simp add: map_find_map_of)
  qed
  ultimately show ?thesis
    using idx_entries_keys [OF assms(1)] ix.keys_sorted [OF assms(1)] by blast
qed

theorem idx_iteration_witness:
  "map fst (visit (it_valid (BTreeIdx wit_tree)) (it_entry (BTreeIdx wit_tree)) (it_next (BTreeIdx wit_tree)) 3
     (it_rewind (BTreeIdx wit_tree) (idx_iterator True (BTreeIdx wit_tree)))) = [[3], [1, 2], [1]]"
  using idx_iteration [of "BTreeIdx wit_tree" 3 True] by (simp add: BTreeIndex_size_def)

end
