(* ===== verification/Art_Node.thy ===== *)
theory Art_Node
  imports Prelude
begin

text \<open>
  The inner nodes of the adaptive radix tree (\<open>src/art_index.cpp\<close>, \<open>include/bitcask/art_index.h\<close>):
  the four classes of nodes with their arrays, the five virtual functions of each, and the dispatch
  over them. The interface \<open>child_table\<close> is what the tree relies on: a node is a finite map from a
  byte to a child. Each class is shown to keep it.
\<close>

section \<open>The classes\<close>

text \<open>
  One datatype for each class; a child is a \<open>shared_ptr\<close>, null or not. The fields \<open>prefix_len\<close> and
  \<open>prefix\<close> of the base class are kept by the tree, which alone reads them.
\<close>

datatype 'c node4 = Node4 (n4_num: u8) (n4_keys: "u8 list") (n4_children: "'c option list")

datatype 'c node16 = Node16 (n16_num: u8) (n16_keys: "u8 list") (n16_children: "'c option list")

datatype 'c node48 = Node48 (n48_num: u8) (n48_indices: "u8 list") (n48_children: "'c option list")

datatype 'c node256 = Node256 (n256_num: u8) (n256_children: "'c option list")

definition ARTNode4_new :: "'c node4" where
  "ARTNode4_new = Node4 0 (replicate 4 0) (replicate 4 None)"

definition ARTNode16_new :: "'c node16" where
  "ARTNode16_new = Node16 0 (replicate 16 0) (replicate 16 None)"

definition ARTNode48_new :: "'c node48" where
  "ARTNode48_new = Node48 0 (replicate 256 0) (replicate 48 None)"

definition ARTNode256_new :: "'c node256" where
  "ARTNode256_new = Node256 0 (replicate 256 None)"

section \<open>The loops of the two small classes\<close>

text \<open>
  The first index below \<open>n\<close> that holds the key, and the first that holds a greater one. Then the two
  loops that move the elements of an array: \<open>xs[i] = xs[i - 1]\<close> for \<open>i\<close> from \<open>n\<close> down to \<open>pos + 1\<close>,
  and \<open>xs[j] = xs[j + 1]\<close> for \<open>j\<close> from \<open>i\<close> to \<open>n - 2\<close>.
\<close>

definition key_position :: "nat \<Rightarrow> u8 list \<Rightarrow> u8 \<Rightarrow> nat option" where
  "key_position n ks key = List.find (\<lambda>i. ks ! i = key) [0..<n]"

definition insert_position :: "nat \<Rightarrow> u8 list \<Rightarrow> u8 \<Rightarrow> nat" where
  "insert_position n ks key =
     (case List.find (\<lambda>i. ks ! i > key) [0..<n] of Some i \<Rightarrow> i | None \<Rightarrow> n)"

definition shift_right :: "nat \<Rightarrow> nat \<Rightarrow> 'a list \<Rightarrow> 'a list" where
  "shift_right pos n xs = fold (\<lambda>i xs. xs[i := xs ! (i - 1)]) (rev [Suc pos..<Suc n]) xs"

definition shift_left :: "nat \<Rightarrow> nat \<Rightarrow> 'a list \<Rightarrow> 'a list" where
  "shift_left i n xs = fold (\<lambda>j xs. xs[j := xs ! Suc j]) [i..<n - 1] xs"

lemma length_shift [simp]:
  "length (shift_right pos n xs) = length xs" "length (shift_left i n xs) = length xs"
proof -
  have "length (fold (\<lambda>i xs. xs[i := f xs i]) is xs) = length xs" for f :: "'a list \<Rightarrow> nat \<Rightarrow> 'a" and "is"
    by (induction "is" arbitrary: xs) simp_all
  note len = this
  show "length (shift_right pos n xs) = length xs" "length (shift_left i n xs) = length xs"
    by (simp_all only: shift_right_def shift_left_def len)
qed

lemma nth_shift_right:
  assumes "n < length xs"
  shows "shift_right pos n xs ! j = (if pos < j \<and> j \<le> n then xs ! (j - 1) else xs ! j)"
  using assms
proof (induction n arbitrary: xs)
  case 0
  then show ?case by (auto simp: shift_right_def)
next
  case (Suc n)
  show ?case
  proof (cases "pos \<le> n")
    case True
    let ?ys = "xs[Suc n := xs ! n]"
    have s: "shift_right pos (Suc n) xs = shift_right pos n ?ys"
      using True by (simp add: shift_right_def)
    have "n < length ?ys" using Suc.prems by simp
    from Suc.IH [OF this] show ?thesis unfolding s using Suc.prems True by (auto simp: nth_list_update)
  qed (auto simp: shift_right_def)
qed

lemma nth_shift_left:
  assumes "n \<le> length xs"
  shows "shift_left i n xs ! j = (if i \<le> j \<and> Suc j < n then xs ! Suc j else xs ! j)"
  using assms
proof (induction "n - i" arbitrary: i xs)
  case 0
  then show ?case by (auto simp: shift_left_def)
next
  case (Suc d)
  show ?case
  proof (cases "Suc i < n")
    case True
    let ?ys = "xs[i := xs ! Suc i]"
    have "[i..<n - 1] = i # [Suc i..<n - 1]" using True by (intro upt_conv_Cons) simp
    then have s: "shift_left i n xs = shift_left (Suc i) n ?ys" by (simp add: shift_left_def)
    have "d = n - Suc i" "n \<le> length ?ys" using Suc by simp_all
    note Suc.hyps(1) [OF this]
    then show ?thesis unfolding s using Suc.prems True by (auto simp: nth_list_update)
  qed (auto simp: shift_left_def)
qed

lemma take_shift_right:
  assumes "pos \<le> n" "n < length xs"
  shows "take (Suc n) ((shift_right pos n xs)[pos := x]) = take pos xs @ x # drop pos (take n xs)"
  by (rule nth_equalityI) (use assms in \<open>auto simp: nth_shift_right nth_append nth_Cons' nth_list_update\<close>)

lemma take_shift_left:
  assumes "i < n" "n \<le> length xs"
  shows "take (n - 1) (shift_left i n xs) = take i xs @ drop (Suc i) (take n xs)"
  by (rule nth_equalityI) (use assms in \<open>auto simp: nth_shift_left nth_append\<close>)

section \<open>The interface of a node\<close>

text \<open>
  What the tree uses of a node: looking a byte up, adding a child under a byte that has none,
  removing a child, asking whether there is room, and changing the child that a slot points to
  (\<open>upd\<close>: no operation of the class, the child itself is mutated through its pointer).
\<close>

locale child_table =
  fixes ok :: "'n \<Rightarrow> bool"
    and find :: "u8 \<Rightarrow> 'n \<Rightarrow> 'c option"
    and add :: "u8 \<Rightarrow> 'c \<Rightarrow> 'n \<Rightarrow> 'n"
    and remove :: "u8 \<Rightarrow> 'n \<Rightarrow> 'n"
    and full :: "'n \<Rightarrow> bool"
    and upd :: "u8 \<Rightarrow> 'c \<Rightarrow> 'n \<Rightarrow> 'n"
  assumes add_law: "ok n \<Longrightarrow> \<not> full n \<Longrightarrow> find k n = None \<Longrightarrow>
      ok (add k c n) \<and> (\<lambda>j. find j (add k c n)) = (\<lambda>j. find j n)(k \<mapsto> c)"
    and remove_law: "ok n \<Longrightarrow> ok (remove k n) \<and> (\<lambda>j. find j (remove k n)) = (\<lambda>j. find j n)(k := None)"
    and room_law: "ok n \<Longrightarrow> find k n \<noteq> None \<Longrightarrow> \<not> full (remove k n)"
    and upd_law: "ok n \<Longrightarrow> find k n \<noteq> None \<Longrightarrow>
      ok (upd k c n) \<and> (\<lambda>j. find j (upd k c n)) = (\<lambda>j. find j n)(k \<mapsto> c)"
begin

text \<open>How the tree replaces a child by another object: it removes the slot and adds it again.\<close>

lemma replace_law:
  assumes "ok n" "find k n \<noteq> None"
  shows "ok (add k c (remove k n)) \<and> (\<lambda>j. find j (add k c (remove k n))) = (\<lambda>j. find j n)(k \<mapsto> c)"
proof -
  have "find k (remove k n) = None" using fun_cong [OF conjunct2 [OF remove_law [OF assms(1)]], of k] by simp
  from add_law [OF conjunct1 [OF remove_law [OF assms(1)]] room_law [OF assms] this] remove_law [OF assms(1), of k]
  show ?thesis by (simp add: fun_eq_iff)
qed

end

section \<open>\<open>ARTNode4\<close> and \<open>ARTNode16\<close>\<close>

definition ARTNode4_find_child :: "u8 \<Rightarrow> 'c node4 \<Rightarrow> 'c option" where
  "ARTNode4_find_child key n =
     (case key_position (unat (n4_num n)) (n4_keys n) key of
        Some i \<Rightarrow> n4_children n ! i | None \<Rightarrow> None)"

definition ARTNode4_add_child :: "u8 \<Rightarrow> 'c \<Rightarrow> 'c node4 \<Rightarrow> 'c node4" where
  "ARTNode4_add_child key child n =
     (let num = unat (n4_num n) in
      if n4_num n < 4 then
        let pos = insert_position num (n4_keys n) key
        in Node4 (n4_num n + 1) ((shift_right pos num (n4_keys n))[pos := key])
             ((shift_right pos num (n4_children n))[pos := Some child])
      else n)"

definition ARTNode4_remove_child :: "u8 \<Rightarrow> 'c node4 \<Rightarrow> 'c node4" where
  "ARTNode4_remove_child key n =
     (let num = unat (n4_num n) in
      case key_position num (n4_keys n) key of
        Some i \<Rightarrow> Node4 (n4_num n - 1) (shift_left i num (n4_keys n)) (shift_left i num (n4_children n))
      | None \<Rightarrow> n)"

definition ARTNode4_is_full :: "'c node4 \<Rightarrow> bool" where
  "ARTNode4_is_full n \<longleftrightarrow> n4_num n = 4"

definition ARTNode16_find_child :: "u8 \<Rightarrow> 'c node16 \<Rightarrow> 'c option" where
  "ARTNode16_find_child key n =
     (case key_position (unat (n16_num n)) (n16_keys n) key of
        Some i \<Rightarrow> n16_children n ! i | None \<Rightarrow> None)"

definition ARTNode16_add_child :: "u8 \<Rightarrow> 'c \<Rightarrow> 'c node16 \<Rightarrow> 'c node16" where
  "ARTNode16_add_child key child n =
     (let num = unat (n16_num n) in
      if n16_num n < 16 then
        let pos = insert_position num (n16_keys n) key
        in Node16 (n16_num n + 1) ((shift_right pos num (n16_keys n))[pos := key])
             ((shift_right pos num (n16_children n))[pos := Some child])
      else n)"

definition ARTNode16_remove_child :: "u8 \<Rightarrow> 'c node16 \<Rightarrow> 'c node16" where
  "ARTNode16_remove_child key n =
     (let num = unat (n16_num n) in
      case key_position num (n16_keys n) key of
        Some i \<Rightarrow> Node16 (n16_num n - 1) (shift_left i num (n16_keys n)) (shift_left i num (n16_children n))
      | None \<Rightarrow> n)"

definition ARTNode16_is_full :: "'c node16 \<Rightarrow> bool" where
  "ARTNode16_is_full n \<longleftrightarrow> n16_num n = 16"

text \<open>The child under a byte is changed in place.\<close>

definition linear_upd :: "nat \<Rightarrow> u8 list \<Rightarrow> u8 \<Rightarrow> 'c \<Rightarrow> 'c option list \<Rightarrow> 'c option list" where
  "linear_upd n ks key c cs = (case key_position n ks key of Some i \<Rightarrow> cs[i := Some c] | None \<Rightarrow> cs)"

text \<open>
  The invariant of the two small classes, and what their arrays hold: the keys below \<open>num_children\<close>
  with their children, in increasing order.
\<close>

definition linear_ok :: "nat \<Rightarrow> nat \<Rightarrow> u8 list \<Rightarrow> 'c option list \<Rightarrow> bool" where
  "linear_ok cap n ks cs \<longleftrightarrow>
     n \<le> cap \<and> length ks = cap \<and> length cs = cap \<and> sorted_wrt (<) (take n ks) \<and> None \<notin> set (take n cs)"

definition slots :: "nat \<Rightarrow> u8 list \<Rightarrow> 'c option list \<Rightarrow> u8 \<Rightarrow> 'c option" where
  "slots n ks cs key = (case key_position n ks key of Some i \<Rightarrow> cs ! i | None \<Rightarrow> None)"

lemma key_position_None: "key_position n ks key = None \<longleftrightarrow> (\<forall>i<n. ks ! i \<noteq> key)"
  by (auto simp: key_position_def find_None_iff)

lemma key_position_Some: "key_position n ks key = Some i \<Longrightarrow> i < n \<and> ks ! i = key"
  by (auto simp: key_position_def find_Some_iff)

lemma insert_position_le: "insert_position n ks key \<le> n"
  by (auto simp: insert_position_def find_Some_iff split: option.split)

lemma insert_position_before: "i < insert_position n ks key \<Longrightarrow> \<not> key < ks ! i"
  by (auto simp: insert_position_def find_Some_iff find_None_iff split: option.splits)

lemma insert_position_at: "insert_position n ks key < n \<Longrightarrow> key < ks ! insert_position n ks key"
proof (cases "List.find (\<lambda>i. key < ks ! i) [0..<n]")
  case (Some i)
  then have "key < ks ! i" by (auto simp: find_Some_iff)
  with Some show ?thesis by (simp add: insert_position_def)
qed (simp add: insert_position_def)

lemma map_of_middle:
  "map_of a k = None \<Longrightarrow> map_of (a @ (k, v) # b) j = (if j = k then Some v else map_of (a @ b) j)"
  by (auto simp: map_add_def split: option.split)

lemma slots_take:
  assumes "n \<le> length ks" "n \<le> length cs"
  shows "slots n ks cs key = Option.bind (map_of (zip (take n ks) (take n cs)) key) id"
proof (cases "key_position n ks key")
  case None
  then have "key \<notin> set (take n ks)" using assms(1) by (auto simp: key_position_None in_set_conv_nth)
  then have "map_of (zip (take n ks) (take n cs)) key = None"
    by (metis map_of_eq_None_iff set_zip_leftD imageE prod.collapse)
  then show ?thesis using None by (simp add: slots_def)
next
  case (Some i)
  then have i: "i < n" "ks ! i = key" "\<forall>j<i. ks ! j \<noteq> key"
    by (auto simp: key_position_def find_Some_iff)
  let ?z = "zip (take n ks) (take n cs)"
  have "?z = take i ?z @ (key, cs ! i) # drop (Suc i) ?z"
    using i assms by (subst id_take_nth_drop [of i]) (auto simp: min_def)
  note split = this
  have "map_of (take i ?z) key = None"
    using i assms by (auto simp: map_of_eq_None_iff in_set_conv_nth)
  then have "map_of (take i ?z @ (key, cs ! i) # drop (Suc i) ?z) key = Some (cs ! i)"
    by (simp only: map_of_middle if_True refl)
  then have "map_of ?z key = Some (cs ! i)" using arg_cong [OF split, of "\<lambda>z. map_of z key"] by (rule trans [rotated])
  then show ?thesis using Some by (simp add: slots_def)
qed

lemma linear_distinct: "linear_ok cap n ks cs \<Longrightarrow> distinct (take n ks)"
  by (simp add: linear_ok_def strict_sorted_iff)

lemma linear_add:
  assumes ok: "linear_ok cap n ks cs" and room: "n < cap" and new: "slots n ks cs key = None"
    and pos: "pos = insert_position n ks key"
  shows "linear_ok cap (Suc n) ((shift_right pos n ks)[pos := key]) ((shift_right pos n cs)[pos := Some c])"
    and "slots (Suc n) ((shift_right pos n ks)[pos := key]) ((shift_right pos n cs)[pos := Some c]) j =
         (if j = key then Some c else slots n ks cs j)"
proof -
  have len: "length ks = cap" "length cs = cap" and nn: "None \<notin> set (take n cs)"
    and srt: "sorted_wrt (<) (take n ks)" using ok by (simp_all add: linear_ok_def)
  have le: "pos \<le> n" unfolding pos by (rule insert_position_le)
  have absent: "key \<notin> set (take n ks)"
  proof
    assume "key \<in> set (take n ks)"
    then have "key_position n ks key \<noteq> None" using len room by (auto simp: key_position_None in_set_conv_nth)
    then obtain i where i: "key_position n ks key = Some i" by auto
    then have "i < n" by (simp add: key_position_Some)
    then have "cs ! i \<in> set (take n cs)" using len room by (auto simp: in_set_conv_nth)
    then show False using new i nn by (auto simp: slots_def)
  qed
  have before: "ks ! i < key" if "i < pos" for i
  proof -
    have "\<not> key < ks ! i" using that unfolding pos by (rule insert_position_before)
    moreover have "ks ! i \<noteq> key" using absent that le len room by (auto simp: in_set_conv_nth)
    ultimately show ?thesis by simp
  qed
  have after: "key < ks ! i" if "pos \<le> i" "i < n" for i
  proof -
    have "key < ks ! pos" using that insert_position_at [of n ks key] unfolding pos by simp
    moreover have "ks ! pos \<le> ks ! i"
      using sorted_wrt_nth_less [OF srt, of pos i] that len room by (cases "pos = i") auto
    ultimately show ?thesis by simp
  qed
  let ?ks = "(shift_right pos n ks)[pos := key]" and ?cs = "(shift_right pos n cs)[pos := Some c]"
  have tk: "take (Suc n) ?ks = take pos ks @ key # drop pos (take n ks)"
    and tc: "take (Suc n) ?cs = take pos cs @ Some c # drop pos (take n cs)"
    using le len room by (simp_all add: take_shift_right)
  have srt2: "sorted_wrt (<) (take pos ks @ key # drop pos (take n ks))"
  proof -
    have "sorted_wrt (<) (take pos (take n ks) @ drop pos (take n ks))" using srt by (simp only: append_take_drop_id)
    then have s: "sorted_wrt (<) (take pos ks)" "sorted_wrt (<) (drop pos (take n ks))"
      "\<forall>x\<in>set (take pos ks). \<forall>y\<in>set (drop pos (take n ks)). x < y"
      using le unfolding sorted_wrt_append by (simp_all add: min_def)
    moreover have "\<forall>x\<in>set (take pos ks). x < key" using before le len room by (auto simp: in_set_conv_nth)
    moreover have "\<forall>y\<in>set (drop pos (take n ks)). key < y" using after len room by (auto simp: in_set_conv_nth)
    ultimately show ?thesis by (auto simp: sorted_wrt_append)
  qed
  have "set (take pos cs) \<subseteq> set (take n cs)" using le by (rule set_take_subset_set_take)
  then have nn2: "None \<notin> set (take pos cs @ Some c # drop pos (take n cs))"
    using nn set_drop_subset [of pos "take n cs"] by auto
  show ok2: "linear_ok cap (Suc n) ?ks ?cs" unfolding linear_ok_def tk tc using srt2 nn2 len room by simp
  have z: "zip (take pos ks @ key # drop pos (take n ks)) (take pos cs @ Some c # drop pos (take n cs)) =
      zip (take pos ks) (take pos cs) @ (key, Some c) # zip (drop pos (take n ks)) (drop pos (take n cs))"
    using le len room by simp
  have z': "zip (take n ks) (take n cs) =
      zip (take pos ks) (take pos cs) @ zip (drop pos (take n ks)) (drop pos (take n cs))"
    using le len room by (metis append_take_drop_id length_take min.absorb1 take_take zip_append)
  have "map_of (zip (take n ks) (take n cs)) key = None"
    using absent by (auto simp: map_of_eq_None_iff dest: set_zip_leftD)
  then have "map_of (zip (take pos ks) (take pos cs)) key = None"
    unfolding z' by (simp only: map_of_append map_add_None)
  note mid = map_of_middle [OF this]
  then show "slots (Suc n) ?ks ?cs j = (if j = key then Some c else slots n ks cs j)"
    using len room by (simp add: slots_take tk tc z z' mid del: map_of_append)
qed

lemma linear_remove:
  assumes ok: "linear_ok cap n ks cs" and at: "key_position n ks key = Some i"
  shows "linear_ok cap (n - 1) (shift_left i n ks) (shift_left i n cs)"
    and "slots (n - 1) (shift_left i n ks) (shift_left i n cs) j = (if j = key then None else slots n ks cs j)"
proof -
  have len: "length ks = cap" "length cs = cap" "n \<le> cap" and nn: "None \<notin> set (take n cs)"
    and srt: "sorted_wrt (<) (take n ks)" using ok by (simp_all add: linear_ok_def)
  have i: "i < n" "ks ! i = key" using key_position_Some [OF at] by simp_all
  let ?ks = "shift_left i n ks" and ?cs = "shift_left i n cs"
  have tk: "take (n - 1) ?ks = take i ks @ drop (Suc i) (take n ks)"
    and tc: "take (n - 1) ?cs = take i cs @ drop (Suc i) (take n cs)"
    using i len take_shift_left [of i n ks] take_shift_left [of i n cs] by simp_all
  have all: "take n ks = take i ks @ key # drop (Suc i) (take n ks)"
    "take n cs = take i cs @ cs ! i # drop (Suc i) (take n cs)"
    using i len id_take_nth_drop [of i "take n ks"] id_take_nth_drop [of i "take n cs"] by (simp_all add: min_def)
  have srt2: "sorted_wrt (<) (take i ks @ key # drop (Suc i) (take n ks))" using srt unfolding all(1) [symmetric] .
  have nn2: "None \<notin> set (take i cs @ cs ! i # drop (Suc i) (take n cs))" using nn unfolding all(2) [symmetric] .
  show "linear_ok cap (n - 1) ?ks ?cs"
    unfolding linear_ok_def tk tc using srt2 nn2 len by (auto simp: sorted_wrt_append)
  let ?a = "zip (take i ks) (take i cs)" and ?b = "zip (drop (Suc i) (take n ks)) (drop (Suc i) (take n cs))"
  have z: "zip (take n ks) (take n cs) = ?a @ (key, cs ! i) # ?b"
    by (subst all(1), subst all(2)) (use i len in simp)
  have z': "zip (take i ks @ drop (Suc i) (take n ks)) (take i cs @ drop (Suc i) (take n cs)) = ?a @ ?b"
    using i len by simp
  have "key \<notin> set (take i ks)" "key \<notin> set (drop (Suc i) (take n ks))" using srt2 by (auto simp: sorted_wrt_append)
  then have none: "map_of ?a key = None" "map_of ?b key = None"
    by (auto simp: map_of_eq_None_iff dest: set_zip_leftD)
  then have "map_of (?a @ ?b) key = None" by (simp only: map_of_append map_add_None simp_thms)
  then show "slots (n - 1) ?ks ?cs j = (if j = key then None else slots n ks cs j)"
    using len i by (simp add: slots_take tk tc z z' map_of_middle [OF none(1)] del: map_of_append One_nat_def)
qed

lemma linear_upd:
  assumes ok: "linear_ok cap n ks cs" and there: "slots n ks cs key \<noteq> None"
  shows "linear_ok cap n ks (linear_upd n ks key c cs)"
    and "slots n ks (linear_upd n ks key c cs) j = (if j = key then Some c else slots n ks cs j)"
proof -
  obtain i where i: "key_position n ks key = Some i" using there by (auto simp: slots_def split: option.splits)
  note b = key_position_Some [OF this]
  have len: "n \<le> length cs" using ok by (simp add: linear_ok_def)
  have "set (take n (cs[i := Some c])) \<subseteq> insert (Some c) (set (take n cs))"
    unfolding take_update_swap by (rule set_update_subset_insert)
  then show "linear_ok cap n ks (linear_upd n ks key c cs)"
    using ok i by (auto simp: linear_upd_def linear_ok_def)
  have "i \<noteq> i'" if "key_position n ks j = Some i'" "j \<noteq> key" for i'
    using key_position_Some [OF that(1)] b that(2) by auto
  then show "slots n ks (linear_upd n ks key c cs) j = (if j = key then Some c else slots n ks cs j)"
    using b len i by (auto simp: slots_def linear_upd_def split: option.split)
qed

text \<open>The two classes keep the interface.\<close>

definition node4_ok :: "'c node4 \<Rightarrow> bool" where
  "node4_ok n \<longleftrightarrow> linear_ok 4 (unat (n4_num n)) (n4_keys n) (n4_children n)"

definition node4_upd :: "u8 \<Rightarrow> 'c \<Rightarrow> 'c node4 \<Rightarrow> 'c node4" where
  "node4_upd k c n = Node4 (n4_num n) (n4_keys n) (linear_upd (unat (n4_num n)) (n4_keys n) k c (n4_children n))"

definition node16_ok :: "'c node16 \<Rightarrow> bool" where
  "node16_ok n \<longleftrightarrow> linear_ok 16 (unat (n16_num n)) (n16_keys n) (n16_children n)"

definition node16_upd :: "u8 \<Rightarrow> 'c \<Rightarrow> 'c node16 \<Rightarrow> 'c node16" where
  "node16_upd k c n = Node16 (n16_num n) (n16_keys n) (linear_upd (unat (n16_num n)) (n16_keys n) k c (n16_children n))"

lemma find_slots:
  "ARTNode4_find_child k n4 = slots (unat (n4_num n4)) (n4_keys n4) (n4_children n4) k"
  "ARTNode16_find_child k n16 = slots (unat (n16_num n16)) (n16_keys n16) (n16_children n16) k"
  by (simp_all only: ARTNode4_find_child_def ARTNode16_find_child_def slots_def)

lemma unat_up: "unat (x :: u8) < 255 \<Longrightarrow> unat (x + 1) = Suc (unat x)"
  by (simp add: unat_word_ariths)

lemma unat_down: "unat (x :: u8) \<noteq> 0 \<Longrightarrow> unat (x - 1) = unat x - 1"
  by unat_arith

lemma unat_is:
  "(unat (x :: u8) = 4) = (x = 4)" "(unat x = 16) = (x = 16)" "(unat x = 48) = (x = 48)"
  "(unat x < 4) = (x < 4)" "(unat x < 16) = (x < 16)" "(unat x < 48) = (x < 48)"
  by unat_arith+

lemma slots_absent: "key_position n ks key = None \<Longrightarrow> slots n ks cs key = None"
  by (simp add: slots_def)

interpretation n4: child_table node4_ok ARTNode4_find_child ARTNode4_add_child
    ARTNode4_remove_child ARTNode4_is_full node4_upd
proof unfold_locales
  fix n :: "'c node4" and k c
  assume ok: "node4_ok n"
  then have lin: "linear_ok 4 (unat (n4_num n)) (n4_keys n) (n4_children n)" and le: "unat (n4_num n) \<le> 4"
    by (simp_all add: node4_ok_def linear_ok_def)
  show "node4_ok (ARTNode4_add_child k c n) \<and>
      (\<lambda>j. ARTNode4_find_child j (ARTNode4_add_child k c n)) = (\<lambda>j. ARTNode4_find_child j n)(k \<mapsto> c)"
    if "\<not> ARTNode4_is_full n" "ARTNode4_find_child k n = None"
  proof -
    have r: "unat (n4_num n) < 4" using that(1) le by (simp add: ARTNode4_is_full_def unat_is order.order_iff_strict)
    moreover have "unat (n4_num n + 1) = Suc (unat (n4_num n))" using r by (intro unat_up) simp
    ultimately show ?thesis
      using linear_add [OF lin r that(2) [unfolded find_slots] refl, of c]
      by (simp add: ARTNode4_add_child_def Let_def node4_ok_def find_slots fun_eq_iff unat_is)
  qed
  show rem: "node4_ok (ARTNode4_remove_child k n) \<and>
      (\<lambda>j. ARTNode4_find_child j (ARTNode4_remove_child k n)) = (\<lambda>j. ARTNode4_find_child j n)(k := None)"
  proof (cases "key_position (unat (n4_num n)) (n4_keys n) k")
    case (Some i)
    then have "unat (n4_num n - 1) = unat (n4_num n) - 1" by (intro unat_down) (use key_position_Some in fastforce)
    then show ?thesis using linear_remove [OF lin Some] Some
      by (simp add: ARTNode4_remove_child_def Let_def node4_ok_def find_slots fun_eq_iff)
  qed (use ok in \<open>auto simp: ARTNode4_remove_child_def find_slots slots_absent\<close>)
  assume there: "ARTNode4_find_child k n \<noteq> None"
  then obtain i where i: "key_position (unat (n4_num n)) (n4_keys n) k = Some i"
    by (auto simp: ARTNode4_find_child_def split: option.splits)
  then have "unat (n4_num n) \<noteq> 0" using key_position_Some [OF i] by simp
  then show "\<not> ARTNode4_is_full (ARTNode4_remove_child k n)"
    using i le unat_down [of "n4_num n"]
    by (simp add: ARTNode4_is_full_def ARTNode4_remove_child_def Let_def unat_is(1) [symmetric])
  show "node4_ok (node4_upd k c n) \<and>
      (\<lambda>j. ARTNode4_find_child j (node4_upd k c n)) = (\<lambda>j. ARTNode4_find_child j n)(k \<mapsto> c)"
    using linear_upd [OF lin there [unfolded find_slots], of c]
    by (simp add: node4_upd_def node4_ok_def find_slots fun_eq_iff)
qed

interpretation n16: child_table node16_ok ARTNode16_find_child ARTNode16_add_child
    ARTNode16_remove_child ARTNode16_is_full node16_upd
proof unfold_locales
  fix n :: "'c node16" and k c
  assume ok: "node16_ok n"
  then have lin: "linear_ok 16 (unat (n16_num n)) (n16_keys n) (n16_children n)" and le: "unat (n16_num n) \<le> 16"
    by (simp_all add: node16_ok_def linear_ok_def)
  show "node16_ok (ARTNode16_add_child k c n) \<and>
      (\<lambda>j. ARTNode16_find_child j (ARTNode16_add_child k c n)) = (\<lambda>j. ARTNode16_find_child j n)(k \<mapsto> c)"
    if "\<not> ARTNode16_is_full n" "ARTNode16_find_child k n = None"
  proof -
    have r: "unat (n16_num n) < 16" using that(1) le by (simp add: ARTNode16_is_full_def unat_is order.order_iff_strict)
    moreover have "unat (n16_num n + 1) = Suc (unat (n16_num n))" using r by (intro unat_up) simp
    ultimately show ?thesis
      using linear_add [OF lin r that(2) [unfolded find_slots] refl, of c]
      by (simp add: ARTNode16_add_child_def Let_def node16_ok_def find_slots fun_eq_iff unat_is)
  qed
  show rem: "node16_ok (ARTNode16_remove_child k n) \<and>
      (\<lambda>j. ARTNode16_find_child j (ARTNode16_remove_child k n)) = (\<lambda>j. ARTNode16_find_child j n)(k := None)"
  proof (cases "key_position (unat (n16_num n)) (n16_keys n) k")
    case (Some i)
    then have "unat (n16_num n - 1) = unat (n16_num n) - 1" by (intro unat_down) (use key_position_Some in fastforce)
    then show ?thesis using linear_remove [OF lin Some] Some
      by (simp add: ARTNode16_remove_child_def Let_def node16_ok_def find_slots fun_eq_iff)
  qed (use ok in \<open>auto simp: ARTNode16_remove_child_def find_slots slots_absent\<close>)
  assume there: "ARTNode16_find_child k n \<noteq> None"
  then obtain i where i: "key_position (unat (n16_num n)) (n16_keys n) k = Some i"
    by (auto simp: ARTNode16_find_child_def split: option.splits)
  then have "unat (n16_num n) \<noteq> 0" using key_position_Some [OF i] by simp
  then show "\<not> ARTNode16_is_full (ARTNode16_remove_child k n)"
    using i le unat_down [of "n16_num n"]
    by (simp add: ARTNode16_is_full_def ARTNode16_remove_child_def Let_def unat_is(2) [symmetric])
  show "node16_ok (node16_upd k c n) \<and>
      (\<lambda>j. ARTNode16_find_child j (node16_upd k c n)) = (\<lambda>j. ARTNode16_find_child j n)(k \<mapsto> c)"
    using linear_upd [OF lin there [unfolded find_slots], of c]
    by (simp add: node16_upd_def node16_ok_def find_slots fun_eq_iff)
qed

section \<open>\<open>ARTNode48\<close>\<close>

text \<open>
  A table of 256 bytes gives for each key the number of its slot, counted from one, or zero.
\<close>

definition ARTNode48_find_child :: "u8 \<Rightarrow> 'c node48 \<Rightarrow> 'c option" where
  "ARTNode48_find_child key n =
     (let index = n48_indices n ! unat key
      in if index \<noteq> 0 then n48_children n ! (unat index - 1) else None)"

definition ARTNode48_add_child :: "u8 \<Rightarrow> 'c \<Rightarrow> 'c node48 \<Rightarrow> 'c node48" where
  "ARTNode48_add_child key child n =
     (if n48_num n < 48 then
        Node48 (n48_num n + 1) ((n48_indices n)[unat key := n48_num n + 1])
          ((n48_children n)[unat (n48_num n) := Some child])
      else n)"

definition ARTNode48_remove_child :: "u8 \<Rightarrow> 'c node48 \<Rightarrow> 'c node48" where
  "ARTNode48_remove_child key n =
     (let index = n48_indices n ! unat key; num = unat (n48_num n) in
      if index \<noteq> 0 then
        let real_index = unat index - 1;
            indices = (n48_indices n)[unat key := 0];
            children = (shift_left real_index num (n48_children n))[num - 1 := None]
        in Node48 (n48_num n - 1) (map (\<lambda>x. if x > index then x - 1 else x) indices) children
      else n)"

definition ARTNode48_is_full :: "'c node48 \<Rightarrow> bool" where
  "ARTNode48_is_full n \<longleftrightarrow> n48_num n = 48"

definition node48_upd :: "u8 \<Rightarrow> 'c \<Rightarrow> 'c node48 \<Rightarrow> 'c node48" where
  "node48_upd k c n = Node48 (n48_num n) (n48_indices n)
     ((n48_children n)[unat (n48_indices n ! unat k) - 1 := Some c])"

text \<open>
  The slots in use are the first \<open>num_children\<close>, each has one key, and the others are null.
\<close>

definition node48_ok :: "'c node48 \<Rightarrow> bool" where
  "node48_ok n \<longleftrightarrow>
     unat (n48_num n) \<le> 48 \<and> length (n48_indices n) = 256 \<and> length (n48_children n) = 48 \<and>
     (\<forall>k. unat (n48_indices n ! unat (k :: u8)) \<le> unat (n48_num n)) \<and>
     (\<forall>k j. n48_indices n ! unat (k :: u8) = n48_indices n ! unat (j :: u8) \<longrightarrow>
            n48_indices n ! unat k = 0 \<or> k = j) \<and>
     (\<forall>i < unat (n48_num n). \<exists>k. unat (n48_indices n ! unat (k :: u8)) = Suc i) \<and>
     (\<forall>i < 48. n48_children n ! i = None \<longleftrightarrow> unat (n48_num n) \<le> i)"

lemma node48_okI:
  assumes "unat m \<le> 48" "length ix = 256" "length cs = 48"
    "\<And>k :: u8. unat (ix ! unat k) \<le> unat m"
    "\<And>k j :: u8. ix ! unat k = ix ! unat j \<Longrightarrow> ix ! unat k \<noteq> 0 \<Longrightarrow> k = j"
    "\<And>i. i < unat m \<Longrightarrow> \<exists>k. unat (ix ! unat (k :: u8)) = Suc i"
    "\<And>i. i < 48 \<Longrightarrow> cs ! i = None \<longleftrightarrow> unat m \<le> i"
  shows "node48_ok (Node48 m ix cs)"
  unfolding node48_ok_def using assms by (auto simp del: not_None_eq)

lemma byte_below: "unat (k :: u8) < 256"
  by (rule order.strict_trans2 [OF unsigned_less]) simp

lemma unat_zero_iff: "(unat (x :: u8) = 0) = (x = 0)"
  by unat_arith

lemma node48_okD:
  assumes "node48_ok (Node48 m ix cs)"
  shows "unat m \<le> 48" and "length ix = 256" and "length cs = 48"
    and "unat (ix ! unat (k :: u8)) \<le> unat m"
    and "ix ! unat (k :: u8) = ix ! unat (j :: u8) \<Longrightarrow> ix ! unat k \<noteq> 0 \<Longrightarrow> k = j"
    and "i < 48 \<Longrightarrow> cs ! i = None \<longleftrightarrow> unat m \<le> i"
    and "i < unat m \<Longrightarrow> \<exists>k. unat (ix ! unat (k :: u8)) = Suc i"
  using assms unfolding node48_ok_def node48.sel by blast+

lemma node48_add:
  assumes ok: "node48_ok n" and room: "\<not> ARTNode48_is_full n" and new: "ARTNode48_find_child k n = None"
  shows "node48_ok (ARTNode48_add_child k c n)"
    and "ARTNode48_find_child j (ARTNode48_add_child k c n) = (if j = k then Some c else ARTNode48_find_child j n)"
proof -
  obtain m ix cs where n: "n = Node48 m ix cs" by (cases n)
  note D = node48_okD [OF ok [unfolded n]]
  note le = D(1) and len = D(2,3) and ub = D(4) and inj = D(5) and null = D(6)
  have r: "unat m < 48" using room le by (simp add: ARTNode48_is_full_def n unat_is order.order_iff_strict)
  have up: "unat (m + 1) = Suc (unat m)" using r by (intro unat_up) simp
  have zero: "ix ! unat k = 0"
  proof (rule ccontr)
    assume nz: "ix ! unat k \<noteq> 0"
    then have "unat (ix ! unat k) \<noteq> 0" by (simp add: unat_zero_iff)
    then have "unat (ix ! unat k) - 1 < unat m" using ub [of k] by linarith
    then show False using new nz null [of "unat (ix ! unat k) - 1"] r by (simp add: ARTNode48_find_child_def n)
  qed
  have upd: "ix[unat k := m + 1] ! unat j = (if j = k then m + 1 else ix ! unat j)" for j
    using len byte_below [of k] by (auto simp: nth_list_update word_unat_eq_iff)
  have fresh: "ix ! unat j \<noteq> m + 1" for j :: u8 using ub [of j] up by (metis Suc_n_not_le_n)
  have add: "ARTNode48_add_child k c n = Node48 (m + 1) (ix[unat k := m + 1]) (cs[unat m := Some c])"
    using r by (simp add: ARTNode48_add_child_def n unat_is)
  show "node48_ok (ARTNode48_add_child k c n)" unfolding add
  proof (rule node48_okI)
    show "unat (ix[unat k := m + 1] ! unat j) \<le> unat (m + 1)" for j :: u8
      unfolding upd using ub [of j] up by simp
    show "i = j" if "ix[unat k := m + 1] ! unat i = ix[unat k := m + 1] ! unat j" "ix[unat k := m + 1] ! unat i \<noteq> 0"
      for i j :: u8 using that inj [of i j] fresh [of i] fresh [of j] unfolding upd by (auto split: if_splits)
    show "\<exists>j. unat (ix[unat k := m + 1] ! unat (j :: u8)) = Suc i" if "i < unat (m + 1)" for i
    proof (cases "i = unat m")
      case True
      then show ?thesis using up upd by (intro exI [of _ k]) simp
    next
      case False
      then have "i < unat m" using that up by simp
      from D(7) [OF this] obtain j where j: "unat (ix ! unat (j :: u8)) = Suc i" by blast
      then have "j \<noteq> k" using zero by auto
      then show ?thesis using j upd by (intro exI [of _ j]) simp
    qed
    show "cs[unat m := Some c] ! i = None \<longleftrightarrow> unat (m + 1) \<le> i" if "i < 48" for i
      using null [OF that] r up len that by (auto simp: nth_list_update)
  qed (use r up len in simp_all)
  have "m + 1 \<noteq> 0" using up by (metis nat.distinct(1) unat_0)
  moreover have "cs[unat m := Some c] ! (unat (ix ! unat j) - 1) = cs ! (unat (ix ! unat j) - 1)" if "ix ! unat j \<noteq> 0"
  proof -
    have "unat (ix ! unat j) - 1 \<noteq> unat m" using that ub [of j] unat_zero_iff [of "ix ! unat j"] by linarith
    then show ?thesis by simp
  qed
  ultimately show "ARTNode48_find_child j (ARTNode48_add_child k c n) = (if j = k then Some c else ARTNode48_find_child j n)"
    unfolding add unfolding ARTNode48_find_child_def n node48.sel Let_def upd using r len up by auto
qed

lemma node48_remove:
  assumes ok: "node48_ok n"
  shows "node48_ok (ARTNode48_remove_child k n)"
    and "ARTNode48_find_child j (ARTNode48_remove_child k n) = (if j = k then None else ARTNode48_find_child j n)"
    and "ARTNode48_find_child k n \<noteq> None \<Longrightarrow> \<not> ARTNode48_is_full (ARTNode48_remove_child k n)"
proof -
  obtain m ix cs where n: "n = Node48 m ix cs" by (cases n)
  note D = node48_okD [OF ok [unfolded n]]
  note le = D(1) and len = D(2,3) and ub = D(4) and inj = D(5) and null = D(6)
  define x where "x j = unat (ix ! unat j)" for j :: u8
  have same: "x i = x j \<longleftrightarrow> ix ! unat i = ix ! unat j" for i j by (simp add: x_def word_unat_eq_iff)
  have zero: "ix ! unat j = 0 \<longleftrightarrow> x j = 0" for j by (simp add: x_def unat_zero_iff)
  have xub: "x j \<le> unat m" for j using ub [of j] by (simp add: x_def)
  have xinj: "i = j" if "x i = x j" "x i \<noteq> 0" for i j using inj [of i j] that unfolding same zero [symmetric] by blast
  define dec where "dec y = (if y > ix ! unat k then y - 1 else y)" for y :: u8
  define ix' where "ix' = map dec (ix[unat k := 0])"
  define cs' where "cs' = (shift_left (x k - 1) (unat m) cs)[unat m - 1 := None]"
  have rem: "ARTNode48_remove_child k n = (if x k = 0 then n else Node48 (m - 1) ix' cs')"
    by (simp add: ARTNode48_remove_child_def n zero Let_def ix'_def cs'_def dec_def x_def [of k])
  have dec: "unat (dec y) = (if x k < unat y then unat y - 1 else unat y)" for y
    using unat_down [of y] by (auto simp: dec_def x_def word_less_nat_alt)
  have ix': "unat (ix' ! unat j) = (if j = k then 0 else if x k < x j then x j - 1 else x j)" for j
    using len byte_below [of j] byte_below [of k] dec
    by (auto simp: ix'_def nth_list_update word_unat_eq_iff x_def)
  have cs': "cs' ! i = (if i = unat m - 1 then None else if x k - 1 \<le> i \<and> Suc i < unat m then cs ! Suc i else cs ! i)"
    if "i < 48" for i
    using len le that by (auto simp: cs'_def nth_list_update nth_shift_left)
  have pos: "unat m \<noteq> 0 \<and> unat (m - 1) = unat m - 1" if "x k \<noteq> 0"
    using that xub [of k] unat_down [of m] by auto
  have "node48_ok (Node48 (m - 1) ix' cs')" if nz: "x k \<noteq> 0"
  proof (rule node48_okI)
    show "unat (ix' ! unat j) \<le> unat (m - 1)" for j :: u8
      unfolding ix' using pos [OF nz] xub [of j] xub [of k] xinj [of j k] nz by (cases "x j = x k") auto
    show "i = j" if "ix' ! unat i = ix' ! unat j" "ix' ! unat i \<noteq> 0" for i j :: u8
    proof -
      have e: "unat (ix' ! unat i) = unat (ix' ! unat j)" and "unat (ix' ! unat i) \<noteq> 0"
        using that by (simp_all add: unat_zero_iff)
      then have "i \<noteq> k" "j \<noteq> k" unfolding ix' by (auto split: if_splits)
      then have "x i \<noteq> x k" "x j \<noteq> x k" using xinj [of k i] xinj [of k j] nz by auto
      then have "x i = x j" using e \<open>i \<noteq> k\<close> \<open>j \<noteq> k\<close> unfolding ix' by (auto split: if_splits)
      moreover have "x i \<noteq> 0" using \<open>unat (ix' ! unat i) \<noteq> 0\<close> \<open>i \<noteq> k\<close> unfolding ix' by (auto split: if_splits)
      ultimately show ?thesis by (rule xinj)
    qed
    show "\<exists>j. unat (ix' ! unat (j :: u8)) = Suc i" if "i < unat (m - 1)" for i
    proof -
      define y where "y = (if x k \<le> Suc i then Suc (Suc i) else Suc i)"
      have "y - 1 < unat m" using that pos [OF nz] unfolding y_def by auto
      from D(7) [OF this] obtain j where "unat (ix ! unat (j :: u8)) = Suc (y - 1)" by blast
      then have j: "x j = y" by (simp add: x_def y_def)
      then have "j \<noteq> k" unfolding y_def by (auto split: if_splits)
      then show ?thesis using j unfolding ix' y_def by (intro exI [of _ j]) (auto simp: ix' split: if_splits)
    qed
    show "cs' ! i = None \<longleftrightarrow> unat (m - 1) \<le> i" if "i < 48" for i
      using pos [OF nz] null [of i] null [of "Suc i"] that le unfolding cs' [OF that] by auto
  qed (use pos [OF nz] le len in \<open>simp_all add: ix'_def cs'_def\<close>)
  then show "node48_ok (ARTNode48_remove_child k n)" using ok unfolding rem by simp
  have find: "ARTNode48_find_child j n = (if x j = 0 then None else cs ! (x j - 1))" for j
    by (simp add: ARTNode48_find_child_def n zero Let_def x_def)
  have find': "ARTNode48_find_child j (Node48 (m - 1) ix' cs') =
      (if unat (ix' ! unat j) = 0 then None else cs' ! (unat (ix' ! unat j) - 1))" for j
    by (simp add: ARTNode48_find_child_def unat_zero_iff Let_def)
  show "ARTNode48_find_child j (ARTNode48_remove_child k n) = (if j = k then None else ARTNode48_find_child j n)"
  proof (cases "x k = 0 \<or> j = k \<or> x j = 0")
    case True
    then show ?thesis unfolding rem by (auto simp: find find' ix')
  next
    case False
    then have "x j \<noteq> x k" using xinj [of j k] by auto
    moreover have "Suc (x j - Suc (Suc 0)) = x j - Suc 0" if "x k < x j"
    proof -
      have "x k \<noteq> 0" using False by simp
      then show ?thesis using that by arith
    qed
    ultimately show ?thesis using False xub [of j] xub [of k] le
      unfolding rem by (auto simp: find find' ix' cs')
  qed
  assume "ARTNode48_find_child k n \<noteq> None"
  then have "x k \<noteq> 0" unfolding find by (auto split: if_splits)
  then show "\<not> ARTNode48_is_full (ARTNode48_remove_child k n)"
    using pos le unfolding rem by (simp add: ARTNode48_is_full_def unat_is [symmetric])
qed

lemma node48_upd:
  assumes ok: "node48_ok n" and there: "ARTNode48_find_child k n \<noteq> None"
  shows "node48_ok (node48_upd k c n)"
    and "ARTNode48_find_child j (node48_upd k c n) = (if j = k then Some c else ARTNode48_find_child j n)"
proof -
  obtain m ix cs where n: "n = Node48 m ix cs" by (cases n)
  note D = node48_okD [OF ok [unfolded n]]
  define i where "i = unat (ix ! unat k) - 1"
  have nz: "ix ! unat k \<noteq> 0" using there by (auto simp: ARTNode48_find_child_def n Let_def)
  then have pos: "unat (ix ! unat k) \<noteq> 0" by (simp add: unat_zero_iff)
  have lt: "i < unat m" using D(4) [of k] pos by (simp add: i_def)
  show "node48_ok (node48_upd k c n)" unfolding node48_upd_def n node48.sel i_def [symmetric]
    by (rule node48_okI) (use D(1-5) D(6) D(7) lt in \<open>auto simp: nth_list_update\<close>)
  have "unat (ix ! unat j) - 1 \<noteq> i" if "ix ! unat j \<noteq> 0" "j \<noteq> k"
  proof -
    have "unat (ix ! unat j) \<noteq> unat (ix ! unat k)" using D(5) [of j k] that by (auto simp: word_unat_eq_iff)
    moreover have "unat (ix ! unat j) \<noteq> 0" using that by (simp add: unat_zero_iff)
    ultimately show ?thesis using pos unfolding i_def by linarith
  qed
  moreover have "i < length cs" using lt D(1,3) by simp
  ultimately show "ARTNode48_find_child j (node48_upd k c n) = (if j = k then Some c else ARTNode48_find_child j n)"
    unfolding node48_upd_def ARTNode48_find_child_def n node48.sel Let_def i_def [symmetric] using nz i_def by auto
qed

interpretation n48: child_table node48_ok ARTNode48_find_child ARTNode48_add_child
    ARTNode48_remove_child ARTNode48_is_full node48_upd
  by unfold_locales (simp_all add: node48_add node48_remove node48_upd fun_eq_iff)

section \<open>\<open>ARTNode256\<close>\<close>

text \<open>\<open>num_children\<close> is a byte: it wraps to zero when all the 256 slots are used. Nothing reads it.\<close>

definition ARTNode256_find_child :: "u8 \<Rightarrow> 'c node256 \<Rightarrow> 'c option" where
  "ARTNode256_find_child key n = n256_children n ! unat key"

definition ARTNode256_add_child :: "u8 \<Rightarrow> 'c \<Rightarrow> 'c node256 \<Rightarrow> 'c node256" where
  "ARTNode256_add_child key child n =
     Node256 (if n256_children n ! unat key = None then n256_num n + 1 else n256_num n)
       ((n256_children n)[unat key := Some child])"

definition ARTNode256_remove_child :: "u8 \<Rightarrow> 'c node256 \<Rightarrow> 'c node256" where
  "ARTNode256_remove_child key n =
     (if n256_children n ! unat key \<noteq> None then
        Node256 (n256_num n - 1) ((n256_children n)[unat key := None])
      else n)"

definition node256_upd :: "u8 \<Rightarrow> 'c \<Rightarrow> 'c node256 \<Rightarrow> 'c node256" where
  "node256_upd k c n = Node256 (n256_num n) ((n256_children n)[unat k := Some c])"

definition node256_ok :: "'c node256 \<Rightarrow> bool" where
  "node256_ok n \<longleftrightarrow> length (n256_children n) = 256"

interpretation n256: child_table node256_ok ARTNode256_find_child ARTNode256_add_child
    ARTNode256_remove_child "\<lambda>_. False" node256_upd
  by unfold_locales
    (auto simp: node256_ok_def ARTNode256_find_child_def ARTNode256_add_child_def ARTNode256_remove_child_def
      node256_upd_def nth_list_update fun_eq_iff byte_below word_unat_eq_iff)

section \<open>Growing\<close>

text \<open>The loops that copy the first elements of an array into another one.\<close>

definition copy_into :: "nat \<Rightarrow> 'a list \<Rightarrow> 'a list \<Rightarrow> 'a list" where
  "copy_into n src dst = fold (\<lambda>i xs. xs[i := src ! i]) [0..<n] dst"

definition ARTNode4_grow :: "'c node4 \<Rightarrow> 'c node16" where
  "ARTNode4_grow n =
     (let new_node = ARTNode16_new; num = unat (n4_num n)
      in Node16 (n4_num n) (copy_into num (n4_keys n) (n16_keys new_node))
           (copy_into num (n4_children n) (n16_children new_node)))"

definition ARTNode16_grow :: "'c node16 \<Rightarrow> 'c node48" where
  "ARTNode16_grow n =
     (let new_node = ARTNode48_new; num = unat (n16_num n)
      in Node48 (n16_num n)
           (fold (\<lambda>i ix. ix[unat (n16_keys n ! i) := word_of_nat (i + 1)]) [0..<num] (n48_indices new_node))
           (copy_into num (n16_children n) (n48_children new_node)))"

definition ARTNode48_grow :: "'c node48 \<Rightarrow> 'c node256" where
  "ARTNode48_grow n =
     Node256 (n48_num n)
       (map (\<lambda>index. if index \<noteq> 0 then n48_children n ! (unat index - 1) else None) (n48_indices n))"

lemma length_copy_into [simp]: "length (copy_into n src dst) = length dst"
  unfolding copy_into_def by (induction n) simp_all

lemma nth_copy_into:
  "n \<le> length dst \<Longrightarrow> copy_into n src dst ! i = (if i < n then src ! i else dst ! i)"
  unfolding copy_into_def
proof (induction n)
  case (Suc n)
  have "length (fold (\<lambda>i xs. xs[i := src ! i]) [0..<n] dst) = length dst"
    using length_copy_into [of n src dst] by (simp add: copy_into_def)
  with Suc show ?case by (auto simp: nth_list_update less_Suc_eq)
qed simp

lemma take_copy_into: "n \<le> length dst \<Longrightarrow> n \<le> length src \<Longrightarrow> take n (copy_into n src dst) = take n src"
  by (rule nth_equalityI) (simp_all add: nth_copy_into)

lemma ARTNode4_grow:
  assumes "node4_ok n" "ARTNode4_is_full n"
  shows "node16_ok (ARTNode4_grow n)" "\<not> ARTNode16_is_full (ARTNode4_grow n)"
    "ARTNode16_find_child j (ARTNode4_grow n) = ARTNode4_find_child j n"
proof -
  obtain m ks cs where n: "n = Node4 m ks cs" by (cases n)
  have m: "m = 4" and len: "length ks = 4" "length cs = 4"
    using assms by (simp_all add: node4_ok_def linear_ok_def ARTNode4_is_full_def n)
  have g: "ARTNode4_grow n = Node16 4 (copy_into 4 ks (replicate 16 0)) (copy_into 4 cs (replicate 16 None))"
    by (simp add: ARTNode4_grow_def ARTNode16_new_def n m)
  show "node16_ok (ARTNode4_grow n)"
    using assms(1) len unfolding g by (simp add: node16_ok_def node4_ok_def linear_ok_def n m take_copy_into)
  show "\<not> ARTNode16_is_full (ARTNode4_grow n)" unfolding g by (simp add: ARTNode16_is_full_def)
  show "ARTNode16_find_child j (ARTNode4_grow n) = ARTNode4_find_child j n"
    using len unfolding g by (simp add: find_slots slots_take take_copy_into n m)
qed

lemma find_append:
  "List.find P (xs @ ys) = (case List.find P xs of Some x \<Rightarrow> Some x | None \<Rightarrow> List.find P ys)"
  by (induction xs) simp_all

lemma indices_grown:
  assumes "m \<le> 16" "sorted_wrt (<) (take m ks)" "m \<le> length ks"
  shows "length (fold (\<lambda>i ix. ix[unat (ks ! i) := word_of_nat (i + 1)]) [0..<m] (replicate 256 (0 :: u8))) = 256 \<and>
    fold (\<lambda>i ix. ix[unat (ks ! i) := word_of_nat (i + 1)]) [0..<m] (replicate 256 (0 :: u8)) ! unat (k :: u8) =
      (case key_position m ks k of Some i \<Rightarrow> word_of_nat (i + 1) | None \<Rightarrow> 0)"
  using assms
proof (induction m)
  case 0
  then show ?case by (simp add: key_position_def byte_below)
next
  case (Suc m)
  have "take (Suc m) ks = take m ks @ [ks ! m]" using Suc.prems by (simp add: take_Suc_conv_app_nth)
  then have srt: "sorted_wrt (<) (take m ks)" "\<forall>x\<in>set (take m ks). x < ks ! m"
    using Suc.prems by (simp_all add: sorted_wrt_append)
  note IH = Suc.IH [OF _ srt(1)]
  have new: "\<forall>i<m. ks ! i \<noteq> ks ! m" using srt(2) Suc.prems by (auto simp: in_set_conv_nth)
  have step: "key_position (Suc m) ks k =
      (case key_position m ks k of Some i \<Rightarrow> Some i | None \<Rightarrow> if ks ! m = k then Some m else None)"
    by (auto simp: key_position_def find_append split: option.split)
  have "key_position m ks k = None" if "ks ! m = k" using new that by (simp add: key_position_None)
  then show ?case using IH Suc.prems byte_below [of "ks ! m"]
    by (auto simp: step nth_list_update word_unat_eq_iff split: option.split)
qed

lemma ARTNode16_grow:
  assumes "node16_ok n" "ARTNode16_is_full n"
  shows "node48_ok (ARTNode16_grow n)" "\<not> ARTNode48_is_full (ARTNode16_grow n)"
    "ARTNode48_find_child j (ARTNode16_grow n) = ARTNode16_find_child j n"
proof -
  obtain m ks cs where n: "n = Node16 m ks cs" by (cases n)
  have m: "m = 16" and len: "length ks = 16" "length cs = 16" and nn: "None \<notin> set cs"
    and srt: "sorted_wrt (<) (take 16 ks)"
    using assms by (auto simp: node16_ok_def linear_ok_def ARTNode16_is_full_def n)
  define ix where "ix = fold (\<lambda>i ix. ix[unat (ks ! i) := word_of_nat (i + 1)]) [0..<16] (replicate 256 (0 :: u8))"
  define cs' where "cs' = copy_into 16 cs (replicate 48 None)"
  have g: "ARTNode16_grow n = Node48 16 ix cs'"
    unfolding ARTNode16_grow_def ARTNode48_new_def n node16.sel node48.sel Let_def m ix_def cs'_def by simp
  have ix: "length ix = 256"
    "\<And>k :: u8. ix ! unat k = (case key_position 16 ks k of Some i \<Rightarrow> word_of_nat (i + 1) | None \<Rightarrow> 0)"
    using indices_grown [OF order_refl srt] len unfolding ix_def by simp_all
  have cs': "length cs' = 48" "\<And>i. i < 48 \<Longrightarrow> cs' ! i = (if i < 16 then cs ! i else None)"
    by (simp_all add: cs'_def nth_copy_into)
  have small: "unat (word_of_nat (i + 1) :: u8) = i + 1" if "i < 16" for i
    unfolding unsigned_of_nat using that by (simp add: take_bit_nat_eq_self)
  have at: "unat (ix ! unat k) = (case key_position 16 ks k of Some i \<Rightarrow> i + 1 | None \<Rightarrow> 0)" for k :: u8
    unfolding ix using small by (auto split: option.split dest!: key_position_Some)
  show "node48_ok (ARTNode16_grow n)" unfolding g
  proof (rule node48_okI)
    show "unat (ix ! unat k) \<le> unat (16 :: u8)" for k :: u8
      unfolding at by (auto split: option.split dest!: key_position_Some)
    show "k = j" if "ix ! unat k = ix ! unat j" "ix ! unat k \<noteq> 0" for k j :: u8
    proof -
      have e: "unat (ix ! unat k) = unat (ix ! unat j)" "unat (ix ! unat k) \<noteq> 0"
        using that by (simp_all add: unat_zero_iff)
      then obtain i where "key_position 16 ks k = Some i" "key_position 16 ks j = Some i"
        unfolding at by (auto split: option.splits)
      then show ?thesis by (auto dest!: key_position_Some)
    qed
    show "\<exists>k. unat (ix ! unat (k :: u8)) = Suc i" if "i < unat (16 :: u8)" for i
    proof -
      have i: "i < 16" using that by simp
      have "distinct (take 16 ks)" using srt by (simp add: strict_sorted_iff)
      then have "\<forall>j<16. ks ! j = ks ! i \<longrightarrow> j = i" using i len by (auto simp: nth_eq_iff_index_eq)
      moreover obtain j where j: "key_position 16 ks (ks ! i) = Some j"
        using i key_position_None [of 16 ks "ks ! i"] by (cases "key_position 16 ks (ks ! i)") auto
      ultimately have "key_position 16 ks (ks ! i) = Some i" using key_position_Some [OF j] by auto
      then show ?thesis unfolding at by (intro exI [of _ "ks ! i"]) simp
    qed
    show "cs' ! i = None \<longleftrightarrow> unat (16 :: u8) \<le> i" if "i < 48" for i
      using nn len that by (auto simp: cs'(2) in_set_conv_nth)
  qed (simp_all add: ix cs')
  show "\<not> ARTNode48_is_full (ARTNode16_grow n)" unfolding g by (simp add: ARTNode48_is_full_def)
  have "ARTNode48_find_child j (ARTNode16_grow n) =
      (if unat (ix ! unat j) = 0 then None else cs' ! (unat (ix ! unat j) - 1))"
    unfolding g ARTNode48_find_child_def by (simp add: Let_def unat_zero_iff)
  then show "ARTNode48_find_child j (ARTNode16_grow n) = ARTNode16_find_child j n"
    unfolding at by (auto simp: ARTNode16_find_child_def n m cs' split: option.split dest!: key_position_Some)
qed

lemma ARTNode48_grow:
  assumes "node48_ok n"
  shows "node256_ok (ARTNode48_grow n)"
    "ARTNode256_find_child j (ARTNode48_grow n) = ARTNode48_find_child j n"
proof -
  obtain m ix cs where n: "n = Node48 m ix cs" by (cases n)
  note len = node48_okD(2) [OF assms [unfolded n]]
  show "node256_ok (ARTNode48_grow n)"
    using len by (simp add: ARTNode48_grow_def node256_ok_def n)
  show "ARTNode256_find_child j (ARTNode48_grow n) = ARTNode48_find_child j n"
    using len byte_below [of j]
    by (simp add: ARTNode48_grow_def ARTNode256_find_child_def ARTNode48_find_child_def n Let_def)
qed

section \<open>The virtual functions\<close>

datatype 'c art_node = N4 "'c node4" | N16 "'c node16" | N48 "'c node48" | N256 "'c node256"

fun find_child :: "u8 \<Rightarrow> 'c art_node \<Rightarrow> 'c option" where
  "find_child k (N4 n) = ARTNode4_find_child k n"
| "find_child k (N16 n) = ARTNode16_find_child k n"
| "find_child k (N48 n) = ARTNode48_find_child k n"
| "find_child k (N256 n) = ARTNode256_find_child k n"

fun add_child :: "u8 \<Rightarrow> 'c \<Rightarrow> 'c art_node \<Rightarrow> 'c art_node" where
  "add_child k c (N4 n) = N4 (ARTNode4_add_child k c n)"
| "add_child k c (N16 n) = N16 (ARTNode16_add_child k c n)"
| "add_child k c (N48 n) = N48 (ARTNode48_add_child k c n)"
| "add_child k c (N256 n) = N256 (ARTNode256_add_child k c n)"

fun remove_child :: "u8 \<Rightarrow> 'c art_node \<Rightarrow> 'c art_node" where
  "remove_child k (N4 n) = N4 (ARTNode4_remove_child k n)"
| "remove_child k (N16 n) = N16 (ARTNode16_remove_child k n)"
| "remove_child k (N48 n) = N48 (ARTNode48_remove_child k n)"
| "remove_child k (N256 n) = N256 (ARTNode256_remove_child k n)"

fun is_full :: "'c art_node \<Rightarrow> bool" where
  "is_full (N4 n) = ARTNode4_is_full n"
| "is_full (N16 n) = ARTNode16_is_full n"
| "is_full (N48 n) = ARTNode48_is_full n"
| "is_full (N256 n) = False"

text \<open>\<open>ARTNode256::grow\<close> gives the null pointer.\<close>

fun grow :: "'c art_node \<Rightarrow> 'c art_node option" where
  "grow (N4 n) = Some (N16 (ARTNode4_grow n))"
| "grow (N16 n) = Some (N48 (ARTNode16_grow n))"
| "grow (N48 n) = Some (N256 (ARTNode48_grow n))"
| "grow (N256 n) = None"

fun child_changed :: "u8 \<Rightarrow> 'c \<Rightarrow> 'c art_node \<Rightarrow> 'c art_node" where
  "child_changed k c (N4 n) = N4 (node4_upd k c n)"
| "child_changed k c (N16 n) = N16 (node16_upd k c n)"
| "child_changed k c (N48 n) = N48 (node48_upd k c n)"
| "child_changed k c (N256 n) = N256 (node256_upd k c n)"

fun node_ok :: "'c art_node \<Rightarrow> bool" where
  "node_ok (N4 n) = node4_ok n"
| "node_ok (N16 n) = node16_ok n"
| "node_ok (N48 n) = node48_ok n"
| "node_ok (N256 n) = node256_ok n"

interpretation an: child_table node_ok find_child add_child remove_child is_full child_changed
proof unfold_locales
  fix n :: "'c art_node" and k c
  assume ok: "node_ok n"
  show "node_ok (add_child k c n) \<and> (\<lambda>j. find_child j (add_child k c n)) = (\<lambda>j. find_child j n)(k \<mapsto> c)"
    if "\<not> is_full n" "find_child k n = None"
    using ok that by (cases n) (simp_all add: n4.add_law n16.add_law n48.add_law n256.add_law)
  show "node_ok (remove_child k n) \<and> (\<lambda>j. find_child j (remove_child k n)) = (\<lambda>j. find_child j n)(k := None)"
    using ok by (cases n) (simp_all add: n4.remove_law n16.remove_law n48.remove_law n256.remove_law)
  assume there: "find_child k n \<noteq> None"
  show "\<not> is_full (remove_child k n)"
    using ok there by (cases n) (auto dest: n4.room_law n16.room_law n48.room_law)
  show "node_ok (child_changed k c n) \<and>
      (\<lambda>j. find_child j (child_changed k c n)) = (\<lambda>j. find_child j n)(k \<mapsto> c)"
    using ok there by (cases n) (simp_all add: n4.upd_law n16.upd_law n48.upd_law n256.upd_law)
qed

text \<open>A full node grows into one that has room and holds the same children.\<close>

lemma grow_keeps:
  assumes "node_ok n" "is_full n"
  obtains n' where "grow n = Some n'" "node_ok n'" "\<not> is_full n'" "(\<lambda>j. find_child j n') = (\<lambda>j. find_child j n)"
  using assms by (cases n) (auto simp: ARTNode4_grow ARTNode16_grow ARTNode48_grow)

section \<open>Visiting the children\<close>

text \<open>
  The children in the order in which \<open>collect_all\<close> and \<open>ARTIterator::collect_items\<close> visit them:
  the slots in use of the two small classes, the slots that are not null of the others.
\<close>

definition present :: "'c option list \<Rightarrow> 'c list" where
  "present xs = map the (filter (\<lambda>x. x \<noteq> None) xs)"

fun node_children :: "'c art_node \<Rightarrow> 'c list" where
  "node_children (N4 n) = present (take (unat (n4_num n)) (n4_children n))"
| "node_children (N16 n) = present (take (unat (n16_num n)) (n16_children n))"
| "node_children (N48 n) = present (n48_children n)"
| "node_children (N256 n) = present (n256_children n)"

lemma present_Some: "map Some (present xs) = filter (\<lambda>x. x \<noteq> None) xs"
  by (induction xs) (auto simp: present_def)

lemma filter_present: "None \<notin> set xs \<Longrightarrow> filter (\<lambda>x. x \<noteq> None) xs = xs"
  by (rule filter_True) metis

definition visits :: "(u8 \<Rightarrow> 'c option) \<Rightarrow> 'c list \<Rightarrow> u8 list \<Rightarrow> bool" where
  "visits f cs bs \<longleftrightarrow> distinct bs \<and> map Some cs = map f bs \<and> set bs = {b. f b \<noteq> None}"

lemma visits_linear:
  assumes "linear_ok cap n ks cs"
  shows "visits (slots n ks cs) (present (take n cs)) (take n ks)"
proof -
  have len: "length ks = cap" "length cs = cap" "n \<le> cap" and nn: "None \<notin> set (take n cs)"
    using assms by (simp_all add: linear_ok_def)
  note dist = linear_distinct [OF assms]
  have at: "slots n ks cs (ks ! i) = cs ! i" if i: "i < n" for i
  proof -
    obtain j where j: "key_position n ks (ks ! i) = Some j"
      using i key_position_None [of n ks "ks ! i"] by (cases "key_position n ks (ks ! i)") auto
    then have "j = i" using key_position_Some [OF j] dist i len by (auto simp: nth_eq_iff_index_eq distinct_conv_nth)
    then show ?thesis using j by (simp add: slots_def)
  qed
  have "filter (\<lambda>x. x \<noteq> None) (take n cs) = take n cs" using nn by (rule filter_present)
  then have "map Some (present (take n cs)) = map (slots n ks cs) (take n ks)"
    unfolding present_Some using len by (intro nth_equalityI) (simp_all add: at)
  moreover have "b \<in> set (take n ks) \<longleftrightarrow> slots n ks cs b \<noteq> None" for b
  proof
    assume "b \<in> set (take n ks)"
    then obtain i where "i < n" "b = ks ! i" using len by (auto simp: in_set_conv_nth)
    moreover then have "cs ! i \<in> set (take n cs)" using len by (auto simp: in_set_conv_nth)
    ultimately show "slots n ks cs b \<noteq> None" using at nn by metis
  next
    assume "slots n ks cs b \<noteq> None"
    then obtain i where "key_position n ks b = Some i" by (auto simp: slots_def split: option.splits)
    then show "b \<in> set (take n ks)" using key_position_Some [of n ks b i] len by (auto simp: in_set_conv_nth)
  qed
  ultimately show ?thesis using dist by (auto simp: visits_def)
qed

lemma visits_node48:
  assumes "node48_ok n"
  shows "\<exists>bs. visits (\<lambda>b. ARTNode48_find_child b n) (present (n48_children n)) bs"
proof -
  obtain m ix cs where n: "n = Node48 m ix cs" by (cases n)
  note D = node48_okD [OF assms [unfolded n]]
  obtain f where f: "\<And>i. i < unat m \<Longrightarrow> unat (ix ! unat (f i :: u8)) = Suc i"
    using D(7) by metis
  have find: "ARTNode48_find_child b n = (if unat (ix ! unat b) = 0 then None else cs ! (unat (ix ! unat b) - 1))" for b
    by (simp add: ARTNode48_find_child_def n Let_def unat_zero_iff)
  have "filter (\<lambda>x. x \<noteq> None) (take (unat m) cs @ drop (unat m) cs) = take (unat m) cs"
  proof -
    have "None \<notin> set (take (unat m) cs)"
    proof
      assume "None \<in> set (take (unat m) cs)"
      then obtain i where "i < unat m" "cs ! i = None" using D(1,3) by (metis in_set_conv_nth length_take min_less_iff_conj nth_take)
      then show False using D(6) [of i] D(1) by simp
    qed
    then have "filter (\<lambda>x. x \<noteq> None) (take (unat m) cs) = take (unat m) cs" by (rule filter_present)
    moreover have "x = None" if "x \<in> set (drop (unat m) cs)" for x
      using that D(1,3) D(6) by (auto simp: in_set_conv_nth)
    then have "filter (\<lambda>x. x \<noteq> None) (drop (unat m) cs) = []" by (simp add: filter_empty_conv)
    ultimately show ?thesis unfolding filter_append by simp
  qed
  then have cs: "map Some (present cs) = take (unat m) cs" unfolding present_Some by simp
  have "map Some (present cs) = map (\<lambda>b. ARTNode48_find_child b n) (map f [0..<unat m])"
    unfolding cs by (rule nth_equalityI) (use D(1,3) f in \<open>simp_all add: find\<close>)
  moreover have "distinct (map f [0..<unat m])"
    unfolding distinct_map by (auto simp: inj_on_def) (metis f nat.inject)
  moreover have "b \<in> set (map f [0..<unat m]) \<longleftrightarrow> ARTNode48_find_child b n \<noteq> None" for b
  proof
    assume "b \<in> set (map f [0..<unat m])"
    then obtain i where "i < unat m" "b = f i" by auto
    then show "ARTNode48_find_child b n \<noteq> None" using f D(1) D(6) [of i] by (simp add: find del: not_None_eq)
  next
    assume "ARTNode48_find_child b n \<noteq> None"
    then have nz: "unat (ix ! unat b) \<noteq> 0" by (auto simp: find split: if_splits)
    define i where "i = unat (ix ! unat b) - 1"
    have i: "i < unat m" using nz D(4) [of b] by (simp add: i_def)
    then have "unat (ix ! unat (f i)) = unat (ix ! unat b)" using f [of i] nz by (simp add: i_def)
    then have "ix ! unat (f i) = ix ! unat b" by (simp add: word_unat_eq_iff)
    then have "f i = b" by (rule D(5)) (use f [OF i] in auto)
    then show "b \<in> set (map f [0..<unat m])" using i by auto
  qed
  ultimately show ?thesis unfolding visits_def n node48.sel by (intro exI [of _ "map f [0..<unat m]"]) auto
qed

lemma visits_node256:
  assumes "node256_ok n"
  shows "\<exists>bs. visits (\<lambda>b. ARTNode256_find_child b n) (present (n256_children n)) bs"
proof -
  let ?cs = "n256_children n" and ?bytes = "map word_of_nat [0..<256] :: u8 list"
  have len: "length ?cs = 256" using assms by (simp add: node256_ok_def)
  have small: "unat (word_of_nat i :: u8) = i" if "i < 256" for i
    unfolding unsigned_of_nat using that by (simp add: take_bit_nat_eq_self)
  have cs: "?cs = map (\<lambda>b. ARTNode256_find_child b n) ?bytes"
    by (rule nth_equalityI) (simp_all add: len ARTNode256_find_child_def small)
  have all: "b \<in> set ?bytes" for b :: u8
    using byte_below [of b] by (auto intro!: image_eqI [of _ _ "unat b"])
  have "distinct ?bytes" unfolding distinct_map by (auto simp: inj_on_def) (metis small)
  moreover have "map Some (present ?cs) =
      map (\<lambda>b. ARTNode256_find_child b n) (filter (\<lambda>b. ARTNode256_find_child b n \<noteq> None) ?bytes)"
    unfolding present_Some by (subst cs) (simp only: filter_map comp_def)
  ultimately show ?thesis unfolding visits_def
    by (intro exI [of _ "filter (\<lambda>b. ARTNode256_find_child b n \<noteq> None) ?bytes"]) (use all in auto)
qed

text \<open>Every child is visited once.\<close>

lemma node_children_are:
  assumes "node_ok n"
  shows "\<exists>bs. visits (\<lambda>b. find_child b n) (node_children n) bs"
proof (cases n)
  case (N4 n')
  then show ?thesis using assms visits_linear [of 4] by (auto simp: find_slots node4_ok_def)
next
  case (N16 n')
  then show ?thesis using assms visits_linear [of 16] by (auto simp: find_slots node16_ok_def)
qed (use assms visits_node48 visits_node256 in auto)

end
