(* ===== verification/Art_Tree.thy ===== *)
theory Art_Tree
  imports Art_Node Index "HOL-Library.Sublist"
begin

text \<open>
  The adaptive radix tree of \<open>src/art_index.cpp\<close>: the private operations \<open>search\<close>, \<open>insert\<close>,
  \<open>delete_node\<close>, \<open>check_prefix\<close> and \<open>collect_all\<close> of \<open>ARTIndex\<close>, and \<open>ARTIterator\<close>. The public
  operations of \<open>ARTIndex\<close> (theory \<open>Indexer\<close>) do not call them: they use the map \<open>simple_map_\<close>, "to
  ensure correctness". The lemmas show on which keys the tree is a map, and what it loses on others.
\<close>

section \<open>The tree\<close>

text \<open>
  A node is a leaf, or an inner node with \<open>prefix_len\<close>, \<open>prefix\<close> and its children. A node has one
  owner, so that a tree of values is enough: where the code mutates a node that its parent points
  to, the operation below says that the object is the same, and the parent changes the child in
  place.
\<close>

datatype art_tree =
    ARTLeaf bytes log_record_pos
  | ARTInner u8 bytes "art_tree art_node"

definition check_prefix :: "u8 \<Rightarrow> bytes \<Rightarrow> bytes \<Rightarrow> nat \<Rightarrow> int" where
  "check_prefix prefix_len pre key depth =
     (let max_cmp = min (uint prefix_len) (int (length key) - int depth)
      in case List.find (\<lambda>i. pre ! i \<noteq> key ! (depth + i)) [0..<nat max_cmp] of
           Some i \<Rightarrow> int i
         | None \<Rightarrow> max_cmp)"

text \<open>The loop of \<open>search\<close>.\<close>

function search_from :: "art_tree option \<Rightarrow> bytes \<Rightarrow> nat \<Rightarrow> art_tree option" where
  "search_from None key depth = None"
| "search_from (Some (ARTLeaf k v)) key depth = (if k = key then Some (ARTLeaf k v) else None)"
| "search_from (Some (ARTInner prefix_len pre n)) key depth =
     (if prefix_len > 0 \<and> check_prefix prefix_len pre key depth \<noteq> uint prefix_len then None
      else
        let depth' = (if prefix_len > 0 then depth + unat prefix_len else depth)
        in if depth' \<ge> length key then None
           else search_from (find_child (key ! depth') n) key (depth' + 1))"
  by pat_completeness auto
termination by (relation "measure (\<lambda>(_, key, depth). length key - depth)") (auto split: if_splits)

definition ARTIndex_search :: "art_tree option \<Rightarrow> bytes \<Rightarrow> art_tree option" where
  "ARTIndex_search root key = search_from root key 0"

text \<open>The bytes that two keys have in common from \<open>depth\<close> on.\<close>

fun common_prefix :: "bytes \<Rightarrow> bytes \<Rightarrow> nat" where
  "common_prefix (x # xs) (y # ys) = (if x = y then Suc (common_prefix xs ys) else 0)"
| "common_prefix _ _ = 0"

text \<open>
  What \<open>insert\<close> makes of a leaf with another key, and of an inner node whose prefix the key leaves.
  \<open>prefix_len\<close> is a byte: the length is cut to it.
\<close>

definition split_leaf :: "bytes \<Rightarrow> log_record_pos \<Rightarrow> bytes \<Rightarrow> log_record_pos \<Rightarrow> nat \<Rightarrow> art_tree" where
  "split_leaf k v key value depth =
     (let common = common_prefix (drop depth key) (drop depth k);
          branch = depth + common;
          n = N4 ARTNode4_new;
          n = (if branch < length key then add_child (key ! branch) (ARTLeaf key value) n else n);
          n = (if branch < length k then add_child (k ! branch) (ARTLeaf k v) n else n)
      in ARTInner (word_of_nat common) (take common (drop depth key)) n)"

definition split_inner ::
    "u8 \<Rightarrow> bytes \<Rightarrow> art_tree art_node \<Rightarrow> int \<Rightarrow> bytes \<Rightarrow> log_record_pos \<Rightarrow> nat \<Rightarrow> art_tree" where
  "split_inner prefix_len pre node prefix_match key value depth =
     (let m = nat prefix_match;
          branch_char = pre ! m;
          rest_len = prefix_len - (word_of_nat m + 1);
          rest = (if rest_len > 0 then drop (m + 1) pre else []);
          n = add_child branch_char (ARTInner rest_len rest node) (N4 ARTNode4_new);
          n = (if depth + m < length key then add_child (key ! (depth + m)) (ARTLeaf key value) n else n)
      in ARTInner (word_of_nat m) (take m pre) n)"

text \<open>
  \<open>insert\<close> gives the node, whether it is the object it was called with, and the old value.
  A full node can grow: \<open>ARTNode256\<close>, which cannot, is never full (\<open>grow_keeps\<close>).
\<close>

function ARTIndex_insert ::
    "art_tree option \<Rightarrow> bytes \<Rightarrow> log_record_pos \<Rightarrow> nat \<Rightarrow> art_tree \<times> bool \<times> log_record_pos option" where
  "ARTIndex_insert None key value depth = (ARTLeaf key value, False, None)"
| "ARTIndex_insert (Some (ARTLeaf k v)) key value depth =
     (if k = key then (ARTLeaf k value, True, Some v)
      else (split_leaf k v key value depth, False, None))"
| "ARTIndex_insert (Some (ARTInner prefix_len pre n)) key value depth =
     (let prefix_match = check_prefix prefix_len pre key depth in
      if prefix_len > 0 \<and> prefix_match < uint prefix_len
      then (split_inner prefix_len pre n prefix_match key value depth, False, None)
      else
        let depth' = (if prefix_len > 0 then depth + unat prefix_len else depth) in
        if depth' \<ge> length key then (ARTInner prefix_len pre n, True, None)
        else
          let child_key = key ! depth' in
          case find_child child_key n of
            Some child \<Rightarrow>
              let (new_child, same, old) = ARTIndex_insert (Some child) key value (depth' + 1)
              in (ARTInner prefix_len pre
                    (if same then child_changed child_key new_child n
                     else add_child child_key new_child (remove_child child_key n)), True, old)
          | None \<Rightarrow>
              (case (if is_full n then grow n else None) of
                 Some grown \<Rightarrow> (ARTInner prefix_len pre (add_child child_key (ARTLeaf key value) grown), False, None)
               | None \<Rightarrow> (ARTInner prefix_len pre (add_child child_key (ARTLeaf key value) n), True, None)))"
  by pat_completeness auto
termination by (relation "measure (\<lambda>(_, key, _, depth). length key - depth)") (auto split: if_splits)

text \<open>
  \<open>delete_node\<close> gives null or the node it was called with, the old value, and whether the key was
  found. It never joins an inner node with its last child, and keeps inner nodes without children.
\<close>

function ARTIndex_delete_node ::
    "art_tree option \<Rightarrow> bytes \<Rightarrow> nat \<Rightarrow> art_tree option \<times> log_record_pos option \<times> bool" where
  "ARTIndex_delete_node None key depth = (None, None, False)"
| "ARTIndex_delete_node (Some (ARTLeaf k v)) key depth =
     (if k = key then (None, Some v, True) else (Some (ARTLeaf k v), None, False))"
| "ARTIndex_delete_node (Some (ARTInner prefix_len pre n)) key depth =
     (if prefix_len > 0 \<and> check_prefix prefix_len pre key depth \<noteq> uint prefix_len
      then (Some (ARTInner prefix_len pre n), None, False)
      else
        let depth' = (if prefix_len > 0 then depth + unat prefix_len else depth) in
        if depth' \<ge> length key then (Some (ARTInner prefix_len pre n), None, False)
        else
          let child_key = key ! depth' in
          case find_child child_key n of
            Some child \<Rightarrow>
              let (new_child, old, found) = ARTIndex_delete_node (Some child) key (depth' + 1)
              in (Some (ARTInner prefix_len pre
                    (case new_child of
                       None \<Rightarrow> remove_child child_key n
                     | Some c \<Rightarrow> child_changed child_key c n)), old, found)
          | None \<Rightarrow> (Some (ARTInner prefix_len pre n), None, False))"
  by pat_completeness auto
termination by (relation "measure (\<lambda>(_, key, depth). length key - depth)") (auto split: if_splits)

section \<open>Prefixes\<close>

lemma common_prefix_le: "common_prefix xs ys \<le> length xs" "common_prefix xs ys \<le> length ys"
  by (induction xs ys rule: common_prefix.induct) simp_all

lemma common_prefix_take: "take (common_prefix xs ys) xs = take (common_prefix xs ys) ys"
  by (induction xs ys rule: common_prefix.induct) simp_all

lemma common_prefix_differ:
  "common_prefix xs ys < length xs \<Longrightarrow> common_prefix xs ys < length ys \<Longrightarrow>
   xs ! common_prefix xs ys \<noteq> ys ! common_prefix xs ys"
  by (induction xs ys rule: common_prefix.induct) auto

lemma prefix_common: "prefix xs ys \<longleftrightarrow> common_prefix xs ys = length xs"
  by (induction xs ys rule: common_prefix.induct) auto

lemma find_mapped: "List.find P (map f xs) = map_option f (List.find (P \<circ> f) xs)"
  by (induction xs) simp_all

lemma find_differs:
  "List.find (\<lambda>i. xs ! i \<noteq> ys ! i) [0..<min (length xs) (length ys)] =
     (if common_prefix xs ys < min (length xs) (length ys) then Some (common_prefix xs ys) else None)"
proof (induction xs ys rule: common_prefix.induct)
  case (1 x xs y ys)
  have "[0..<Suc (min (length xs) (length ys))] = 0 # map Suc [0..<min (length xs) (length ys)]"
    by (simp add: upt_conv_Cons map_Suc_upt del: upt_Suc)
  then show ?case using 1 by (auto simp: find_mapped comp_def)
qed simp_all

lemma check_prefix_common:
  assumes "length pre = unat plen" "d \<le> length key"
  shows "check_prefix plen pre key d = int (common_prefix pre (drop d key))"
proof -
  let ?m = "min (length pre) (length (drop d key))"
  have cmp: "min (uint plen) (int (length key) - int d) = int ?m" using assms by (simp add: of_nat_min of_nat_diff)
  have "List.find (\<lambda>i. pre ! i \<noteq> key ! (d + i)) [0..<?m] = List.find (\<lambda>i. pre ! i \<noteq> drop d key ! i) [0..<?m]"
    by (rule find_cong) (use assms(2) in simp_all)
  then show ?thesis using find_differs [of pre "drop d key"] common_prefix_le [of pre "drop d key"]
    unfolding check_prefix_def cmp by auto
qed

section \<open>The invariant\<close>

text \<open>
  The keys that the tree can hold: none is a prefix of another, and none is longer than 256 bytes
  (a common prefix has then at most 255, what \<open>prefix_len\<close> can count).
\<close>

definition keys_fit :: "bytes set \<Rightarrow> bool" where
  "keys_fit K \<longleftrightarrow> (\<forall>k\<in>K. length k \<le> 256 \<and> (\<forall>j\<in>K. prefix k j \<longrightarrow> k = j))"

text \<open>A tree over keys of \<open>K\<close> that is reached by the bytes \<open>p\<close>.\<close>

inductive art_ok :: "bytes set \<Rightarrow> bytes \<Rightarrow> art_tree \<Rightarrow> bool" for K where
  leaf: "k \<in> K \<Longrightarrow> prefix p k \<Longrightarrow> art_ok K p (ARTLeaf k v)"
| inner: "node_ok n \<Longrightarrow> length pre = unat plen \<Longrightarrow> k \<in> K \<Longrightarrow> strict_prefix (p @ pre) k \<Longrightarrow>
    (\<And>b c. find_child b n = Some c \<Longrightarrow> art_ok K (p @ pre @ [b]) c) \<Longrightarrow>
    art_ok K p (ARTInner plen pre n)"

inductive_simps art_ok_leaf: "art_ok K p (ARTLeaf k v)"

inductive_cases art_ok_innerE: "art_ok K p (ARTInner plen pre n)"

text \<open>The value that \<open>search\<close> reaches.\<close>

definition art_value :: "art_tree option \<Rightarrow> bytes \<Rightarrow> nat \<Rightarrow> log_record_pos option" where
  "art_value t key d = (case search_from t key d of Some (ARTLeaf k v) \<Rightarrow> Some v | _ \<Rightarrow> None)"

lemma art_value_base [simp]:
  "art_value None key d = None"
  "art_value (Some (ARTLeaf k v)) key d = (if k = key then Some v else None)"
  by (simp_all add: art_value_def)

lemma longer:
  assumes "keys_fit K" "k \<in> K" "strict_prefix q k" "j \<in> K" "prefix q j"
  shows "length q < length j"
proof (rule ccontr)
  assume "\<not> length q < length j"
  with assms(5) have "q = j" by (auto simp: prefix_def)
  then show False using assms unfolding keys_fit_def by (auto simp: strict_prefix_def)
qed

lemma prefix_through: "length p \<le> length j \<Longrightarrow> prefix p j \<Longrightarrow> prefix (p @ pre) j \<longleftrightarrow> prefix pre (drop (length p) j)"
  by (auto simp: prefix_def)

lemma prefix_byte: "prefix (q @ [b]) j \<longleftrightarrow> prefix q j \<and> length q < length j \<and> j ! length q = b"
proof (cases "prefix q j")
  case True
  then obtain zs where "j = q @ zs" by (rule prefixE)
  then show ?thesis by (cases zs) auto
qed (auto dest: append_prefixD)

lemma check_prefix_path:
  assumes "prefix p j" "length pre = unat plen"
  shows "check_prefix plen pre j (length p) = int (common_prefix pre (drop (length p) j))"
    and "common_prefix pre (drop (length p) j) = unat plen \<longleftrightarrow> prefix (p @ pre) j"
proof -
  have le: "length p \<le> length j" using assms(1) by (rule prefix_length_le)
  show "check_prefix plen pre j (length p) = int (common_prefix pre (drop (length p) j))"
    using assms(2) le by (rule check_prefix_common)
  show "common_prefix pre (drop (length p) j) = unat plen \<longleftrightarrow> prefix (p @ pre) j"
    using assms(2) prefix_through [OF le assms(1), of pre] prefix_common [of pre "drop (length p) j"] by simp
qed

lemma depth_path: "length pre = unat plen \<Longrightarrow> (if plen > 0 then length p + unat plen else length p) = length (p @ pre)"
  by (simp add: word_gt_0)

lemma no_prefix: "length pre = unat (plen :: u8) \<Longrightarrow> \<not> plen > 0 \<Longrightarrow> pre = []"
  by (simp add: word_gt_0)

text \<open>Whether the key leaves the prefix of a node, as the code tests it.\<close>

lemma leaves_prefix:
  assumes "prefix p j" "length pre = unat plen"
  shows "(plen > 0 \<and> check_prefix plen pre j (length p) \<noteq> uint plen) \<longleftrightarrow> \<not> prefix (p @ pre) j"
    and "(plen > 0 \<and> check_prefix plen pre j (length p) < uint plen) \<longleftrightarrow> \<not> prefix (p @ pre) j"
proof -
  note chk = check_prefix_path [OF assms]
  have u: "uint plen = int (unat plen)" by simp
  have le: "common_prefix pre (drop (length p) j) \<le> unat plen" using common_prefix_le(1) assms(2) by metis
  show "(plen > 0 \<and> check_prefix plen pre j (length p) \<noteq> uint plen) \<longleftrightarrow> \<not> prefix (p @ pre) j"
    unfolding chk(1) u of_nat_eq_iff chk(2) using no_prefix [OF assms(2)] assms(1)
    by (cases "plen > 0") auto
  then show "(plen > 0 \<and> check_prefix plen pre j (length p) < uint plen) \<longleftrightarrow> \<not> prefix (p @ pre) j"
    unfolding chk(1) u of_nat_eq_iff of_nat_less_iff using le by auto
qed

lemma search_inner:
  assumes "keys_fit K" "art_ok K p (ARTInner plen pre n)" "j \<in> K" "prefix p j"
  shows "search_from (Some (ARTInner plen pre n)) j (length p) =
    (if prefix (p @ pre) j then search_from (find_child (j ! length (p @ pre)) n) j (Suc (length (p @ pre))) else None)"
proof -
  obtain k where pre: "length pre = unat plen" and k: "k \<in> K" "strict_prefix (p @ pre) k"
    using assms(2) by (rule art_ok_innerE) blast
  note leave = leaves_prefix(1) [OF assms(4) pre]
  show ?thesis
  proof (cases "prefix (p @ pre) j")
    case True
    then have "\<not> length j \<le> length (p @ pre)" using longer [OF assms(1) k assms(3)] by simp
    then show ?thesis unfolding search_from.simps leave Let_def depth_path [OF pre] using True by simp
  qed (simp add: leave)
qed

lemma value_inner:
  assumes "keys_fit K" "art_ok K p (ARTInner plen pre n)" "j \<in> K" "prefix p j"
  shows "art_value (Some (ARTInner plen pre n)) j (length p) =
    (if prefix (p @ pre) j then art_value (find_child (j ! length (p @ pre)) n) j (Suc (length (p @ pre))) else None)"
  unfolding art_value_def search_inner [OF assms] by simp

section \<open>Insertion and deletion\<close>

text \<open>One child of an inner node is changed, added or removed.\<close>

lemma inner_changed:
  assumes K: "keys_fit K" and t: "art_ok K p (ARTInner plen pre n)" and n': "node_ok n'"
    and find: "(\<lambda>j. find_child j n') = (\<lambda>j. find_child j n)(b := co)"
    and co: "\<forall>c. co = Some c \<longrightarrow> art_ok K (p @ pre @ [b]) c"
  shows "art_ok K p (ARTInner plen pre n')"
    and "j \<in> K \<Longrightarrow> prefix p j \<Longrightarrow> art_value (Some (ARTInner plen pre n')) j (length p) =
      (if prefix (p @ pre @ [b]) j then art_value co j (length (p @ pre @ [b]))
       else art_value (Some (ARTInner plen pre n)) j (length p))"
proof -
  have find': "find_child j n' = (if j = b then co else find_child j n)" for j
    using fun_cong [OF find, of j] by simp
  show ok: "art_ok K p (ARTInner plen pre n')" using t
  proof (rule art_ok_innerE)
    fix k
    assume "length pre = unat plen" "k \<in> K" "strict_prefix (p @ pre) k"
      and sub: "\<And>b c. find_child b n = Some c \<Longrightarrow> art_ok K (p @ pre @ [b]) c"
    with n' show ?thesis by (rule_tac art_ok.inner) (auto simp: find' co split: if_splits)
  qed
  assume j: "j \<in> K" "prefix p j"
  have "length (p @ pre) < length j" if "prefix (p @ pre) j"
    using t by (rule art_ok_innerE) (rule longer [OF K _ _ j(1) that])
  then show "art_value (Some (ARTInner plen pre n')) j (length p) =
      (if prefix (p @ pre @ [b]) j then art_value co j (length (p @ pre @ [b]))
       else art_value (Some (ARTInner plen pre n)) j (length p))"
    unfolding value_inner [OF K ok j] value_inner [OF K t j] find'
    using prefix_byte [of "p @ pre" b j] by auto
qed

text \<open>A node that has just been made.\<close>

lemma new_node4: "node_ok (N4 ARTNode4_new)" "\<not> is_full (N4 ARTNode4_new)" "find_child b (N4 ARTNode4_new) = None"
  by (simp_all add: ARTNode4_new_def node4_ok_def linear_ok_def ARTNode4_is_full_def ARTNode4_find_child_def key_position_def)

lemma one_child:
  "node_ok (add_child b c (N4 ARTNode4_new))" "\<not> is_full (add_child b c (N4 ARTNode4_new))"
  "find_child j (add_child b c (N4 ARTNode4_new)) = (if j = b then Some c else None)"
proof -
  note law = an.add_law [OF new_node4, of b c]
  show "node_ok (add_child b c (N4 ARTNode4_new))" using law by (rule conjunct1)
  show "find_child j (add_child b c (N4 ARTNode4_new)) = (if j = b then Some c else None)"
    using fun_cong [OF conjunct2 [OF law], of j] by (simp only: fun_upd_apply new_node4(3))
  show "\<not> is_full (add_child b c (N4 ARTNode4_new))"
    by (simp add: ARTNode4_add_child_def ARTNode4_new_def ARTNode4_is_full_def Let_def)
qed

lemma two_children:
  assumes "a \<noteq> b"
  shows "node_ok (add_child b d (add_child a c (N4 ARTNode4_new)))"
    "find_child j (add_child b d (add_child a c (N4 ARTNode4_new))) = (if j = b then Some d else if j = a then Some c else None)"
proof -
  have "find_child b (add_child a c (N4 ARTNode4_new)) = None" unfolding one_child(3) using assms by simp
  note law = an.add_law [OF one_child(1,2) this, of d]
  show "node_ok (add_child b d (add_child a c (N4 ARTNode4_new)))" using law by (rule conjunct1)
  show "find_child j (add_child b d (add_child a c (N4 ARTNode4_new))) =
      (if j = b then Some d else if j = a then Some c else None)"
    using fun_cong [OF conjunct2 [OF law], of j] by (simp only: fun_upd_apply one_child(3))
qed

text \<open>A new inner node at the byte where two keys, or a key and a path, part.\<close>

lemma parted:
  assumes K: "keys_fit K" and k: "k \<in> K" "strict_prefix (p @ pre) k" and len: "length pre = unat plen"
    and ab: "a \<noteq> b" and c: "art_ok K (p @ pre @ [a]) c" and d: "art_ok K (p @ pre @ [b]) d"
    and n: "n = add_child b d (add_child a c (N4 ARTNode4_new))"
  shows "art_ok K p (ARTInner plen pre n)"
    and "j \<in> K \<Longrightarrow> prefix p j \<Longrightarrow> art_value (Some (ARTInner plen pre n)) j (length p) =
      (if prefix (p @ pre @ [a]) j then art_value (Some c) j (length (p @ pre @ [a]))
       else if prefix (p @ pre @ [b]) j then art_value (Some d) j (length (p @ pre @ [b])) else None)"
proof -
  note two = two_children [OF ab]
  show ok: "art_ok K p (ARTInner plen pre n)"
    unfolding n by (rule art_ok.inner [OF two(1) len k]) (auto simp: two(2) c d simp del: find_child.simps add_child.simps split: if_splits)
  assume j: "j \<in> K" "prefix p j"
  have "length (p @ pre) < length j" if "prefix (p @ pre) j" by (rule longer [OF K k j(1) that])
  then show "art_value (Some (ARTInner plen pre n)) j (length p) =
      (if prefix (p @ pre @ [a]) j then art_value (Some c) j (length (p @ pre @ [a]))
       else if prefix (p @ pre @ [b]) j then art_value (Some d) j (length (p @ pre @ [b])) else None)"
    unfolding value_inner [OF K ok j] unfolding n two(2)
    using prefix_byte [of "p @ pre" a j] prefix_byte [of "p @ pre" b j] ab by auto
qed

lemma small_length: "c < 256 \<Longrightarrow> unat (word_of_nat c :: u8) = c"
  unfolding unsigned_of_nat by (simp add: take_bit_nat_eq_self)

lemma split_leaf_is:
  assumes K: "keys_fit K" and k: "k \<in> K" "prefix p k" and key: "key \<in> K" "prefix p key" and ne: "k \<noteq> key"
  shows "art_ok K p (split_leaf k v key value (length p))"
    and "j \<in> K \<Longrightarrow> prefix p j \<Longrightarrow> art_value (Some (split_leaf k v key value (length p))) j (length p) =
      (if j = key then Some value else if j = k then Some v else None)"
proof -
  obtain xs ys where xs: "key = p @ xs" and ys: "k = p @ ys" using k(2) key(2) by (auto simp: prefix_def)
  define c where "c = common_prefix xs ys"
  have eq: "take c xs = take c ys" unfolding c_def by (rule common_prefix_take)
  have "\<not> prefix key k" "\<not> prefix k key" using K k(1) key(1) ne unfolding keys_fit_def by blast+
  then have "\<not> prefix xs ys" "\<not> prefix ys xs" unfolding xs ys by simp_all
  moreover have "prefix ys xs" if "c = length ys" using eq that by (metis take_all_iff order_refl take_is_prefix)
  ultimately have c: "c < length xs" "c < length ys"
    using common_prefix_le [of xs ys] prefix_common [of xs ys] unfolding c_def by (auto simp: order.order_iff_strict)
  have differ: "xs ! c \<noteq> ys ! c" using common_prefix_differ [of xs ys] c unfolding c_def by blast
  have "length xs \<le> 256" using K key(1) xs unfolding keys_fit_def by auto
  then have plen: "length (take c xs) = unat (word_of_nat c :: u8)" using c(1) small_length [of c] by simp
  let ?n = "add_child (ys ! c) (ARTLeaf k v) (add_child (xs ! c) (ARTLeaf key value) (N4 ARTNode4_new))"
  have t: "split_leaf k v key value (length p) = ARTInner (word_of_nat c) (take c xs) ?n"
    using c by (simp add: split_leaf_def xs ys c_def [symmetric] Let_def del: add_child.simps)
  have "prefix (take c xs) ys" using take_is_prefix [of c ys] eq by simp
  then have at: "prefix (p @ take c xs @ [xs ! c]) key" "prefix (p @ take c xs @ [ys ! c]) k"
    unfolding xs ys same_prefix_prefix using c by (auto simp: prefix_byte take_is_prefix)
  have strict: "strict_prefix (p @ take c xs) key"
    unfolding xs strict_prefix_def using c(1) by (auto simp: take_is_prefix)
  note part = parted [OF K key(1) strict plen differ art_ok.leaf [OF key(1) at(1), of "value"] art_ok.leaf [OF k(1) at(2), of v] refl]
  show "art_ok K p (split_leaf k v key value (length p))" unfolding t by (rule part(1))
  have "\<not> prefix (p @ take c xs @ [xs ! c]) k" unfolding ys same_prefix_prefix using differ c by (auto simp: prefix_byte)
  then show "j \<in> K \<Longrightarrow> prefix p j \<Longrightarrow> art_value (Some (split_leaf k v key value (length p))) j (length p) =
      (if j = key then Some value else if j = k then Some v else None)"
    unfolding t using part(2) [of j] at by auto
qed

lemma split_inner_is:
  assumes K: "keys_fit K" and t: "art_ok K p (ARTInner plen pre n)" and key: "key \<in> K" "prefix p key"
    and out: "\<not> prefix (p @ pre) key" and m: "m = common_prefix pre (drop (length p) key)"
  shows "art_ok K p (split_inner plen pre n (int m) key value (length p))"
    and "j \<in> K \<Longrightarrow> prefix p j \<Longrightarrow> art_value (Some (split_inner plen pre n (int m) key value (length p))) j (length p) =
      (if j = key then Some value else art_value (Some (ARTInner plen pre n)) j (length p))"
proof -
  obtain k where n: "node_ok n" and len: "length pre = unat plen" and k: "k \<in> K" "strict_prefix (p @ pre) k"
    and sub: "\<And>b c. find_child b n = Some c \<Longrightarrow> art_ok K (p @ pre @ [b]) c"
    using t by (rule art_ok_innerE) blast
  obtain xs where xs: "key = p @ xs" using key(2) by (auto simp: prefix_def)
  have m: "m = common_prefix pre xs" using m xs by simp
  have eq: "take m pre = take m xs" unfolding m by (rule common_prefix_take)
  have mp: "m < length pre" using out common_prefix_le(1) [of pre xs] prefix_common [of pre xs] unfolding m xs by simp
  have strict: "strict_prefix (p @ take m pre) k"
    by (rule prefix_order.le_less_trans [OF _ k(2)]) (simp add: take_is_prefix)
  have "prefix (p @ take m pre) key" unfolding xs eq by (simp add: take_is_prefix)
  from longer [OF K k(1) strict key(1) this] have mx: "m < length xs" using mp by (simp add: xs)
  have differ: "pre ! m \<noteq> xs ! m" using common_prefix_differ [of pre xs] mp mx unfolding m by blast
  define rest_len where "rest_len = plen - (word_of_nat m + 1)"
  define rest where "rest = drop (m + 1) pre"
  have bound: "unat plen < 256" by (rule byte_below)
  have "unat (word_of_nat (Suc m) :: u8) = Suc m" using mp len bound by (intro small_length) simp
  then have suc: "unat (word_of_nat m + 1 :: u8) = Suc m" by (simp add: add.commute)
  then have rest_len: "unat rest_len = length rest"
    unfolding rest_len_def rest_def using mp len by (subst unat_sub) (simp_all add: word_le_nat_alt)
  have rest_if: "(if rest_len > 0 then rest else []) = rest" using rest_len by (auto simp: word_gt_0)
  let ?n = "add_child (xs ! m) (ARTLeaf key value) (add_child (pre ! m) (ARTInner rest_len rest n) (N4 ARTNode4_new))"
  have t': "split_inner plen pre n (int m) key value (length p) = ARTInner (word_of_nat m) (take m pre) ?n"
    unfolding split_inner_def Let_def nat_int rest_len_def [symmetric] rest_def [symmetric] rest_if
    using mx by (simp add: xs del: add_child.simps)
  have whole: "take m pre @ pre ! m # rest = pre" unfolding rest_def using mp by (simp add: id_take_nth_drop [symmetric])
  have "take m pre @ pre ! m # rest @ [b] = pre @ [b]" for b
    using arg_cong [OF whole, of "\<lambda>x. x @ [b]"] by simp
  then have path: "(p @ take m pre @ [pre ! m]) @ rest = p @ pre" "\<And>b. (p @ take m pre @ [pre ! m]) @ rest @ [b] = p @ pre @ [b]"
    using whole by simp_all
  have old: "art_ok K (p @ take m pre @ [pre ! m]) (ARTInner rest_len rest n)"
    by (rule art_ok.inner [OF n rest_len [symmetric] k(1)]) (use k(2) sub path in \<open>simp_all only:\<close>)
  have at: "prefix (p @ take m pre @ [xs ! m]) key"
    unfolding xs same_prefix_prefix using mx eq by (auto simp: prefix_byte take_is_prefix)
  have plen: "length (take m pre) = unat (word_of_nat m :: u8)"
    using mp len bound by (simp add: small_length)
  note part = parted [OF K k(1) strict plen differ old art_ok.leaf [OF key(1) at, of "value"] refl]
  show "art_ok K p (split_inner plen pre n (int m) key value (length p))" unfolding t' by (rule part(1))
  assume j: "j \<in> K" "prefix p j"
  have outside: "art_value (Some (ARTInner plen pre n)) j (length p) = None" if "\<not> prefix (p @ pre) j"
    unfolding value_inner [OF K t j] using that by simp
  have inside: "art_value (Some (ARTInner rest_len rest n)) j (length (p @ take m pre @ [pre ! m])) =
      art_value (Some (ARTInner plen pre n)) j (length p)" if "prefix (p @ take m pre @ [pre ! m]) j"
    unfolding value_inner [OF K t j] value_inner [OF K old j(1) that] path ..
  have "\<not> prefix (p @ take m pre @ [pre ! m]) key"
    unfolding xs same_prefix_prefix using differ mp mx by (auto simp: prefix_byte)
  moreover have "\<not> prefix (p @ pre) j" if "\<not> prefix (p @ take m pre @ [pre ! m]) j"
    using that path(1) by (metis append_prefixD)
  ultimately show "art_value (Some (split_inner plen pre n (int m) key value (length p))) j (length p) =
      (if j = key then Some value else art_value (Some (ARTInner plen pre n)) j (length p))"
    unfolding t' using part(2) [OF j] at inside outside by auto
qed

text \<open>The equations of \<open>insert\<close> and \<open>delete_node\<close> at an inner node that is reached by a prefix of the key.\<close>

lemma inner_steps:
  assumes K: "keys_fit K" and t: "art_ok K p (ARTInner plen pre n)" and key: "key \<in> K" "prefix p key"
    and b: "b = key ! length (p @ pre)" and q: "q = p @ pre @ [b]"
  shows "\<not> prefix (p @ pre) key \<Longrightarrow> ARTIndex_insert (Some (ARTInner plen pre n)) key v (length p) =
      (split_inner plen pre n (int (common_prefix pre (drop (length p) key))) key v (length p), False, None)"
    and "\<not> prefix (p @ pre) key \<Longrightarrow> ARTIndex_delete_node (Some (ARTInner plen pre n)) key (length p) =
      (Some (ARTInner plen pre n), None, False)"
    and "prefix (p @ pre) key \<Longrightarrow> prefix q key"
    and "prefix (p @ pre) key \<Longrightarrow> ARTIndex_insert (Some (ARTInner plen pre n)) key v (length p) =
      (case find_child b n of
         Some child \<Rightarrow>
           let (new_child, same, old) = ARTIndex_insert (Some child) key v (length q)
           in (ARTInner plen pre (if same then child_changed b new_child n
                else add_child b new_child (remove_child b n)), True, old)
       | None \<Rightarrow>
           (case (if is_full n then grow n else None) of
              Some grown \<Rightarrow> (ARTInner plen pre (add_child b (ARTLeaf key v) grown), False, None)
            | None \<Rightarrow> (ARTInner plen pre (add_child b (ARTLeaf key v) n), True, None)))"
    and "prefix (p @ pre) key \<Longrightarrow> ARTIndex_delete_node (Some (ARTInner plen pre n)) key (length p) =
      (case find_child b n of
         Some child \<Rightarrow>
           let (new_child, old, found) = ARTIndex_delete_node (Some child) key (length q)
           in (Some (ARTInner plen pre
                 (case new_child of None \<Rightarrow> remove_child b n | Some c \<Rightarrow> child_changed b c n)), old, found)
       | None \<Rightarrow> (Some (ARTInner plen pre n), None, False))"
proof -
  obtain k where len: "length pre = unat plen" and k: "k \<in> K" "strict_prefix (p @ pre) k"
    using t by (rule art_ok_innerE) blast
  note leave = leaves_prefix [OF key(2) len]
  show "ARTIndex_insert (Some (ARTInner plen pre n)) key v (length p) =
      (split_inner plen pre n (int (common_prefix pre (drop (length p) key))) key v (length p), False, None)"
    "ARTIndex_delete_node (Some (ARTInner plen pre n)) key (length p) = (Some (ARTInner plen pre n), None, False)"
    if "\<not> prefix (p @ pre) key"
    unfolding ARTIndex_insert.simps ARTIndex_delete_node.simps Let_def leave using that
    by (simp_all add: check_prefix_path(1) [OF key(2) len])
  assume in': "prefix (p @ pre) key"
  then have lt: "length (p @ pre) < length key" by (rule longer [OF K k key(1)])
  then show "prefix q key" unfolding q b using prefix_byte [of "p @ pre"] in' by simp
  have ge: "\<not> length key \<le> length (p @ pre)" and suc: "length (p @ pre) + 1 = length q" using lt by (simp_all add: q)
  show "ARTIndex_insert (Some (ARTInner plen pre n)) key v (length p) =
      (case find_child b n of
         Some child \<Rightarrow>
           let (new_child, same, old) = ARTIndex_insert (Some child) key v (length q)
           in (ARTInner plen pre (if same then child_changed b new_child n
                else add_child b new_child (remove_child b n)), True, old)
       | None \<Rightarrow>
           (case (if is_full n then grow n else None) of
              Some grown \<Rightarrow> (ARTInner plen pre (add_child b (ARTLeaf key v) grown), False, None)
            | None \<Rightarrow> (ARTInner plen pre (add_child b (ARTLeaf key v) n), True, None)))"
    unfolding ARTIndex_insert.simps Let_def leave depth_path [OF len] suc b [symmetric]
    by (simp only: in' ge if_False not_True_eq_False)
  show "ARTIndex_delete_node (Some (ARTInner plen pre n)) key (length p) =
      (case find_child b n of
         Some child \<Rightarrow>
           let (new_child, old, found) = ARTIndex_delete_node (Some child) key (length q)
           in (Some (ARTInner plen pre
                 (case new_child of None \<Rightarrow> remove_child b n | Some c \<Rightarrow> child_changed b c n)), old, found)
       | None \<Rightarrow> (Some (ARTInner plen pre n), None, False))"
    unfolding ARTIndex_delete_node.simps Let_def leave depth_path [OF len] suc b [symmetric]
    by (simp only: in' ge if_False not_True_eq_False)
qed

text \<open>The leaf that is put where there was no child: the node has room, or grows first.\<close>

lemma fresh_leaf:
  assumes n: "node_ok n" and none: "find_child b n = None"
    and n': "n' = (case (if is_full n then grow n else None) of Some g \<Rightarrow> add_child b c g | None \<Rightarrow> add_child b c n)"
  shows "node_ok n'" "(\<lambda>j. find_child j n') = (\<lambda>j. find_child j n)(b := Some c)"
proof -
  have "node_ok n' \<and> (\<lambda>j. find_child j n') = (\<lambda>j. find_child j n)(b := Some c)"
  proof (cases "is_full n")
    case True
    obtain g where g: "grow n = Some g" "node_ok g" "\<not> is_full g" "(\<lambda>j. find_child j g) = (\<lambda>j. find_child j n)"
      using grow_keeps [OF n True] by blast
    have "find_child b g = None" using none fun_cong [OF g(4), of b] by simp
    from an.add_law [OF g(2,3) this, of c] show ?thesis using True unfolding n' g(4) by (simp add: g(1))
  qed (use an.add_law [OF n _ none, of c] n' in auto)
  then show "node_ok n'" "(\<lambda>j. find_child j n') = (\<lambda>j. find_child j n)(b := Some c)" by blast+
qed

definition inserted ::
    "bytes set \<Rightarrow> bytes \<Rightarrow> art_tree option \<Rightarrow> bytes \<Rightarrow> log_record_pos \<Rightarrow> art_tree \<Rightarrow> log_record_pos option \<Rightarrow> bool" where
  "inserted K p t key v t' old \<longleftrightarrow>
     art_ok K p t' \<and> old = art_value t key (length p) \<and>
     (\<forall>j\<in>K. prefix p j \<longrightarrow>
        art_value (Some t') j (length p) = (if j = key then Some v else art_value t j (length p)))"

definition deleted ::
    "bytes set \<Rightarrow> bytes \<Rightarrow> art_tree \<Rightarrow> bytes \<Rightarrow> art_tree option \<Rightarrow> log_record_pos option \<Rightarrow> bool \<Rightarrow> bool" where
  "deleted K p t key t' old found \<longleftrightarrow>
     (\<forall>t''. t' = Some t'' \<longrightarrow> art_ok K p t'') \<and> old = art_value (Some t) key (length p) \<and>
     found = (old \<noteq> None) \<and>
     (\<forall>j\<in>K. prefix p j \<longrightarrow>
        art_value t' j (length p) = (if j = key then None else art_value (Some t) j (length p)))"

text \<open>One child is replaced: what happens to it happens to the node.\<close>

lemma inserted_through:
  assumes K: "keys_fit K" and t: "art_ok K p (ARTInner plen pre n)" and key: "key \<in> K" "prefix p key"
    and b: "b = key ! length (p @ pre)" and q: "q = p @ pre @ [b]" "prefix (p @ pre) key" "prefix q key"
    and n': "node_ok n'" "(\<lambda>j. find_child j n') = (\<lambda>j. find_child j n)(b := Some c)"
    and c: "inserted K q (find_child b n) key v c old"
  shows "inserted K p (Some (ARTInner plen pre n)) key v (ARTInner plen pre n') old"
proof -
  have through: "art_value (Some (ARTInner plen pre n)) j (length p) = art_value (find_child b n) j (length q)"
    if "j \<in> K" "prefix p j" "prefix q j" for j
  proof -
    have "prefix (p @ pre) j \<and> j ! length (p @ pre) = b" using that(3) prefix_byte [of "p @ pre" b j] unfolding q by simp
    then show ?thesis unfolding value_inner [OF K t that(1,2)] by (simp add: q)
  qed
  have ok: "\<forall>d. Some c = Some d \<longrightarrow> art_ok K (p @ pre @ [b]) d" using c unfolding inserted_def q by simp
  note ch = inner_changed [OF K t n' ok]
  show ?thesis unfolding inserted_def
  proof (intro conjI ballI impI)
    show "art_ok K p (ARTInner plen pre n')" by (rule ch(1))
    show "old = art_value (Some (ARTInner plen pre n)) key (length p)"
      using c through [OF key q(3)] unfolding inserted_def by simp
    show "art_value (Some (ARTInner plen pre n')) j (length p) =
        (if j = key then Some v else art_value (Some (ARTInner plen pre n)) j (length p))"
      if j: "j \<in> K" "prefix p j" for j
      using c j q(3) through [OF j] ch(2) [OF j] unfolding inserted_def q(1) [symmetric] by auto
  qed
qed

lemma insert_is:
  assumes K: "keys_fit K" and t: "art_ok K p t" and key: "key \<in> K" "prefix p key"
  shows "\<exists>t' same old. ARTIndex_insert (Some t) key v (length p) = (t', same, old) \<and> inserted K p (Some t) key v t' old"
  using t key
proof (induction rule: art_ok.induct)
  case (leaf k p w)
  show ?case
  proof (cases "k = key")
    case False
    then show ?thesis using split_leaf_is [OF K leaf.hyps leaf.prems] by (auto simp: inserted_def)
  qed (use leaf in \<open>auto simp: inserted_def intro: art_ok.leaf\<close>)
next
  case (inner n pre plen k p)
  have ok: "art_ok K p (ARTInner plen pre n)" by (rule art_ok.inner [OF inner.hyps(1-4)]) (rule inner.hyps(5))
  let ?b = "key ! length (p @ pre)"
  let ?q = "p @ pre @ [?b]"
  note steps = inner_steps [OF K ok inner.prems refl refl]
  show ?case
  proof (cases "prefix (p @ pre) key")
    case False
    note split = split_inner_is [OF K ok inner.prems False refl]
    have "art_value (Some (ARTInner plen pre n)) key (length p) = None"
      unfolding value_inner [OF K ok inner.prems] using False by simp
    then show ?thesis using split unfolding steps(1) [OF False] by (auto simp: inserted_def)
  next
    case True
    note through = inserted_through [OF K ok inner.prems refl refl True steps(3) [OF True]]
    show ?thesis
    proof (cases "find_child ?b n")
      case None
      have "inserted K ?q (find_child ?b n) key v (ARTLeaf key v) None"
        unfolding None inserted_def using steps(3) [OF True] inner.prems(1) by (auto intro: art_ok.leaf)
      note new = through [OF fresh_leaf [OF inner.hyps(1) None refl] this]
      show ?thesis using new unfolding steps(4) [OF True] None
        by (cases "if is_full n then grow n else None") (auto split: option.splits)
    next
      case (Some child)
      obtain c same old where c: "ARTIndex_insert (Some child) key v (length ?q) = (c, same, old)"
        and ins: "inserted K ?q (Some child) key v c old"
        using inner.IH [OF Some inner.prems(1) steps(3) [OF True]] by blast
      have there: "find_child ?b n \<noteq> None" using Some by simp
      let ?n = "if same then child_changed ?b c n else add_child ?b c (remove_child ?b n)"
      have "node_ok ?n \<and> (\<lambda>j. find_child j ?n) = (\<lambda>j. find_child j n)(?b := Some c)"
        using an.upd_law [OF inner.hyps(1) there] an.replace_law [OF inner.hyps(1) there] by auto
      with through ins Some have "inserted K p (Some (ARTInner plen pre n)) key v (ARTInner plen pre ?n) old" by metis
      then show ?thesis unfolding steps(4) [OF True] Some option.case c Let_def prod.case by blast
    qed
  qed
qed

lemma delete_is:
  assumes K: "keys_fit K" and t: "art_ok K p t" and key: "key \<in> K" "prefix p key"
  shows "\<exists>t' old found. ARTIndex_delete_node (Some t) key (length p) = (t', old, found) \<and> deleted K p t key t' old found"
  using t key
proof (induction rule: art_ok.induct)
  case (leaf k p w)
  then show ?case by (auto simp: deleted_def intro: art_ok.leaf)
next
  case (inner n pre plen k p)
  have ok: "art_ok K p (ARTInner plen pre n)" by (rule art_ok.inner [OF inner.hyps(1-4)]) (rule inner.hyps(5))
  let ?b = "key ! length (p @ pre)"
  let ?q = "p @ pre @ [?b]"
  note steps = inner_steps [OF K ok inner.prems refl refl]
  have same: "deleted K p (ARTInner plen pre n) key (Some (ARTInner plen pre n)) None False"
    if "art_value (Some (ARTInner plen pre n)) key (length p) = None"
    using ok that by (auto simp: deleted_def)
  show ?case
  proof (cases "prefix (p @ pre) key")
    case False
    then have "art_value (Some (ARTInner plen pre n)) key (length p) = None"
      unfolding value_inner [OF K ok inner.prems] by simp
    then show ?thesis using same unfolding steps(2) [OF False] by blast
  next
    case True
    have q: "art_value (Some (ARTInner plen pre n)) j (length p) = art_value (find_child ?b n) j (length ?q)"
      if "j \<in> K" "prefix p j" "prefix ?q j" for j
    proof -
      have "prefix (p @ pre) j \<and> j ! length (p @ pre) = ?b" using that(3) prefix_byte [of "p @ pre" ?b j] by simp
      then show ?thesis unfolding value_inner [OF K ok that(1,2)] by simp
    qed
    note qkey = steps(3) [OF True]
    show ?thesis
    proof (cases "find_child ?b n")
      case None
      then have "art_value (Some (ARTInner plen pre n)) key (length p) = None" using q [OF inner.prems qkey] by simp
      then show ?thesis using same unfolding steps(5) [OF True] None option.case by blast
    next
      case (Some child)
      obtain co old found where c: "ARTIndex_delete_node (Some child) key (length ?q) = (co, old, found)"
        and del: "deleted K ?q child key co old found"
        using inner.IH [OF Some inner.prems(1) qkey] by blast
      have there: "find_child ?b n \<noteq> None" using Some by simp
      let ?n = "case co of None \<Rightarrow> remove_child ?b n | Some c \<Rightarrow> child_changed ?b c n"
      have n: "node_ok ?n \<and> (\<lambda>j. find_child j ?n) = (\<lambda>j. find_child j n)(?b := co)"
        using an.upd_law [OF inner.hyps(1) there] an.remove_law [OF inner.hyps(1)] by (cases co) auto
      have co: "\<forall>c. co = Some c \<longrightarrow> art_ok K ?q c" using del unfolding deleted_def by blast
      note ch = inner_changed [OF K ok conjunct1 [OF n] conjunct2 [OF n] co]
      have "deleted K p (ARTInner plen pre n) key (Some (ARTInner plen pre ?n)) old found"
        using del ch qkey q inner.prems unfolding deleted_def Some by auto
      then show ?thesis unfolding steps(5) [OF True] Some option.case c Let_def prod.case by blast
    qed
  qed
qed

section \<open>The tree as a map\<close>

definition tree_ok :: "bytes set \<Rightarrow> art_tree option \<Rightarrow> bool" where
  "tree_ok K root \<longleftrightarrow> (\<forall>t. root = Some t \<longrightarrow> art_ok K [] t)"

text \<open>What a search gives to its caller.\<close>

definition found_value :: "art_tree option \<Rightarrow> log_record_pos option" where
  "found_value r = (case r of Some (ARTLeaf k v) \<Rightarrow> Some v | _ \<Rightarrow> None)"

lemma art_value_search: "art_value root key 0 = found_value (ARTIndex_search root key)"
  by (simp add: art_value_def found_value_def ARTIndex_search_def)

lemma insert_root:
  assumes K: "keys_fit K" and root: "tree_ok K root" and key: "key \<in> K"
    and ins: "ARTIndex_insert root key v 0 = (t, same, old)"
  shows "tree_ok K (Some t)" and "old = found_value (ARTIndex_search root key)"
    and "j \<in> K \<Longrightarrow> found_value (ARTIndex_search (Some t) j) =
      (if j = key then Some v else found_value (ARTIndex_search root j))"
proof -
  have "inserted K [] root key v t old"
  proof (cases root)
    case None
    then show ?thesis using ins key by (auto simp: inserted_def intro: art_ok.leaf)
  next
    case (Some t')
    then have "art_ok K [] t'" using root by (simp add: tree_ok_def)
    from insert_is [OF K this key, of v] show ?thesis using ins Some by auto
  qed
  then show "tree_ok K (Some t)" "old = found_value (ARTIndex_search root key)"
    "j \<in> K \<Longrightarrow> found_value (ARTIndex_search (Some t) j) =
      (if j = key then Some v else found_value (ARTIndex_search root j))"
    by (simp_all add: inserted_def tree_ok_def art_value_search)
qed

lemma delete_root:
  assumes K: "keys_fit K" and root: "tree_ok K root" and key: "key \<in> K"
    and del: "ARTIndex_delete_node root key 0 = (t, old, found)"
  shows "tree_ok K t" and "old = found_value (ARTIndex_search root key)" and "found = (old \<noteq> None)"
    and "j \<in> K \<Longrightarrow> found_value (ARTIndex_search t j) =
      (if j = key then None else found_value (ARTIndex_search root j))"
proof -
  have "tree_ok K t \<and> old = art_value root key 0 \<and> found = (old \<noteq> None) \<and>
      (\<forall>j\<in>K. art_value t j 0 = (if j = key then None else art_value root j 0))"
  proof (cases root)
    case None
    then show ?thesis using del by (auto simp: tree_ok_def)
  next
    case (Some t')
    then have "art_ok K [] t'" using root by (simp add: tree_ok_def)
    from delete_is [OF K this key] show ?thesis using del Some by (auto simp: deleted_def tree_ok_def)
  qed
  then show "tree_ok K t" "old = found_value (ARTIndex_search root key)" "found = (old \<noteq> None)"
    "j \<in> K \<Longrightarrow> found_value (ARTIndex_search t j) =
      (if j = key then None else found_value (ARTIndex_search root j))"
    by (simp_all add: art_value_search)
qed

text \<open>A run of insertions (\<open>Some\<close>) and deletions (\<open>None\<close>), as a caller would make them.\<close>

fun art_run :: "(bytes \<times> log_record_pos option) list \<Rightarrow> art_tree option \<Rightarrow> art_tree option" where
  "art_run [] root = root"
| "art_run ((key, Some v) # ops) root = art_run ops (Some (fst (ARTIndex_insert root key v 0)))"
| "art_run ((key, None) # ops) root = art_run ops (fst (ARTIndex_delete_node root key 0))"

lemma art_run_is:
  assumes "keys_fit K" "tree_ok K root" "fst ` set ops \<subseteq> K" "j \<in> K"
  shows "found_value (ARTIndex_search (art_run ops root) j) =
    (case map_of (rev ops) j of Some r \<Rightarrow> r | None \<Rightarrow> found_value (ARTIndex_search root j))"
  using assms
proof (induction ops root rule: art_run.induct)
  case (2 key v ops root)
  obtain t same old where ins: "ARTIndex_insert root key v 0 = (t, same, old)" by (cases "ARTIndex_insert root key v 0")
  have key: "key \<in> K" using 2 by simp
  note r = insert_root [OF 2(2,3) key ins]
  show ?case using 2 ins r by (auto simp: map_add_def split: option.split)
next
  case (3 key ops root)
  obtain t old found where del: "ARTIndex_delete_node root key 0 = (t, old, found)"
    by (cases "ARTIndex_delete_node root key 0")
  have key: "key \<in> K" using 3 by simp
  note r = delete_root [OF 3(2,3) key del]
  show ?case using 3 del r by (auto simp: map_add_def split: option.split)
qed simp

text \<open>
  C35: Over keys of which none is a prefix of another and none is longer than 256 bytes, the radix
  tree is a map: after any run of \<open>insert\<close> and \<open>delete_node\<close> that starts with the null root,
  \<open>search\<close> finds for every key what the last operation on it left.
\<close>

theorem art_tree_is_map:
  assumes "keys_fit K" "fst ` set ops \<subseteq> K" "key \<in> K"
  shows "found_value (ARTIndex_search (art_run ops None) key) =
    (case map_of (rev ops) key of Some r \<Rightarrow> r | None \<Rightarrow> None)"
proof -
  have "tree_ok K None" by (simp add: tree_ok_def)
  moreover have "found_value (ARTIndex_search None key) = None" by (simp add: ARTIndex_search_def found_value_def)
  ultimately show ?thesis using art_run_is [OF assms(1) _ assms(2,3), of None] by (simp only:)
qed

theorem art_tree_is_map_witness:
  "found_value (ARTIndex_search (art_run
      [([1, 2], Some \<lparr>pos_fid = 0, pos_offset = 7, pos_size = 1\<rparr>), ([1, 3], Some \<lparr>pos_fid = 0, pos_offset = 9, pos_size = 1\<rparr>),
       ([4, 4], Some \<lparr>pos_fid = 1, pos_offset = 0, pos_size = 1\<rparr>), ([1, 2], None)] None) [1, 3]) =
   Some \<lparr>pos_fid = 0, pos_offset = 9, pos_size = 1\<rparr>"
  by (subst art_tree_is_map [of "{[1, 2], [1, 3], [4, 4]}"]) (auto simp: keys_fit_def)

text \<open>
  Inserting a key that extends the only stored one loses the stored one: \<open>insert\<close> makes an inner
  node at the end of the shorter key and has no place there for its leaf.
\<close>

theorem art_prefix_key_lost:
  "ARTIndex_search (art_run [(k, Some v), (k @ x # xs, Some w)] None) k = None"
proof -
  have c: "common_prefix (k @ x # xs) k = length k"
    by (induction k) (cases xs; simp)+
  have t: "art_run [(k, Some v), (k @ x # xs, Some w)] None =
      Some (ARTInner (word_of_nat (length k)) k (add_child x (ARTLeaf (k @ x # xs) w) (N4 ARTNode4_new)))"
    by (simp add: split_leaf_def c Let_def nth_append del: add_child.simps)
  show ?thesis unfolding t ARTIndex_search_def search_from.simps Let_def one_child(3) by simp
qed

text \<open>
  Two keys that share 256 bytes are both lost when the first byte is none of those that follow
  them: the length of the common prefix is cut to zero in \<open>prefix_len\<close>, and \<open>search\<close> looks for the
  child under the first byte.
\<close>

theorem art_long_prefix_lost:
  assumes "length p = 256" "a \<noteq> b" "p ! 0 \<noteq> a" "p ! 0 \<noteq> b"
  shows "ARTIndex_search (art_run [(p @ [a], Some v), (p @ [b], Some w)] None) (p @ [a]) = None \<and>
    ARTIndex_search (art_run [(p @ [a], Some v), (p @ [b], Some w)] None) (p @ [b]) = None"
proof -
  have c: "common_prefix (p @ [b]) (p @ [a]) = length p" using assms(2) by (induction p) simp_all
  have t: "art_run [(p @ [a], Some v), (p @ [b], Some w)] None =
      Some (ARTInner 0 p (add_child a (ARTLeaf (p @ [a]) v) (add_child b (ARTLeaf (p @ [b]) w) (N4 ARTNode4_new))))"
    using assms(1,2) by (simp add: split_leaf_def c Let_def nth_append del: add_child.simps)
  have ba: "b \<noteq> a" using assms(2) by simp
  have "(p @ [c]) ! 0 \<noteq> a" "(p @ [c]) ! 0 \<noteq> b" for c using assms by (simp_all add: nth_append)
  then show ?thesis
    unfolding t ARTIndex_search_def search_from.simps Let_def by (simp add: two_children(2) [OF ba] del: add_child.simps find_child.simps)
qed

theorem art_long_prefix_lost_witness:
  "\<forall>v w. ARTIndex_search (art_run [(replicate 256 0 @ [1], Some v), (replicate 256 0 @ [2], Some w)] None)
       (replicate 256 0 @ [1]) = None"
proof (intro allI)
  fix v w
  show "ARTIndex_search (art_run [(replicate 256 0 @ [1], Some v), (replicate 256 0 @ [2], Some w)] None)
       (replicate 256 0 @ [1]) = None"
    by (rule conjunct1 [OF art_long_prefix_lost]) (simp_all add: nth_replicate)
qed

end
