(* ===== verification/Db.thy ===== *)
theory Db
  imports Data_File Indexer Complex_Main
begin

text \<open>
  The storage engine (\<open>include/bitcask/db.h\<close>, \<open>include/bitcask/options.h\<close>, \<open>src/db.cpp\<close>): its state,
  the append path with file rotation, lookup, insertion and removal, iteration. The reader-writer
  lock is not modelled: every public operation is one step. A call returns its result, the state of
  the object and the file system. \<open>std::unordered_map\<close> is an association list.
\<close>

section \<open>State\<close>

record options =
  opt_dir_path :: string
  opt_data_file_size :: u64
  opt_sync_writes :: bool
  opt_bytes_per_sync :: u32
  opt_index_type :: index_type
  opt_mmap_at_startup :: bool
  opt_data_file_merge_ratio :: rat

text \<open>\<open>file_lock_fd_\<close>: -1, open with the lock held, or the number of a descriptor closed again after
  the lock was refused.\<close>

datatype lock_fd = NoLockFd | LockHeld string | StaleLockFd

record db =
  db_options :: options
  db_file_ids :: "u32 list"
  db_active_file :: "data_file option"
  db_older_files :: "(u32 \<times> data_file) list"
  db_index :: index
  db_seq_no :: u64
  db_is_merging :: bool
  db_seq_no_file_exists :: bool
  db_is_initial :: bool
  db_file_lock_fd :: lock_fd
  db_bytes_write :: u64
  db_reclaim_size :: int

text \<open>The default configuration.\<close>

definition default_options :: options where
  "default_options =
     \<lparr>opt_dir_path = ''/tmp/bitcask-cpp'', opt_data_file_size = 268435456, opt_sync_writes = False,
      opt_bytes_per_sync = 0, opt_index_type = BTREE, opt_mmap_at_startup = True,
      opt_data_file_merge_ratio = 1 / 2\<rparr>"

section \<open>Keys in the log\<close>

definition parse_log_record_key :: "bytes \<Rightarrow> bytes \<times> u64" where
  "parse_log_record_key key =
     (if length key < 8 then (key, NON_TRANSACTION_SEQ_NO)
      else
        (let seq_no = le_decode (drop (length key - 8) key) in
         if seq_no = NON_TRANSACTION_SEQ_NO then (key, NON_TRANSACTION_SEQ_NO)
         else (take (length key - 8) key, seq_no)))"

definition log_record_key_with_seq :: "bytes \<Rightarrow> u64 \<Rightarrow> bytes" where
  "log_record_key_with_seq key seq_no =
     (if seq_no = NON_TRANSACTION_SEQ_NO then key else key @ le_encode 8 seq_no)"

section \<open>The append path\<close>

definition set_active_data_file :: "db \<Rightarrow> fsys \<Rightarrow> unit res \<times> db \<times> fsys" where
  "set_active_data_file db fs =
     (let initial_file_id = (case db_active_file db of
            None \<Rightarrow> INITIAL_FILE_ID | Some df \<Rightarrow> df_file_id df + 1)
      in case open_data_file (opt_dir_path (db_options db)) initial_file_id STANDARD_FIO fs of
           (Inl e, fs) \<Rightarrow> (Inl e, db, fs)
         | (Inr df, fs) \<Rightarrow> (Inr (), db\<lparr>db_active_file := Some df\<rparr>, fs))"

text \<open>\<open>if (std::find(...) == end) { push_back(fid); std::sort(...); }\<close>\<close>

definition add_file_id :: "u32 \<Rightarrow> u32 list \<Rightarrow> u32 list" where
  "add_file_id fid fids = (if fid \<in> set fids then fids else sort (fids @ [fid]))"

text \<open>
  The rotation: the active file is moved into \<open>older_files_\<close>, which leaves \<open>active_file_\<close> null when
  \<open>set_active_data_file\<close> is called.
\<close>

definition rotate_active_file :: "data_file \<Rightarrow> db \<Rightarrow> fsys \<Rightarrow> unit res \<times> db \<times> fsys" where
  "rotate_active_file df db fs =
     set_active_data_file
       (db\<lparr>db_older_files := AList.update (df_file_id df) df (db_older_files db),
           db_active_file := None,
           db_file_ids := add_file_id (df_file_id df) (db_file_ids db)\<rparr>) fs"

definition write_active :: "bytes \<Rightarrow> nat \<Rightarrow> db \<Rightarrow> fsys \<Rightarrow> log_record_pos res \<times> db \<times> fsys" where
  "write_active encoded_data sz db fs =
     (case db_active_file db of
        None \<Rightarrow> (Inl UndefinedBehaviour, db, fs)
      | Some df \<Rightarrow>
          (let write_off = get_write_off df in
           case DataFile_write df encoded_data fs of
             (Inl e, df, fs) \<Rightarrow> (Inl e, db\<lparr>db_active_file := Some df\<rparr>, fs)
           | (Inr _, df, fs) \<Rightarrow>
               (let bytes_write = db_bytes_write db + of_nat sz;
                    need_sync = opt_sync_writes (db_options db)
                      \<or> (0 < opt_bytes_per_sync (db_options db)
                         \<and> bytes_write \<ge> ucast (opt_bytes_per_sync (db_options db)));
                    bytes_write = (if need_sync then 0 else bytes_write)
                in (Inr \<lparr>pos_fid = df_file_id df, pos_offset = write_off, pos_size = of_nat sz\<rparr>,
                    db\<lparr>db_active_file := Some df, db_bytes_write := bytes_write\<rparr>, fs))))"

definition append_log_record_internal ::
    "log_record \<Rightarrow> db \<Rightarrow> fsys \<Rightarrow> log_record_pos res \<times> db \<times> fsys" where
  "append_log_record_internal record db fs =
     bind_res (if db_active_file db = None then set_active_data_file db fs else (Inr (), db, fs))
       (\<lambda>_ (db, fs).
          (let (encoded_data, sz) = LogRecord_encode record in
           bind_res
             (case db_active_file db of
                None \<Rightarrow> (Inl UndefinedBehaviour, db, fs)
              | Some df \<Rightarrow>
                  if get_write_off df + of_nat sz > opt_data_file_size (db_options db)
                  then rotate_active_file df db fs else (Inr (), db, fs))
             (\<lambda>_ (db, fs). write_active encoded_data sz db fs)))"

definition append_log_record :: "log_record \<Rightarrow> db \<Rightarrow> fsys \<Rightarrow> log_record_pos res \<times> db \<times> fsys" where
  "append_log_record record db fs = append_log_record_internal record db fs"

section \<open>Reading a position\<close>

definition find_data_file :: "u32 \<Rightarrow> db \<Rightarrow> data_file option" where
  "find_data_file fid db =
     (case db_active_file db of
        Some df \<Rightarrow> if df_file_id df = fid then Some df else map_of (db_older_files db) fid
      | None \<Rightarrow> map_of (db_older_files db) fid)"

definition get_value_by_position :: "log_record_pos \<Rightarrow> db \<Rightarrow> fsys \<Rightarrow> bytes res" where
  "get_value_by_position pos db fs =
     (case find_data_file (pos_fid pos) db of
        None \<Rightarrow> Inl DataFileNotFoundError
      | Some df \<Rightarrow>
          (case read_log_record df (pos_offset pos) fs of
             Inl e \<Rightarrow> Inl e
           | Inr read_record \<Rightarrow>
               if lr_type (rr_record read_record) = DELETED then Inl KeyNotFoundError
               else Inr (lr_value (rr_record read_record))))"

section \<open>The operations on keys\<close>

definition reclaim :: "log_record_pos option \<Rightarrow> db \<Rightarrow> db" where
  "reclaim old_pos db =
     (case old_pos of None \<Rightarrow> db
      | Some p \<Rightarrow> db\<lparr>db_reclaim_size := db_reclaim_size db + int (unat (pos_size p))\<rparr>)"

definition DB_put :: "bytes \<Rightarrow> bytes \<Rightarrow> db \<Rightarrow> fsys \<Rightarrow> unit res \<times> db \<times> fsys" where
  "DB_put key value db fs =
     (if key = [] then (Inl KeyEmptyError, db, fs)
      else
        (let log_record = \<lparr>lr_key = log_record_key_with_seq key NON_TRANSACTION_SEQ_NO,
                           lr_value = value, lr_type = NORMAL\<rparr>
         in bind_res (append_log_record_internal log_record db fs)
              (\<lambda>pos (db, fs).
                 case idx_put key pos (db_index db) of
                   (old_pos, i) \<Rightarrow> (Inr (), reclaim old_pos (db\<lparr>db_index := i\<rparr>), fs))))"

definition DB_get :: "bytes \<Rightarrow> db \<Rightarrow> fsys \<Rightarrow> bytes res" where
  "DB_get key db fs =
     (if key = [] then Inl KeyEmptyError
      else case idx_get key (db_index db) of
        None \<Rightarrow> Inl KeyNotFoundError
      | Some pos \<Rightarrow> get_value_by_position pos db fs)"

definition DB_remove :: "bytes \<Rightarrow> db \<Rightarrow> fsys \<Rightarrow> unit res \<times> db \<times> fsys" where
  "DB_remove key db fs =
     (if key = [] then (Inl KeyEmptyError, db, fs)
      else case idx_get key (db_index db) of
        None \<Rightarrow> (Inr (), db, fs)
      | Some _ \<Rightarrow>
          (let log_record = \<lparr>lr_key = log_record_key_with_seq key NON_TRANSACTION_SEQ_NO,
                             lr_value = [], lr_type = DELETED\<rparr>
           in bind_res (append_log_record_internal log_record db fs)
                (\<lambda>del_pos (db, fs).
                   let db = reclaim (Some del_pos) db in
                   case idx_remove key (db_index db) of
                     ((old_pos, ok), i) \<Rightarrow>
                       let db = db\<lparr>db_index := i\<rparr> in
                       if \<not> ok then (Inl IndexUpdateFailedError, db, fs)
                       else (Inr (), reclaim old_pos db, fs))))"

definition DB_list_keys :: "db \<Rightarrow> bytes list" where
  "DB_list_keys db = idx_list_keys (db_index db)"

text \<open>
  \<open>fold\<close>: the callback gets key and value and tells whether to go on; what it accumulates is the
  state \<open>'a\<close>. The number of entries bounds the loop.
\<close>

fun fold_loop ::
    "nat \<Rightarrow> (bytes \<Rightarrow> bytes \<Rightarrow> 'a \<Rightarrow> bool \<times> 'a) \<Rightarrow> index_iter \<Rightarrow> 'a \<Rightarrow> db \<Rightarrow> fsys \<Rightarrow> unit res \<times> 'a" where
  "fold_loop 0 f it a db fs = (Inr (), a)"
| "fold_loop (Suc n) f it a db fs =
     (if \<not> it_valid (db_index db) it then (Inr (), a)
      else case it_value (db_index db) it of
        Inl e \<Rightarrow> (Inl e, a)
      | Inr pos \<Rightarrow>
          (case get_value_by_position pos db fs of
             Inl e \<Rightarrow> (Inl e, a)
           | Inr value \<Rightarrow>
               (case it_key (db_index db) it of
                  Inl e \<Rightarrow> (Inl e, a)
                | Inr key \<Rightarrow>
                    (case f key value a of
                       (continue, a) \<Rightarrow>
                         if \<not> continue then (Inr (), a)
                         else fold_loop n f (it_next (db_index db) it) a db fs))))"

definition DB_fold ::
    "(bytes \<Rightarrow> bytes \<Rightarrow> 'a \<Rightarrow> bool \<times> 'a) \<Rightarrow> 'a \<Rightarrow> db \<Rightarrow> fsys \<Rightarrow> unit res \<times> 'a" where
  "DB_fold f a db fs =
     (let i = db_index db
      in fold_loop (Suc (idx_size i)) f (it_rewind i (idx_iterator False i)) a db fs)"

definition DB_sync :: "db \<Rightarrow> unit res" where
  "DB_sync db = (case db_active_file db of None \<Rightarrow> Inr () | Some df \<Rightarrow> DataFile_sync df)"

definition check_options :: "options \<Rightarrow> unit res" where
  "check_options opts =
     (if opt_dir_path opts = [] then Inl (BitcaskException ''Database directory path is empty'')
      else if opt_data_file_size opts \<le> 0
      then Inl (BitcaskException ''Database data file size must be greater than 0'')
      else if opt_data_file_merge_ratio opts < 0 \<or> opt_data_file_merge_ratio opts > 1
      then Inl (BitcaskException ''Invalid merge ratio, must be between 0 and 1'')
      else Inr ())"

section \<open>What the engine promises: a map from keys to values\<close>

text \<open>The abstraction: the value that \<open>get\<close> returns for a key, if it returns one.\<close>

definition db_kv :: "db \<Rightarrow> fsys \<Rightarrow> bytes \<Rightarrow> bytes option" where
  "db_kv db fs key = (case DB_get key db fs of Inr v \<Rightarrow> Some v | Inl _ \<Rightarrow> None)"

abbreviation data_name :: "db \<Rightarrow> u32 \<Rightarrow> string" where
  "data_name db fid \<equiv> get_data_file_name (opt_dir_path (db_options db)) fid"

text \<open>
  The open files are those their numbers name, and the active file is open for appending.
\<close>

definition files_ok :: "db \<Rightarrow> fsys \<Rightarrow> bool" where
  "files_ok db fs \<longleftrightarrow>
     (\<forall>df. db_active_file db = Some df \<longrightarrow>
        (\<exists>c. df_ok df fs c) \<and> io_path (df_io df) = data_name db (df_file_id df))
     \<and> (\<forall>fid df. map_of (db_older_files db) fid = Some df \<longrightarrow>
          df_file_id df = fid \<and> io_path (df_io df) = data_name db fid)"

text \<open>The part of a file that holds records: all of an old file, up to the write offset of the active one.\<close>

definition file_limit :: "db \<Rightarrow> u32 \<Rightarrow> bytes \<Rightarrow> nat" where
  "file_limit db fid c =
     (case db_active_file db of
        Some df \<Rightarrow> if df_file_id df = fid then unat (df_write_off df) else length c
      | None \<Rightarrow> length c)"

text \<open>Record \<open>r\<close> is what lies at position \<open>pos\<close>.\<close>

definition points_to :: "db \<Rightarrow> fsys \<Rightarrow> log_record_pos \<Rightarrow> log_record \<Rightarrow> bool" where
  "points_to db fs pos r \<longleftrightarrow>
     (\<exists>df c. find_data_file (pos_fid pos) db = Some df \<and> io_ok (df_io df) fs c \<and> length c < 2 ^ 63
        \<and> stored_at c (file_limit db (pos_fid pos) c) (unat (pos_offset pos)) r \<and> readable r)"

text \<open>
  The invariant of the engine: every key of the index is not empty and its position holds a record
  that is no deletion.
\<close>

definition db_inv :: "db \<Rightarrow> fsys \<Rightarrow> bool" where
  "db_inv db fs \<longleftrightarrow>
     files_ok db fs \<and> idx_ok (db_index db)
     \<and> (\<forall>k pos. idx_abs (db_index db) k = Some pos \<longrightarrow>
          k \<noteq> [] \<and> (\<exists>r. points_to db fs pos r \<and> lr_type r \<noteq> DELETED))"

text \<open>There is room for a record in the active file: no rotation is needed.\<close>

definition fits :: "db \<Rightarrow> fsys \<Rightarrow> log_record \<Rightarrow> bool" where
  "fits db fs r \<longleftrightarrow>
     (\<exists>df c. db_active_file db = Some df \<and> df_ok df fs c
        \<and> unat (df_write_off df) + length (enc r) \<le> unat (opt_data_file_size (db_options db))
        \<and> length c + length (enc r) + fs_page_size fs < 2 ^ 63)"

lemma points_to_value:
  "points_to db fs pos r \<Longrightarrow> get_value_by_position pos db fs
     = (if lr_type r = DELETED then Inl KeyNotFoundError else Inr (lr_value r))"
  by (auto simp: points_to_def get_value_by_position_def stored_at_read)

lemma io_ok_frame:
  "io_ok io fs c \<Longrightarrow> fs_get fs' (io_path io) = fs_get fs (io_path io) \<Longrightarrow>
   fs_page_size fs' = fs_page_size fs \<Longrightarrow> io_ok io fs' c"
  by (simp add: io_ok_def)

lemma io_ok_unique: "io_ok io fs c \<Longrightarrow> io_ok io fs c' \<Longrightarrow> c = c'"
  by (simp add: io_ok_def)

lemma word_of_nat_le_iff:
  assumes "unat (x :: u64) + n < 2 ^ 64"
  shows "x + of_nat n > y \<longleftrightarrow> unat x + n > unat y"
  by (simp only: word_less_nat_alt unat_add_of_nat [OF assms])

text \<open>Appending a record that fits.\<close>

lemma append_fits:
  assumes files: "files_ok db fs" and fits: "fits db fs r" and r: "readable r"
  obtains pos db' fs' where
    "append_log_record_internal r db fs = (Inr pos, db', fs')"
    "db_index db' = db_index db" "db_options db' = db_options db" "db_older_files db' = db_older_files db"
    "db_file_ids db' = db_file_ids db" "db_reclaim_size db' = db_reclaim_size db"
    "db_seq_no db' = db_seq_no db" "db_active_file db' \<noteq> None"
    "files_ok db' fs'" "fs_page_size fs' = fs_page_size fs"
    "points_to db' fs' pos r" "pos_size pos = of_nat (length (enc r))"
    "\<And>p r'. points_to db fs p r' \<Longrightarrow> points_to db' fs' p r'"
proof -
  obtain df c where act: "db_active_file db = Some df" and df: "df_ok df fs c"
    and small: "unat (df_write_off df) + length (enc r) \<le> unat (opt_data_file_size (db_options db))"
    and room: "length c + length (enc r) + fs_page_size fs < 2 ^ 63"
    using fits by (auto simp: fits_def)
  have path: "io_path (df_io df) = data_name db (df_file_id df)"
    using files act by (simp add: files_ok_def)
  have off: "unat (df_write_off df) \<le> length c" using df by (simp add: df_ok_def)
  obtain df' fs' c' where w: "DataFile_write df (enc r) fs = (Inr (length (enc r)), df', fs')"
    and df': "df_ok df' fs' c'" "df_file_id df' = df_file_id df" "io_path (df_io df') = io_path (df_io df)"
    and wo: "unat (df_write_off df') = unat (df_write_off df) + length (enc r)"
    and t: "take (unat (df_write_off df')) c' = take (unat (df_write_off df)) c @ enc r"
    and ps: "fs_page_size fs' = fs_page_size fs"
    and q: "\<forall>q. q \<noteq> io_path (df_io df) \<longrightarrow> fs_get fs' q = fs_get fs q"
    using DataFile_write_ok [OF df enc_not_Nil room] by blast
  have norot: "\<not> get_write_off df + of_nat (length (enc r)) > opt_data_file_size (db_options db)"
    using small off room unfolding get_write_off_def
    by (subst word_of_nat_le_iff) simp_all
  obtain bw where app: "append_log_record_internal r db fs =
      (Inr \<lparr>pos_fid = df_file_id df', pos_offset = df_write_off df, pos_size = of_nat (length (enc r))\<rparr>,
       db\<lparr>db_active_file := Some df', db_bytes_write := bw\<rparr>, fs')"
    using norot by (simp add: append_log_record_internal_def act split_beta write_active_def w Let_def
        get_write_off_def)
  let ?db = "db\<lparr>db_active_file := Some df', db_bytes_write := bw\<rparr>"
  let ?pos = "\<lparr>pos_fid = df_file_id df', pos_offset = df_write_off df, pos_size = of_nat (length (enc r))\<rparr>"
  have files': "files_ok ?db fs'"
    using files df' path by (auto simp: files_ok_def)
  have c': "io_ok (df_io df') fs' c'" "length c' < 2 ^ 63" using df' by (simp_all add: df_ok_def)
  have "take (length (enc r)) (drop (unat (df_write_off df)) c')
      = drop (unat (df_write_off df)) (take (unat (df_write_off df')) c')"
    unfolding wo by (simp add: take_drop add.commute)
  also have "\<dots> = enc r" unfolding t using off by simp
  finally have st: "stored_at c' (unat (df_write_off df')) (unat (df_write_off df)) r"
    by (simp add: stored_at_def wo)
  have new: "points_to ?db fs' ?pos r"
    using c' st r by (auto simp: points_to_def find_data_file_def file_limit_def)
  have pre: "take (unat (df_write_off df)) c' = take (unat (df_write_off df)) c"
  proof -
    have "take (unat (df_write_off df)) c' = take (unat (df_write_off df)) (take (unat (df_write_off df')) c')"
      unfolding wo by (simp add: min_def)
    also have "\<dots> = take (unat (df_write_off df)) c" unfolding t using off by simp
    finally show ?thesis .
  qed
  have old: "points_to ?db fs' p r'" if pt: "points_to db fs p r'" for p r'
  proof (cases "pos_fid p = df_file_id df")
    case True
    then obtain c0 where c0: "io_ok (df_io df) fs c0" "stored_at c0 (unat (df_write_off df)) (unat (pos_offset p)) r'"
      "readable r'"
      using pt act by (auto simp: points_to_def find_data_file_def file_limit_def)
    then have "c0 = c" using df io_ok_unique by (auto simp: df_ok_def)
    then have "stored_at c (unat (df_write_off df)) (unat (pos_offset p)) r'" using c0(2) by simp
    from stored_at_prefix [OF this pre order_refl] have "stored_at c' (unat (df_write_off df')) (unat (pos_offset p)) r'"
      by (rule stored_at_mono) (simp add: wo)
    then show ?thesis
      using c' c0(3) True df'(2) by (auto simp: points_to_def find_data_file_def file_limit_def)
  next
    case False
    then obtain d c0 where d: "map_of (db_older_files db) (pos_fid p) = Some d" "io_ok (df_io d) fs c0"
      "length c0 < 2 ^ 63" "stored_at c0 (length c0) (unat (pos_offset p)) r'" "readable r'"
      using pt act by (auto simp: points_to_def find_data_file_def file_limit_def)
    then have "io_path (df_io d) = data_name db (pos_fid p)" using files by (simp add: files_ok_def)
    then have "io_path (df_io d) \<noteq> io_path (df_io df)" using path False by simp
    then have "fs_get fs' (io_path (df_io d)) = fs_get fs (io_path (df_io d))" using q by blast
    from io_ok_frame [OF d(2) this ps] have "io_ok (df_io d) fs' c0" .
    then show ?thesis
      using d False df'(2) by (auto simp: points_to_def find_data_file_def file_limit_def)
  qed
  show ?thesis
    by (rule that [OF app]) (use files' ps new old in simp_all)
qed

section \<open>\<open>get\<close>, \<open>put\<close>, \<open>remove\<close>\<close>

lemma db_inv_get:
  assumes "db_inv db fs"
  shows "DB_get key db fs =
    (if key = [] then Inl KeyEmptyError
     else case db_kv db fs key of None \<Rightarrow> Inl KeyNotFoundError | Some v \<Rightarrow> Inr v)"
    and "db_kv db fs key = None \<longleftrightarrow> idx_abs (db_index db) key = None"
proof -
  have ix: "idx_get k (db_index db) = idx_abs (db_index db) k" for k
    using assms ix.get_abs by (simp add: db_inv_def)
  have get: "DB_get key db fs = Inl KeyNotFoundError" if "idx_abs (db_index db) key = None" "key \<noteq> []"
    using that by (simp add: DB_get_def ix)
  have "\<exists>v. key \<noteq> [] \<and> DB_get key db fs = Inr v" if pos: "idx_abs (db_index db) key = Some pos" for pos
  proof -
    obtain r where "key \<noteq> []" "points_to db fs pos r" "lr_type r \<noteq> DELETED"
      using assms pos by (auto simp: db_inv_def)
    then show ?thesis using pos by (simp add: DB_get_def ix points_to_value)
  qed
  then show "DB_get key db fs =
      (if key = [] then Inl KeyEmptyError
       else case db_kv db fs key of None \<Rightarrow> Inl KeyNotFoundError | Some v \<Rightarrow> Inr v)"
    and "db_kv db fs key = None \<longleftrightarrow> idx_abs (db_index db) key = None"
    using get by (cases "idx_abs (db_index db) key"; cases "key = []"; force simp: db_kv_def DB_get_def)+
qed

lemma db_kv_points:
  assumes "idx_ok (db_index db)" "key \<noteq> []" "idx_abs (db_index db) key = Some pos"
    and "points_to db fs pos r" "lr_type r \<noteq> DELETED"
  shows "db_kv db fs key = Some (lr_value r)"
  using assms ix.get_abs [OF assms(1)] by (simp add: db_kv_def DB_get_def points_to_value)

lemma db_kv_none:
  assumes "idx_ok (db_index db)" "idx_abs (db_index db) key = None"
  shows "db_kv db fs key = None"
  using assms ix.get_abs [OF assms(1)] by (simp add: db_kv_def DB_get_def)

text \<open>Everything that depends on the files and the index only is blind to the counters.\<close>

lemma counters_frame:
  assumes "db_active_file db' = db_active_file db" "db_older_files db' = db_older_files db"
    "db_options db' = db_options db"
  shows "points_to db' fs pos r = points_to db fs pos r" "files_ok db' fs = files_ok db fs"
  by (simp_all only: points_to_def find_data_file_def file_limit_def files_ok_def assms)

lemma reclaim_simps [simp]:
  "db_active_file (reclaim p db) = db_active_file db" "db_older_files (reclaim p db) = db_older_files db"
  "db_options (reclaim p db) = db_options db" "db_index (reclaim p db) = db_index db"
  "db_seq_no (reclaim p db) = db_seq_no db" "db_file_ids (reclaim p db) = db_file_ids db"
  by (simp_all add: reclaim_def split: option.split)

text \<open>
  How the abstraction moves when the index is updated at a key, the other positions still holding
  what they held.
\<close>

lemma index_step:
  assumes inv: "db_inv db fs" and files: "files_ok db' fs'" "idx_ok (db_index db')"
    and abs: "idx_abs (db_index db') = (idx_abs (db_index db))(key := new)"
    and keep: "\<And>p r. points_to db fs p r \<Longrightarrow> points_to db' fs' p r"
    and new: "new = None \<and> v = None \<or>
      (\<exists>pos r. new = Some pos \<and> v = Some (lr_value r) \<and> key \<noteq> [] \<and> points_to db' fs' pos r \<and> lr_type r \<noteq> DELETED)"
  shows "db_inv db' fs'" and "db_kv db' fs' = (db_kv db fs)(key := v)"
proof -
  have old: "\<exists>r. points_to db fs p r \<and> lr_type r \<noteq> DELETED \<and> k \<noteq> []"
    if "idx_abs (db_index db) k = Some p" for k p
    using inv that by (auto simp: db_inv_def)
  have "k \<noteq> [] \<and> (\<exists>r. points_to db' fs' p r \<and> lr_type r \<noteq> DELETED)"
    if "idx_abs (db_index db') k = Some p" for k p
    using that new old [of k p] keep unfolding abs by (cases "k = key") auto
  then show inv': "db_inv db' fs'" using files by (auto simp: db_inv_def)
  show "db_kv db' fs' = (db_kv db fs)(key := v)"
  proof
    fix k
    have ok: "idx_ok (db_index db)" using inv by (simp add: db_inv_def)
    show "db_kv db' fs' k = ((db_kv db fs)(key := v)) k"
    proof (cases "k = key")
      case True
      then show ?thesis using new db_kv_none [OF files(2)] db_kv_points [OF files(2)] by (auto simp: abs)
    next
      case False
      then have same: "idx_abs (db_index db') k = idx_abs (db_index db) k" by (simp add: abs)
      show ?thesis
      proof (cases "idx_abs (db_index db) k")
        case None
        with same False show ?thesis using db_kv_none [OF files(2)] db_kv_none [OF ok] by simp
      next
        case (Some p)
        then obtain r where r: "points_to db fs p r" "lr_type r \<noteq> DELETED" "k \<noteq> []" using old by blast
        with Some same False keep [OF r(1)] show ?thesis
          using db_kv_points [OF files(2) r(3)] db_kv_points [OF ok r(3)] by simp
      qed
    qed
  qed
qed

definition put_record :: "bytes \<Rightarrow> bytes \<Rightarrow> log_record" where
  "put_record key value = \<lparr>lr_key = key, lr_value = value, lr_type = NORMAL\<rparr>"

definition delete_record :: "bytes \<Rightarrow> log_record" where
  "delete_record key = \<lparr>lr_key = key, lr_value = [], lr_type = DELETED\<rparr>"

lemma key_no_seq [simp]: "log_record_key_with_seq key NON_TRANSACTION_SEQ_NO = key"
  by (simp add: log_record_key_with_seq_def)

lemma put_record_readable:
  "key \<noteq> [] \<Longrightarrow> length key \<le> MAX_RECORD_SIZE \<Longrightarrow> length value \<le> MAX_RECORD_SIZE \<Longrightarrow>
   readable (put_record key value)"
  by (simp add: readable_def put_record_def)

lemma delete_record_readable:
  "key \<noteq> [] \<Longrightarrow> length key \<le> MAX_RECORD_SIZE \<Longrightarrow> readable (delete_record key)"
  by (simp add: readable_def delete_record_def)

lemma DB_put_ok:
  assumes inv: "db_inv db fs" and key: "key \<noteq> []" "length key \<le> MAX_RECORD_SIZE"
    and val: "length value \<le> MAX_RECORD_SIZE" and fits: "fits db fs (put_record key value)"
  shows "\<exists>db' fs'. DB_put key value db fs = (Inr (), db', fs') \<and> db_inv db' fs'
    \<and> db_kv db' fs' = (db_kv db fs)(key \<mapsto> value)"
proof -
  have files: "files_ok db fs" and ok: "idx_ok (db_index db)" using inv by (simp_all add: db_inv_def)
  obtain pos db1 fs' where app: "append_log_record_internal (put_record key value) db fs = (Inr pos, db1, fs')"
    and same: "db_index db1 = db_index db" "db_options db1 = db_options db"
    and files1: "files_ok db1 fs'" and new: "points_to db1 fs' pos (put_record key value)"
    and keep: "\<And>p r'. points_to db fs p r' \<Longrightarrow> points_to db1 fs' p r'"
    using append_fits [OF files fits put_record_readable [OF key val]] by metis
  obtain old i where put: "idx_put key pos (db_index db) = (old, i)" by (cases "idx_put key pos (db_index db)")
  define db' where "db' = reclaim old (db1\<lparr>db_index := i\<rparr>)"
  have i: "idx_ok i" "idx_abs i = (idx_abs (db_index db))(key \<mapsto> pos)"
    using ix.put_inv [OF ok, of key pos] ix.put_abs [OF ok, of key pos] put by simp_all
  have run: "DB_put key value db fs = (Inr (), db', fs')"
    using key app put same by (simp add: DB_put_def put_record_def db'_def)
  have "db_active_file db' = db_active_file db1" "db_older_files db' = db_older_files db1"
    "db_options db' = db_options db1" "db_index db' = i"
    by (simp_all add: db'_def)
  note fr = counters_frame [OF this(1-3)] and ix' = this(4)
  have "points_to db' fs' pos (put_record key value) \<and> lr_type (put_record key value) \<noteq> DELETED
      \<and> Some value = Some (lr_value (put_record key value))"
    using new fr by (simp add: put_record_def)
  then have ex: "Some pos = None \<and> Some value = None \<or> (\<exists>p r. Some pos = Some p \<and> Some value = Some (lr_value r)
      \<and> key \<noteq> [] \<and> points_to db' fs' p r \<and> lr_type r \<noteq> DELETED)"
    using key(1) by blast
  have "files_ok db' fs'" "idx_ok (db_index db')" "idx_abs (db_index db') = (idx_abs (db_index db))(key := Some pos)"
    "\<And>p r. points_to db fs p r \<Longrightarrow> points_to db' fs' p r"
    using files1 fr i keep by (simp_all add: ix')
  from index_step [OF inv this ex] run show ?thesis by blast
qed

text \<open>
  C1: \<open>put\<close> is insertion into the abstract map: in a state that satisfies the invariant, when the
  record fits in the active file, inserting a key (not empty) and a value of at most 64 MB returns,
  keeps the invariant, and afterwards \<open>get\<close> finds the value under the key and, under every other
  key, what it found before.
\<close>

theorem DB_put_refines:
  assumes "db_inv db fs" and "key \<noteq> []" and "length key \<le> MAX_RECORD_SIZE"
    and "length value \<le> MAX_RECORD_SIZE" and "fits db fs (put_record key value)"
  shows "\<exists>db' fs'. DB_put key value db fs = (Inr (), db', fs') \<and> db_inv db' fs'
    \<and> (\<forall>k. DB_get k db' fs' = (if k = key then Inr value else DB_get k db fs))"
proof -
  obtain db' fs' where run: "DB_put key value db fs = (Inr (), db', fs')" "db_inv db' fs'"
    "db_kv db' fs' = (db_kv db fs)(key \<mapsto> value)"
    using DB_put_ok [OF assms] by blast
  then have "DB_get k db' fs' = (if k = key then Inr value else DB_get k db fs)" for k
    using assms(1,2) by (simp add: db_inv_get)
  with run show ?thesis by blast
qed

text \<open>A state in which the premises hold: a new database with an empty first file.\<close>

abbreviation wit_dbfs :: fsys where
  "wit_dbfs \<equiv> \<lparr>fs_files = [(''d/000000000.data'', [])], fs_dirs = [''d''], fs_locks = [],
               fs_page_size = 4096\<rparr>"

abbreviation wit_df :: data_file where
  "wit_df \<equiv> \<lparr>df_file_id = 0, df_write_off = 0, df_io = wit_io ''d/000000000.data''\<rparr>"

abbreviation wit_options :: options where
  "wit_options \<equiv> \<lparr>opt_dir_path = ''d'', opt_data_file_size = 1000, opt_sync_writes = False,
      opt_bytes_per_sync = 0, opt_index_type = BTREE, opt_mmap_at_startup = False,
      opt_data_file_merge_ratio = 1 / 2\<rparr>"

abbreviation wit_db :: db where
  "wit_db \<equiv> \<lparr>db_options = wit_options, db_file_ids = [], db_active_file = Some wit_df,
      db_older_files = [], db_index = BTreeIdx [], db_seq_no = 0, db_is_merging = False,
      db_seq_no_file_exists = False, db_is_initial = True, db_file_lock_fd = NoLockFd,
      db_bytes_write = 0, db_reclaim_size = 0\<rparr>"

lemma wit_name: "get_data_file_name ''d'' 0 = ''d/000000000.data''"
  by code_simp

lemma wit_df_ok: "df_ok wit_df wit_dbfs []"
  by (simp add: df_ok_def io_ok_def fs_get_def)

lemma wit_inv: "db_inv wit_db wit_dbfs"
  using wit_df_ok by (auto simp: db_inv_def files_ok_def wit_name)

lemma wit_fits:
  "header_length r + length (lr_key r) + length (lr_value r) \<le> 1000 \<Longrightarrow> fits wit_db wit_dbfs r"
  unfolding fits_def using wit_df_ok
  by (intro exI [of _ wit_df] exI [of _ "[]"]) (simp add: length_LogRecord_encode)

theorem DB_put_refines_witness:
  "\<exists>db' fs'. DB_put [107] [1, 2] wit_db wit_dbfs = (Inr (), db', fs') \<and> DB_get [107] db' fs' = Inr [1, 2]"
  using DB_put_refines [of wit_db wit_dbfs "[107]" "[1, 2]", OF wit_inv]
    wit_fits [of "put_record [107] [1, 2]"]
  by (auto simp: MAX_RECORD_SIZE_def put_record_def header_length_def encode_varint_small)

lemma DB_remove_ok:
  assumes inv: "db_inv db fs" and key: "key \<noteq> []" "length key \<le> MAX_RECORD_SIZE"
    and fits: "fits db fs (delete_record key)"
  shows "\<exists>db' fs'. DB_remove key db fs = (Inr (), db', fs') \<and> db_inv db' fs'
    \<and> db_kv db' fs' = (db_kv db fs)(key := None)"
proof (cases "idx_abs (db_index db) key")
  case None
  then have "idx_get key (db_index db) = None" "db_kv db fs key = None"
    using inv ix.get_abs db_inv_get(2) [OF inv] by (simp_all add: db_inv_def)
  then show ?thesis using key inv by (auto simp: DB_remove_def fun_upd_idem)
next
  case (Some old_pos)
  have files: "files_ok db fs" and ok: "idx_ok (db_index db)" using inv by (simp_all add: db_inv_def)
  obtain pos db1 fs' where app: "append_log_record_internal (delete_record key) db fs = (Inr pos, db1, fs')"
    and same: "db_index db1 = db_index db" "db_options db1 = db_options db"
    and files1: "files_ok db1 fs'"
    and keep: "\<And>p r'. points_to db fs p r' \<Longrightarrow> points_to db1 fs' p r'"
    using append_fits [OF files fits delete_record_readable [OF key]] by metis
  obtain i where rem: "idx_remove key (db_index db) = ((Some old_pos, True), i)"
    using ix.remove_ret [OF ok, of key] Some by (cases "idx_remove key (db_index db)") simp
  define db' where "db' = reclaim (Some old_pos) ((reclaim (Some pos) db1)\<lparr>db_index := i\<rparr>)"
  have i: "idx_ok i" "idx_abs i = (idx_abs (db_index db))(key := None)"
    using ix.remove_inv [OF ok, of key] ix.remove_abs [OF ok, of key] rem by simp_all
  have get: "idx_get key (db_index db) = Some old_pos" using Some ix.get_abs [OF ok] by simp
  have run: "DB_remove key db fs = (Inr (), db', fs')"
    using key app rem get same by (simp add: DB_remove_def delete_record_def db'_def Let_def)
  have "db_active_file db' = db_active_file db1" "db_older_files db' = db_older_files db1"
    "db_options db' = db_options db1" "db_index db' = i"
    by (simp_all add: db'_def)
  note fr = counters_frame [OF this(1-3)] and ix' = this(4)
  have "files_ok db' fs'" "idx_ok (db_index db')" "idx_abs (db_index db') = (idx_abs (db_index db))(key := None)"
    "\<And>p r. points_to db fs p r \<Longrightarrow> points_to db' fs' p r"
    using files1 fr i keep by (simp_all add: ix')
  from index_step [OF inv this, of None] run show ?thesis by blast
qed

text \<open>
  C2: \<open>remove\<close> is deletion from the abstract map: in a state that satisfies the invariant \<open>db_inv\<close>, when
  the deletion record fits in the active file (so that the file is not rotated), removing a key
  (not empty, of at most 64 MB) returns, whether the key was there or not, keeps the invariant, and
  afterwards \<open>get\<close> does not find the key and finds under every other key what it found before.
\<close>

theorem DB_remove_refines:
  assumes "db_inv db fs" and "key \<noteq> []" and "length key \<le> MAX_RECORD_SIZE"
    and "fits db fs (delete_record key)"
  shows "\<exists>db' fs'. DB_remove key db fs = (Inr (), db', fs') \<and> db_inv db' fs'
    \<and> (\<forall>k. DB_get k db' fs' = (if k = key then Inl KeyNotFoundError else DB_get k db fs))"
proof -
  obtain db' fs' where run: "DB_remove key db fs = (Inr (), db', fs')" "db_inv db' fs'"
    "db_kv db' fs' = (db_kv db fs)(key := None)"
    using DB_remove_ok [OF assms] by blast
  then have "DB_get k db' fs' = (if k = key then Inl KeyNotFoundError else DB_get k db fs)" for k
    using assms(1,2) by (simp add: db_inv_get)
  with run show ?thesis by blast
qed

text \<open>A state with one record, which the index points to.\<close>

abbreviation wit_fsr :: fsys where
  "wit_fsr \<equiv> \<lparr>fs_files = [(''d/000000000.data'', enc (put_record [107] [1]))], fs_dirs = [''d''], fs_locks = [],
               fs_page_size = 4096\<rparr>"

abbreviation wit_dbr :: db where
  "wit_dbr \<equiv> wit_db\<lparr>db_active_file := Some (wit_df\<lparr>df_write_off := 9\<rparr>),
      db_index := BTreeIdx [([107], \<lparr>pos_fid = 0, pos_offset = 0, pos_size = 9\<rparr>)]\<rparr>"

lemma wit_one:
  "db_inv wit_dbr wit_fsr" "DB_get [107] wit_dbr wit_fsr = Inr [1]" "DB_list_keys wit_dbr = [[107]]"
  "header_length r + length (lr_key r) + length (lr_value r) \<le> 900 \<Longrightarrow> fits wit_dbr wit_fsr r"
proof -
  let ?r = "put_record [107] [1]" and ?pos = "\<lparr>pos_fid = 0, pos_offset = 0, pos_size = 9\<rparr>"
  have len: "length (enc ?r) = 9"
    by (simp add: length_LogRecord_encode header_length_def put_record_def encode_varint_small)
  have io: "io_ok (df_io wit_df) wit_fsr (enc ?r)" by (simp add: io_ok_def fs_get_def)
  have df: "df_ok (wit_df\<lparr>df_write_off := 9\<rparr>) wit_fsr (enc ?r)"
    using io len by (simp add: df_ok_def)
  have "readable ?r" by (rule put_record_readable) (simp_all add: MAX_RECORD_SIZE_def)
  then have pt: "points_to wit_dbr wit_fsr ?pos ?r"
    using io len by (auto simp: points_to_def find_data_file_def file_limit_def stored_at_def)
  have files: "files_ok wit_dbr wit_fsr" using df by (auto simp: files_ok_def wit_name)
  show inv: "db_inv wit_dbr wit_fsr"
    using files pt by (auto simp: db_inv_def put_record_def)
  have "db_kv wit_dbr wit_fsr [107] = Some (lr_value ?r)"
    by (rule db_kv_points [OF _ _ _ pt]) (auto simp: put_record_def)
  then show "DB_get [107] wit_dbr wit_fsr = Inr [1]" using db_inv_get(1) [OF inv, of "[107]"] by (simp add: put_record_def)
  show "DB_list_keys wit_dbr = [[107]]" by (simp add: DB_list_keys_def BTreeIndex_list_keys_def)
  show "header_length r + length (lr_key r) + length (lr_value r) \<le> 900 \<Longrightarrow> fits wit_dbr wit_fsr r"
    unfolding fits_def using df len
    by (intro exI [of _ "wit_df\<lparr>df_write_off := 9\<rparr>"] exI [of _ "enc ?r"]) (simp add: length_LogRecord_encode)
qed

theorem DB_remove_refines_witness:
  "\<exists>db' fs'. DB_get [107] wit_dbr wit_fsr = Inr [1] \<and> DB_remove [107] wit_dbr wit_fsr = (Inr (), db', fs')
    \<and> DB_get [107] db' fs' = Inl KeyNotFoundError"
  using DB_remove_refines [of wit_dbr wit_fsr "[107]", OF wit_one(1)] wit_one(2) wit_one(4) [of "delete_record [107]"]
  by (auto simp: MAX_RECORD_SIZE_def delete_record_def header_length_def encode_varint_small)

section \<open>Iteration over the database\<close>

text \<open>A callback run over a list of entries until it asks to stop.\<close>

fun fold_until :: "(bytes \<Rightarrow> bytes \<Rightarrow> 'a \<Rightarrow> bool \<times> 'a) \<Rightarrow> (bytes \<times> bytes) list \<Rightarrow> 'a \<Rightarrow> 'a" where
  "fold_until f [] a = a"
| "fold_until f ((k, v) # kvs) a = (case f k v a of (go, a) \<Rightarrow> if \<not> go then a else fold_until f kvs a)"

lemma fold_loop_rest:
  assumes "it_ok (db_index db) it" "length (it_rest (db_index db) it) < n"
    and "\<forall>e \<in> set (it_rest (db_index db) it). get_value_by_position (snd e) db fs = Inr (val (fst e))"
  shows "fold_loop n f it a db fs
    = (Inr (), fold_until f (map (\<lambda>e. (fst e, val (fst e))) (it_rest (db_index db) it)) a)"
  using assms
proof (induction n arbitrary: it a)
  case (Suc n)
  let ?i = "db_index db"
  show ?case
  proof (cases "it_rest ?i it")
    case Nil
    then show ?thesis using Suc.prems it.valid_rest by simp
  next
    case (Cons e es)
    then have v: "it_valid ?i it" "it_entry ?i it = e"
      using Suc.prems(1) it.valid_rest it.cur_rest by fastforce+
    have kv: "it_key ?i it = Inr (fst e)" "it_value ?i it = Inr (snd e)"
      using it_entry_key_value [OF Suc.prems(1) v(1)] v(2) by simp_all
    have nxt: "it_ok ?i (it_next ?i it)" "it_rest ?i (it_next ?i it) = es"
      using it.next_inv [OF Suc.prems(1)] it.next_rest [OF Suc.prems(1)] Cons by simp_all
    have "get_value_by_position (snd e) db fs = Inr (val (fst e))" using Suc.prems(3) Cons by simp
    moreover obtain go a' where "f (fst e) (val (fst e)) a = (go, a')" by (cases "f (fst e) (val (fst e)) a")
    ultimately show ?thesis
      using Suc.IH [OF nxt(1), of a'] Suc.prems nxt(2) Cons v kv by simp
  qed
qed simp

text \<open>The value of an entry of the index is what \<open>get\<close> finds under its key.\<close>

lemma db_inv_entry:
  assumes inv: "db_inv db fs" and e: "e \<in> set (idx_entries (db_index db))"
  shows "\<exists>v. get_value_by_position (snd e) db fs = Inr v \<and> DB_get (fst e) db fs = Inr v"
proof -
  let ?i = "db_index db"
  have ok: "idx_ok ?i" using inv by (simp add: db_inv_def)
  have "distinct (map fst (idx_entries ?i))" using ordered_keys [OF idx_entries_ordered [OF ok]] by blast
  then have abs: "idx_abs ?i (fst e) = Some (snd e)"
    using e idx_entries_find [OF ok, of "fst e"] by (cases e) (simp add: map_find_map_of)
  then obtain r where r: "fst e \<noteq> []" "points_to db fs (snd e) r" "lr_type r \<noteq> DELETED"
    using inv by (auto simp: db_inv_def)
  then have "db_kv db fs (fst e) = Some (lr_value r)" using db_kv_points [OF ok r(1) abs r(2,3)] by simp
  with r show ?thesis using db_inv_get(1) [OF inv, of "fst e"] by (simp add: points_to_value)
qed

text \<open>
  C28: in a state that satisfies the invariant \<open>db_inv\<close> (every entry of the index points to a record of
  its key), \<open>fold\<close> calls the function on every key of the database in increasing order with the value
  \<open>get\<close> returns for it, until the function asks to stop, and does not fail.
\<close>

theorem DB_fold_visits:
  assumes "db_inv db fs"
  shows "\<exists>kvs. DB_fold f a db fs = (Inr (), fold_until f kvs a)
    \<and> map fst kvs = DB_list_keys db \<and> sorted (DB_list_keys db) \<and> distinct (DB_list_keys db)
    \<and> (\<forall>(k, v) \<in> set kvs. DB_get k db fs = Inr v)
    \<and> (\<forall>k v. DB_get k db fs = Inr v \<longrightarrow> k \<in> set (DB_list_keys db))"
proof -
  let ?i = "db_index db"
  have ok: "idx_ok ?i" using assms by (simp add: db_inv_def)
  define val where "val k = projr (DB_get k db fs)" for k
  have ents: "get_value_by_position (snd e) db fs = Inr (val (fst e)) \<and> DB_get (fst e) db fs = Inr (val (fst e))"
    if "e \<in> set (idx_entries ?i)" for e
    using db_inv_entry [OF assms that] by (auto simp: val_def)
  note full = idx_iterator_full [OF ok, of False]
  let ?it = "it_rewind ?i (idx_iterator False ?i)"
  have it: "it_ok ?i ?it" "it_rest ?i ?it = idx_entries ?i"
    using it.rewind_inv it.rewind_rest full by fastforce+
  define kvs where "kvs = map (\<lambda>e. (fst e, val (fst e))) (idx_entries ?i)"
  have "DB_fold f a db fs = (Inr (), fold_until f kvs a)"
    unfolding DB_fold_def Let_def kvs_def it(2) [symmetric]
    using it ents idx_entries_length [OF ok] by (intro fold_loop_rest) auto
  moreover have keys: "map fst kvs = DB_list_keys db"
    using idx_entries_keys [OF ok] by (simp add: kvs_def DB_list_keys_def o_def)
  moreover have "\<forall>(k, v) \<in> set kvs. DB_get k db fs = Inr v" using ents by (auto simp: kvs_def)
  moreover have "k \<in> set (DB_list_keys db)" if "DB_get k db fs = Inr v" for k v
  proof -
    have "db_kv db fs k \<noteq> None" using that by (simp add: db_kv_def)
    then show ?thesis using db_inv_get(2) [OF assms] ix.keys_set [OF ok] by (auto simp: DB_list_keys_def)
  qed
  moreover have "sorted (DB_list_keys db) \<and> distinct (DB_list_keys db)"
    using ix.keys_sorted [OF ok] by (simp add: DB_list_keys_def)
  ultimately show ?thesis by blast
qed

theorem DB_fold_visits_witness:
  "DB_fold (\<lambda>k v acc. (True, acc @ [(k, v)])) [] wit_dbr wit_fsr = (Inr (), [([107], [1])])"
proof -
  obtain kvs where kvs: "DB_fold (\<lambda>k v acc. (True, acc @ [(k, v)])) [] wit_dbr wit_fsr
      = (Inr (), fold_until (\<lambda>k v acc. (True, acc @ [(k, v)])) kvs [])"
    "map fst kvs = [[107]]" "\<forall>(k, v) \<in> set kvs. DB_get k wit_dbr wit_fsr = Inr v"
    using DB_fold_visits [OF wit_one(1), of "\<lambda>k v acc. (True, acc @ [(k, v)])" "[]"] unfolding wit_one(3)
    by (elim exE conjE) (rule that)
  from kvs(2) obtain v where "kvs = [([107], v)]" by (cases kvs) auto
  moreover from this kvs(3) have "v = [1]" using wit_one(2) by simp
  ultimately show ?thesis using kvs(1) by simp
qed

section \<open>Rotation of the active file\<close>

lemma rotate_to_zero:
  assumes "directory_exists (opt_dir_path (db_options db)) fs" "opt_dir_path (db_options db) \<noteq> []"
    and "\<not> directory_exists (data_name db 0) fs" "file_exists (data_name db 0) fs"
  shows "rotate_active_file df db fs =
    (Inr (), db\<lparr>db_older_files := AList.update (df_file_id df) df (db_older_files db),
           db_active_file := Some \<lparr>df_file_id = 0, df_write_off = 0, df_io = file_io (data_name db 0)\<rparr>,
           db_file_ids := add_file_id (df_file_id df) (db_file_ids db)\<rparr>, fs)"
  using open_data_file_ok [OF assms(1-3)] assms(4)
  by (simp add: rotate_active_file_def set_active_data_file_def INITIAL_FILE_ID_def)

text \<open>
  C29: a rotation reopens file 0: \<open>set_active_data_file\<close> runs when the active file has already been
  moved away, so the file that becomes active is number 0 at offset 0 again. When a record no longer
  fits in file 0, the insertion that should start file 1 overwrites the beginning of file 0: the
  key whose record lay there is found with the value of the new one, and no file 1 is created.
\<close>

theorem DB_put_rotation_overwrites:
  assumes "db_inv db fs" and act: "db_active_file db = Some df" and "df_file_id df = 0"
    and dir: "directory_exists (opt_dir_path (db_options db)) fs" "opt_dir_path (db_options db) \<noteq> []"
      "\<not> directory_exists (data_name db 0) fs"
    and key: "key \<noteq> []" "length key \<le> MAX_RECORD_SIZE" "length value \<le> MAX_RECORD_SIZE"
    and full: "unat (df_write_off df) + length (fst (LogRecord_encode (put_record key value)))
                > unat (opt_data_file_size (db_options db))"
    and cont: "fs_get fs (data_name db 0) = Some c"
      "length c + length (fst (LogRecord_encode (put_record key value))) + fs_page_size fs < 2 ^ 63"
    and k0: "idx_get k0 (db_index db) = Some p0" "pos_fid p0 = 0" "pos_offset p0 = 0" "k0 \<noteq> key"
  shows "\<exists>db' fs'. DB_put key value db fs = (Inr (), db', fs')
    \<and> DB_get key db' fs' = Inr value \<and> DB_get k0 db' fs' = Inr value
    \<and> (\<forall>fid. fid \<noteq> 0 \<longrightarrow> fs_get fs' (data_name db fid) = fs_get fs (data_name db fid))"
proof -
  let ?r = "put_record key value" and ?n = "data_name db 0"
  let ?df0 = "\<lparr>df_file_id = 0, df_write_off = 0, df_io = file_io ?n\<rparr>"
  let ?db1 = "db\<lparr>db_older_files := AList.update (df_file_id df) df (db_older_files db),
      db_active_file := Some ?df0, db_file_ids := add_file_id (df_file_id df) (db_file_ids db)\<rparr>"
  have files: "files_ok db fs" and ok: "idx_ok (db_index db)" using assms(1) by (simp_all add: db_inv_def)
  obtain c1 where df: "df_ok df fs c1" and path: "io_path (df_io df) = ?n"
    using files act assms(3) by (auto simp: files_ok_def)
  have ps: "0 < fs_page_size fs" and c1: "c1 = c" and off: "unat (df_write_off df) \<le> length c"
    using df path cont(1) by (auto simp: df_ok_def io_ok_def)
  have df0: "df_ok ?df0 fs c"
    using file_io_ok [OF cont(1) ps] cont(2) by (simp add: df_ok_def)
  have rot: "get_write_off df + of_nat (length (enc ?r)) > opt_data_file_size (db_options db)"
    using full off cont(2) unfolding get_write_off_def by (subst word_of_nat_le_iff) simp_all
  have fe: "file_exists ?n fs" using cont(1) by (simp add: file_exists_def)
  note rotate = rotate_to_zero [OF dir fe, of df]
  obtain df' fs' c' where w: "DataFile_write ?df0 (enc ?r) fs = (Inr (length (enc ?r)), df', fs')"
    and df': "df_ok df' fs' c'" "df_file_id df' = 0"
    and t: "take (length (enc ?r)) c' = enc ?r" and wo: "unat (df_write_off df') = length (enc ?r)"
    and q: "\<forall>q. q \<noteq> ?n \<longrightarrow> fs_get fs' q = fs_get fs q"
    using DataFile_write_ok [OF df0 enc_not_Nil cont(2)] by auto
  define pos where "pos = \<lparr>pos_fid = 0, pos_offset = 0, pos_size = (of_nat (length (enc ?r)) :: u32)\<rparr>"
  obtain bw where app: "append_log_record_internal ?r db fs
      = (Inr pos, ?db1\<lparr>db_active_file := Some df', db_bytes_write := bw\<rparr>, fs')"
    using rot rotate w df'(2) act
    by (simp add: append_log_record_internal_def split_beta write_active_def Let_def get_write_off_def
        pos_def)
  obtain old i where put: "idx_put key pos (db_index db) = (old, i)" by (cases "idx_put key pos (db_index db)")
  define db' where "db' = reclaim old (?db1\<lparr>db_active_file := Some df', db_bytes_write := bw, db_index := i\<rparr>)"
  have run: "DB_put key value db fs = (Inr (), db', fs')"
    using key(1) app put by (simp add: DB_put_def put_record_def db'_def)
  have "stored_at c' (length (enc ?r)) 0 ?r" using t by (simp add: stored_at_def)
  then have rd: "read_log_record df' 0 fs' = Inr \<lparr>rr_record = ?r, rr_size = length (enc ?r)\<rparr>"
    using df'(1) put_record_readable [OF key] by (intro stored_at_read) (simp_all add: df_ok_def)
  have val: "get_value_by_position p db' fs' = Inr value" if "pos_fid p = 0" "pos_offset p = 0" for p
    using that rd df'(2) by (simp add: get_value_by_position_def find_data_file_def db'_def put_record_def)
  have i: "idx_get key i = Some pos" "idx_get k0 i = Some p0"
    using ix.get_put [OF ok] ix.put_ret k0 put by (metis snd_conv)+
  have k0n: "k0 \<noteq> []" using assms(1) k0(1) ix.get_abs [OF ok] by (auto simp: db_inv_def)
  have "DB_get key db' fs' = Inr value" "DB_get k0 db' fs' = Inr value"
    using val k0 key(1) i k0n by (simp_all add: DB_get_def db'_def pos_def)
  then show ?thesis using run q by auto
qed

text \<open>A database with a limit of ten bytes and one record of nine.\<close>

abbreviation wit_fs1 :: fsys where
  "wit_fs1 \<equiv> \<lparr>fs_files = [(''d/000000000.data'', enc (put_record [1] [10]))], fs_dirs = [''d''],
               fs_locks = [], fs_page_size = 4096\<rparr>"

abbreviation wit_db1 :: db where
  "wit_db1 \<equiv> wit_db\<lparr>db_options := wit_options\<lparr>opt_data_file_size := 10\<rparr>,
      db_active_file := Some (wit_df\<lparr>df_write_off := 9\<rparr>),
      db_index := BTreeIdx [([1], \<lparr>pos_fid = 0, pos_offset = 0, pos_size = 9\<rparr>)]\<rparr>"

lemma length_enc_wit: "length (enc (put_record [k] [v])) = 9"
  by (simp add: length_LogRecord_encode header_length_def put_record_def encode_varint_small)

lemma wit_points1:
  "points_to wit_db1 wit_fs1 \<lparr>pos_fid = 0, pos_offset = 0, pos_size = 9\<rparr> (put_record [1] [10])"
  using length_enc_wit [of 1 10] put_record_readable [of "[1]" "[10]"]
  by (auto simp: points_to_def find_data_file_def file_limit_def stored_at_def MAX_RECORD_SIZE_def
      io_ok_def fs_get_def intro!: exI [of _ "enc (put_record [1] [10])"])

lemma wit_inv1: "db_inv wit_db1 wit_fs1"
proof -
  have "df_ok (wit_df\<lparr>df_write_off := 9\<rparr>) wit_fs1 (enc (put_record [1] [10]))"
    using length_enc_wit [of 1 10] by (simp add: df_ok_def io_ok_def fs_get_def)
  then show ?thesis
    using wit_points1 by (auto simp: db_inv_def files_ok_def wit_name put_record_def)
qed

theorem DB_put_rotation_overwrites_witness:
  "\<exists>db' fs'. DB_put [2] [20] wit_db1 wit_fs1 = (Inr (), db', fs')
    \<and> DB_get [1] wit_db1 wit_fs1 = Inr [10] \<and> DB_get [1] db' fs' = Inr [20]"
proof -
  have "get_value_by_position \<lparr>pos_fid = 0, pos_offset = 0, pos_size = 9\<rparr> wit_db1 wit_fs1 = Inr [10]"
    by (simp only: points_to_value [OF wit_points1]) (simp add: put_record_def)
  then have "DB_get [1] wit_db1 wit_fs1 = Inr [10]"
    by (simp add: DB_get_def BTreeIndex_get_def)
  then show ?thesis
    using DB_put_rotation_overwrites [of wit_db1 wit_fs1 "wit_df\<lparr>df_write_off := 9\<rparr>" "[2]" "[20]"
        "enc (put_record [1] [10])" "[1]" "\<lparr>pos_fid = 0, pos_offset = 0, pos_size = 9\<rparr>"] wit_inv1
      length_enc_wit [of 1 10] length_enc_wit [of 2 20]
    by (auto simp: wit_name directory_exists_def fs_get_def MAX_RECORD_SIZE_def BTreeIndex_get_def)
qed

end
