(* ===== verification/Db_Iterator.thy ===== *)
theory Db_Iterator
  imports Db
begin

text \<open>
  Iterators over a database (\<open>class DBIterator\<close>, \<open>src/iterator.cpp\<close>): an iterator of the index, with
  an optional prefix that the keys must have, and the values read from the data files. The lemmas
  show which keys a loop over such an iterator meets, with which values.
\<close>

section \<open>Definitions\<close>

record iterator_options =
  io_prefix :: bytes
  io_reverse :: bool

text \<open>\<open>index_iter_\<close> is null after \<open>close\<close>.\<close>

record db_iterator =
  di_options :: iterator_options
  di_iter :: "index_iter option"

definition DBIterator_new :: "iterator_options \<Rightarrow> db \<Rightarrow> db_iterator" where
  "DBIterator_new opts db =
     \<lparr>di_options = opts, di_iter = Some (idx_iterator (io_reverse opts) (db_index db))\<rparr>"

definition DBIterator_rewind :: "db \<Rightarrow> db_iterator \<Rightarrow> db_iterator" where
  "DBIterator_rewind db it =
     (case di_iter it of
        None \<Rightarrow> it
      | Some t \<Rightarrow>
          (let t = it_rewind (db_index db) t;
               t = (if io_prefix (di_options it) \<noteq> [] then it_seek (io_prefix (di_options it)) (db_index db) t
                    else t)
           in it\<lparr>di_iter := Some t\<rparr>))"

definition DBIterator_seek :: "bytes \<Rightarrow> db \<Rightarrow> db_iterator \<Rightarrow> db_iterator" where
  "DBIterator_seek key db it =
     (case di_iter it of None \<Rightarrow> it | Some t \<Rightarrow> it\<lparr>di_iter := Some (it_seek key (db_index db) t)\<rparr>)"

definition DBIterator_next :: "db \<Rightarrow> db_iterator \<Rightarrow> db_iterator" where
  "DBIterator_next db it =
     (case di_iter it of None \<Rightarrow> it | Some t \<Rightarrow> it\<lparr>di_iter := Some (it_next (db_index db) t)\<rparr>)"

text \<open>The comparison of the prefix, byte by byte.\<close>

fun prefix_matches :: "bytes \<Rightarrow> bytes \<Rightarrow> bool" where
  "prefix_matches [] current_key = True"
| "prefix_matches (p # prefix) [] = False"
| "prefix_matches (p # prefix) (c # current_key) = (if c \<noteq> p then False else prefix_matches prefix current_key)"

definition DBIterator_valid :: "db \<Rightarrow> db_iterator \<Rightarrow> bool" where
  "DBIterator_valid db it =
     (case di_iter it of
        None \<Rightarrow> False
      | Some t \<Rightarrow>
          if \<not> it_valid (db_index db) t then False
          else if io_prefix (di_options it) \<noteq> []
          then (case it_key (db_index db) t of
                  Inl e \<Rightarrow> False
                | Inr current_key \<Rightarrow>
                    if length current_key < length (io_prefix (di_options it)) then False
                    else prefix_matches (io_prefix (di_options it)) current_key)
          else True)"

definition DBIterator_key :: "db \<Rightarrow> db_iterator \<Rightarrow> bytes res" where
  "DBIterator_key db it =
     (if \<not> DBIterator_valid db it then Inl (BitcaskException ''Iterator is not valid'')
      else case di_iter it of
        None \<Rightarrow> Inl UndefinedBehaviour
      | Some t \<Rightarrow> it_key (db_index db) t)"

definition DBIterator_value :: "db \<Rightarrow> db_iterator \<Rightarrow> fsys \<Rightarrow> bytes res" where
  "DBIterator_value db it fs =
     (if \<not> DBIterator_valid db it then Inl (BitcaskException ''Iterator is not valid'')
      else case di_iter it of
        None \<Rightarrow> Inl UndefinedBehaviour
      | Some t \<Rightarrow>
          (case it_value (db_index db) t of
             Inl e \<Rightarrow> Inl e
           | Inr pos \<Rightarrow> get_value_by_position pos db fs))"

definition DBIterator_close :: "db_iterator \<Rightarrow> db_iterator" where
  "DBIterator_close it = it\<lparr>di_iter := None\<rparr>"

text \<open>The loop that users write: \<open>for (; it->valid(); it->next())\<close> with \<open>key()\<close> and \<open>value()\<close>, for at most
  \<open>n\<close> rounds.\<close>

fun dbi_collect :: "nat \<Rightarrow> db \<Rightarrow> fsys \<Rightarrow> db_iterator \<Rightarrow> (bytes res \<times> bytes res) list" where
  "dbi_collect 0 db fs it = []"
| "dbi_collect (Suc n) db fs it =
     (if DBIterator_valid db it
      then (DBIterator_key db it, DBIterator_value db it fs)
           # dbi_collect n db fs (DBIterator_next db it)
      else [])"

section \<open>Seeking forward\<close>

text \<open>What \<open>seek\<close> promises of an iterator that runs forward, for every kind of index.\<close>

locale seekable_iterator = index_iterator +
  fixes fwd :: "'a \<Rightarrow> bool" and seek :: "bytes \<Rightarrow> 'a \<Rightarrow> 'a"
  assumes seek_rest: "iinv it \<Longrightarrow> fwd it \<Longrightarrow> rest (seek k it) = [e \<leftarrow> full it. k \<le> fst e]"
    and seek_inv: "iinv it \<Longrightarrow> fwd it \<Longrightarrow> iinv (seek k it)"
    and rewind_fwd: "iinv it \<Longrightarrow> fwd it \<Longrightarrow> fwd (rewind it)"
begin

lemma rewind_seek:
  "iinv it \<Longrightarrow> fwd it \<Longrightarrow> iinv (seek k (rewind it)) \<and> rest (seek k (rewind it)) = [e \<leftarrow> full it. k \<le> fst e]"
  using seek_rest [of "rewind it" k] seek_inv [of "rewind it" k] rewind_fwd rewind_inv by simp

end

fun it_fwd :: "index \<Rightarrow> index_iter \<Rightarrow> bool" where
  "it_fwd i (BTreeIt it) \<longleftrightarrow> \<not> bi_reverse it \<and> ordered (bi_items it)"
| "it_fwd i (SkipListIt it) \<longleftrightarrow> \<not> si_use_items it"
| "it_fwd i (BPlusTreeIt it) \<longleftrightarrow> \<not> pi_use_items it"

lemma it_seek_forward:
  assumes ok: "it_ok i it" and fwd: "it_fwd i it"
  shows "it_rest i (it_seek k i it) = [e \<leftarrow> it_full i it. k \<le> fst e] \<and> it_ok i (it_seek k i it)"
proof (cases it)
  case (BTreeIt t)
  then show ?thesis using fwd dropWhile_less_filter [of "bi_items t" k]
    by (simp add: bi_rest_def BTreeIterator_seek_def find_index_drop)
next
  case (SkipListIt t)
  then show ?thesis using ok fwd si_seek_rest [of "the_sl i" t k] by (simp add: si_full_def)
next
  case (BPlusTreeIt t)
  let ?t = "t\<lparr>pi_leaf := True, pi_index := 0\<rparr>"
  have okt: "leaf_ok (the_root i)" "pi_prefix t = []" "\<not> pi_use_items t"
    using ok fwd BPlusTreeIt by (simp_all add: pi_ok_def)
  have "ordered (leaf_entries (the_root i))" using okt(1) by (simp add: leaf_ok_def)
  then show ?thesis
    using pi_seek_loop_rest [of "the_root i" ?t k] okt dropWhile_less_filter [of "leaf_entries (the_root i)" k]
    by (simp add: BPlusTreeIt pi_seek_def pi_full_def pi_ok_def pi_rest_def)
qed

interpretation its: seekable_iterator "it_ok i" "it_rest i" "it_full i" "it_rewind i"
    "it_next i" "it_valid i" "it_entry i" "it_fwd i" "\<lambda>k. it_seek k i" for i
proof unfold_locales
  fix t :: index_iter and k
  assume ok: "it_ok i t" and fwd: "it_fwd i t"
  show "it_rest i (it_seek k i t) = [e \<leftarrow> it_full i t. k \<le> fst e]" "it_ok i (it_seek k i t)"
    using it_seek_forward [OF ok fwd] by blast+
  show "it_fwd i (it_rewind i t)"
    using fwd ok
    by (cases t) (simp_all add: BTreeIterator_rewind_def si_rewind_def pi_rewind_def pi_ok_def pi_skip_no_prefix)
qed

lemma idx_iterator_fwd: "idx_ok i \<Longrightarrow> it_fwd i (idx_iterator False i)"
  using idx_entries_ordered [of i]
  by (cases i) (auto simp: BTreeIterator_new_def ARTIndex_iterator_def SkipListIndex_iterator_def si_new_def
      si_rewind_def BPlusTreeIndex_iterator_def pi_new_def pi_rewind_def pi_skip_no_prefix)

section \<open>The keys with a prefix\<close>

lemma prefix_matches_take: "prefix_matches p k \<longleftrightarrow> take (length p) k = p"
  by (induction p k rule: prefix_matches.induct) auto

lemma prefix_le: "take (length p) k = p \<Longrightarrow> p \<le> (k :: bytes)"
proof -
  assume "take (length p) k = p"
  then have k: "k = p @ drop (length p) k" by (metis append_take_drop_id)
  have "p \<le> p @ r" for r :: bytes by (induction p) simp_all
  then show ?thesis using k by metis
qed

lemma prefix_between:
  "p \<le> (a :: bytes) \<Longrightarrow> a \<le> b \<Longrightarrow> take (length p) b = p \<Longrightarrow> take (length p) a = p"
proof (induction p arbitrary: a b)
  case (Cons x p)
  obtain y a' where a: "a = y # a'" using Cons.prems(1) by (cases a) simp_all
  obtain b' where b: "b = x # b'" "take (length p) b' = p" using Cons.prems(3) by (cases b) auto
  have "y = x \<and> p \<le> a' \<and> a' \<le> b'"
    using Cons.prems(1,2) a b by (auto simp: Cons_less_Cons list_le_def)
  then show ?case using Cons.IH [of a' b'] a b by simp
qed simp

lemma takeWhile_filter_prefix:
  assumes "ordered m" and "P = (\<lambda>k. take (length p) k = p)"
  shows "takeWhile (\<lambda>e. P (fst e)) [e \<leftarrow> m. p \<le> fst e] = [e \<leftarrow> m. P (fst e)]"
  using assms(1)
proof (induction m)
  case (Cons e m)
  have ord: "ordered m" "\<forall>x \<in> set m. fst e \<le> fst x"
    using Cons.prems by (cases e, auto simp: ordered_def less_imp_le)+
  show ?case
  proof (cases "p \<le> fst e")
    case True
    show ?thesis
    proof (cases "P (fst e)")
      case True
      with \<open>p \<le> fst e\<close> Cons.IH [OF ord(1)] show ?thesis by simp
    next
      case False
      then have "\<not> P (fst x)" if "x \<in> set m" for x
        using prefix_between [OF True, of "fst x"] ord(2) that assms(2) by blast
      then show ?thesis using True False by (auto simp: filter_empty_conv)
    qed
  next
    case False
    then have "\<not> P (fst e)" using prefix_le assms(2) by blast
    then show ?thesis using False Cons.IH [OF ord(1)] by simp
  qed
qed simp

lemma dbi_valid:
  assumes "it_ok (db_index db) t" "di_iter it = Some t"
  shows "DBIterator_valid db it \<longleftrightarrow> it_rest (db_index db) t \<noteq> []
    \<and> prefix_matches (io_prefix (di_options it)) (fst (hd (it_rest (db_index db) t)))"
proof (cases "it_rest (db_index db) t = []")
  case True
  then show ?thesis using assms it.valid_rest by (simp add: DBIterator_valid_def)
next
  case False
  then have v: "it_valid (db_index db) t" using assms(1) it.valid_rest by blast
  have "it_key (db_index db) t = Inr (fst (hd (it_rest (db_index db) t)))"
    using it_entry_key_value [OF assms(1) v] it.cur_rest [OF assms(1) False] by simp
  moreover have "length k < length p \<Longrightarrow> \<not> prefix_matches p k" for k p :: bytes
    by (auto simp: prefix_matches_take dest: arg_cong [of _ _ length])
  ultimately show ?thesis using v False assms(2) by (auto simp: DBIterator_valid_def)
qed

lemma dbi_collect_rest:
  assumes "it_ok (db_index db) t" "di_iter it = Some t" "length (it_rest (db_index db) t) \<le> n"
  shows "dbi_collect n db fs it
    = map (\<lambda>e. (Inr (fst e), get_value_by_position (snd e) db fs))
        (takeWhile (\<lambda>e. prefix_matches (io_prefix (di_options it)) (fst e)) (it_rest (db_index db) t))"
  using assms
proof (induction n arbitrary: it t)
  case (Suc n)
  let ?i = "db_index db"
  note valid = dbi_valid [OF Suc.prems(1,2)]
  show ?case
  proof (cases "DBIterator_valid db it")
    case True
    then obtain e es where rest: "it_rest ?i t = e # es" and pre: "prefix_matches (io_prefix (di_options it)) (fst e)"
      using valid by (cases "it_rest ?i t") auto
    then have v: "it_valid ?i t" "it_entry ?i t = e"
      using Suc.prems(1) it.valid_rest it.cur_rest by fastforce+
    have kv: "it_key ?i t = Inr (fst e)" "it_value ?i t = Inr (snd e)"
      using it_entry_key_value [OF Suc.prems(1) v(1)] v(2) by simp_all
    have nxt: "it_ok ?i (it_next ?i t)" "it_rest ?i (it_next ?i t) = es"
      using it.next_inv [OF Suc.prems(1)] it.next_rest [OF Suc.prems(1)] rest by simp_all
    have d: "DBIterator_next db it = it\<lparr>di_iter := Some (it_next ?i t)\<rparr>"
      using Suc.prems(2) by (simp add: DBIterator_next_def)
    show ?thesis
      using Suc.IH [OF nxt(1), of "DBIterator_next db it"] Suc.prems(2,3) nxt(2) rest pre True kv
      by (simp add: d DBIterator_key_def DBIterator_value_def)
  next
    case False
    then show ?thesis using valid by (cases "it_rest ?i t") auto
  qed
qed simp

section \<open>What the loop meets\<close>

lemma dbi_values:
  assumes inv: "db_inv db fs" and sub: "set es \<subseteq> set (idx_entries (db_index db))"
  shows "map (\<lambda>e. (Inr (fst e), get_value_by_position (snd e) db fs)) es
    = map (\<lambda>k. (Inr k, DB_get k db fs)) (map fst es)"
  using sub db_inv_entry [OF inv] by (fastforce simp: comp_def)

lemma idx_keys_filter:
  "idx_ok i \<Longrightarrow> map fst [e \<leftarrow> idx_entries i. P (fst e)] = [k \<leftarrow> idx_list_keys i. P k]"
  using idx_entries_keys [of i] by (simp add: filter_map comp_def flip: idx_entries_keys)

text \<open>
  A loop over an iterator meets the keys with the prefix, all of them, in increasing order, each
  with the value that \<open>get\<close> returns; without a prefix and reversed, all keys in decreasing order.
\<close>

theorem DBIterator_visits:
  assumes inv: "db_inv db fs" and n: "idx_size (db_index db) \<le> n"
    and dir: "io_reverse opts \<longrightarrow> io_prefix opts = []"
  shows "dbi_collect n db fs (DBIterator_rewind db (DBIterator_new opts db))
    = map (\<lambda>k. (Inr k, DB_get k db fs))
        (if io_reverse opts then rev (DB_list_keys db)
         else [k \<leftarrow> DB_list_keys db. prefix_matches (io_prefix opts) k])"
proof -
  let ?i = "db_index db" and ?p = "io_prefix opts"
  have ok: "idx_ok ?i" using inv by (simp add: db_inv_def)
  have len: "length (idx_entries ?i) \<le> n" using n idx_entries_length [OF ok] by simp
  let ?t = "idx_iterator (io_reverse opts) ?i"
  define es where "es = (if io_reverse opts then rev (idx_entries ?i) else [e \<leftarrow> idx_entries ?i. prefix_matches ?p (fst e)])"
  note full = idx_iterator_full [OF ok, of "io_reverse opts"]
  have "\<exists>t. DBIterator_rewind db (DBIterator_new opts db) = \<lparr>di_options = opts, di_iter = Some t\<rparr>
    \<and> it_ok ?i t \<and> length (it_rest ?i t) \<le> n
    \<and> takeWhile (\<lambda>e. prefix_matches ?p (fst e)) (it_rest ?i t) = es"
  proof (cases "?p = []")
    case True
    then show ?thesis
      using full it.rewind_inv [of ?i ?t] it.rewind_rest [of ?i ?t] len
      by (auto simp: DBIterator_rewind_def DBIterator_new_def es_def)
  next
    case False
    then have fwd: "\<not> io_reverse opts" using dir by blast
    have "it_ok ?i ?t" "it_fwd ?i ?t" "it_full ?i ?t = idx_entries ?i"
      using full idx_iterator_fwd [OF ok] fwd by simp_all
    from its.rewind_seek [OF this(1,2), of ?p] this(3)
    have "it_ok ?i (it_seek ?p ?i (it_rewind ?i ?t))"
      "it_rest ?i (it_seek ?p ?i (it_rewind ?i ?t)) = [e \<leftarrow> idx_entries ?i. ?p \<le> fst e]" by simp_all
    moreover have "takeWhile (\<lambda>e. prefix_matches ?p (fst e)) [e \<leftarrow> idx_entries ?i. ?p \<le> fst e] = es"
      using takeWhile_filter_prefix [OF idx_entries_ordered [OF ok], of "prefix_matches ?p" ?p] fwd
      by (simp add: es_def fun_eq_iff prefix_matches_take)
    moreover have "length [e \<leftarrow> idx_entries ?i. ?p \<le> fst e] \<le> n"
      using len length_filter_le [of "\<lambda>e. ?p \<le> fst e" "idx_entries ?i"] by linarith
    ultimately show ?thesis using False by (simp add: DBIterator_rewind_def DBIterator_new_def)
  qed
  then obtain t where t: "DBIterator_rewind db (DBIterator_new opts db) = \<lparr>di_options = opts, di_iter = Some t\<rparr>"
    "it_ok ?i t" "length (it_rest ?i t) \<le> n" "takeWhile (\<lambda>e. prefix_matches ?p (fst e)) (it_rest ?i t) = es"
    by blast
  have "dbi_collect n db fs \<lparr>di_options = opts, di_iter = Some t\<rparr>
      = map (\<lambda>e. (Inr (fst e), get_value_by_position (snd e) db fs)) es"
    using dbi_collect_rest [OF t(2), of "\<lparr>di_options = opts, di_iter = Some t\<rparr>" n fs] t(3,4) by simp
  moreover have "set es \<subseteq> set (idx_entries ?i)" by (auto simp: es_def)
  moreover have "map fst es = (if io_reverse opts then rev (DB_list_keys db)
      else [k \<leftarrow> DB_list_keys db. prefix_matches ?p k])"
    using idx_entries_keys [OF ok] idx_keys_filter [OF ok, of "prefix_matches ?p"]
    by (simp add: es_def DB_list_keys_def flip: rev_map)
  ultimately show ?thesis unfolding t(1) using dbi_values [OF inv, of es] by simp
qed

text \<open>
  reversed with a prefix, the loop misses the keys: over the index of a database with the
  default index it meets at most the prefix itself, never a longer key that begins with it,
  whichever there are (\<open>rewind\<close> moves a reversed iterator to the last key not greater than the
  prefix, and the keys that begin with it are greater).
\<close>

theorem DBIterator_reverse_prefix:
  assumes inv: "db_inv db fs" and tree: "db_index db = BTreeIdx m" and n: "length m \<le> n"
    and opts: "io_reverse opts" "io_prefix opts \<noteq> []"
  shows "dbi_collect n db fs (DBIterator_rewind db (DBIterator_new opts db))
    = (if io_prefix opts \<in> set (DB_list_keys db) then [(Inr (io_prefix opts), DB_get (io_prefix opts) db fs)] else [])"
proof -
  let ?p = "io_prefix opts" and ?i = "BTreeIdx m"
  have ord: "ordered m" using inv tree by (simp add: db_inv_def)
  let ?t = "BTreeIt (BTreeIterator_seek ?p (BTreeIterator_rewind (BTreeIterator_new m True)))"
  have rew: "DBIterator_rewind db (DBIterator_new opts db) = \<lparr>di_options = opts, di_iter = Some ?t\<rparr>"
    using opts tree by (simp add: DBIterator_rewind_def DBIterator_new_def)
  have rest: "it_rest ?i ?t = rev [e \<leftarrow> m. fst e \<le> ?p]"
    using dropWhile_greater_filter [OF ord, of ?p]
    by (simp add: bi_rest_def BTreeIterator_seek_def BTreeIterator_rewind_def BTreeIterator_new_def find_index_drop)
  have len: "length (it_rest ?i ?t) \<le> n"
    unfolding rest length_rev by (rule order_trans [OF length_filter_le n])
  define es where "es = takeWhile (\<lambda>e. prefix_matches ?p (fst e)) (rev [e \<leftarrow> m. fst e \<le> ?p])"
  have only: "fst e = ?p \<and> e \<in> set m" if "e \<in> set es" for e
  proof -
    have "fst e \<le> ?p" "prefix_matches ?p (fst e)" "e \<in> set m"
      using that by (auto simp: es_def dest: set_takeWhileD)
    then show ?thesis using prefix_le [of ?p "fst e"] by (simp add: prefix_matches_take order.antisym)
  qed
  have dist: "distinct (map fst m)" using ordered_keys [OF ord] by blast
  have "map fst es = (if ?p \<in> fst ` set m then [?p] else [])"
  proof (cases "?p \<in> fst ` set m")
    case True
    have srt: "sorted (map fst [e \<leftarrow> m. fst e \<le> ?p])"
      using ordered_keys [OF ord] sorted_filter [of fst m "\<lambda>e. fst e \<le> ?p"] by blast
    obtain e0 where e0: "e0 \<in> set [e \<leftarrow> m. fst e \<le> ?p]" "fst e0 = ?p" using True by auto
    then obtain e xs where l1: "[e \<leftarrow> m. fst e \<le> ?p] = xs @ [e]"
      by (metis append_butlast_last_id empty_iff list.set(1))
    have "?p \<le> fst e" using srt e0 unfolding l1 by (auto simp: sorted_append)
    moreover have "fst e \<le> ?p"
    proof -
      have "e \<in> set [e \<leftarrow> m. fst e \<le> ?p]" unfolding l1 by simp
      then show ?thesis by simp
    qed
    ultimately have l: "[e \<leftarrow> m. fst e \<le> ?p] = xs @ [e]" "fst e = ?p" using l1 by simp_all
    have dis: "distinct (map fst (xs @ [e]))"
      using dist distinct_map_filter [of fst m "\<lambda>e. fst e \<le> ?p"] by (simp add: l(1) [symmetric])
    let ?ys = "takeWhile (\<lambda>e. prefix_matches ?p (fst e)) (rev xs)"
    have es: "es = e # ?ys" using l(2) by (simp add: es_def l(1) prefix_matches_take)
    have "x \<notin> set ?ys" for x
    proof
      assume x: "x \<in> set ?ys"
      then have "fst x = ?p" using only [of x] es by simp
      moreover have "x \<in> set xs" using set_takeWhileD [OF x] by simp
      ultimately show False using dis l(2) by force
    qed
    then have "?ys = []" by (cases ?ys) auto
    then show ?thesis using True es l(2) by simp
  next
    case False
    then have "es = []" using only by (cases es) force+
    then show ?thesis using False by simp
  qed
  moreover have "dbi_collect n db fs \<lparr>di_options = opts, di_iter = Some ?t\<rparr>
      = map (\<lambda>e. (Inr (fst e), get_value_by_position (snd e) db fs)) es"
    using dbi_collect_rest [of db ?t "\<lparr>di_options = opts, di_iter = Some ?t\<rparr>" n fs] len rest
    by (simp add: tree es_def)
  moreover have "set es \<subseteq> set (idx_entries (db_index db))" using only tree by auto
  ultimately have "dbi_collect n db fs \<lparr>di_options = opts, di_iter = Some ?t\<rparr>
      = map (\<lambda>k. (Inr k, DB_get k db fs)) (if ?p \<in> fst ` set m then [?p] else [])"
    using dbi_values [OF inv, of es] by simp
  moreover have "fst ` set m = set (DB_list_keys db)"
    by (simp add: DB_list_keys_def tree BTreeIndex_list_keys_def)
  ultimately show ?thesis by (simp add: rew)
qed

subsection \<open>Witnesses\<close>

text \<open>A database with the single key \<open>107 1\<close>.\<close>

abbreviation wit_pos2 :: log_record_pos where
  "wit_pos2 \<equiv> \<lparr>pos_fid = 0, pos_offset = 0, pos_size = 10\<rparr>"

abbreviation wit_fs2 :: fsys where
  "wit_fs2 \<equiv> \<lparr>fs_files = [(''d/000000000.data'', enc (put_record [107, 1] [5]))], fs_dirs = [''d''],
               fs_locks = [], fs_page_size = 4096\<rparr>"

abbreviation wit_db2 :: db where
  "wit_db2 \<equiv> wit_db\<lparr>db_active_file := Some (wit_df\<lparr>df_write_off := 10\<rparr>),
      db_index := BTreeIdx [([107, 1], wit_pos2)]\<rparr>"

lemma length_enc_wit2: "length (enc (put_record [107, 1] [5])) = 10"
  by (simp add: length_LogRecord_encode header_length_def put_record_def encode_varint_small)

lemma wit_points2: "points_to wit_db2 wit_fs2 wit_pos2 (put_record [107, 1] [5])"
  using length_enc_wit2 put_record_readable [of "[107, 1]" "[5]"]
  by (auto simp: points_to_def find_data_file_def file_limit_def stored_at_def MAX_RECORD_SIZE_def
      io_ok_def fs_get_def intro!: exI [of _ "enc (put_record [107, 1] [5])"])

lemma wit_inv2: "db_inv wit_db2 wit_fs2"
proof -
  have "df_ok (wit_df\<lparr>df_write_off := 10\<rparr>) wit_fs2 (enc (put_record [107, 1] [5]))"
    using length_enc_wit2 by (simp add: df_ok_def io_ok_def fs_get_def)
  then show ?thesis
    using wit_points2 by (auto simp: db_inv_def files_ok_def wit_name put_record_def)
qed

lemma wit_get2: "DB_get [107, 1] wit_db2 wit_fs2 = Inr [5]"
proof -
  have "get_value_by_position wit_pos2 wit_db2 wit_fs2 = Inr [5]"
    by (simp only: points_to_value [OF wit_points2]) (simp add: put_record_def)
  then show ?thesis by (simp add: DB_get_def BTreeIndex_get_def)
qed

theorem DBIterator_visits_witness:
  "dbi_collect 3 wit_db2 wit_fs2
     (DBIterator_rewind wit_db2 (DBIterator_new \<lparr>io_prefix = [107], io_reverse = False\<rparr> wit_db2))
   = [(Inr [107, 1], Inr [5])]"
  using DBIterator_visits [OF wit_inv2, of 3 "\<lparr>io_prefix = [107], io_reverse = False\<rparr>"] wit_get2
  by (simp add: BTreeIndex_size_def DB_list_keys_def BTreeIndex_list_keys_def)

theorem DBIterator_reverse_prefix_witness:
  "dbi_collect 3 wit_db2 wit_fs2
     (DBIterator_rewind wit_db2 (DBIterator_new \<lparr>io_prefix = [107], io_reverse = True\<rparr> wit_db2)) = []"
  using DBIterator_reverse_prefix [OF wit_inv2, of "[([107, 1], wit_pos2)]" 3 "\<lparr>io_prefix = [107], io_reverse = True\<rparr>"]
  by (simp add: DB_list_keys_def BTreeIndex_list_keys_def)

end
