(* ===== verification/Art_Iterator.thy ===== *)
theory Art_Iterator
  imports Art_Tree Db_Iterator
begin

text \<open>
  Visiting the radix tree: \<open>collect_all\<close> and \<open>ARTIterator\<close> of \<open>src/art_index.cpp\<close>. The lemmas show
  that every entry of the tree is collected once, and that a loop over the iterator meets the
  entries with the prefix of its options in the order of the keys.
\<close>

section \<open>Collecting the entries\<close>

lemma set_present: "c \<in> set (present cs) \<longleftrightarrow> Some c \<in> set cs"
  by (force simp: present_def)

lemma size_present: "c \<in> set (present cs) \<Longrightarrow> size c < Suc (size_list (size_option size) cs)"
  unfolding set_present by (induction cs) auto

lemma size_take: "size_list f (take n xs) \<le> size_list f xs"
  by (induction xs arbitrary: n) (auto simp: take_Cons split: nat.split)

lemma size_art_child [termination_simp]: "c \<in> set (node_children n) \<Longrightarrow> size c < Suc (size_art_node size n)"
proof (cases n)
  case (N4 n')
  assume "c \<in> set (node_children n)"
  then show ?thesis using N4 size_present [of c "take (unat (n4_num n')) (n4_children n')"]
      size_take [of "size_option size" "unat (n4_num n')" "n4_children n'"] by (cases n') simp
next
  case (N16 n')
  assume "c \<in> set (node_children n)"
  then show ?thesis using N16 size_present [of c "take (unat (n16_num n')) (n16_children n')"]
      size_take [of "size_option size" "unat (n16_num n')" "n16_children n'"] by (cases n') simp
next
  case (N48 n')
  assume "c \<in> set (node_children n)"
  then show ?thesis using N48 size_present [of c "n48_children n'"] by (cases n') simp
next
  case (N256 n')
  assume "c \<in> set (node_children n)"
  then show ?thesis using N256 size_present [of c "n256_children n'"] by (cases n') simp
qed

fun collect_tree :: "art_tree \<Rightarrow> entry list" where
  "collect_tree (ARTLeaf k v) = [(k, v)]"
| "collect_tree (ARTInner prefix_len pre n) = concat (map collect_tree (node_children n))"

definition ARTIndex_collect_all :: "art_tree option \<Rightarrow> entry list \<Rightarrow> entry list" where
  "ARTIndex_collect_all node result = (case node of None \<Rightarrow> result | Some t \<Rightarrow> result @ collect_tree t)"

lemma visited_children:
  assumes "node_ok n"
  obtains bs where "distinct bs" "\<And>b. b \<in> set bs \<longleftrightarrow> find_child b n \<noteq> None"
    "node_children n = map (\<lambda>b. the (find_child b n)) bs"
proof -
  obtain bs where bs: "visits (\<lambda>b. find_child b n) (node_children n) bs" using node_children_are [OF assms] by blast
  then have "map the (map Some (node_children n)) = map (\<lambda>b. the (find_child b n)) bs"
    unfolding visits_def by (simp only: map_map comp_def)
  then have "node_children n = map (\<lambda>b. the (find_child b n)) bs" by (simp add: comp_def)
  then show ?thesis using bs that [of bs] unfolding visits_def by blast
qed

lemma collect_tree_is:
  assumes K: "keys_fit K" and t: "art_ok K p t"
  shows "distinct (map fst (collect_tree t)) \<and>
    (\<forall>j v. (j, v) \<in> set (collect_tree t) \<longleftrightarrow> j \<in> K \<and> prefix p j \<and> art_value (Some t) j (length p) = Some v)"
  using t
proof (induction rule: art_ok.induct)
  case (inner n pre plen k p)
  have ok: "art_ok K p (ARTInner plen pre n)" by (rule art_ok.inner [OF inner.hyps(1-4)]) (rule inner.hyps(5))
  obtain bs where bs: "distinct bs" "\<And>b. b \<in> set bs \<longleftrightarrow> find_child b n \<noteq> None"
    "node_children n = map (\<lambda>b. the (find_child b n)) bs"
    using visited_children [OF inner.hyps(1)] by blast
  let ?part = "\<lambda>b. collect_tree (the (find_child b n))"
  have col: "collect_tree (ARTInner plen pre n) = concat (map ?part bs)"
    unfolding collect_tree.simps bs(3) by (simp add: comp_def)
  have part: "distinct (map fst (?part b))"
    "(j, v) \<in> set (?part b) \<longleftrightarrow> j \<in> K \<and> prefix (p @ pre @ [b]) j \<and> art_value (find_child b n) j (length (p @ pre @ [b])) = Some v"
    if b: "b \<in> set bs" for b j v
  proof -
    obtain c where c: "find_child b n = Some c" using iffD1 [OF bs(2) b] by (cases "find_child b n") simp_all
    note ih = inner.IH [OF c]
    show "distinct (map fst (?part b))" unfolding c option.sel by (rule conjunct1 [OF ih])
    show "(j, v) \<in> set (?part b) \<longleftrightarrow> j \<in> K \<and> prefix (p @ pre @ [b]) j \<and> art_value (find_child b n) j (length (p @ pre @ [b])) = Some v"
      unfolding c option.sel using conjunct2 [OF ih] by blast
  qed
  have "(j, v) \<in> set (collect_tree (ARTInner plen pre n)) \<longleftrightarrow>
      j \<in> K \<and> prefix p j \<and> art_value (Some (ARTInner plen pre n)) j (length p) = Some v" for j v
  proof
    assume "(j, v) \<in> set (collect_tree (ARTInner plen pre n))"
    then obtain b where b: "b \<in> set bs" "(j, v) \<in> set (?part b)" unfolding col by auto
    note in_part = iffD1 [OF part(2) [OF b(1)] b(2)]
    have j: "j \<in> K" "prefix p j" "prefix (p @ pre) j" "j ! length (p @ pre) = b"
      using in_part prefix_byte [of "p @ pre" b j] by (auto dest: append_prefixD)
    show "j \<in> K \<and> prefix p j \<and> art_value (Some (ARTInner plen pre n)) j (length p) = Some v"
      using j in_part unfolding value_inner [OF K ok j(1,2)] by simp
  next
    assume j: "j \<in> K \<and> prefix p j \<and> art_value (Some (ARTInner plen pre n)) j (length p) = Some v"
    then have "j \<in> K" "prefix p j" by blast+
    note val = value_inner [OF K ok this]
    let ?b = "j ! length (p @ pre)"
    have in': "prefix (p @ pre) j" and v: "art_value (find_child ?b n) j (Suc (length (p @ pre))) = Some v"
      using j unfolding val by (auto split: if_splits)
    have "length (p @ pre) < length j" using longer [OF K inner.hyps(3,4) _ in'] j by blast
    then have q: "prefix (p @ pre @ [?b]) j" using prefix_byte [of "p @ pre" ?b j] in' by simp
    have "find_child ?b n \<noteq> None" using v art_value_base(1) by (metis option.distinct(1))
    then have b: "?b \<in> set bs" using bs(2) by blast
    have "(j, v) \<in> set (?part ?b)" unfolding part(2) [OF b] using j q v by simp
    then show "(j, v) \<in> set (collect_tree (ARTInner plen pre n))" unfolding col using b by auto
  qed
  moreover have "distinct (map fst (concat (map ?part bs)))"
    using bs(1) part
  proof (induction bs)
    case (Cons b bs)
    have "fst ` set (?part b) \<inter> fst ` set (concat (map ?part bs)) = {}"
    proof -
      have "b = b'" if "(j, v) \<in> set (?part b)" "(j, v') \<in> set (?part b')" "b' \<in> set bs" for j v v' b'
      proof -
        have "prefix (p @ pre @ [b]) j" "prefix (p @ pre @ [b']) j"
          using Cons.prems(3) [of b j v] Cons.prems(3) [of b' j v'] that by auto
        then show ?thesis using prefix_byte [of "p @ pre" b j] prefix_byte [of "p @ pre" b' j] by simp
      qed
      then show ?thesis using Cons.prems(1) by fastforce
    qed
    then show ?case using Cons by (simp add: map_concat comp_def image_UN)
  qed simp
  ultimately show ?case unfolding col [symmetric] by blast
qed (auto simp: art_ok_leaf)

section \<open>\<open>ARTIterator\<close>\<close>

record art_iterator =
  ai_root :: "art_tree option"
  ai_options :: iterator_options
  ai_items :: "entry list"
  ai_index :: nat

text \<open>
  \<open>std::sort\<close> by the keys, which are distinct: up, or down when the options say \<open>reverse\<close>.
\<close>

definition ARTIterator_collect_items :: "art_iterator \<Rightarrow> art_iterator" where
  "ARTIterator_collect_items it =
     (let items = ARTIndex_collect_all (ai_root it) []
      in it\<lparr>ai_items := if io_reverse (ai_options it) then rev (sort_key fst items) else sort_key fst items\<rparr>)"

definition ARTIterator_valid :: "art_iterator \<Rightarrow> bool" where
  "ARTIterator_valid it \<longleftrightarrow> ai_index it < length (ai_items it)"

definition ARTIterator_key :: "art_iterator \<Rightarrow> bytes res" where
  "ARTIterator_key it =
     (if \<not> ARTIterator_valid it then Inl (BitcaskException ''Iterator is not valid'')
      else Inr (fst (ai_items it ! ai_index it)))"

definition ARTIterator_value :: "art_iterator \<Rightarrow> log_record_pos res" where
  "ARTIterator_value it =
     (if \<not> ARTIterator_valid it then Inl (BitcaskException ''Iterator is not valid'')
      else Inr (snd (ai_items it ! ai_index it)))"

text \<open>\<open>while (valid() && !key_matches_prefix(key())) current_index_++\<close>\<close>

definition skip_unmatched :: "art_iterator \<Rightarrow> art_iterator" where
  "skip_unmatched it =
     it\<lparr>ai_index := ai_index it +
          find_index (key_matches_prefix (io_prefix (ai_options it))) (drop (ai_index it) (ai_items it))\<rparr>"

definition ARTIterator_rewind :: "art_iterator \<Rightarrow> art_iterator" where
  "ARTIterator_rewind it = skip_unmatched (it\<lparr>ai_index := 0\<rparr>)"

definition ARTIterator_seek :: "bytes \<Rightarrow> art_iterator \<Rightarrow> art_iterator" where
  "ARTIterator_seek key it = skip_unmatched (it\<lparr>ai_index := find_index (\<lambda>k. \<not> k < key) (ai_items it)\<rparr>)"

definition ARTIterator_next :: "art_iterator \<Rightarrow> art_iterator" where
  "ARTIterator_next it =
     (if ARTIterator_valid it then skip_unmatched (it\<lparr>ai_index := ai_index it + 1\<rparr>) else it)"

definition ARTIterator_close :: "art_iterator \<Rightarrow> art_iterator" where
  "ARTIterator_close it = it\<lparr>ai_items := [], ai_index := 0\<rparr>"

definition ARTIterator_new :: "art_tree option \<Rightarrow> iterator_options \<Rightarrow> art_iterator" where
  "ARTIterator_new tree options =
     ARTIterator_rewind (ARTIterator_collect_items
       \<lparr>ai_root = tree, ai_options = options, ai_items = [], ai_index = 0\<rparr>)"

text \<open>
  The entries from the current position on that have the prefix; the position itself has it, or is
  the end.
\<close>

definition ai_match :: "art_iterator \<Rightarrow> entry \<Rightarrow> bool" where
  "ai_match it e \<longleftrightarrow> key_matches_prefix (io_prefix (ai_options it)) (fst e)"

definition ai_rest :: "art_iterator \<Rightarrow> entry list" where
  "ai_rest it = filter (ai_match it) (drop (ai_index it) (ai_items it))"

definition ai_full :: "art_iterator \<Rightarrow> entry list" where
  "ai_full it = filter (ai_match it) (ai_items it)"

definition ai_entry :: "art_iterator \<Rightarrow> entry" where
  "ai_entry it = ai_items it ! ai_index it"

definition ai_ok :: "art_iterator \<Rightarrow> bool" where
  "ai_ok it \<longleftrightarrow> (ARTIterator_valid it \<longrightarrow> ai_match it (ai_entry it))"

lemma ai_match_fun: "ai_match it = (\<lambda>e. key_matches_prefix (io_prefix (ai_options it)) (fst e))"
  by (simp add: ai_match_def fun_eq_iff)

lemma find_index_at: "find_index P m < length m \<Longrightarrow> P (fst (m ! find_index P m))"
  by (induction P m rule: find_index.induct) auto

lemma filter_find_index: "filter (\<lambda>e. P (fst e)) (drop (find_index P m) m) = filter (\<lambda>e. P (fst e)) m"
  by (induction P m rule: find_index.induct) auto

lemma skip_unmatched_is:
  "ai_ok (skip_unmatched it)" "ai_rest (skip_unmatched it) = ai_rest it" "ai_full (skip_unmatched it) = ai_full it"
proof -
  let ?P = "key_matches_prefix (io_prefix (ai_options it))" and ?d = "drop (ai_index it) (ai_items it)"
  note m = ai_match_fun
  show "ai_ok (skip_unmatched it)"
    using find_index_at [of ?P ?d] unfolding ai_ok_def
    by (auto simp: m skip_unmatched_def ARTIterator_valid_def ai_entry_def)
  show "ai_rest (skip_unmatched it) = ai_rest it"
    using filter_find_index [of ?P ?d] by (simp add: ai_rest_def m skip_unmatched_def add.commute)
  show "ai_full (skip_unmatched it) = ai_full it" by (simp add: ai_full_def m skip_unmatched_def)
qed

lemma ai_rest_now:
  assumes "ai_ok it"
  shows "ai_rest it = (if ARTIterator_valid it
    then ai_entry it # filter (ai_match it) (drop (Suc (ai_index it)) (ai_items it)) else [])"
  using assms by (auto simp: ai_rest_def ai_ok_def ARTIterator_valid_def ai_entry_def Cons_nth_drop_Suc [symmetric])

lemma rewound: "ai_ok (ARTIterator_rewind it)" "ai_rest (ARTIterator_rewind it) = ai_full it"
    "ai_full (ARTIterator_rewind it) = ai_full it"
  unfolding ARTIterator_rewind_def by (simp_all add: skip_unmatched_is) (simp_all add: ai_rest_def ai_full_def ai_match_fun)

interpretation ai: index_iterator ai_ok ai_rest ai_full ARTIterator_rewind
    ARTIterator_next ARTIterator_valid ai_entry
proof unfold_locales
  fix it :: art_iterator
  show "ai_rest (ARTIterator_rewind it) = ai_full it" by (rule rewound)
  show "ai_ok (ARTIterator_rewind it) \<and> ai_full (ARTIterator_rewind it) = ai_full it" using rewound by blast
  assume ok: "ai_ok it"
  show "ARTIterator_valid it = (ai_rest it \<noteq> [])" unfolding ai_rest_now [OF ok] by simp
  show "ai_rest it \<noteq> [] \<Longrightarrow> ai_entry it = hd (ai_rest it)" unfolding ai_rest_now [OF ok] by (auto split: if_splits)
  show "ai_rest (ARTIterator_next it) = tl (ai_rest it)"
    unfolding ARTIterator_next_def ai_rest_now [OF ok]
    by (simp add: skip_unmatched_is ai_rest_now [OF ok]) (simp add: ai_rest_def ai_match_fun)
  show "ai_ok (ARTIterator_next it) \<and> ai_full (ARTIterator_next it) = ai_full it"
    using ok unfolding ARTIterator_next_def by (simp add: skip_unmatched_is) (simp add: ai_full_def ai_match_fun)
qed

lemma art_run_ok:
  "keys_fit K \<Longrightarrow> tree_ok K tree \<Longrightarrow> fst ` set ops \<subseteq> K \<Longrightarrow> tree_ok K (art_run ops tree)"
proof (induction ops tree rule: art_run.induct)
  case (2 key v ops tree)
  then show ?case using insert_root(1) [of K tree key v]
    by (cases "ARTIndex_insert tree key v 0") auto
next
  case (3 key ops tree)
  then show ?case using delete_root(1) [of K tree key]
    by (cases "ARTIndex_delete_node tree key 0") auto
qed simp

lemma sorted_entries:
  assumes K: "keys_fit K" and tree: "tree_ok K tree"
  shows "ordered (sort_key fst (ARTIndex_collect_all tree []))"
    and "(k, v) \<in> set (ARTIndex_collect_all tree []) \<longleftrightarrow> k \<in> K \<and> found_value (ARTIndex_search tree k) = Some v"
proof -
  have col: "distinct (map fst (ARTIndex_collect_all tree [])) \<and>
      ((k, v) \<in> set (ARTIndex_collect_all tree []) \<longleftrightarrow> k \<in> K \<and> art_value tree k 0 = Some v)" for k v
  proof (cases tree)
    case (Some t)
    then have "art_ok K [] t" using tree by (simp add: tree_ok_def)
    from collect_tree_is [OF K this] show ?thesis using Some by (simp add: ARTIndex_collect_all_def)
  qed (simp add: ARTIndex_collect_all_def)
  show "(k, v) \<in> set (ARTIndex_collect_all tree []) \<longleftrightarrow> k \<in> K \<and> found_value (ARTIndex_search tree k) = Some v"
    using conjunct2 [OF col] unfolding art_value_search .
  let ?es = "ARTIndex_collect_all tree []"
  have "distinct (map fst (sort_key fst ?es))" using conjunct1 [OF col] by (simp add: distinct_map)
  then show "ordered (sort_key fst ?es)" unfolding ordered_def by (simp add: strict_sorted_iff)
qed

text \<open>
  A loop over an \<open>ARTIterator\<close> meets the entries that are in the tree and have the prefix of the
  options, each once, in the order of their keys, up or down.
\<close>

theorem ARTIterator_visits:
  assumes K: "keys_fit K" and ops: "fst ` set ops \<subseteq> K" and tree: "tree = art_run ops None"
  shows "\<exists>es. ordered es \<and> (\<forall>k\<in>K. map_find k es = (case map_of (rev ops) k of Some r \<Rightarrow> r | None \<Rightarrow> None)) \<and>
    fst ` set es \<subseteq> K \<and>
    (\<forall>n \<ge> length es. visit ARTIterator_valid ai_entry ARTIterator_next n (ARTIterator_new tree opts) =
       filter (\<lambda>e. key_matches_prefix (io_prefix opts) (fst e)) (if io_reverse opts then rev es else es))"
proof (intro exI conjI ballI allI impI)
  let ?es = "sort_key fst (ARTIndex_collect_all tree [])"
  have none: "tree_ok K None" by (simp add: tree_ok_def)
  have ok: "tree_ok K tree" unfolding tree by (rule art_run_ok [OF K none ops])
  note ent = sorted_entries [OF K ok]
  show ord: "ordered ?es" by (rule ent(1))
  show "fst ` set ?es \<subseteq> K" using ent(2) by auto
  show "map_find k ?es = (case map_of (rev ops) k of Some r \<Rightarrow> r | None \<Rightarrow> None)" if k: "k \<in> K" for k
  proof -
    have "map_of ?es k = Some v \<longleftrightarrow> (k, v) \<in> set ?es" for v
      using ord unfolding ordered_def strict_sorted_iff by (intro map_of_eq_Some_iff) blast
    then have "map_of ?es k = Some v \<longleftrightarrow> found_value (ARTIndex_search tree k) = Some v" for v using ent(2) k by simp
    then have "map_of ?es k = found_value (ARTIndex_search tree k)" by (metis option.exhaust)
    also have "\<dots> = (case map_of (rev ops) k of Some r \<Rightarrow> r | None \<Rightarrow> None)"
      unfolding tree art_run_is [OF K none ops k] by (simp add: ARTIndex_search_def found_value_def split: option.split)
    finally show ?thesis unfolding map_find_map_of .
  qed
  fix n
  assume n: "length ?es \<le> n"
  let ?it = "ARTIterator_collect_items \<lparr>ai_root = tree, ai_options = opts, ai_items = [], ai_index = 0\<rparr>"
  have full: "ai_full ?it =
      filter (\<lambda>e. key_matches_prefix (io_prefix opts) (fst e)) (if io_reverse opts then rev ?es else ?es)"
    by (simp add: ai_full_def ai_match_fun ARTIterator_collect_items_def Let_def)
  have "length (ai_full ?it) \<le> n" unfolding full using n by (auto intro: order.trans [OF length_filter_le])
  then show "visit ARTIterator_valid ai_entry ARTIterator_next n (ARTIterator_new tree opts) =
      filter (\<lambda>e. key_matches_prefix (io_prefix opts) (fst e)) (if io_reverse opts then rev ?es else ?es)"
    unfolding full [symmetric] ARTIterator_new_def ai.visit_rest [OF rewound(1)] rewound(2) by simp
qed

theorem ARTIterator_visits_witness:
  "\<exists>es. ordered es \<and> map_find [1, 3] es = Some \<lparr>pos_fid = 0, pos_offset = 9, pos_size = 1\<rparr> \<and>
    (\<forall>n \<ge> length es. visit ARTIterator_valid ai_entry ARTIterator_next n
       (ARTIterator_new (art_run [([1, 2], Some \<lparr>pos_fid = 0, pos_offset = 7, pos_size = 1\<rparr>),
            ([1, 3], Some \<lparr>pos_fid = 0, pos_offset = 9, pos_size = 1\<rparr>), ([1, 2], None)] None)
          \<lparr>io_prefix = [1], io_reverse = True\<rparr>) =
       filter (\<lambda>e. key_matches_prefix [1] (fst e)) (rev es))"
proof -
  have "keys_fit {[1, 2], [1, 3]}" by (simp add: keys_fit_def)
  from ARTIterator_visits [OF this _ refl, of "[([1, 2], Some \<lparr>pos_fid = 0, pos_offset = 7, pos_size = 1\<rparr>),
            ([1, 3], Some \<lparr>pos_fid = 0, pos_offset = 9, pos_size = 1\<rparr>), ([1, 2], None)]"
      "\<lparr>io_prefix = [1], io_reverse = True\<rparr>"]
  show ?thesis by auto
qed

text \<open>
  \<open>seek\<close> of this class looks for the first key that is not smaller also when the iterator runs down,
  where the other iterators look for the first that is not greater: it stays at the greatest key.
\<close>

lemma ARTIterator_seek_down:
  assumes "ai_items it = e # es" "\<not> fst e < key" "io_prefix (ai_options it) = []"
  shows "ai_index (ARTIterator_seek key it) = 0"
  using assms by (cases e; cases es) (auto simp: ARTIterator_seek_def skip_unmatched_def)

end
