(* ===== verification/Db_Load.thy ===== *)
theory Db_Load
  imports Db
begin

text \<open>
  Rebuilding the index from the data files (\<open>DB::load_data_files\<close>, \<open>DB::load_index_from_data_files\<close>,
  \<open>DB::load_index_from_hint_file\<close> of \<open>src/db.cpp\<close>): every record of every file is read in order and
  replayed; records of a transaction wait until its end marker is read. The specification is
  \<open>replay\<close> on the list of records, and the lemmas show that loading computes it, that the loops end,
  and what a damaged or unfinished log yields.
\<close>

section \<open>Finding and opening the files\<close>

text \<open>
  The scan: file numbers from 0, at most 1000 of them, ending after five missing ones in a row once
  a file was found.
\<close>

definition MAX_CONSECUTIVE_MISSING :: nat where "MAX_CONSECUTIVE_MISSING = 5"
definition MAX_SCAN_FILES :: nat where "MAX_SCAN_FILES = 1000"

fun scan_files :: "string \<Rightarrow> fsys \<Rightarrow> u32 list \<Rightarrow> nat \<Rightarrow> nat list \<Rightarrow> u32 list" where
  "scan_files dir_path fs file_ids consecutive_missing [] = file_ids"
| "scan_files dir_path fs file_ids consecutive_missing (fid # fids) =
     (if file_exists (get_data_file_name dir_path (of_nat fid)) fs
      then scan_files dir_path fs (file_ids @ [of_nat fid]) 0 fids
      else if file_ids \<noteq> [] \<and> consecutive_missing + 1 \<ge> MAX_CONSECUTIVE_MISSING then file_ids
      else scan_files dir_path fs file_ids (consecutive_missing + 1) fids)"

text \<open>The files are opened in order; the last one is the active file.\<close>

fun open_files :: "u32 list \<Rightarrow> db \<Rightarrow> fsys \<Rightarrow> unit res \<times> db \<times> fsys" where
  "open_files [] db fs = (Inr (), db, fs)"
| "open_files (fid # fids) db fs =
     (let io_type = (if opt_mmap_at_startup (db_options db) then MEMORY_MAP else STANDARD_FIO) in
      case open_data_file (opt_dir_path (db_options db)) fid io_type fs of
        (Inl e, fs) \<Rightarrow> (Inl e, db, fs)
      | (Inr df, fs) \<Rightarrow>
          open_files fids
            (if fids = [] then db\<lparr>db_active_file := Some df\<rparr>
             else db\<lparr>db_older_files := AList.update fid df (db_older_files db)\<rparr>) fs)"

definition load_data_files :: "db \<Rightarrow> fsys \<Rightarrow> unit res \<times> db \<times> fsys" where
  "load_data_files db fs =
     (let file_ids = sort (scan_files (opt_dir_path (db_options db)) fs [] 0 [0..<MAX_SCAN_FILES]);
          db = db\<lparr>db_file_ids := file_ids\<rparr>
      in if file_ids = []
         then (if db_is_initial db then set_active_data_file db fs else (Inr (), db, fs))
         else open_files file_ids db fs)"

section \<open>Replaying the data files\<close>

text \<open>
  What the loop of \<open>load_index_from_data_files\<close> updates: the object (its index and its count of
  reclaimable bytes), the records of transactions without an end marker so far, and the largest
  sequence number seen.
\<close>

record load_state =
  ls_db :: db
  ls_txns :: "(u64 \<times> transaction_record list) list"
  ls_seq_no :: u64

definition update_index :: "bytes \<Rightarrow> log_record_type \<Rightarrow> log_record_pos \<Rightarrow> db \<Rightarrow> db" where
  "update_index key type pos db =
     (if type = DELETED
      then (case idx_remove key (db_index db) of
              ((old_pos, ok), i) \<Rightarrow> reclaim old_pos (reclaim (Some pos) (db\<lparr>db_index := i\<rparr>)))
      else (case idx_put key pos (db_index db) of
              (old_pos, i) \<Rightarrow> reclaim old_pos (db\<lparr>db_index := i\<rparr>)))"

definition apply_txn :: "transaction_record list \<Rightarrow> db \<Rightarrow> db" where
  "apply_txn ts db =
     fold (\<lambda>t. update_index (lr_key (tr_record t)) (lr_type (tr_record t)) (tr_pos t)) ts db"

definition load_record :: "log_record_pos \<Rightarrow> log_record \<Rightarrow> load_state \<Rightarrow> load_state" where
  "load_record pos r ls =
     (let (real_key, seq_no) = parse_log_record_key (lr_key r);
          ls =
            (if seq_no = NON_TRANSACTION_SEQ_NO
             then ls\<lparr>ls_db := update_index real_key (lr_type r) pos (ls_db ls)\<rparr>
             else if lr_type r = TXN_FINISHED
             then (case map_of (ls_txns ls) seq_no of
                     None \<Rightarrow> ls
                   | Some ts \<Rightarrow> ls\<lparr>ls_db := apply_txn ts (ls_db ls),
                                   ls_txns := AList.delete seq_no (ls_txns ls)\<rparr>)
             else (let ts = (case map_of (ls_txns ls) seq_no of None \<Rightarrow> [] | Some ts \<Rightarrow> ts);
                       t = \<lparr>tr_record = r\<lparr>lr_key := real_key\<rparr>, tr_pos = pos\<rparr>
                   in ls\<lparr>ls_txns := AList.update seq_no (ts @ [t]) (ls_txns ls)\<rparr>))
      in if seq_no > ls_seq_no ls then ls\<lparr>ls_seq_no := seq_no\<rparr> else ls)"

text \<open>
  The loop over one file: an exception other than the end of the file makes it try the next byte.
  The result is the final offset.
\<close>

fun load_file :: "nat \<Rightarrow> data_file \<Rightarrow> u32 \<Rightarrow> u64 \<Rightarrow> load_state \<Rightarrow> fsys \<Rightarrow> u64 res \<times> load_state" where
  "load_file 0 df fid offset ls fs = (Inl OutOfFuel, ls)"
| "load_file (Suc n) df fid offset ls fs =
     (case read_log_record df offset fs of
        Inr rr \<Rightarrow>
          load_file n df fid (offset + of_nat (rr_size rr))
            (load_record \<lparr>pos_fid = fid, pos_offset = offset, pos_size = of_nat (rr_size rr)\<rparr>
               (rr_record rr) ls) fs
      | Inl e \<Rightarrow>
          if e = ReadDataFileEOFError then (Inr offset, ls)
          else if \<not> catchable e then (Inl e, ls)
          else (case DataFile_file_size df fs of
                  Inl e \<Rightarrow> (Inl e, ls)
                | Inr sz \<Rightarrow>
                    if offset + 1 \<ge> sz then (Inr (offset + 1), ls)
                    else load_file n df fid (offset + 1) ls fs))"

definition file_fuel :: "data_file \<Rightarrow> fsys \<Rightarrow> nat" where
  "file_fuel df fs = (case io_size (df_io df) fs of None \<Rightarrow> 1 | Some n \<Rightarrow> Suc n)"

text \<open>After the loop over the active file, its write offset is the offset reached.\<close>

definition end_of_file :: "u32 \<Rightarrow> u64 \<Rightarrow> db \<Rightarrow> db" where
  "end_of_file fid offset db =
     (case db_active_file db of
        Some df \<Rightarrow> if df_file_id df = fid
                   then db\<lparr>db_active_file := Some (set_write_off offset df)\<rparr> else db
      | None \<Rightarrow> db)"

fun load_files :: "(u32 \<times> data_file) list \<Rightarrow> load_state \<Rightarrow> fsys \<Rightarrow> unit res \<times> load_state" where
  "load_files [] ls fs = (Inr (), ls)"
| "load_files ((fid, df) # files) ls fs =
     (case load_file (file_fuel df fs) df fid 0 ls fs of
        (Inl e, ls) \<Rightarrow> (Inl e, ls)
      | (Inr offset, ls) \<Rightarrow> load_files files (ls\<lparr>ls_db := end_of_file fid offset (ls_db ls)\<rparr>) fs)"

definition files_to_process :: "db \<Rightarrow> (u32 \<times> data_file) list" where
  "files_to_process db =
     List.map_filter (\<lambda>fid. map_option (Pair fid) (find_data_file fid db)) (db_file_ids db)
     @ (case db_active_file db of
          Some df \<Rightarrow> if df_file_id df \<in> set (db_file_ids db) then [] else [(df_file_id df, df)]
        | None \<Rightarrow> [])"

text \<open>
  The whole function. \<open>coins\<close> seeds a new skip list. The index of the B+ tree is kept and the
  records are replayed over it; it is written to its file at the end.
\<close>

definition load_index_from_data_files :: "(nat \<Rightarrow> bool) \<Rightarrow> db \<Rightarrow> fsys \<Rightarrow> unit res \<times> db \<times> fsys" where
  "load_index_from_data_files coins db fs =
     (if db_file_ids db = [] \<and> db_active_file db = None then (Inr (), db, fs)
      else
        bind_res
          (if opt_index_type (db_options db) \<noteq> BPLUS_TREE
           then (case create_indexer coins (opt_index_type (db_options db))
                        (opt_dir_path (db_options db)) fs of
                   (Inl e, fs) \<Rightarrow> (Inl e, db, fs)
                 | (Inr i, fs) \<Rightarrow> (Inr (), db\<lparr>db_index := i\<rparr>, fs))
           else (Inr (), db, fs))
          (\<lambda>_ (db, fs).
             let merge_fin_file = opt_dir_path (db_options db) @ ''/'' @ MERGE_FINISHED_FILE_NAME;
                 fs = (if file_exists merge_fin_file fs then fs_remove merge_fin_file fs else fs)
             in case load_files (files_to_process db)
                       \<lparr>ls_db = db, ls_txns = [], ls_seq_no = NON_TRANSACTION_SEQ_NO\<rparr> fs of
                  (Inl e, ls) \<Rightarrow> (Inl e, ls_db ls, fs)
                | (Inr _, ls) \<Rightarrow>
                    (let db = (ls_db ls)\<lparr>db_seq_no := ls_seq_no ls\<rparr> in
                     (Inr (), db,
                      if opt_index_type (db_options db) = BPLUS_TREE
                      then (case db_index db of BPlusTreeIdx t \<Rightarrow> BPlusTreeIndex_sync t fs | _ \<Rightarrow> fs)
                      else fs))))"

section \<open>The hint file\<close>

text \<open>Only the end of the file ends this loop in the regular way; every other exception leaves it.\<close>

fun load_hints :: "nat \<Rightarrow> data_file \<Rightarrow> u64 \<Rightarrow> index \<Rightarrow> fsys \<Rightarrow> unit res \<times> index" where
  "load_hints 0 df offset i fs = (Inl OutOfFuel, i)"
| "load_hints (Suc n) df offset i fs =
     (case read_log_record df offset fs of
        Inl e \<Rightarrow> (if e = ReadDataFileEOFError then Inr () else Inl e, i)
      | Inr rr \<Rightarrow>
          (case LogRecordPos_decode (lr_value (rr_record rr)) of
             Inl e \<Rightarrow> (if e = ReadDataFileEOFError then Inr () else Inl e, i)
           | Inr pos \<Rightarrow>
               load_hints n df (offset + of_nat (rr_size rr))
                 (snd (idx_put (lr_key (rr_record rr)) pos i)) fs))"

definition load_index_from_hint_file :: "db \<Rightarrow> fsys \<Rightarrow> unit res \<times> db \<times> fsys" where
  "load_index_from_hint_file db fs =
     (let dir = opt_dir_path (db_options db) in
      if \<not> file_exists (dir @ ''/'' @ HINT_FILE_NAME) fs then (Inr (), db, fs)
      else case open_hint_file dir fs of
        (Inl e, fs) \<Rightarrow> (Inl e, db, fs)
      | (Inr hint_file, fs) \<Rightarrow>
          (case load_hints (file_fuel hint_file fs) hint_file 0 (db_index db) fs of
             (r, i) \<Rightarrow> (r, db\<lparr>db_index := i\<rparr>, fs)))"

section \<open>The loops end\<close>

lemma decode_varint_catchable: "decode_varint b = Inl e \<Longrightarrow> catchable e"
proof -
  have "decode_varint_loop b p s r = Inl e \<Longrightarrow> catchable e" for b p s r
    by (induction b p s r rule: decode_varint_loop.induct) (auto simp: Let_def catchable_def split: if_splits)
  then show "decode_varint b = Inl e \<Longrightarrow> catchable e"
    by (auto simp: decode_varint_def catchable_def split: if_splits)
qed

lemma parse_record_catchable: "parse_record b = Inl e \<Longrightarrow> catchable e"
  using decode_varint_catchable
  by (auto simp: parse_record_def decode_log_record_header_def Let_def catchable_def
      split: if_splits sum.splits prod.splits)

lemma parse_record_size_le:
  assumes "parse_record b = Inr x"
  shows "rr_size x \<le> length b + 2 * MAX_RECORD_SIZE"
proof -
  from assms obtain h hs where "decode_log_record_header (take MAX_LOG_RECORD_HEADER_SIZE b) = Inr (h, hs)"
    and "rr_size x \<le> hs + 2 * MAX_RECORD_SIZE"
    by (auto simp: parse_record_def Let_def split: if_splits sum.splits prod.splits)
  then show ?thesis using header_size_le by fastforce
qed

lemma offset_advance:
  fixes off :: u64
  assumes "parse_record (drop (unat off) c) = Inr rr" "length c < 2 ^ 63"
  shows "unat (off + of_nat (rr_size rr)) = unat off + rr_size rr" "unat off < length c"
proof -
  show l: "unat off < length c"
  proof (rule ccontr)
    assume "\<not> unat off < length c"
    then have "parse_record (drop (unat off) c) = Inl ReadDataFileEOFError" by (simp add: parse_record_def)
    with assms show False by simp
  qed
  have "rr_size rr \<le> length c - unat off + 2 * MAX_RECORD_SIZE"
    using parse_record_size_le [OF assms(1)] by simp
  then show "unat (off + of_nat (rr_size rr)) = unat off + rr_size rr"
    using assms(2) l by (intro unat_add_of_nat) (simp add: MAX_RECORD_SIZE_def)
qed

lemma unat_Suc_off: "unat (off :: u64) < n \<Longrightarrow> n < 2 ^ 63 \<Longrightarrow> unat (off + 1) = unat off + 1"
  using unat_add_of_nat [of off 1] by simp

text \<open>The loop over a file of at most \<open>2 ^ 63\<close> bytes ends, whatever the file holds, and throws nothing.\<close>

lemma load_file_returns:
  assumes ok: "io_ok (df_io df) fs c" and len: "length c < 2 ^ 63" and "length c - unat off < n"
  shows "\<exists>off' ls'. load_file n df fid off ls fs = (Inr off', ls')"
  using assms(3)
proof (induction n arbitrary: off ls)
  case 0
  then show ?case by simp
next
  case (Suc n)
  note rd = read_log_record_parse [OF ok len, of off]
  show ?case
  proof (cases "parse_record (drop (unat off) c)")
    case (Inr rr)
    note adv = offset_advance [OF Inr len]
    have "0 < rr_size rr" using parse_record_size [OF Inr] by simp
    then have "length c - unat (off + of_nat (rr_size rr)) < n" using Suc.prems adv by linarith
    from Suc.IH [OF this] Inr show ?thesis by (simp add: rd)
  next
    case (Inl e)
    note c = parse_record_catchable [OF Inl]
    have sz: "DataFile_file_size df fs = Inr (of_nat (length c))"
      by (simp add: DataFile_file_size_def io_size_ok [OF ok])
    show ?thesis
    proof (cases "unat off < length c")
      case True
      then have "length c - unat (off + 1) < n" using Suc.prems unat_Suc_off [OF True len] by linarith
      from Suc.IH [OF this] Inl c show ?thesis by (simp add: rd sz)
    next
      case False
      then have "parse_record (drop (unat off) c) = Inl ReadDataFileEOFError" by (simp add: parse_record_def)
      then show ?thesis by (simp add: rd)
    qed
  qed
qed

lemma file_fuel_ok: "io_ok (df_io df) fs c \<Longrightarrow> file_fuel df fs = Suc (length c)"
  by (simp add: file_fuel_def io_size_ok)

text \<open>
  C33: loading ends: whatever bytes the data files hold (damaged records, a record cut short, the
  zeros of a mapping), the loops over the files return without an exception, so opening a database
  does not hang or fail because of the contents of its data files.
\<close>

theorem load_files_returns:
  assumes "\<And>fid df. (fid, df) \<in> set files \<Longrightarrow> \<exists>c. io_ok (df_io df) fs c \<and> length c < 2 ^ 63"
  shows "\<exists>ls'. load_files files ls fs = (Inr (), ls')"
  using assms
proof (induction files arbitrary: ls)
  case Nil
  then show ?case by simp
next
  case (Cons f files)
  obtain fid df where f: "f = (fid, df)" by (cases f)
  obtain c where c: "io_ok (df_io df) fs c" "length c < 2 ^ 63" using Cons.prems f by auto
  from load_file_returns [OF c, of 0 "file_fuel df fs" fid ls] file_fuel_ok [OF c(1)]
  obtain off' ls' where "load_file (file_fuel df fs) df fid 0 ls fs = (Inr off', ls')" by auto
  moreover obtain ls'' where
    "load_files files (ls'\<lparr>ls_db := end_of_file fid off' (ls_db ls')\<rparr>) fs = (Inr (), ls'')"
    using Cons.IH [OF Cons.prems] by fastforce
  ultimately show ?case using f by simp
qed

theorem load_files_returns_witness:
  "\<exists>ls'. load_files [(0, wit_df)]
     \<lparr>ls_db = wit_db, ls_txns = [], ls_seq_no = 0\<rparr>
     \<lparr>fs_files = [(''d/000000000.data'', [1, 2, 3, 4, 5, 200, 7, 8, 9])], fs_dirs = [''d''],
      fs_locks = [], fs_page_size = 4096\<rparr> = (Inr (), ls')"
  by (rule load_files_returns) (auto simp: io_ok_def fs_get_def)

section \<open>The specification: replaying a log\<close>

text \<open>
  A log is the sequence of records in the order in which they were appended, each with what the
  index will hold for it (its position, or nothing where only contents matter). Replaying it keeps
  the records that are the latest of their key, and the records of transactions that wait for
  their end marker.
\<close>

type_synonym 'p entries = "bytes \<Rightarrow> ('p \<times> log_record) option"
type_synonym 'p pending = "u64 \<Rightarrow> (bytes \<times> 'p \<times> log_record) list"

definition apply_entry :: "bytes \<times> 'p \<times> log_record \<Rightarrow> 'p entries \<Rightarrow> 'p entries" where
  "apply_entry e m = m(fst e := if lr_type (snd (snd e)) = DELETED then None else Some (snd e))"

definition replay_step :: "'p \<times> log_record \<Rightarrow> 'p entries \<times> 'p pending \<Rightarrow> 'p entries \<times> 'p pending" where
  "replay_step e st =
     (let k = fst (parse_log_record_key (lr_key (snd e)));
          s = snd (parse_log_record_key (lr_key (snd e)))
      in if s = NON_TRANSACTION_SEQ_NO then (apply_entry (k, e) (fst st), snd st)
         else if lr_type (snd e) = TXN_FINISHED
         then (fold apply_entry (snd st s) (fst st), (snd st)(s := []))
         else (fst st, (snd st)(s := snd st s @ [(k, e)])))"

definition replay :: "('p \<times> log_record) list \<Rightarrow> 'p entries \<times> 'p pending" where
  "replay es = fold replay_step es (Map.empty, \<lambda>_. [])"

text \<open>The contents that a log stands for: the values of the records that are not deleted.\<close>

definition committed :: "log_record list \<Rightarrow> bytes \<Rightarrow> bytes option" where
  "committed rs k = map_option (lr_value \<circ> snd) (fst (replay (map (Pair ()) rs)) k)"

lemma replay_Nil [simp]: "replay [] = (Map.empty, \<lambda>_. [])"
  by (simp add: replay_def)

lemma replay_snoc: "replay (es @ [e]) = replay_step e (replay es)"
  by (simp add: replay_def)

text \<open>What positions a log carries does not matter.\<close>

definition same_records :: "'p entries \<Rightarrow> 'q entries \<Rightarrow> bool" where
  "same_records m m' \<longleftrightarrow> (\<forall>k. map_option snd (m k) = map_option snd (m' k))"

abbreviation no_pos :: "(bytes \<times> 'p \<times> log_record) list \<Rightarrow> (bytes \<times> log_record) list" where
  "no_pos \<equiv> map (\<lambda>e. (fst e, snd (snd e)))"

definition same_pending :: "'p pending \<Rightarrow> 'q pending \<Rightarrow> bool" where
  "same_pending pend pend' \<longleftrightarrow> (\<forall>s. no_pos (pend s) = no_pos (pend' s))"

lemma same_records_apply:
  "same_records m m' \<Longrightarrow> fst e = fst e' \<Longrightarrow> snd (snd e) = snd (snd e') \<Longrightarrow>
   same_records (apply_entry e m) (apply_entry e' m')"
  by (simp add: same_records_def apply_entry_def)

lemma same_records_fold:
  "no_pos es = no_pos es' \<Longrightarrow> same_records m m' \<Longrightarrow>
   same_records (fold apply_entry es m) (fold apply_entry es' m')"
proof (induction es arbitrary: es' m m')
  case (Cons e es)
  obtain e' es'' where e': "es' = e' # es''" "no_pos es = no_pos es''"
    "fst e = fst e'" "snd (snd e) = snd (snd e')"
    using Cons.prems(1) by (cases es') auto
  from Cons.IH [OF e'(2) same_records_apply [OF Cons.prems(2) e'(3,4)]] e'(1) show ?case by simp
qed auto

lemma replay_step_records:
  assumes m: "same_records m m'" and pend: "same_pending pend pend'" and "snd e = snd e'"
  shows "same_records (fst (replay_step e (m, pend))) (fst (replay_step e' (m', pend')))
    \<and> same_pending (snd (replay_step e (m, pend))) (snd (replay_step e' (m', pend')))"
proof -
  have one: "same_records (apply_entry (k, e) m) (apply_entry (k, e') m')" for k
    using assms(3) by (intro same_records_apply [OF m]) simp_all
  have fin: "same_records (fold apply_entry (pend s) m) (fold apply_entry (pend' s) m')" for s
    using pend by (intro same_records_fold [OF _ m]) (simp add: same_pending_def)
  have "same_pending (pend(s := [])) (pend'(s := []))"
    "same_pending (pend(s := pend s @ [(k, e)])) (pend'(s := pend' s @ [(k, e')]))" for s k
    using pend assms(3) by (simp_all add: same_pending_def)
  then show ?thesis using one fin m pend by (simp add: replay_step_def Let_def assms(3))
qed

lemma replay_records:
  "map snd es = map snd es' \<Longrightarrow>
   same_records (fst (replay es)) (fst (replay es')) \<and> same_pending (snd (replay es)) (snd (replay es'))"
proof (induction es arbitrary: es' rule: rev_induct)
  case Nil
  then show ?case by (simp add: same_records_def same_pending_def)
next
  case (snoc e es)
  obtain e' es'' where es': "es' = es'' @ [e']" "map snd es = map snd es''" "snd e = snd e'"
    using snoc.prems by (cases es' rule: rev_cases) auto
  from replay_step_records [OF _ _ es'(3)] snoc.IH [OF es'(2)] show ?case
    unfolding es'(1) replay_snoc by (metis prod.collapse)
qed

lemma committed_replay:
  "committed (map snd es) k = map_option (lr_value \<circ> snd) (fst (replay es) k)"
proof -
  have "same_records (fst (replay (map (Pair ()) (map snd es)))) (fst (replay es))"
    using replay_records [of "map (Pair ()) (map snd es)" es] by (simp add: comp_def)
  then have "map_option lr_value (map_option snd (fst (replay (map (Pair ()) (map snd es))) k))
      = map_option lr_value (map_option snd (fst (replay es) k))" by (simp add: same_records_def)
  then show ?thesis by (simp add: committed_def option.map_comp)
qed

text \<open>The records that a replay keeps are records of the log.\<close>

lemma fold_apply_entry_in:
  "fold apply_entry es m k = Some x \<Longrightarrow> (k, x) \<notin> set es \<Longrightarrow> m k = Some x"
proof (induction es arbitrary: m)
  case (Cons e es)
  then have "apply_entry e m k = Some x" by simp
  with Cons.prems(2) show ?case by (auto simp: apply_entry_def split: if_splits)
qed simp

definition key_of :: "log_record \<Rightarrow> bytes" where
  "key_of r = fst (parse_log_record_key (lr_key r))"

definition seq_of :: "log_record \<Rightarrow> u64" where
  "seq_of r = snd (parse_log_record_key (lr_key r))"

text \<open>Entries under the key of their record, none of a deletion.\<close>

definition entries_ok :: "('p \<times> log_record) set \<Rightarrow> 'p entries \<Rightarrow> bool" where
  "entries_ok S m \<longleftrightarrow> (\<forall>k p r. m k = Some (p, r) \<longrightarrow> (p, r) \<in> S \<and> k = key_of r \<and> lr_type r \<noteq> DELETED)"

definition pending_ok :: "('p \<times> log_record) set \<Rightarrow> (bytes \<times> 'p \<times> log_record) list \<Rightarrow> bool" where
  "pending_ok S es \<longleftrightarrow> (\<forall>k p r. (k, p, r) \<in> set es \<longrightarrow> (p, r) \<in> S \<and> k = key_of r)"

lemma apply_entry_ok:
  "entries_ok S m \<Longrightarrow> (p, r) \<in> S \<Longrightarrow> k = key_of r \<Longrightarrow> entries_ok S (apply_entry (k, p, r) m)"
  by (auto simp: entries_ok_def apply_entry_def)

lemma fold_apply_entry_ok:
  "entries_ok S m \<Longrightarrow> pending_ok S es \<Longrightarrow> entries_ok S (fold apply_entry es m)"
proof (induction es arbitrary: m)
  case (Cons e es)
  obtain k p r where e: "e = (k, p, r)" by (cases e)
  have "(p, r) \<in> S" "k = key_of r" "pending_ok S es"
    using Cons.prems(2) by (auto simp: pending_ok_def e)
  with Cons.IH [OF apply_entry_ok [OF Cons.prems(1)]] show ?case by (simp add: e)
qed simp

lemma replay_ok: "entries_ok (set es) (fst (replay es)) \<and> (\<forall>s. pending_ok (set es) (snd (replay es) s))"
proof (induction es rule: rev_induct)
  case Nil
  then show ?case by (simp add: entries_ok_def pending_ok_def)
next
  case (snoc e es)
  obtain p r where e: "e = (p, r)" by (cases e)
  define m pend where "m = fst (replay es)" and "pend = snd (replay es)"
  let ?S = "set (es @ [e])"
  have m: "entries_ok ?S m" and pend: "pending_ok ?S (pend s)" for s
    using snoc.IH by (auto simp: m_def pend_def entries_ok_def pending_ok_def)
  have r: "replay (es @ [e]) = replay_step e (m, pend)" by (simp add: replay_snoc m_def pend_def)
  have one: "entries_ok ?S (apply_entry (key_of r, e) m)"
    using apply_entry_ok [OF m, of p r] e by simp
  have "pending_ok ?S (pend s @ [(key_of r, e)])" for s
    using pend [of s] by (auto simp: pending_ok_def e)
  then show ?case
    unfolding r using one m pend fold_apply_entry_ok [OF m pend]
    by (auto simp: replay_step_def Let_def key_of_def [symmetric] e pending_ok_def)
qed

section \<open>Loading is replaying\<close>

text \<open>Two states of the object that differ in the index and the count of reclaimable bytes only.\<close>

definition fixed_part :: "db \<Rightarrow> db" where
  "fixed_part db = db\<lparr>db_index := BTreeIdx [], db_reclaim_size := 0\<rparr>"

definition same_files :: "db \<Rightarrow> db \<Rightarrow> bool" where
  "same_files db db' \<longleftrightarrow> fixed_part db = fixed_part db'"

lemma same_files_refl [simp]: "same_files db db"
  by (simp add: same_files_def)

lemma same_files_trans: "same_files a b \<Longrightarrow> same_files b c \<Longrightarrow> same_files a c"
  by (simp add: same_files_def)

lemma fixed_part_simps [simp]:
  "db_active_file (fixed_part db) = db_active_file db" "db_older_files (fixed_part db) = db_older_files db"
  "db_options (fixed_part db) = db_options db" "db_file_ids (fixed_part db) = db_file_ids db"
  "db_file_lock_fd (fixed_part db) = db_file_lock_fd db" "db_is_merging (fixed_part db) = db_is_merging db"
  "db_seq_no (fixed_part db) = db_seq_no db"
  by (simp_all add: fixed_part_def)

lemma same_filesD:
  assumes "same_files db db'"
  shows "db_active_file db' = db_active_file db" "db_older_files db' = db_older_files db"
    "db_options db' = db_options db" "db_file_ids db' = db_file_ids db"
    "db_file_lock_fd db' = db_file_lock_fd db" "db_is_merging db' = db_is_merging db"
    "db_seq_no db' = db_seq_no db"
  using assms unfolding same_files_def by (metis fixed_part_simps)+

lemma same_files_update_index: "same_files db (update_index k t p db)"
  by (auto simp: same_files_def fixed_part_def update_index_def reclaim_def split: prod.split option.split)

lemma update_index_abs:
  assumes "idx_ok (db_index db)"
  shows "idx_ok (db_index (update_index k t p db))"
    and "idx_abs (db_index (update_index k t p db))
      = (idx_abs (db_index db))(k := if t = DELETED then None else Some p)"
  using ix.put_inv [OF assms, of k p] ix.put_abs [OF assms, of k p]
    ix.remove_inv [OF assms, of k] ix.remove_abs [OF assms, of k]
  by (auto simp: update_index_def split: prod.splits)

definition waiting :: "load_state \<Rightarrow> u64 \<Rightarrow> transaction_record list" where
  "waiting ls s = (case map_of (ls_txns ls) s of None \<Rightarrow> [] | Some ts \<Rightarrow> ts)"

definition txn_of :: "bytes \<times> log_record_pos \<times> log_record \<Rightarrow> transaction_record" where
  "txn_of e = \<lparr>tr_record = (snd (snd e))\<lparr>lr_key := fst e\<rparr>, tr_pos = fst (snd e)\<rparr>"

definition db_holds :: "db \<Rightarrow> log_record_pos entries \<Rightarrow> bool" where
  "db_holds db m \<longleftrightarrow> idx_ok (db_index db) \<and> in_memory (db_index db)
     \<and> idx_abs (db_index db) = map_option fst \<circ> m"

definition load_holds :: "load_state \<Rightarrow> log_record_pos entries \<times> log_record_pos pending \<Rightarrow> bool" where
  "load_holds ls st \<longleftrightarrow> db_holds (ls_db ls) (fst st) \<and> (\<forall>s. waiting ls s = map txn_of (snd st s))"

lemma update_index_in_memory:
  "in_memory (db_index (update_index key type pos db)) = in_memory (db_index db)"
  using in_memory_kept(1) [of key pos "db_index db"] in_memory_kept(2) [of key "db_index db"]
  by (auto simp: update_index_def reclaim_def simp del: in_memory_kept split: prod.split option.split)

lemma update_index_holds:
  assumes "db_holds db m"
  shows "db_holds (update_index k (lr_type r) p db) (apply_entry (k, p, r) m)"
  using assms update_index_abs [of db k "lr_type r" p] update_index_in_memory [of k "lr_type r" p db]
  by (auto simp: db_holds_def apply_entry_def fun_eq_iff)

lemma apply_txn_holds:
  "db_holds db m \<Longrightarrow> db_holds (apply_txn (map txn_of es) db) (fold apply_entry es m)
    \<and> same_files db (apply_txn (map txn_of es) db)"
proof (induction es arbitrary: db m)
  case Nil
  then show ?case by (simp add: apply_txn_def)
next
  case (Cons e es)
  obtain k p r where e: "e = (k, p, r)" by (cases e)
  have "db_holds (update_index k (lr_type r) p db) (apply_entry e m)"
    unfolding e by (rule update_index_holds [OF Cons.prems])
  from Cons.IH [OF this] same_files_trans [OF same_files_update_index]
  show ?case by (auto simp: apply_txn_def txn_of_def e)
qed

lemma waiting_simps [simp]:
  "waiting (ls\<lparr>ls_db := d\<rparr>) s = waiting ls s"
  "waiting (ls\<lparr>ls_seq_no := n\<rparr>) s = waiting ls s"
  "waiting (ls\<lparr>ls_txns := AList.update s' ts (ls_txns ls)\<rparr>) s = (if s = s' then ts else waiting ls s)"
  "waiting (ls\<lparr>ls_txns := AList.delete s' (ls_txns ls)\<rparr>) s = (if s = s' then [] else waiting ls s)"
  "waiting (ls\<lparr>ls_db := d, ls_txns := AList.delete s' (ls_txns ls)\<rparr>) s = (if s = s' then [] else waiting ls s)"
  by (simp_all add: waiting_def update_conv' delete_conv')

lemma load_record_holds:
  assumes holds: "load_holds ls st"
  shows "load_holds (load_record p r ls) (replay_step (p, r) st)"
    and "same_files (ls_db ls) (ls_db (load_record p r ls))"
    and "ls_seq_no (load_record p r ls) = max (ls_seq_no ls) (seq_of r)"
proof -
  obtain k s where ks: "parse_log_record_key (lr_key r) = (k, s)" by (cases "parse_log_record_key (lr_key r)")
  note db = holds [unfolded load_holds_def, THEN conjunct1]
    and wait = holds [unfolded load_holds_def, THEN conjunct2, rule_format]
  note upd = update_index_holds [OF db, of k r p]
    and fin = apply_txn_holds [OF db, of "snd st s"]
    and fr = same_files_update_index [of "ls_db ls" k "lr_type r" p]
  have none: "snd st s = []" if "map_of (ls_txns ls) s = None"
    using that wait [of s] by (simp add: waiting_def)
  have some: "ts = map txn_of (snd st s)" if "map_of (ls_txns ls) s = Some ts" for ts
    using that wait [of s] by (simp add: waiting_def)
  show "load_holds (load_record p r ls) (replay_step (p, r) st)"
    using upd fin db wait none some
    by (auto simp: load_record_def replay_step_def load_holds_def ks Let_def waiting_def [symmetric]
        txn_of_def split: option.split)
  show "same_files (ls_db ls) (ls_db (load_record p r ls))"
    using fin fr some by (auto simp: load_record_def ks Let_def split: option.split)
  show "ls_seq_no (load_record p r ls) = max (ls_seq_no ls) (seq_of r)"
    by (auto simp: load_record_def ks Let_def seq_of_def max_def split: option.split)
qed

lemma load_records_hold:
  "load_holds ls st \<Longrightarrow>
   load_holds (fold (\<lambda>(p, r). load_record p r) es ls) (fold replay_step es st)
   \<and> same_files (ls_db ls) (ls_db (fold (\<lambda>(p, r). load_record p r) es ls))
   \<and> ls_seq_no (fold (\<lambda>(p, r). load_record p r) es ls) = fold (\<lambda>e n. max n (seq_of (snd e))) es (ls_seq_no ls)"
proof (induction es arbitrary: ls st)
  case (Cons e es)
  obtain p r where e: "e = (p, r)" by (cases e)
  from load_record_holds [OF Cons.prems, of p r] Cons.IH [of "load_record p r ls" "replay_step (p, r) st"]
    same_files_trans
  show ?case by (auto simp: e)
qed simp

section \<open>Files that hold a log\<close>

abbreviation encs :: "log_record list \<Rightarrow> bytes" where
  "encs rs \<equiv> concat (map (\<lambda>r. fst (LogRecord_encode r)) rs)"

text \<open>The entries of records that lie one after the other in file \<open>fid\<close> from offset \<open>off\<close> on.\<close>

fun layout :: "u32 \<Rightarrow> nat \<Rightarrow> log_record list \<Rightarrow> (log_record_pos \<times> log_record) list" where
  "layout fid off [] = []"
| "layout fid off (r # rs) =
     (\<lparr>pos_fid = fid, pos_offset = of_nat off, pos_size = of_nat (length (enc r))\<rparr>, r)
       # layout fid (off + length (enc r)) rs"

lemma map_snd_layout [simp]: "map snd (layout fid off rs) = rs"
  by (induction rs arbitrary: off) simp_all

lemma layout_append:
  "layout fid off (rs @ rs') = layout fid off rs @ layout fid (off + length (encs rs)) rs'"
  by (induction rs arbitrary: off) (simp_all add: add.assoc)

text \<open>
  A file that holds records: their encodings, then bytes in which the reader finds the end of the
  file (none, fewer than five, or zeros of a mapping).
\<close>

definition holds_log :: "bytes \<Rightarrow> log_record list \<Rightarrow> bool" where
  "holds_log c rs \<longleftrightarrow>
     length c < 2 ^ 63 \<and> (\<forall>r \<in> set rs. readable r)
     \<and> (\<exists>pad. c = encs rs @ pad \<and> parse_record pad = Inl ReadDataFileEOFError)"

lemma length_encs_ge: "length rs \<le> length (encs rs)"
proof (induction rs)
  case (Cons r rs)
  have "0 < length (enc r)" by (simp only: length_greater_0_conv enc_not_Nil not_False_eq_True)
  then have "Suc (length rs) \<le> length (enc r) + length (encs rs)" using Cons by linarith
  then show ?case by simp
qed simp

lemma holds_log_length: "holds_log c rs \<Longrightarrow> length (encs rs) \<le> length c"
  by (auto simp: holds_log_def)

lemma layout_stored:
  assumes "(p, r) \<in> set (layout fid off rs)" "drop off c = encs rs @ pad" "off \<le> length c" "length c < 2 ^ 63"
  shows "pos_fid p = fid \<and> stored_at c (off + length (encs rs)) (unat (pos_offset p)) r"
  using assms
proof (induction rs arbitrary: off)
  case Nil
  then show ?case by simp
next
  case (Cons r' rs)
  let ?n = "length (enc r')"
  have l: "off + ?n + length (encs rs) + length pad = length c"
    using arg_cong [OF Cons.prems(2), of length] Cons.prems(3) by simp
  show ?case
  proof (cases "(p, r) \<in> set (layout fid (off + ?n) rs)")
    case True
    have "drop (off + ?n) c = drop ?n (drop off c)" by (simp add: add.commute)
    then have d: "drop (off + ?n) c = encs rs @ pad" using Cons.prems(2) by simp
    have "off + ?n \<le> length c" using l by linarith
    from Cons.IH [OF True d this Cons.prems(4)] show ?thesis by (simp add: add.assoc)
  next
    case False
    have "unat (of_nat off :: u64) = off" using l Cons.prems(4) by (intro unat_of_nat_u64) simp
    with False Cons.prems(1,2) show ?thesis by (simp add: stored_at_def)
  qed
qed

lemma load_file_layout:
  assumes ok: "io_ok (df_io df) fs c" and len: "length c < 2 ^ 63"
    and rs: "\<forall>r \<in> set rs. readable r" and pad: "parse_record pad = Inl ReadDataFileEOFError"
    and "drop off c = encs rs @ pad" "off \<le> length c" "length rs < n"
  shows "load_file n df fid (of_nat off) ls fs =
    (Inr (of_nat (off + length (encs rs))), fold (\<lambda>(p, r). load_record p r) (layout fid off rs) ls)"
  using rs assms(5-)
proof (induction rs arbitrary: off n ls)
  case Nil
  have "unat (of_nat off :: u64) = off" using Nil.prems len by (intro unat_of_nat_u64) simp
  then have "read_log_record df (of_nat off) fs = Inl ReadDataFileEOFError"
    using read_log_record_parse [OF ok len, of "of_nat off"] pad Nil.prems(2) by simp
  with Nil.prems(4) show ?case by (cases n) simp_all
next
  case (Cons r rs)
  obtain n' where n: "n = Suc n'" "length rs < n'" using Cons.prems(4) by (cases n) auto
  have l: "off + length (enc r) \<le> length c"
    using arg_cong [OF Cons.prems(2), of length] Cons.prems(3) by simp
  have off: "unat (of_nat off :: u64) = off" using l len by (intro unat_of_nat_u64) simp
  have "drop off c = enc r @ (encs rs @ pad)" using Cons.prems(2) by simp
  then have rd: "read_log_record df (of_nat off) fs = Inr \<lparr>rr_record = r, rr_size = length (enc r)\<rparr>"
    using read_log_record_parse [OF ok len, of "of_nat off"] parse_record_enc Cons.prems(1)
    by (simp add: off)
  have "drop (off + length (enc r)) c = drop (length (enc r)) (drop off c)" by (simp add: add.commute)
  then have d: "drop (off + length (enc r)) c = encs rs @ pad" using Cons.prems(2) by simp
  from Cons.IH [OF _ d l n(2)] Cons.prems(1) show ?case
    by (simp add: n(1) rd add.assoc)
qed

lemma load_file_log:
  assumes "io_ok (df_io df) fs c" "holds_log c rs"
  shows "load_file (file_fuel df fs) df fid 0 ls fs =
    (Inr (of_nat (length (encs rs))), fold (\<lambda>(p, r). load_record p r) (layout fid 0 rs) ls)"
proof -
  obtain pad where c: "c = encs rs @ pad" "parse_record pad = Inl ReadDataFileEOFError" "length c < 2 ^ 63"
    "\<forall>r \<in> set rs. readable r"
    using assms(2) by (auto simp: holds_log_def)
  have "length rs < file_fuel df fs"
    using length_encs_ge [of rs] by (simp add: file_fuel_ok [OF assms(1)] c(1))
  then show ?thesis
    using load_file_layout [OF assms(1) c(3,4,2), of 0 "file_fuel df fs" fid ls] c(1) by simp
qed

text \<open>The log of several files, one after the other.\<close>

definition log_of :: "(u32 \<Rightarrow> log_record list) \<Rightarrow> u32 list \<Rightarrow> (log_record_pos \<times> log_record) list" where
  "log_of logs fids = concat (map (\<lambda>fid. layout fid 0 (logs fid)) fids)"

lemma log_of_simps [simp]:
  "log_of logs [] = []" "log_of logs (fid # fids) = layout fid 0 (logs fid) @ log_of logs fids"
  "log_of logs (fids @ fids') = log_of logs fids @ log_of logs fids'"
  by (simp_all add: log_of_def)

definition log_end :: "(u32 \<Rightarrow> log_record list) \<Rightarrow> u32 \<Rightarrow> u64" where
  "log_end logs fid = of_nat (length (encs (logs fid)))"

text \<open>The active file ready for appending, if it is among those that were read.\<close>

definition active_ended :: "(u32 \<Rightarrow> log_record list) \<Rightarrow> u32 list \<Rightarrow> db \<Rightarrow> db" where
  "active_ended logs fids db =
     (case db_active_file db of
        None \<Rightarrow> db
      | Some df \<Rightarrow> if df_file_id df \<in> set fids
                   then db\<lparr>db_active_file := Some (set_write_off (log_end logs (df_file_id df)) df)\<rparr>
                   else db)"

lemma active_ended_Cons:
  "active_ended logs (fid # fids) db = active_ended logs fids (end_of_file fid (log_end logs fid) db)"
  by (auto simp: active_ended_def end_of_file_def set_write_off_def split: option.split)

lemma end_of_file_fixed: "fixed_part (end_of_file fid off db) = end_of_file fid off (fixed_part db)"
  by (auto simp: end_of_file_def fixed_part_def split: option.split)

lemma end_of_file_index [simp]: "db_index (end_of_file fid off db) = db_index db"
  by (simp add: end_of_file_def split: option.split)

lemma load_files_log:
  assumes "\<forall>(fid, df) \<in> set files. \<exists>c. io_ok (df_io df) fs c \<and> holds_log c (logs fid)"
    and "load_holds ls st"
  shows "\<exists>ls'. load_files files ls fs = (Inr (), ls')
    \<and> load_holds ls' (fold replay_step (log_of logs (map fst files)) st)
    \<and> fixed_part (ls_db ls') = active_ended logs (map fst files) (fixed_part (ls_db ls))
    \<and> ls_seq_no ls' = fold (\<lambda>e n. max n (seq_of (snd e))) (log_of logs (map fst files)) (ls_seq_no ls)"
  using assms
proof (induction files arbitrary: ls st)
  case Nil
  then show ?case by (simp add: active_ended_def split: option.split)
next
  case (Cons f files)
  obtain fid df where f: "f = (fid, df)" by (cases f)
  obtain c where c: "io_ok (df_io df) fs c" "holds_log c (logs fid)"
    using Cons.prems(1) f by auto
  let ?es = "layout fid 0 (logs fid)"
  define ls1 where "ls1 = fold (\<lambda>(p, r). load_record p r) ?es ls"
  define ls2 where "ls2 = ls1\<lparr>ls_db := end_of_file fid (log_end logs fid) (ls_db ls1)\<rparr>"
  have run: "load_file (file_fuel df fs) df fid 0 ls fs = (Inr (log_end logs fid), ls1)"
    using load_file_log [OF c, of fid ls] by (simp add: ls1_def log_end_def)
  have ls1: "load_holds ls1 (fold replay_step ?es st)" "same_files (ls_db ls) (ls_db ls1)"
    "ls_seq_no ls1 = fold (\<lambda>e n. max n (seq_of (snd e))) ?es (ls_seq_no ls)"
    using load_records_hold [OF Cons.prems(2), of ?es] by (simp_all add: ls1_def)
  have "load_holds ls2 (fold replay_step ?es st)"
    using ls1(1) by (simp add: ls2_def load_holds_def db_holds_def)
  then obtain ls' where ls': "load_files files ls2 fs = (Inr (), ls')"
    "load_holds ls' (fold replay_step (log_of logs (map fst files)) (fold replay_step ?es st))"
    "fixed_part (ls_db ls') = active_ended logs (map fst files) (fixed_part (ls_db ls2))"
    "ls_seq_no ls' = fold (\<lambda>e n. max n (seq_of (snd e))) (log_of logs (map fst files)) (ls_seq_no ls2)"
    using Cons.IH [of ls2] Cons.prems(1) by fastforce
  have "fixed_part (ls_db ls2) = end_of_file fid (log_end logs fid) (fixed_part (ls_db ls))"
    using ls1(2) by (simp add: ls2_def end_of_file_fixed same_files_def)
  then show ?case
    using ls' run ls1(3) by (simp add: f active_ended_Cons ls2_def)
qed

section \<open>Rebuilding the index\<close>

text \<open>
  An object whose files are open and hold the given logs: its files to process are all found under
  their numbers, and the active file is one of them.
\<close>

definition files_hold :: "db \<Rightarrow> fsys \<Rightarrow> (u32 \<Rightarrow> log_record list) \<Rightarrow> u32 list \<Rightarrow> bool" where
  "files_hold db fs logs fids \<longleftrightarrow>
     map fst (files_to_process db) = fids
     \<and> (\<forall>fid \<in> set fids. \<exists>df c. find_data_file fid db = Some df \<and> df_file_id df = fid
          \<and> io_path (df_io df) = data_name db fid \<and> io_ok (df_io df) fs c \<and> holds_log c (logs fid))
     \<and> (\<exists>df. db_active_file db = Some df \<and> df_file_id df \<in> set fids)"

lemma find_data_file_frame:
  "db_active_file db' = db_active_file db \<Longrightarrow> db_older_files db' = db_older_files db \<Longrightarrow>
   find_data_file fid db' = find_data_file fid db"
  by (simp only: find_data_file_def)

lemma files_to_process_frame:
  "db_active_file db' = db_active_file db \<Longrightarrow> db_older_files db' = db_older_files db \<Longrightarrow>
   db_file_ids db' = db_file_ids db \<Longrightarrow> files_to_process db' = files_to_process db"
  by (simp only: files_to_process_def find_data_file_def)

lemma files_to_process_find:
  "(fid, df) \<in> set (files_to_process db) \<Longrightarrow> find_data_file fid db = Some df"
proof -
  assume "(fid, df) \<in> set (files_to_process db)"
  then consider f where "map_option (Pair f) (find_data_file f db) = Some (fid, df)"
    | "db_active_file db = Some df" "df_file_id df = fid"
    unfolding files_to_process_def set_append
    by (auto simp: List.map_filter_def split: option.splits if_splits)
  then show ?thesis by cases (auto simp: find_data_file_def)
qed

definition max_seq :: "('p \<times> log_record) list \<Rightarrow> u64" where
  "max_seq es = fold (\<lambda>e n. max n (seq_of (snd e))) es NON_TRANSACTION_SEQ_NO"

lemma load_index_log:
  assumes files: "files_hold db fs logs fids" and type: "opt_index_type (db_options db) \<noteq> BPLUS_TREE"
    and nofin: "\<not> file_exists (opt_dir_path (db_options db) @ ''/'' @ MERGE_FINISHED_FILE_NAME) fs"
  shows "\<exists>db'. load_index_from_data_files coins db fs = (Inr (), db', fs)
    \<and> db_holds db' (fst (replay (log_of logs fids)))
    \<and> fixed_part db' = active_ended logs fids (fixed_part db)\<lparr>db_seq_no := max_seq (log_of logs fids)\<rparr>
    \<and> db_seq_no db' = max_seq (log_of logs fids)"
proof -
  obtain i where i: "create_indexer coins (opt_index_type (db_options db)) (opt_dir_path (db_options db)) fs
      = (Inr i, fs)" "idx_ok i" "idx_abs i = Map.empty" "in_memory i"
    using create_indexer_new [OF type] by blast
  let ?db = "db\<lparr>db_index := i\<rparr>"
  let ?ls = "\<lparr>ls_db = ?db, ls_txns = [], ls_seq_no = NON_TRANSACTION_SEQ_NO\<rparr>"
  have fp: "files_to_process ?db = files_to_process db"
    by (rule files_to_process_frame) simp_all
  have ids: "map fst (files_to_process db) = fids" using files by (simp add: files_hold_def)
  have "\<forall>(fid, df) \<in> set (files_to_process db). \<exists>c. io_ok (df_io df) fs c \<and> holds_log c (logs fid)"
  proof clarify
    fix fid df assume m: "(fid, df) \<in> set (files_to_process db)"
    then have "fid \<in> set fids" using ids by force
    from files this obtain df' c where "find_data_file fid db = Some df'" "io_ok (df_io df') fs c"
      "holds_log c (logs fid)"
      unfolding files_hold_def by blast
    with files_to_process_find [OF m] show "\<exists>c. io_ok (df_io df) fs c \<and> holds_log c (logs fid)"
      by auto
  qed
  moreover have "load_holds ?ls (replay [])"
    using i by (simp add: load_holds_def db_holds_def waiting_def fun_eq_iff)
  ultimately obtain ls' where ls': "load_files (files_to_process db) ?ls fs = (Inr (), ls')"
    "load_holds ls' (fold replay_step (log_of logs fids) (replay []))"
    "fixed_part (ls_db ls') = active_ended logs fids (fixed_part ?db)"
    "ls_seq_no ls' = max_seq (log_of logs fids)"
    using load_files_log [of "files_to_process db" fs logs ?ls "replay []"] ids
    by (auto simp: max_seq_def)
  have fx: "fixed_part ?db = fixed_part db" by (simp add: fixed_part_def)
  have fx2: "fixed_part (d\<lparr>db_seq_no := n\<rparr>) = (fixed_part d)\<lparr>db_seq_no := n\<rparr>" for d n
    by (simp add: fixed_part_def)
  have opts: "db_options (ls_db ls') = db_options db"
  proof -
    have "db_options (fixed_part (ls_db ls')) = db_options (fixed_part db)"
      unfolding ls'(3) fx by (simp add: active_ended_def split: option.split)
    then show ?thesis by simp
  qed
  let ?db' = "(ls_db ls')\<lparr>db_seq_no := max_seq (log_of logs fids)\<rparr>"
  obtain a where "db_active_file db = Some a" using files unfolding files_hold_def by blast
  then have "load_index_from_data_files coins db fs = (Inr (), ?db', fs)"
    using type i(1) ls'(1,4) nofin opts
    by (simp add: load_index_from_data_files_def fp Let_def)
  moreover have "db_holds ?db' (fst (replay (log_of logs fids)))"
    using ls'(2) by (simp add: load_holds_def db_holds_def replay_def)
  ultimately show ?thesis using ls'(3) fx fx2 by simp
qed

end
