(* ===== verification/Db_Log.thy ===== *)
theory Db_Log
  imports Db_Load
begin

text \<open>
  The engine as a log: the open files hold a sequence of records and the index is what replaying
  them gives. The lemmas show that such a state satisfies the invariant of the engine, that its
  contents are those the log stands for, and that appending a record appends it to the log.
\<close>

section \<open>The invariant\<close>

definition records :: "(u32 \<Rightarrow> log_record list) \<Rightarrow> u32 list \<Rightarrow> log_record list" where
  "records logs fids = concat (map logs fids)"

lemma map_snd_log_of [simp]: "map snd (log_of logs fids) = records logs fids"
  by (induction fids) (simp_all add: records_def)

text \<open>The records under an empty key are end markers only.\<close>

definition keys_ok :: "log_record list \<Rightarrow> bool" where
  "keys_ok rs \<longleftrightarrow> (\<forall>r \<in> set rs. key_of r = [] \<longrightarrow> seq_of r \<noteq> NON_TRANSACTION_SEQ_NO \<and> lr_type r = TXN_FINISHED)"

definition db_log :: "db \<Rightarrow> fsys \<Rightarrow> (u32 \<Rightarrow> log_record list) \<Rightarrow> u32 list \<Rightarrow> bool" where
  "db_log db fs logs fids \<longleftrightarrow>
     files_ok db fs \<and> files_hold db fs logs fids \<and> keys_ok (records logs fids)
     \<and> (\<forall>df. db_active_file db = Some df \<longrightarrow> df_write_off df = log_end logs (df_file_id df))
     \<and> db_holds db (fst (replay (log_of logs fids)))"

lemma replay_keys:
  assumes "keys_ok (map snd es)"
  shows "(\<forall>p r. fst (replay es) [] \<noteq> Some (p, r)) \<and> (\<forall>s p r. ([], p, r) \<notin> set (snd (replay es) s))"
  using assms
proof (induction es rule: rev_induct)
  case Nil
  then show ?case by simp
next
  case (snoc e es)
  define m pend where "m = fst (replay es)" and "pend = snd (replay es)"
  have "keys_ok (map snd es)" using snoc.prems by (auto simp: keys_ok_def)
  from snoc.IH [OF this] have m: "\<And>p r. m [] \<noteq> Some (p, r)" and pend: "\<And>s p r. ([], p, r) \<notin> set (pend s)"
    by (simp_all add: m_def pend_def)
  have fin: "fold apply_entry (pend s) m [] \<noteq> Some (p, r)" for s p r
    using fold_apply_entry_in [of "pend s" m "[]" "(p, r)"] m pend by blast
  have e: "key_of (snd e) = [] \<Longrightarrow> seq_of (snd e) \<noteq> NON_TRANSACTION_SEQ_NO \<and> lr_type (snd e) = TXN_FINISHED"
    using snoc.prems by (simp add: keys_ok_def)
  have r: "replay (es @ [e]) = replay_step e (m, pend)" by (simp add: replay_snoc m_def pend_def)
  show ?case
    unfolding r using m pend fin e
    by (auto simp: replay_step_def Let_def key_of_def seq_of_def apply_entry_def)
qed

lemma db_log_points:
  assumes log: "db_log db fs logs fids" and e: "(p, r) \<in> set (log_of logs fids)"
  shows "points_to db fs p r"
proof -
  obtain fid where fid: "fid \<in> set fids" "(p, r) \<in> set (layout fid 0 (logs fid))"
    using e by (auto simp: log_of_def)
  obtain df c where df: "find_data_file fid db = Some df" "df_file_id df = fid" "io_ok (df_io df) fs c"
    "holds_log c (logs fid)"
    using log fid(1) unfolding db_log_def files_hold_def by blast
  obtain pad where c: "c = encs (logs fid) @ pad" "length c < 2 ^ 63" "\<forall>r \<in> set (logs fid). readable r"
    using df(4) by (auto simp: holds_log_def)
  have st: "pos_fid p = fid \<and> stored_at c (0 + length (encs (logs fid))) (unat (pos_offset p)) r"
    using layout_stored [OF fid(2), of c pad] c by simp
  have "length (encs (logs fid)) \<le> file_limit db fid c"
  proof (cases "db_active_file db")
    case None
    then show ?thesis using holds_log_length [OF df(4)] by (simp add: file_limit_def)
  next
    case (Some a)
    have "unat (log_end logs fid) = length (encs (logs fid))"
      using c(1,2) unfolding log_end_def by (intro unat_of_nat_u64) simp
    then show ?thesis
      using Some log holds_log_length [OF df(4)] by (auto simp: file_limit_def db_log_def)
  qed
  then have "stored_at c (file_limit db fid c) (unat (pos_offset p)) r"
    using st stored_at_mono by auto
  moreover have "r \<in> set (logs fid)"
    using fid(2) map_snd_layout [of fid 0 "logs fid"] by (metis image_eqI list.set_map snd_conv)
  ultimately show ?thesis using df st c by (auto simp: points_to_def)
qed

lemma db_log_inv:
  assumes log: "db_log db fs logs fids"
  shows "db_inv db fs" and "k \<noteq> [] \<Longrightarrow> db_kv db fs k = committed (records logs fids) k"
    and "DB_get k db fs = (if k = [] then Inl KeyEmptyError
      else case committed (records logs fids) k of None \<Rightarrow> Inl KeyNotFoundError | Some v \<Rightarrow> Inr v)"
proof -
  let ?m = "fst (replay (log_of logs fids))"
  have ix: "idx_ok (db_index db)" "idx_abs (db_index db) = map_option fst \<circ> ?m"
    using log by (simp_all add: db_log_def db_holds_def)
  have live: "points_to db fs p r \<and> lr_type r \<noteq> DELETED \<and> k \<noteq> []" if "?m k = Some (p, r)" for k p r
  proof -
    have "(p, r) \<in> set (log_of logs fids)" "lr_type r \<noteq> DELETED"
      using replay_ok [of "log_of logs fids"] that by (auto simp: entries_ok_def)
    moreover have "k \<noteq> []"
      using replay_keys [of "log_of logs fids"] log that by (auto simp: db_log_def)
    ultimately show ?thesis using db_log_points [OF log] by blast
  qed
  show inv: "db_inv db fs"
    using log ix live by (fastforce simp: db_inv_def db_log_def)
  have kv: "db_kv db fs k = committed (records logs fids) k" if "k \<noteq> []" for k
  proof (cases "?m k")
    case None
    then show ?thesis
      using db_kv_none [OF ix(1)] committed_replay [of "log_of logs fids" k] by (simp add: ix(2))
  next
    case (Some e)
    obtain p r where e: "e = (p, r)" by (cases e)
    have "idx_abs (db_index db) k = Some p" using Some by (simp add: ix(2) e)
    from db_kv_points [OF ix(1) that this] live [of k p r] Some e
    show ?thesis using committed_replay [of "log_of logs fids" k] by (simp add: Some e)
  qed
  then show "k \<noteq> [] \<Longrightarrow> db_kv db fs k = committed (records logs fids) k" .
  show "DB_get k db fs = (if k = [] then Inl KeyEmptyError
      else case committed (records logs fids) k of None \<Rightarrow> Inl KeyNotFoundError | Some v \<Rightarrow> Inr v)"
    using db_inv_get(1) [OF inv] kv by simp
qed

section \<open>Loading establishes the invariant\<close>

lemma files_to_process_active:
  assumes "db_active_file db = Some a" "db_active_file db' = Some a'" "df_file_id a' = df_file_id a"
    "db_older_files db' = db_older_files db" "db_file_ids db' = db_file_ids db"
  shows "map fst (files_to_process db') = map fst (files_to_process db)"
proof -
  have "map fst (List.map_filter (\<lambda>fid. map_option (Pair fid) (find_data_file fid db')) fs)
      = map fst (List.map_filter (\<lambda>fid. map_option (Pair fid) (find_data_file fid db)) fs)" for fs
    by (induction fs) (auto simp: find_data_file_def assms split: option.split)
  then show ?thesis by (simp add: files_to_process_def assms)
qed

lemma load_index_recovers:
  assumes hold: "files_hold db fs logs fids" and type: "opt_index_type (db_options db) \<noteq> BPLUS_TREE"
    and nofin: "\<not> file_exists (opt_dir_path (db_options db) @ ''/'' @ MERGE_FINISHED_FILE_NAME) fs"
    and files: "files_ok db fs" and keys: "keys_ok (records logs fids)"
  shows "\<exists>db'. load_index_from_data_files coins db fs = (Inr (), db', fs) \<and> db_log db' fs logs fids
    \<and> db_seq_no db' = max_seq (log_of logs fids) \<and> db_options db' = db_options db
    \<and> db_file_ids db' = db_file_ids db \<and> db_older_files db' = db_older_files db
    \<and> db_file_lock_fd db' = db_file_lock_fd db
    \<and> (\<forall>a. db_active_file db = Some a \<longrightarrow>
         db_active_file db' = Some (set_write_off (log_end logs (df_file_id a)) a))"
proof -
  obtain a where a: "db_active_file db = Some a" "df_file_id a \<in> set fids"
    using hold unfolding files_hold_def by blast
  obtain db' where db': "load_index_from_data_files coins db fs = (Inr (), db', fs)"
    "db_holds db' (fst (replay (log_of logs fids)))"
    "fixed_part db' = active_ended logs fids (fixed_part db)\<lparr>db_seq_no := max_seq (log_of logs fids)\<rparr>"
    "db_seq_no db' = max_seq (log_of logs fids)"
    using load_index_log [OF hold type nofin] by blast
  let ?a = "set_write_off (log_end logs (df_file_id a)) a"
  have fp: "fixed_part db' = (fixed_part db)\<lparr>db_active_file := Some ?a, db_seq_no := max_seq (log_of logs fids)\<rparr>"
    using a by (simp add: db'(3) active_ended_def)
  have same: "db_active_file db' = Some ?a" "db_older_files db' = db_older_files db"
    "db_options db' = db_options db" "db_file_ids db' = db_file_ids db"
    "db_file_lock_fd db' = db_file_lock_fd db"
    using fixed_part_simps [of db'] unfolding fp by simp_all
  have a': "df_file_id ?a = df_file_id a" "df_io ?a = df_io a" by (simp_all add: set_write_off_def)
  have find: "\<exists>df'. find_data_file fid db' = Some df' \<and> df_file_id df' = df_file_id df \<and> df_io df' = df_io df"
    if "find_data_file fid db = Some df" for fid df
    using that a' by (auto simp: find_data_file_def same a split: if_splits)
  have "\<exists>df c. find_data_file fid db' = Some df \<and> df_file_id df = fid
      \<and> io_path (df_io df) = data_name db' fid \<and> io_ok (df_io df) fs c \<and> holds_log c (logs fid)"
    if "fid \<in> set fids" for fid
  proof -
    obtain df c where df: "find_data_file fid db = Some df" "df_file_id df = fid"
      "io_path (df_io df) = data_name db fid" "io_ok (df_io df) fs c" "holds_log c (logs fid)"
      using hold \<open>fid \<in> set fids\<close> unfolding files_hold_def by blast
    with find [OF df(1)] show ?thesis by (auto simp: same)
  qed
  then have hold': "files_hold db' fs logs fids"
    using hold files_to_process_active [OF a(1) same(1) a'(1) same(2,4)] a(2) a'
    by (simp add: files_hold_def same)
  obtain c where c: "io_ok (df_io a) fs c" "holds_log c (logs (df_file_id a))"
    using hold a by (auto simp: files_hold_def find_data_file_def)
  have "unat (log_end logs (df_file_id a)) \<le> length c" "length c < 2 ^ 63"
  proof -
    show "length c < 2 ^ 63" using c(2) by (simp add: holds_log_def)
    then show "unat (log_end logs (df_file_id a)) \<le> length c"
      using holds_log_length [OF c(2)] unfolding log_end_def by (subst unat_of_nat_u64) simp_all
  qed
  then have "df_ok ?a fs c" using c a' by (simp add: df_ok_def set_write_off_def)
  then have "files_ok db' fs"
    using files a(1) a' by (auto simp: files_ok_def same)
  then have "db_log db' fs logs fids"
    using hold' keys db'(2) a' by (simp add: db_log_def same set_write_off_def)
  with db' same a show ?thesis by simp
qed

section \<open>Appending to the log\<close>

text \<open>
  The files of a state to which records can be appended: the active file is the last of the log,
  served by the standard manager, and holds its records and nothing behind them.
\<close>

definition log_files :: "db \<Rightarrow> fsys \<Rightarrow> (u32 \<Rightarrow> log_record list) \<Rightarrow> u32 list \<Rightarrow> bool" where
  "log_files db fs logs fids \<longleftrightarrow>
     files_ok db fs \<and> files_hold db fs logs fids
     \<and> (\<exists>df. db_active_file db = Some df \<and> df_write_off df = log_end logs (df_file_id df)
          \<and> io_kind (df_io df) = STANDARD_FIO
          \<and> fs_get fs (io_path (df_io df)) = Some (encs (logs (df_file_id df)))
          \<and> last fids = df_file_id df \<and> distinct fids)"

definition active_id :: "db \<Rightarrow> u32" where
  "active_id db = (case db_active_file db of Some df \<Rightarrow> df_file_id df | None \<Rightarrow> 0)"

definition log_append :: "u32 \<Rightarrow> log_record \<Rightarrow> (u32 \<Rightarrow> log_record list) \<Rightarrow> u32 \<Rightarrow> log_record list" where
  "log_append fid r logs = logs(fid := logs fid @ [r])"

lemma DataFile_write_std:
  assumes df: "df_ok df fs c" "io_kind (df_io df) = STANDARD_FIO" "unat (df_write_off df) = length c"
    and "d \<noteq> []"
  shows "DataFile_write df d fs = (Inr (length d), df\<lparr>df_write_off := df_write_off df + of_nat (length d)\<rparr>,
    fs_put (io_path (df_io df)) (c @ d) fs)"
proof -
  have ok: "io_ok (df_io df) fs c" and off: "unat (df_write_off df) < 2 ^ 63"
    using df by (simp_all add: df_ok_def)
  have "pwrite_bytes c d (length c) = c @ d" using assms(4) by (simp add: pwrite_bytes_def)
  then show ?thesis
    using ok df(2,3) sint_nonneg [OF off]
    by (simp add: DataFile_write_def io_write_def FileIOManager_write_def io_ok_def)
qed

lemma log_of_append:
  assumes "distinct fids" "fids \<noteq> []" "last fids = fid"
  shows "log_of (log_append fid r logs) fids = log_of logs fids
    @ [(\<lparr>pos_fid = fid, pos_offset = of_nat (length (encs (logs fid))), pos_size = of_nat (length (enc r))\<rparr>, r)]"
proof -
  obtain ids where ids: "fids = ids @ [fid]" using assms(2,3) by (metis append_butlast_last_id)
  have "fid \<notin> set ids" using assms(1) ids by simp
  then have "log_of (log_append fid r logs) ids = log_of logs ids"
    by (induction ids) (auto simp: log_append_def)
  then show ?thesis by (simp add: ids log_append_def layout_append)
qed

lemma holds_log_tight: "holds_log (encs rs) rs' \<Longrightarrow> length (encs rs) < 2 ^ 63"
  by (simp add: holds_log_def)

lemma log_append_ok:
  assumes files: "log_files db fs logs fids" and fits: "fits db fs r" and r: "readable r"
  obtains pos db' fs' where "append_log_record_internal r db fs = (Inr pos, db', fs')"
    "log_files db' fs' (log_append (active_id db) r logs) fids"
    "log_of (log_append (active_id db) r logs) fids = log_of logs fids @ [(pos, r)]"
    "db_index db' = db_index db" "db_options db' = db_options db" "db_seq_no db' = db_seq_no db"
    "active_id db' = active_id db" "db_file_lock_fd db' = db_file_lock_fd db"
    "db_file_ids db' = db_file_ids db" "db_reclaim_size db' = db_reclaim_size db"
    "fs' = fs_put (data_name db (active_id db)) (encs (logs (active_id db) @ [r])) fs"
proof -
  obtain df where act: "db_active_file db = Some df" "df_write_off df = log_end logs (df_file_id df)"
    "io_kind (df_io df) = STANDARD_FIO" "fs_get fs (io_path (df_io df)) = Some (encs (logs (df_file_id df)))"
    "last fids = df_file_id df" "distinct fids"
    using files by (auto simp: log_files_def)
  let ?fid = "df_file_id df" and ?c = "encs (logs (df_file_id df))"
  have id: "active_id db = ?fid" by (simp add: active_id_def act)
  have path: "io_path (df_io df) = data_name db ?fid"
    using files act(1) by (simp add: log_files_def files_ok_def)
  obtain c where df: "df_ok df fs c" and small: "unat (df_write_off df) + length (enc r)
      \<le> unat (opt_data_file_size (db_options db))" and room: "length c + length (enc r) + fs_page_size fs < 2 ^ 63"
    using fits act(1) by (auto simp: fits_def)
  have c: "c = ?c" using df act(4) by (simp add: df_ok_def io_ok_def)
  have off: "unat (df_write_off df) = length c"
    using room unfolding act(2) log_end_def c by (intro unat_of_nat_u64) simp
  have norot: "\<not> get_write_off df + of_nat (length (enc r)) > opt_data_file_size (db_options db)"
    using small off room unfolding get_write_off_def by (subst word_of_nat_le_iff) simp_all
  define df' where "df' = df\<lparr>df_write_off := df_write_off df + of_nat (length (enc r))\<rparr>"
  define fs' where "fs' = fs_put (data_name db ?fid) (?c @ enc r) fs"
  have w: "DataFile_write df (enc r) fs = (Inr (length (enc r)), df', fs')"
    using DataFile_write_std [OF df act(3) off enc_not_Nil] by (simp add: df'_def fs'_def path c)
  let ?pos = "\<lparr>pos_fid = ?fid, pos_offset = df_write_off df, pos_size = of_nat (length (enc r))\<rparr>"
  obtain bw where app: "append_log_record_internal r db fs =
      (Inr ?pos, db\<lparr>db_active_file := Some df', db_bytes_write := bw\<rparr>, fs')"
    using norot by (simp add: append_log_record_internal_def act(1) split_beta write_active_def w Let_def
        get_write_off_def df'_def)
  let ?db = "db\<lparr>db_active_file := Some df', db_bytes_write := bw\<rparr>"
  let ?logs = "log_append ?fid r logs"
  have df': "df_file_id df' = ?fid" "df_io df' = df_io df" by (simp_all add: df'_def)
  have get': "fs_get fs' q = (if q = data_name db ?fid then Some (encs (?logs ?fid)) else fs_get fs q)" for q
    by (simp add: fs'_def log_append_def)
  have len: "length (encs (?logs ?fid)) < 2 ^ 63" using room by (simp add: log_append_def c)
  have mem: "?fid \<in> set fids" and fne: "fids \<noteq> []"
    using files act(1) by (auto simp: log_files_def files_hold_def)
  have io': "io_ok (df_io df') fs' (encs (?logs ?fid))"
    using df by (simp add: df_ok_def io_ok_def df' path get' act(3)) (simp add: fs'_def)
  have "unat (df_write_off df') = length (encs (?logs ?fid))"
    using off room unfolding df'_def log_append_def c
    by (simp add: unat_add_of_nat)
  then have wo: "df_write_off df' = log_end ?logs ?fid" and dfok: "df_ok df' fs' (encs (?logs ?fid))"
    using io' len unfolding log_end_def df_ok_def by (simp_all add: word_unat_eq_iff unat_of_nat_u64)
  have each: "\<forall>f \<in> set fids. \<exists>df c. find_data_file f db = Some df \<and> df_file_id df = f
      \<and> io_path (df_io df) = data_name db f \<and> io_ok (df_io df) fs c \<and> holds_log c (logs f)"
    using files by (simp add: log_files_def files_hold_def)
  have old: "\<exists>df c. find_data_file f ?db = Some df \<and> df_file_id df = f
      \<and> io_path (df_io df) = data_name db f \<and> io_ok (df_io df) fs' c \<and> holds_log c (?logs f)"
    if fm: "f \<in> set fids" for f
  proof (cases "f = ?fid")
    case True
    have "\<forall>r \<in> set (logs ?fid). readable r"
      using files fm by (auto simp: log_files_def files_hold_def holds_log_def True)
    then have "holds_log (encs (?logs ?fid)) (?logs ?fid)"
      using len r by (auto simp: holds_log_def log_append_def parse_record_def)
    then show ?thesis using True io' df' path by (auto simp: find_data_file_def)
  next
    case False
    obtain d c where d: "find_data_file f db = Some d" "df_file_id d = f" "io_path (df_io d) = data_name db f"
      "io_ok (df_io d) fs c" "holds_log c (logs f)"
      using each fm by blast
    have "io_ok (df_io d) fs' c"
      by (rule io_ok_frame [OF d(4)]) (use False d(3) in \<open>simp_all add: get' fs'_def\<close>)
    then show ?thesis using d False by (auto simp: find_data_file_def act(1) df' log_append_def)
  qed
  have ids: "map fst (files_to_process ?db) = fids"
    using files_to_process_active [of db df ?db df'] act(1) df' files
    by (simp add: log_files_def files_hold_def)
  have "files_hold ?db fs' ?logs fids"
    unfolding files_hold_def using old ids mem df' by simp
  moreover have "files_ok ?db fs'"
    using files dfok df' path by (auto simp: files_ok_def log_files_def)
  ultimately have files': "log_files ?db fs' ?logs fids"
    using wo act df' path by (simp add: log_files_def get')
  have pos: "log_of ?logs fids = log_of logs fids @ [(?pos, r)]"
    using log_of_append [OF act(6) fne act(5)] act(2) by (simp add: log_end_def)
  show ?thesis
    by (rule that [OF app]) (use files' pos id df' in \<open>simp_all add: active_id_def act(1) fs'_def\<close>)
qed

section \<open>The operations on the log\<close>

definition log_inv :: "db \<Rightarrow> fsys \<Rightarrow> (u32 \<Rightarrow> log_record list) \<Rightarrow> u32 list \<Rightarrow> bool" where
  "log_inv db fs logs fids \<longleftrightarrow>
     log_files db fs logs fids \<and> keys_ok (records logs fids)
     \<and> db_holds db (fst (replay (log_of logs fids)))"

lemma log_inv_log: "log_inv db fs logs fids \<Longrightarrow> db_log db fs logs fids"
  by (auto simp: log_inv_def db_log_def log_files_def)

lemma records_append:
  "log_of (log_append fid r logs) fids = log_of logs fids @ [(pos, r)] \<Longrightarrow>
   records (log_append fid r logs) fids = records logs fids @ [r]"
  using map_snd_log_of [of "log_append fid r logs" fids] by simp

lemma keys_ok_append: "keys_ok (rs @ rs') \<longleftrightarrow> keys_ok rs \<and> keys_ok rs'"
  by (auto simp: keys_ok_def)

lemma log_files_frame:
  assumes "db_active_file db' = db_active_file db" "db_older_files db' = db_older_files db"
    "db_options db' = db_options db" "db_file_ids db' = db_file_ids db"
  shows "log_files db' fs logs fids = log_files db fs logs fids"
proof -
  have "files_to_process db' = files_to_process db" "\<And>f. find_data_file f db' = find_data_file f db"
    by (rule files_to_process_frame find_data_file_frame; simp add: assms)+
  then show ?thesis
    by (simp only: log_files_def files_hold_def counters_frame(2) [OF assms(1-3)] assms)
qed

text \<open>An update of the index by the record that was just appended restores the invariant.\<close>

lemma log_inv_step:
  assumes inv: "log_inv db fs logs fids" and files: "log_files db1 fs' logs' fids"
    and log: "log_of logs' fids = log_of logs fids @ [(pos, r)]" and idx: "db_index db1 = db_index db"
    and r: "key_of r \<noteq> []" "seq_of r = NON_TRANSACTION_SEQ_NO"
  shows "log_inv (update_index (key_of r) (lr_type r) pos db1) fs' logs' fids"
proof -
  let ?db = "update_index (key_of r) (lr_type r) pos db1"
  have fr: "same_files db1 ?db" by (rule same_files_update_index)
  have hold: "db_holds db1 (fst (replay (log_of logs fids)))"
    using inv by (simp add: log_inv_def db_holds_def idx)
  have step: "fst (replay (log_of logs' fids)) = apply_entry (key_of r, pos, r) (fst (replay (log_of logs fids)))"
    using r by (simp add: log replay_snoc replay_step_def Let_def key_of_def seq_of_def)
  have "keys_ok (map snd (log_of logs' fids))"
    using inv r unfolding log by (simp add: log_inv_def keys_ok_append) (simp add: keys_ok_def)
  then have "keys_ok (records logs' fids)" by simp
  then show ?thesis
    using log_files_frame [of ?db db1 fs' logs' fids] same_filesD(1-4) [OF fr] files
      update_index_holds [OF hold, of "key_of r" r pos]
    by (simp add: log_inv_def step)
qed

text \<open>Keys that cannot be taken for keys of a transaction: those the log reads back as they are.\<close>

definition plain_key :: "bytes \<Rightarrow> bool" where
  "plain_key key \<longleftrightarrow> key \<noteq> [] \<and> length key \<le> MAX_RECORD_SIZE
     \<and> snd (parse_log_record_key key) = NON_TRANSACTION_SEQ_NO"

lemma plain_key_parse: "plain_key key \<Longrightarrow> parse_log_record_key key = (key, NON_TRANSACTION_SEQ_NO)"
  by (auto simp: plain_key_def parse_log_record_key_def Let_def split: if_splits)

lemma plain_key_short: "key \<noteq> [] \<Longrightarrow> length key < 8 \<Longrightarrow> plain_key key"
  by (simp add: plain_key_def parse_log_record_key_def MAX_RECORD_SIZE_def)

lemma plain_records:
  assumes "plain_key key"
  shows "key_of (put_record key v) = key" "seq_of (put_record key v) = NON_TRANSACTION_SEQ_NO"
    "key_of (delete_record key) = key" "seq_of (delete_record key) = NON_TRANSACTION_SEQ_NO"
    "length v \<le> MAX_RECORD_SIZE \<Longrightarrow> readable (put_record key v)" "readable (delete_record key)"
  using plain_key_parse [OF assms] assms put_record_readable [of key v] delete_record_readable [of key]
  by (simp_all add: key_of_def seq_of_def put_record_def delete_record_def plain_key_def)

lemma DB_put_update:
  "key \<noteq> [] \<Longrightarrow> append_log_record_internal (put_record key value) db fs = (Inr pos, db1, fs') \<Longrightarrow>
   DB_put key value db fs = (Inr (), update_index key NORMAL pos db1, fs')"
  by (auto simp: DB_put_def put_record_def update_index_def split: prod.split)

lemma DB_put_logs:
  assumes inv: "log_inv db fs logs fids" and key: "plain_key key" and val: "length value \<le> MAX_RECORD_SIZE"
    and fits: "fits db fs (put_record key value)"
  shows "\<exists>db' fs'. DB_put key value db fs = (Inr (), db', fs')
    \<and> log_inv db' fs' (log_append (active_id db) (put_record key value) logs) fids
    \<and> records (log_append (active_id db) (put_record key value) logs) fids
        = records logs fids @ [put_record key value]
    \<and> db_options db' = db_options db \<and> db_file_lock_fd db' = db_file_lock_fd db
    \<and> db_seq_no db' = db_seq_no db
    \<and> fs' = fs_put (data_name db (active_id db)) (encs (logs (active_id db) @ [put_record key value])) fs"
proof -
  let ?r = "put_record key value"
  note r = plain_records [OF key]
  have files: "log_files db fs logs fids" using inv by (simp add: log_inv_def)
  obtain pos db1 fs' where app: "append_log_record_internal ?r db fs = (Inr pos, db1, fs')"
    and files1: "log_files db1 fs' (log_append (active_id db) ?r logs) fids"
    and log: "log_of (log_append (active_id db) ?r logs) fids = log_of logs fids @ [(pos, ?r)]"
    and same: "db_index db1 = db_index db" "db_options db1 = db_options db"
      "db_file_lock_fd db1 = db_file_lock_fd db" "db_seq_no db1 = db_seq_no db"
    and fs': "fs' = fs_put (data_name db (active_id db)) (encs (logs (active_id db) @ [?r])) fs"
    using log_append_ok [OF files fits r(5) [OF val]] by metis
  have "DB_put key value db fs = (Inr (), update_index key NORMAL pos db1, fs')"
    using key by (intro DB_put_update [OF _ app]) (simp add: plain_key_def)
  moreover have "db_options (update_index key NORMAL pos db1) = db_options db"
    "db_file_lock_fd (update_index key NORMAL pos db1) = db_file_lock_fd db"
    "db_seq_no (update_index key NORMAL pos db1) = db_seq_no db"
    using same_filesD(3,5,7) [OF same_files_update_index] same(2-4) by simp_all
  ultimately show ?thesis
    using log_inv_step [OF inv files1 log same(1)] key r(1,2) records_append [OF log] fs'
    by (auto simp: plain_key_def put_record_def)
qed

lemma DB_remove_logs:
  assumes inv: "log_inv db fs logs fids" and key: "plain_key key" and fits: "fits db fs (delete_record key)"
    and present: "idx_get key (db_index db) \<noteq> None"
  shows "\<exists>db' fs'. DB_remove key db fs = (Inr (), db', fs')
    \<and> log_inv db' fs' (log_append (active_id db) (delete_record key) logs) fids
    \<and> records (log_append (active_id db) (delete_record key) logs) fids
        = records logs fids @ [delete_record key]
    \<and> db_options db' = db_options db \<and> db_file_lock_fd db' = db_file_lock_fd db
    \<and> db_seq_no db' = db_seq_no db
    \<and> fs' = fs_put (data_name db (active_id db)) (encs (logs (active_id db) @ [delete_record key])) fs"
proof -
  let ?r = "delete_record key"
  note r = plain_records [OF key]
  have files: "log_files db fs logs fids" and ok: "idx_ok (db_index db)"
    using inv by (simp_all add: log_inv_def db_holds_def)
  obtain pos db1 fs' where app: "append_log_record_internal ?r db fs = (Inr pos, db1, fs')"
    and files1: "log_files db1 fs' (log_append (active_id db) ?r logs) fids"
    and log: "log_of (log_append (active_id db) ?r logs) fids = log_of logs fids @ [(pos, ?r)]"
    and same: "db_index db1 = db_index db" "db_options db1 = db_options db"
      "db_file_lock_fd db1 = db_file_lock_fd db" "db_seq_no db1 = db_seq_no db"
    and fs': "fs' = fs_put (data_name db (active_id db)) (encs (logs (active_id db) @ [?r])) fs"
    using log_append_ok [OF files fits r(6)] by metis
  have "fst (idx_remove key (db_index db)) = (idx_abs (db_index db) key, True)"
    using ix.remove_ret [OF ok, of key] ix.get_abs [OF ok, of key] present by simp
  then obtain old i where rem: "idx_remove key (db_index db) = ((old, True), i)"
    by (cases "idx_remove key (db_index db)") auto
  have c: "(reclaim (Some pos) db1)\<lparr>db_index := i\<rparr> = reclaim (Some pos) (db1\<lparr>db_index := i\<rparr>)"
    by (simp add: reclaim_def)
  have "DB_remove key db fs = (Inr (), update_index key DELETED pos db1, fs')"
    using key app same present rem c
    by (auto simp: DB_remove_def delete_record_def plain_key_def update_index_def Let_def)
  moreover have "db_options (update_index key DELETED pos db1) = db_options db"
    "db_file_lock_fd (update_index key DELETED pos db1) = db_file_lock_fd db"
    "db_seq_no (update_index key DELETED pos db1) = db_seq_no db"
    using same_filesD(3,5,7) [OF same_files_update_index] same(2-4) by simp_all
  ultimately show ?thesis
    using log_inv_step [OF inv files1 log same(1)] key r(3,4) records_append [OF log] fs'
    by (auto simp: plain_key_def delete_record_def)
qed

lemma DB_remove_absent:
  "key \<noteq> [] \<Longrightarrow> idx_get key (db_index db) = None \<Longrightarrow> DB_remove key db fs = (Inr (), db, fs)"
  by (simp add: DB_remove_def)

text \<open>What the appended records do to the contents.\<close>

lemma committed_snoc:
  assumes "key_of r = k" "seq_of r = NON_TRANSACTION_SEQ_NO"
  shows "committed (rs @ [r]) = (committed rs)(k := if lr_type r = DELETED then None else Some (lr_value r))"
  using assms by (auto simp: committed_def fun_eq_iff replay_snoc replay_step_def key_of_def seq_of_def
      apply_entry_def)

text \<open>Room in the active file for \<open>n\<close> more bytes.\<close>

definition room :: "db \<Rightarrow> fsys \<Rightarrow> nat \<Rightarrow> bool" where
  "room db fs n \<longleftrightarrow>
     (\<exists>df c. db_active_file db = Some df \<and> df_ok df fs c
        \<and> unat (df_write_off df) + n \<le> unat (opt_data_file_size (db_options db))
        \<and> length c + n + fs_page_size fs < 2 ^ 63)"

lemma fits_room: "fits db fs r = room db fs (length (enc r))"
  by (simp add: fits_def room_def)

lemma room_log:
  assumes "log_files db fs logs fids"
  shows "room db fs n \<longleftrightarrow>
    length (encs (logs (active_id db))) + n \<le> unat (opt_data_file_size (db_options db))
    \<and> length (encs (logs (active_id db))) + n + fs_page_size fs < 2 ^ 63"
proof -
  obtain df where act: "db_active_file db = Some df" "df_write_off df = log_end logs (df_file_id df)"
    "fs_get fs (io_path (df_io df)) = Some (encs (logs (df_file_id df)))"
    using assms by (auto simp: log_files_def)
  obtain c where c: "df_ok df fs c" using assms act(1) by (auto simp: log_files_def files_ok_def)
  have c': "c' = encs (logs (df_file_id df))" if "df_ok df fs c'" for c'
    using that act(3) by (simp add: df_ok_def io_ok_def)
  have "length c < 2 ^ 63" using c by (simp add: df_ok_def)
  then have "unat (df_write_off df) = length (encs (logs (df_file_id df)))"
    unfolding act(2) log_end_def c' [OF c] by (intro unat_of_nat_u64) simp
  then show ?thesis using c c' act(1) by (auto simp: room_def active_id_def)
qed

end
