(* ===== verification/Db_Open.thy ===== *)
theory Db_Open
  imports Db_Log
begin

text \<open>
  Opening and closing a database (\<open>DB::open\<close>, \<open>DB::init\<close>, \<open>DB::close\<close>, the file lock, the sequence
  number file, the files a merge left behind; \<open>src/db.cpp\<close>), and what closing, or just stopping,
  and opening again preserves.
\<close>

section \<open>The file lock\<close>

definition lock_path :: "db \<Rightarrow> string" where
  "lock_path db = opt_dir_path (db_options db) @ ''/'' @ FILE_LOCK_NAME"

text \<open>
  \<open>open\<close> with \<open>O_CREAT\<close>, then \<open>flock\<close> with \<open>LOCK_EX | LOCK_NB\<close>. When the lock is refused the
  descriptor is closed but its number stays in \<open>file_lock_fd_\<close>.
\<close>

definition acquire_file_lock :: "db \<Rightarrow> fsys \<Rightarrow> unit res \<times> db \<times> fsys" where
  "acquire_file_lock db fs =
     (let p = lock_path db in
      if \<not> directory_exists (dir_name p) fs \<or> directory_exists p fs
      then (Inl (BitcaskException ''Failed to open lock file''), db\<lparr>db_file_lock_fd := NoLockFd\<rparr>, fs)
      else
        (let fs = (if file_exists p fs then fs else fs_put p [] fs) in
         if p \<in> set (fs_locks fs)
         then (Inl DatabaseIsUsingError, db\<lparr>db_file_lock_fd := StaleLockFd\<rparr>, fs)
         else (Inr (), db\<lparr>db_file_lock_fd := LockHeld p\<rparr>, fs\<lparr>fs_locks := p # fs_locks fs\<rparr>)))"

definition release_file_lock :: "db \<Rightarrow> fsys \<Rightarrow> db \<times> fsys" where
  "release_file_lock db fs =
     (case db_file_lock_fd db of
        LockHeld p \<Rightarrow> (db\<lparr>db_file_lock_fd := NoLockFd\<rparr>, fs\<lparr>fs_locks := removeAll p (fs_locks fs)\<rparr>)
      | _ \<Rightarrow> (db\<lparr>db_file_lock_fd := NoLockFd\<rparr>, fs))"

section \<open>Closing\<close>

definition SEQ_NO_KEY :: string where "SEQ_NO_KEY = ''seq.no''"

definition seq_no_record :: "u64 \<Rightarrow> log_record" where
  "seq_no_record seq_no =
     \<lparr>lr_key = string_to_bytes SEQ_NO_KEY, lr_value = string_to_bytes (show_nat (unat seq_no)),
      lr_type = NORMAL\<rparr>"

text \<open>The sequence number is saved; \<open>sync\<close> calls have no effect on the model's state.\<close>

definition save_seq_no :: "db \<Rightarrow> fsys \<Rightarrow> unit res \<times> fsys" where
  "save_seq_no db fs =
     (case open_seq_no_file (opt_dir_path (db_options db)) fs of
        (Inl e, fs) \<Rightarrow> (Inl e, fs)
      | (Inr seq_no_file, fs) \<Rightarrow>
          (case DataFile_write seq_no_file (fst (LogRecord_encode (seq_no_record (db_seq_no db)))) fs of
             (Inl e, _, fs) \<Rightarrow> (Inl e, fs)
           | (Inr _, _, fs) \<Rightarrow> (Inr (), fs)))"

definition DB_close :: "db \<Rightarrow> fsys \<Rightarrow> unit res \<times> db \<times> fsys" where
  "DB_close db fs =
     (case save_seq_no db fs of
        (Inl e, fs) \<Rightarrow> (Inl e, db, fs)
      | (Inr _, fs) \<Rightarrow>
          (let (i, fs) = idx_close (db_index db) fs;
               db = db\<lparr>db_index := i\<rparr>;
               db = (case db_active_file db of
                       None \<Rightarrow> db
                     | Some df \<Rightarrow> db\<lparr>db_file_ids := add_file_id (df_file_id df) (db_file_ids db),
                                     db_active_file := Some (DataFile_close df)\<rparr>);
               db = db\<lparr>db_older_files := map (map_prod id DataFile_close) (db_older_files db)\<rparr>;
               (db, fs) = release_file_lock db fs
           in (Inr (), db, fs)))"

section \<open>Opening\<close>

text \<open>
  \<open>load_merge_files\<close> takes over the files of a finished merge from the subdirectory \<open>merge\<close> of the
  data directory. (\<open>DB::merge\<close> works in a directory of another name, beside the data directory.)
\<close>

definition load_merge_files :: "db \<Rightarrow> fsys \<Rightarrow> unit res \<times> fsys" where
  "load_merge_files db fs =
     (let dir = opt_dir_path (db_options db); merge_dir = dir @ ''/merge'' in
      if \<not> directory_exists merge_dir fs then (Inr (), fs)
      else if \<not> file_exists (merge_dir @ ''/'' @ MERGE_FINISHED_FILE_NAME) fs then (Inr (), fs)
      else case copy_directory merge_dir dir [MERGE_FINISHED_FILE_NAME] fs of
        (Inl e, fs) \<Rightarrow> (Inl e, fs)
      | (Inr _, fs) \<Rightarrow> (Inr (), remove_directory merge_dir fs))"

definition load_seq_no :: "db \<Rightarrow> fsys \<Rightarrow> unit res \<times> db \<times> fsys" where
  "load_seq_no db fs =
     (let dir = opt_dir_path (db_options db); p = dir @ ''/'' @ SEQ_NO_FILE_NAME in
      if \<not> file_exists p fs then (Inr (), db, fs)
      else case open_seq_no_file dir fs of
        (Inl e, fs) \<Rightarrow> (Inl e, db, fs)
      | (Inr seq_no_file, fs) \<Rightarrow>
          (let r = (case read_log_record seq_no_file 0 fs of
                      Inl e \<Rightarrow> Inl e
                    | Inr rr \<Rightarrow> stoull (bytes_to_string (lr_value (rr_record rr))))
           in case r of
                Inr n \<Rightarrow> (Inr (), db\<lparr>db_seq_no := n, db_seq_no_file_exists := True\<rparr>, fs_remove p fs)
              | Inl e \<Rightarrow> (if catchable e then Inr () else Inl e, db, fs_remove p fs)))"

fun reset_older :: "(u32 \<times> data_file) list \<Rightarrow> string \<Rightarrow> fsys \<Rightarrow> unit res \<times> (u32 \<times> data_file) list \<times> fsys" where
  "reset_older [] dir fs = (Inr (), [], fs)"
| "reset_older ((fid, df) # files) dir fs =
     (case set_io_manager dir STANDARD_FIO df fs of
        (Inl e, df, fs) \<Rightarrow> (Inl e, (fid, df) # files, fs)
      | (Inr _, df, fs) \<Rightarrow>
          (case reset_older files dir fs of (r, files, fs) \<Rightarrow> (r, (fid, df) # files, fs)))"

definition reset_io_type :: "db \<Rightarrow> fsys \<Rightarrow> unit res \<times> db \<times> fsys" where
  "reset_io_type db fs =
     (let dir = opt_dir_path (db_options db) in
      bind_res
        (case db_active_file db of
           None \<Rightarrow> (Inr (), db, fs)
         | Some df \<Rightarrow>
             (case set_io_manager dir STANDARD_FIO df fs of
                (r, df, fs) \<Rightarrow> (r, db\<lparr>db_active_file := Some df\<rparr>, fs)))
        (\<lambda>_ (db, fs).
           case reset_older (db_older_files db) dir fs of
             (r, older, fs) \<Rightarrow> (r, db\<lparr>db_older_files := older\<rparr>, fs)))"

text \<open>
  The constructor. \<open>index_\<close> is null until \<open>init\<close> creates it; the empty ordered map stands for null
  here, whose only use before that is \<open>close\<close>, which does nothing on either.
\<close>

definition DB_new :: "options \<Rightarrow> db" where
  "DB_new opts =
     \<lparr>db_options = opts, db_file_ids = [], db_active_file = None, db_older_files = [],
      db_index = BTreeIdx [], db_seq_no = NON_TRANSACTION_SEQ_NO, db_is_merging = False,
      db_seq_no_file_exists = False, db_is_initial = False, db_file_lock_fd = NoLockFd,
      db_bytes_write = 0, db_reclaim_size = 0\<rparr>"

text \<open>The part of \<open>init\<close> that runs when there are data files.\<close>

definition load_index :: "(nat \<Rightarrow> bool) \<Rightarrow> db \<Rightarrow> fsys \<Rightarrow> unit res \<times> db \<times> fsys" where
  "load_index coins db fs =
     (if db_file_ids db = [] \<and> db_active_file db = None then (Inr (), db, fs)
      else
        bind_res
          (if opt_index_type (db_options db) \<noteq> BPLUS_TREE then load_index_from_hint_file db fs
           else (Inr (), db, fs))
          (\<lambda>_ (db, fs). bind_res (load_index_from_data_files coins db fs)
          (\<lambda>_ (db, fs). if opt_mmap_at_startup (db_options db) then reset_io_type db fs
                         else (Inr (), db, fs))))"

text \<open>\<open>coins n\<close> seeds the \<open>n\<close>-th index that is created.\<close>

definition DB_init :: "(nat \<Rightarrow> nat \<Rightarrow> bool) \<Rightarrow> db \<Rightarrow> fsys \<Rightarrow> unit res \<times> db \<times> fsys" where
  "DB_init coins db fs =
     (let dir = opt_dir_path (db_options db);
          dir_existed = directory_exists dir fs;
          (db, fs) = (if \<not> dir_existed then (db\<lparr>db_is_initial := True\<rparr>, create_directory dir fs)
                      else (db, fs))
      in bind_res (acquire_file_lock db fs)
      (\<lambda>_ (db, fs).
         let db = (if dir_existed \<and> dir_size dir fs = 0 then db\<lparr>db_is_initial := True\<rparr> else db) in
         bind_res
           (case create_indexer (coins 0) (opt_index_type (db_options db)) dir fs of
              (Inl e, fs) \<Rightarrow> (Inl e, db, fs)
            | (Inr i, fs) \<Rightarrow> (Inr (), db\<lparr>db_index := i\<rparr>, fs))
      (\<lambda>_ (db, fs). bind_res (case load_merge_files db fs of (r, fs) \<Rightarrow> (r, db, fs))
      (\<lambda>_ (db, fs). bind_res (load_data_files db fs)
      (\<lambda>_ (db, fs). bind_res (load_index (coins 1) db fs)
      (\<lambda>_ (db, fs). if opt_index_type (db_options db) = BPLUS_TREE then load_seq_no db fs
                     else (Inr (), db, fs)))))))"

text \<open>
  \<open>open\<close>: when \<open>init\<close> throws, the object is destroyed, which closes it; an exception of that \<open>close\<close>
  leaves a destructor.
\<close>

definition DB_open :: "(nat \<Rightarrow> nat \<Rightarrow> bool) \<Rightarrow> options \<Rightarrow> fsys \<Rightarrow> db res \<times> fsys" where
  "DB_open coins opts fs =
     (case check_options opts of
        Inl e \<Rightarrow> (Inl e, fs)
      | Inr _ \<Rightarrow>
          (case DB_init coins (DB_new opts) fs of
             (Inr _, db, fs) \<Rightarrow> (Inr db, fs)
           | (Inl e, db, fs) \<Rightarrow>
               if \<not> catchable e then (Inl e, fs)
               else (case DB_close db fs of
                       (Inl e', db, fs) \<Rightarrow> (Inl (if catchable e' then Terminated else e'), fs)
                     | (Inr _, db, fs) \<Rightarrow> (Inl e, fs))))"

section \<open>What is on the disk\<close>

text \<open>
  A data directory with \<open>n\<close> data files, numbered from 0, that hold the given logs; and the other
  files that opening looks at: none of a merge.
\<close>

definition disk_log :: "string \<Rightarrow> fsys \<Rightarrow> (u32 \<Rightarrow> log_record list) \<Rightarrow> nat \<Rightarrow> bool" where
  "disk_log dir fs logs n \<longleftrightarrow>
     0 < n \<and> n \<le> MAX_SCAN_FILES \<and> dir \<noteq> [] \<and> directory_exists dir fs \<and> 0 < fs_page_size fs
     \<and> (\<forall>fid. file_exists (get_data_file_name dir fid) fs \<longleftrightarrow> unat fid < n)
     \<and> (\<forall>fid. unat fid < n \<longrightarrow> \<not> directory_exists (get_data_file_name dir fid) fs
          \<and> (\<exists>c. fs_get fs (get_data_file_name dir fid) = Some c \<and> holds_log c (logs fid)))"

definition plain_dir :: "string \<Rightarrow> fsys \<Rightarrow> bool" where
  "plain_dir dir fs \<longleftrightarrow>
     \<not> file_exists (dir @ ''/'' @ HINT_FILE_NAME) fs
     \<and> \<not> file_exists (dir @ ''/'' @ MERGE_FINISHED_FILE_NAME) fs
     \<and> \<not> directory_exists (dir @ ''/merge'') fs
     \<and> \<not> directory_exists (dir @ ''/'' @ FILE_LOCK_NAME) fs
     \<and> \<not> directory_exists (dir @ ''/'' @ SEQ_NO_FILE_NAME) fs"

abbreviation first_ids :: "nat \<Rightarrow> u32 list" where
  "first_ids n \<equiv> map of_nat [0..<n]"

definition last_id :: "nat \<Rightarrow> u32" where
  "last_id n = of_nat (n - 1)"

lemma unat_of_nat_small: "i < n \<Longrightarrow> n \<le> MAX_SCAN_FILES \<Longrightarrow> unat (of_nat i :: u32) = i"
  by (rule unat_of_nat_u32) (simp add: MAX_SCAN_FILES_def)

lemma set_first_ids: "n \<le> MAX_SCAN_FILES \<Longrightarrow> fid \<in> set (first_ids n) \<longleftrightarrow> unat fid < n"
proof
  assume "unat fid < n"
  then show "fid \<in> set (first_ids n)" by (auto intro!: image_eqI [of _ _ "unat fid"])
next
  assume "n \<le> MAX_SCAN_FILES" "fid \<in> set (first_ids n)"
  then show "unat fid < n" using unat_of_nat_small by auto
qed

lemma first_ids_inj: "n \<le> MAX_SCAN_FILES \<Longrightarrow> distinct (first_ids n)"
  using unat_of_nat_small by (auto simp: distinct_map intro!: inj_onI) metis

lemma first_ids_sorted: "n \<le> MAX_SCAN_FILES \<Longrightarrow> sorted (first_ids n)"
  by (auto simp: sorted_iff_nth_mono word_le_nat_alt unat_of_nat_small [of _ n])

section \<open>Finding and opening the files\<close>

lemma scan_missing:
  "\<forall>i \<in> set is. \<not> file_exists (get_data_file_name dir (of_nat i)) fs \<Longrightarrow> scan_files dir fs ids m is = ids"
  by (induction "is" arbitrary: m) auto

lemma scan_present:
  "\<forall>i \<in> set is. file_exists (get_data_file_name dir (of_nat i)) fs \<Longrightarrow>
   scan_files dir fs ids m (is @ js) = scan_files dir fs (ids @ map of_nat is) (if is = [] then m else 0) js"
  by (induction "is" arbitrary: m ids) auto

lemma scan_log:
  assumes "disk_log dir fs logs n"
  shows "sort (scan_files dir fs [] 0 [0..<MAX_SCAN_FILES]) = first_ids n"
proof -
  have n: "n \<le> MAX_SCAN_FILES" using assms by (simp add: disk_log_def)
  have ex: "file_exists (get_data_file_name dir (of_nat i)) fs \<longleftrightarrow> i < n" if "i < MAX_SCAN_FILES" for i
    using assms unat_of_nat_small [OF that order_refl] by (simp add: disk_log_def)
  have "[0..<MAX_SCAN_FILES] = [0..<n] @ [n..<MAX_SCAN_FILES]"
    using n upt_add_eq_append [of 0 n "MAX_SCAN_FILES - n"] by simp
  moreover have "scan_files dir fs [] 0 ([0..<n] @ [n..<MAX_SCAN_FILES])
      = scan_files dir fs ([] @ first_ids n) (if [0..<n] = [] then 0 else 0) [n..<MAX_SCAN_FILES]"
    using ex n by (intro scan_present) auto
  moreover have "\<dots> = first_ids n" using ex by (subst scan_missing) auto
  ultimately have "scan_files dir fs [] 0 [0..<MAX_SCAN_FILES] = first_ids n" by metis
  then show ?thesis using first_ids_sorted [OF n] by (simp add: sort_key_id_if_sorted)
qed

definition opened :: "string \<Rightarrow> u32 \<Rightarrow> data_file" where
  "opened dir fid = \<lparr>df_file_id = fid, df_write_off = 0, df_io = file_io (get_data_file_name dir fid)\<rparr>"

lemma open_files_ok:
  assumes "\<not> opt_mmap_at_startup (db_options db)" "opt_dir_path (db_options db) = dir"
    and "dir \<noteq> []" "directory_exists dir fs" "fids \<noteq> []"
    and "\<forall>fid \<in> set fids. file_exists (get_data_file_name dir fid) fs
           \<and> \<not> directory_exists (get_data_file_name dir fid) fs"
  shows "\<exists>older. open_files fids db fs =
      (Inr (), db\<lparr>db_active_file := Some (opened dir (last fids)), db_older_files := older\<rparr>, fs)
    \<and> (\<forall>fid. map_of older fid = (if fid \<in> set (butlast fids) then Some (opened dir fid)
          else map_of (db_older_files db) fid))"
  using assms
proof (induction fids arbitrary: db)
  case (Cons fid fids)
  have o: "open_data_file dir fid STANDARD_FIO fs = (Inr (opened dir fid), fs)"
    using open_data_file_ok [of dir fs fid] Cons.prems by (simp add: opened_def)
  show ?case
  proof (cases "fids = []")
    case True
    then show ?thesis using o Cons.prems
      by (intro exI [of _ "db_older_files db"]) simp
  next
    case False
    let ?db = "db\<lparr>db_older_files := AList.update fid (opened dir fid) (db_older_files db)\<rparr>"
    obtain older where "open_files fids ?db fs =
        (Inr (), ?db\<lparr>db_active_file := Some (opened dir (last fids)), db_older_files := older\<rparr>, fs)"
      "\<forall>f. map_of older f = (if f \<in> set (butlast fids) then Some (opened dir f)
          else map_of (db_older_files ?db) f)"
      using Cons.IH [of ?db] Cons.prems False by fastforce
    then show ?thesis using False o Cons.prems
      by (intro exI [of _ older]) (auto simp: update_conv' Let_def)
  qed
qed simp

section \<open>Opening recovers the log\<close>

text \<open>The file system after the lock was taken.\<close>

definition locked_fs :: "string \<Rightarrow> fsys \<Rightarrow> fsys" where
  "locked_fs dir fs =
     (let p = dir @ ''/'' @ FILE_LOCK_NAME
      in (if file_exists p fs then fs else fs_put p [] fs)\<lparr>fs_locks := p # fs_locks fs\<rparr>)"

lemma locked_fs_get [simp]:
  "p \<noteq> dir @ CHR ''/'' # FILE_LOCK_NAME \<Longrightarrow> fs_get (locked_fs dir fs) p = fs_get fs p"
  "fs_dirs (locked_fs dir fs) = fs_dirs fs" "fs_page_size (locked_fs dir fs) = fs_page_size fs"
  "fs_locks (locked_fs dir fs) = (dir @ ''/'' @ FILE_LOCK_NAME) # fs_locks fs"
  by (simp_all add: locked_fs_def Let_def)

lemma locked_fs_dirs [simp]: "directory_exists d (locked_fs dir fs) = directory_exists d fs"
  by (simp add: directory_exists_def)

lemma lock_name_special [simp]:
  "HINT_FILE_NAME \<noteq> FILE_LOCK_NAME" "MERGE_FINISHED_FILE_NAME \<noteq> FILE_LOCK_NAME"
  "SEQ_NO_FILE_NAME \<noteq> FILE_LOCK_NAME"
  by (simp_all add: FILE_LOCK_NAME_def HINT_FILE_NAME_def MERGE_FINISHED_FILE_NAME_def SEQ_NO_FILE_NAME_def)

lemma locked_fs_disk:
  "disk_log dir (locked_fs dir fs) logs n = disk_log dir fs logs n"
  "plain_dir dir (locked_fs dir fs) = plain_dir dir fs"
  by (simp_all add: disk_log_def plain_dir_def file_exists_def)

lemma acquire_file_lock_ok:
  assumes "opt_dir_path (db_options db) = dir" "dir \<noteq> []" "directory_exists dir fs"
    and "\<not> directory_exists (dir @ ''/'' @ FILE_LOCK_NAME) fs"
    and "dir @ ''/'' @ FILE_LOCK_NAME \<notin> set (fs_locks fs)"
  shows "acquire_file_lock db fs =
    (Inr (), db\<lparr>db_file_lock_fd := LockHeld (dir @ ''/'' @ FILE_LOCK_NAME)\<rparr>, locked_fs dir fs)"
proof -
  have "dir_name (dir @ CHR ''/'' # FILE_LOCK_NAME) = dir"
    using assms(2) by (intro dir_name_append) (simp_all add: FILE_LOCK_NAME_def)
  then show ?thesis
    using assms by (simp add: acquire_file_lock_def lock_path_def locked_fs_def Let_def)
qed

lemma opened_io [simp]: "io_path (df_io (opened dir fid)) = get_data_file_name dir fid"
  "df_file_id (opened dir fid) = fid" "df_write_off (opened dir fid) = 0"
  "io_kind (df_io (opened dir fid)) = STANDARD_FIO"
  by (simp_all add: opened_def file_io_def)

lemma load_data_files_log:
  assumes disk: "disk_log dir fs logs n" and db: "opt_dir_path (db_options db) = dir"
    "\<not> opt_mmap_at_startup (db_options db)" "db_older_files db = []"
  shows "\<exists>older. load_data_files db fs =
      (Inr (), db\<lparr>db_file_ids := first_ids n, db_active_file := Some (opened dir (last_id n)),
                  db_older_files := older\<rparr>, fs)
    \<and> (\<forall>fid. map_of older fid = (if unat fid < n - 1 then Some (opened dir fid) else None))"
proof -
  let ?db = "db\<lparr>db_file_ids := first_ids n\<rparr>"
  have n: "0 < n" "n \<le> MAX_SCAN_FILES" using disk by (simp_all add: disk_log_def)
  then have fids: "first_ids n \<noteq> []" "last (first_ids n) = last_id n" "butlast (first_ids n) = first_ids (n - 1)"
    by (cases n; simp add: last_id_def)+
  obtain older where older: "open_files (first_ids n) ?db fs =
      (Inr (), ?db\<lparr>db_active_file := Some (opened dir (last (first_ids n))), db_older_files := older\<rparr>, fs)"
    "\<forall>fid. map_of older fid = (if fid \<in> set (butlast (first_ids n)) then Some (opened dir fid)
       else map_of (db_older_files ?db) fid)"
    using open_files_ok [of ?db dir fs "first_ids n"] disk db fids(1) set_first_ids [OF n(2)]
    by (auto simp: disk_log_def)
  have "load_data_files db fs = open_files (first_ids n) ?db fs"
    using fids(1) n by (simp add: load_data_files_def db(1) scan_log [OF disk] Let_def)
  moreover have "map_of older fid = (if unat fid < n - 1 then Some (opened dir fid) else None)" for fid
    using older(2) set_first_ids [of "n - 1" fid] n db(3) by (simp add: fids(3))
  ultimately show ?thesis using older(1) fids(2) by auto
qed

lemma opened_files_hold:
  assumes disk: "disk_log dir fs logs n" and db: "opt_dir_path (db_options db) = dir"
    "db_file_ids db = first_ids n" "db_active_file db = Some (opened dir (last_id n))"
    "\<forall>fid. map_of (db_older_files db) fid = (if unat fid < n - 1 then Some (opened dir fid) else None)"
  shows "files_hold db fs logs (first_ids n)" and "files_ok db fs"
proof -
  have n: "0 < n" "n \<le> MAX_SCAN_FILES" using disk by (simp_all add: disk_log_def)
  have u: "unat (last_id n) = n - 1" using n unfolding last_id_def by (intro unat_of_nat_small) auto
  have find: "find_data_file fid db = Some (opened dir fid)" if "unat fid < n" for fid
  proof (cases "fid = last_id n")
    case True
    then show ?thesis by (simp add: find_data_file_def db(3))
  next
    case False
    then have "unat fid \<noteq> n - 1" using u by (metis word_unat_eq_iff)
    then show ?thesis using False that db(4) by (simp add: find_data_file_def db(3))
  qed
  have mem: "last_id n \<in> set (first_ids n)" using n set_first_ids u by simp
  have "List.map_filter (\<lambda>fid. map_option (Pair fid) (find_data_file fid db)) fids
      = map (\<lambda>fid. (fid, opened dir fid)) fids" if "\<forall>fid \<in> set fids. unat fid < n" for fids
    using that find by (induction fids) simp_all
  then have ftp: "map fst (files_to_process db) = first_ids n"
    using set_first_ids [OF n(2)] mem by (simp add: files_to_process_def db comp_def)
  have io: "\<exists>c. io_ok (df_io (opened dir fid)) fs c \<and> holds_log c (logs fid)" if "unat fid < n" for fid
    using disk that file_io_ok [of fs "get_data_file_name dir fid"]
    unfolding disk_log_def opened_def by fastforce
  show "files_hold db fs logs (first_ids n)"
    using ftp find io mem set_first_ids [OF n(2)] by (auto simp: files_hold_def db)
  obtain c where "io_ok (df_io (opened dir (last_id n))) fs c" "length c < 2 ^ 63"
    using io [of "last_id n"] n u by (auto simp: holds_log_def)
  then show "files_ok db fs" using db(4) by (auto simp: files_ok_def df_ok_def db(1,3) split: if_splits)
qed

lemma open_recovers:
  assumes opts: "check_options opts = Inr ()" "\<not> opt_mmap_at_startup opts" "opt_index_type opts \<noteq> BPLUS_TREE"
    and disk: "disk_log (opt_dir_path opts) fs logs n" and plain: "plain_dir (opt_dir_path opts) fs"
    and lock: "opt_dir_path opts @ ''/'' @ FILE_LOCK_NAME \<notin> set (fs_locks fs)"
    and keys: "keys_ok (records logs (first_ids n))"
  shows "\<exists>db. DB_open coins opts fs = (Inr db, locked_fs (opt_dir_path opts) fs)
    \<and> db_log db (locked_fs (opt_dir_path opts) fs) logs (first_ids n)
    \<and> db_seq_no db = max_seq (log_of logs (first_ids n)) \<and> db_options db = opts
    \<and> db_file_lock_fd db = LockHeld (opt_dir_path opts @ ''/'' @ FILE_LOCK_NAME)
    \<and> db_active_file db = Some (set_write_off (log_end logs (last_id n)) (opened (opt_dir_path opts) (last_id n)))"
proof -
  let ?dir = "opt_dir_path opts" and ?fs = "locked_fs (opt_dir_path opts) fs"
  let ?p = "?dir @ ''/'' @ FILE_LOCK_NAME"
  have d: "?dir \<noteq> []" "directory_exists ?dir fs" using disk by (simp_all add: disk_log_def)
  have nolock: "\<not> directory_exists ?p fs" using plain by (simp add: plain_dir_def)
  define db1 where "db1 = (DB_new opts)\<lparr>db_file_lock_fd := LockHeld ?p\<rparr>"
  have acq: "acquire_file_lock (DB_new opts) fs = (Inr (), db1, ?fs)"
    using acquire_file_lock_ok [of "DB_new opts" ?dir fs] d nolock lock by (simp add: DB_new_def db1_def)
  obtain i where i: "create_indexer (coins 0) (opt_index_type opts) ?dir ?fs = (Inr i, ?fs)"
    using create_indexer_new [OF opts(3)] by blast
  define db2 where "db2 = (if dir_size ?dir ?fs = 0 then db1\<lparr>db_is_initial := True\<rparr> else db1)\<lparr>db_index := i\<rparr>"
  have db2: "db_options db2 = opts" "db_older_files db2 = []" "db_file_lock_fd db2 = LockHeld ?p"
    by (simp_all add: db2_def db1_def DB_new_def)
  have disk': "disk_log ?dir ?fs logs n" and plain': "plain_dir ?dir ?fs"
    using disk plain by (simp_all add: locked_fs_disk)
  obtain older where older: "load_data_files db2 ?fs =
      (Inr (), db2\<lparr>db_file_ids := first_ids n, db_active_file := Some (opened ?dir (last_id n)),
                  db_older_files := older\<rparr>, ?fs)"
    "\<forall>fid. map_of older fid = (if unat fid < n - 1 then Some (opened ?dir fid) else None)"
    using load_data_files_log [OF disk', of db2] opts(2) by (auto simp: db2)
  define db3 where "db3 = db2\<lparr>db_file_ids := first_ids n,
      db_active_file := Some (opened ?dir (last_id n)), db_older_files := older\<rparr>"
  have db3: "db_options db3 = opts" "db_file_lock_fd db3 = LockHeld ?p"
    "db_active_file db3 = Some (opened ?dir (last_id n))" by (simp_all add: db3_def db2)
  have hold: "files_hold db3 ?fs logs (first_ids n)" "files_ok db3 ?fs"
    using opened_files_hold [OF disk', of db3] older(2) by (simp_all add: db3_def db2)
  have "\<exists>db'. load_index_from_data_files (coins 1) db3 ?fs = (Inr (), db', ?fs) \<and> db_log db' ?fs logs (first_ids n)
    \<and> db_seq_no db' = max_seq (log_of logs (first_ids n)) \<and> db_options db' = opts
    \<and> db_file_lock_fd db' = LockHeld ?p
    \<and> db_active_file db' = Some (set_write_off (log_end logs (last_id n)) (opened ?dir (last_id n)))"
    using load_index_recovers [OF hold(1) _ _ hold(2) keys] opts(3) plain' by (simp add: db3 plain_dir_def) blast
  then obtain db' where db': "load_index_from_data_files (coins 1) db3 ?fs = (Inr (), db', ?fs)"
    "db_log db' ?fs logs (first_ids n)" "db_seq_no db' = max_seq (log_of logs (first_ids n))"
    "db_options db' = opts" "db_file_lock_fd db' = LockHeld ?p"
    "db_active_file db' = Some (set_write_off (log_end logs (last_id n)) (opened ?dir (last_id n)))" by blast
  have "DB_init coins (DB_new opts) fs = (Inr (), db', ?fs)"
  proof -
    have o: "opt_dir_path (db_options (DB_new opts)) = ?dir" "db_options (DB_new opts) = opts"
      by (simp_all add: DB_new_def)
    have o1: "db_options db1 = opts" by (simp add: db1_def DB_new_def)
    have merge: "load_merge_files db2 ?fs = (Inr (), ?fs)"
      using plain' by (simp add: load_merge_files_def plain_dir_def db2)
    have idx: "load_index (coins 1) db3 ?fs = (Inr (), db', ?fs)"
      using plain' opts db'(1,4)
      by (simp add: load_index_def db3 load_index_from_hint_file_def plain_dir_def)
    have db2': "(if dir_size ?dir ?fs = 0 then db1\<lparr>db_is_initial := True\<rparr> else db1)\<lparr>db_index := i\<rparr> = db2"
      by (simp add: db2_def)
    show ?thesis
      using d opts(3) acq i merge older(1) [folded db3_def] idx db'(4)
      by (simp add: DB_init_def o o1 Let_def db2' [symmetric] if_distrib [of db_options] cong: if_cong)
  qed
  then show ?thesis using opts(1) db' by (simp add: DB_open_def)
qed

text \<open>
  C30: opening recovers the log when the index is one of those in memory (not the B+ tree, which is loaded
  from its own file instead) and \<open>mmap_at_startup\<close>, which is on by default, is off: on a directory
  with data files numbered from 0 that hold logs (whole records, then at most a tail that reads as
  the end; a record whose key is empty, or only a sequence number, is the end marker of a transaction), with none of the files of a merge, whose
  lock is free, \<open>open\<close> succeeds, and \<open>get\<close> then answers every key as the replay of the records in
  the order of the files says: the latest put that was not removed, records of a transaction only
  when its end marker is there.
\<close>

theorem DB_open_recovers:
  assumes "check_options opts = Inr ()" "\<not> opt_mmap_at_startup opts" "opt_index_type opts \<noteq> BPLUS_TREE"
    and "disk_log (opt_dir_path opts) fs logs n" "plain_dir (opt_dir_path opts) fs"
    and "opt_dir_path opts @ ''/'' @ FILE_LOCK_NAME \<notin> set (fs_locks fs)"
    and "keys_ok (records logs (first_ids n))"
  shows "\<exists>db fs'. DB_open coins opts fs = (Inr db, fs')
    \<and> (\<forall>k. DB_get k db fs' = (if k = [] then Inl KeyEmptyError
         else case committed (records logs (first_ids n)) k of None \<Rightarrow> Inl KeyNotFoundError | Some v \<Rightarrow> Inr v))"
proof -
  obtain db where "DB_open coins opts fs = (Inr db, locked_fs (opt_dir_path opts) fs)"
    "db_log db (locked_fs (opt_dir_path opts) fs) logs (first_ids n)"
    using open_recovers [OF assms] by blast
  then show ?thesis using db_log_inv(3) by blast
qed

lemma wit_disk:
  assumes "\<forall>r \<in> set rs. readable r" "length (encs rs) < 2 ^ 63" "fs_dirs fs = [''d'']" "0 < fs_page_size fs"
    and "fs_files fs = [(''d/000000000.data'', encs rs)]"
  shows "disk_log ''d'' fs (\<lambda>_. rs) 1" and "plain_dir ''d'' fs"
proof -
  have name: "get_data_file_name ''d'' fid = ''d/000000000.data'' \<longleftrightarrow> fid = 0" for fid
    using wit_name get_data_file_name_eq by metis
  have nodir: "get_data_file_name ''d'' fid \<noteq> ''d''" for fid
    by (simp add: get_data_file_name_def)
  have "holds_log (encs rs) rs" using assms(1,2) by (auto simp: holds_log_def parse_record_def)
  then show "disk_log ''d'' fs (\<lambda>_. rs) 1"
    using assms(3-5) nodir
    by (auto simp: disk_log_def file_exists_def fs_get_def name directory_exists_def MAX_SCAN_FILES_def
        unat_eq_0)
  show "plain_dir ''d'' fs"
    using assms(3-5)
    by (auto simp: plain_dir_def file_exists_def fs_get_def directory_exists_def HINT_FILE_NAME_def
        MERGE_FINISHED_FILE_NAME_def)
qed

theorem DB_open_recovers_witness:
  "\<exists>db fs'. DB_open (\<lambda>_ _. True) wit_options (wit_dbfs\<lparr>fs_files := [(''d/000000000.data'',
      encs [put_record [107] [1], put_record [108] [2], delete_record [107]])]\<rparr>) = (Inr db, fs')
    \<and> DB_get [107] db fs' = Inl KeyNotFoundError \<and> DB_get [108] db fs' = Inr [2]"
proof -
  let ?rs = "[put_record [107] [1], put_record [108] [2], delete_record [107]]"
  let ?fs = "wit_dbfs\<lparr>fs_files := [(''d/000000000.data'', encs ?rs)]\<rparr>"
  have p: "plain_key [k]" for k by (rule plain_key_short) simp_all
  have rd: "\<forall>r \<in> set ?rs. readable r" using plain_records(5,6) [OF p] by (simp add: MAX_RECORD_SIZE_def)
  have len: "length (encs ?rs) < 2 ^ 63"
    by (simp add: length_LogRecord_encode header_length_def put_record_def delete_record_def
        encode_varint_small)
  have recs: "records (\<lambda>_. ?rs) (first_ids 1) = ?rs" by (simp add: records_def)
  have com: "committed ?rs [107] = None" "committed ?rs [108] = Some [2]"
    using committed_snoc [of "delete_record [107]" "[107]" "[put_record [107] [1], put_record [108] [2]]"]
      committed_snoc [of "put_record [108] [2]" "[108]" "[put_record [107] [1]]"] plain_records [OF p]
    by (simp_all add: put_record_def delete_record_def)
  have keys: "keys_ok ?rs" using plain_records(1,3) [OF p] by (simp add: keys_ok_def)
  have chk: "check_options wit_options = Inr ()" by (simp add: check_options_def)
  have disk: "disk_log (opt_dir_path wit_options) ?fs (\<lambda>_. ?rs) 1" "plain_dir (opt_dir_path wit_options) ?fs"
    using wit_disk [OF rd len, of ?fs] by simp_all
  show ?thesis
    using DB_open_recovers [OF chk _ _ disk, of "\<lambda>_ _. True"] keys com unfolding recs by fastforce
qed

end
