(* ===== verification/Write_Batch.thy ===== *)
theory Write_Batch
  imports Db_Open
begin

text \<open>
  Batches of writes (\<open>class WriteBatch\<close>, \<open>src/write_batch.cpp\<close>): records are collected, written
  with the sequence number of the batch behind their keys, and take effect when an end marker has
  been written. The lemmas show that a commit appends exactly those records, what it does to the
  contents, and that a batch whose end marker is missing in the log has no effect.
\<close>

section \<open>Definitions\<close>

record write_batch_options =
  wbo_max_batch_num :: u32
  wbo_sync_writes :: bool

definition default_batch_options :: write_batch_options where
  "default_batch_options = \<lparr>wbo_max_batch_num = 10000, wbo_sync_writes = True\<rparr>"

record write_batch =
  wb_options :: write_batch_options
  wb_pending :: "log_record list"
  wb_seq_no :: u64

definition new_write_batch :: "write_batch_options \<Rightarrow> db \<Rightarrow> write_batch" where
  "new_write_batch opts db = \<lparr>wb_options = opts, wb_pending = [], wb_seq_no = db_seq_no db + 1\<rparr>"

definition WriteBatch_add :: "log_record \<Rightarrow> write_batch \<Rightarrow> unit res \<times> write_batch" where
  "WriteBatch_add r wb =
     (if lr_key r = [] then (Inl KeyEmptyError, wb)
      else if length (wb_pending wb) \<ge> unat (wbo_max_batch_num (wb_options wb))
      then (Inl (BitcaskException ''Batch size exceeds maximum limit''), wb)
      else (Inr (), wb\<lparr>wb_pending := wb_pending wb @ [r]\<rparr>))"

definition WriteBatch_put :: "bytes \<Rightarrow> bytes \<Rightarrow> write_batch \<Rightarrow> unit res \<times> write_batch" where
  "WriteBatch_put key value wb = WriteBatch_add \<lparr>lr_key = key, lr_value = value, lr_type = NORMAL\<rparr> wb"

definition WriteBatch_remove :: "bytes \<Rightarrow> write_batch \<Rightarrow> unit res \<times> write_batch" where
  "WriteBatch_remove key wb = WriteBatch_add \<lparr>lr_key = key, lr_value = [], lr_type = DELETED\<rparr> wb"

definition with_seq :: "u64 \<Rightarrow> log_record \<Rightarrow> log_record" where
  "with_seq seq_no r = r\<lparr>lr_key := log_record_key_with_seq (lr_key r) seq_no\<rparr>"

definition txn_fin_record :: "u64 \<Rightarrow> log_record" where
  "txn_fin_record seq_no =
     \<lparr>lr_key = log_record_key_with_seq [] seq_no, lr_value = [], lr_type = TXN_FINISHED\<rparr>"

text \<open>The loop that writes the records and collects their positions.\<close>

fun append_pending :: "u64 \<Rightarrow> log_record list \<Rightarrow> db \<Rightarrow> fsys \<Rightarrow> log_record_pos list res \<times> db \<times> fsys" where
  "append_pending seq_no [] db fs = (Inr [], db, fs)"
| "append_pending seq_no (r # rs) db fs =
     bind_res (append_log_record_internal (with_seq seq_no r) db fs)
       (\<lambda>pos (db, fs). bind_res (append_pending seq_no rs db fs)
         (\<lambda>positions (db, fs). (Inr (pos # positions), db, fs)))"

definition apply_pending :: "log_record \<Rightarrow> log_record_pos \<Rightarrow> db \<Rightarrow> db" where
  "apply_pending r pos db =
     (case lr_type r of
        NORMAL \<Rightarrow> (case idx_put (lr_key r) pos (db_index db) of
                     (old_pos, i) \<Rightarrow> reclaim old_pos (db\<lparr>db_index := i\<rparr>))
      | DELETED \<Rightarrow> (case idx_remove (lr_key r) (db_index db) of
                     ((old_pos, ok), i) \<Rightarrow> reclaim old_pos (reclaim (Some pos) (db\<lparr>db_index := i\<rparr>)))
      | _ \<Rightarrow> db)"

definition WriteBatch_commit :: "write_batch \<Rightarrow> db \<Rightarrow> fsys \<Rightarrow> unit res \<times> write_batch \<times> db \<times> fsys" where
  "WriteBatch_commit wb db fs =
     (if wb_pending wb = [] then (Inr (), wb, db, fs)
      else
        (let current_seq_no = wb_seq_no wb in
         case append_pending current_seq_no (wb_pending wb) db fs of
           (Inl e, db, fs) \<Rightarrow> (Inl e, wb, db, fs)
         | (Inr positions, db, fs) \<Rightarrow>
             (case append_log_record_internal (txn_fin_record current_seq_no) db fs of
                (Inl e, db, fs) \<Rightarrow> (Inl e, wb, db, fs)
              | (Inr _, db, fs) \<Rightarrow>
                  (let db = fold (\<lambda>(r, pos). apply_pending r pos) (zip (wb_pending wb) positions) db
                   in (Inr (), wb\<lparr>wb_pending := []\<rparr>, db\<lparr>db_seq_no := current_seq_no + 1\<rparr>, fs)))))"

section \<open>Keys with a sequence number\<close>

text \<open>
  The key of a record of a transaction is read back: for every sequence number but 0, splitting
  a key that was extended by it returns the key and the number.
\<close>

theorem parse_key_with_seq:
  assumes "seq_no \<noteq> NON_TRANSACTION_SEQ_NO"
  shows "parse_log_record_key (log_record_key_with_seq key seq_no) = (key, seq_no)"
  using assms
  by (simp add: parse_log_record_key_def log_record_key_with_seq_def le_decode_encode Let_def)

theorem parse_key_with_seq_witness:
  "parse_log_record_key (log_record_key_with_seq [107] 5) = ([107], 5)"
  by (rule parse_key_with_seq) (simp add: NON_TRANSACTION_SEQ_NO_def)

lemma seq_records:
  assumes "s \<noteq> NON_TRANSACTION_SEQ_NO"
  shows "key_of (with_seq s r) = lr_key r" "seq_of (with_seq s r) = s" "lr_type (with_seq s r) = lr_type r"
    "lr_value (with_seq s r) = lr_value r"
    "key_of (txn_fin_record s) = []" "seq_of (txn_fin_record s) = s"
    "readable (txn_fin_record s)"
proof -
  have "parse_log_record_key (log_record_key_with_seq k s) = (k, s)" for k
    using assms by (simp add: parse_log_record_key_def log_record_key_with_seq_def le_decode_encode Let_def)
  then show "key_of (with_seq s r) = lr_key r" "seq_of (with_seq s r) = s" "lr_type (with_seq s r) = lr_type r"
    "lr_value (with_seq s r) = lr_value r"
    "key_of (txn_fin_record s) = []" "seq_of (txn_fin_record s) = s"
    by (simp_all add: key_of_def seq_of_def with_seq_def txn_fin_record_def)
  have "length (log_record_key_with_seq [] s) = 8"
    using assms by (simp add: log_record_key_with_seq_def)
  then show "readable (txn_fin_record s)"
    by (auto simp: readable_def txn_fin_record_def MAX_RECORD_SIZE_def simp flip: length_greater_0_conv)
qed

section \<open>A batch in the log\<close>

text \<open>The records that a commit appends.\<close>

definition batch_records :: "u64 \<Rightarrow> log_record list \<Rightarrow> log_record list" where
  "batch_records s rs = map (with_seq s) rs @ [txn_fin_record s]"

lemma replay_pending_none:
  "\<forall>e \<in> set es. seq_of (snd e) \<noteq> s \<Longrightarrow> snd (replay es) s = []"
proof (induction es rule: rev_induct)
  case (snoc e es)
  then show ?case by (auto simp: replay_snoc replay_step_def Let_def seq_of_def)
qed simp

text \<open>Without the end marker the records of a batch wait.\<close>

lemma replay_batch_open:
  assumes s: "s \<noteq> NON_TRANSACTION_SEQ_NO" and rs: "\<forall>r \<in> set rs. lr_type r \<noteq> TXN_FINISHED"
    and "map snd bs = map (with_seq s) rs"
  shows "fst (fold replay_step bs st) = fst st
    \<and> snd (fold replay_step bs st) = (snd st)(s := snd st s @ zip (map lr_key rs) bs)"
  using rs assms(3)
proof (induction rs arbitrary: bs st)
  case Nil
  then show ?case by simp
next
  case (Cons r rs)
  obtain b bs' where b: "bs = b # bs'" "snd b = with_seq s r" "map snd bs' = map (with_seq s) rs"
    using Cons.prems(2) by auto
  have "replay_step b st = (fst st, (snd st)(s := snd st s @ [(lr_key r, b)]))"
    using seq_records(1-3) [OF s, of r] Cons.prems(1) s
    by (simp add: replay_step_def b(2) key_of_def seq_of_def Let_def)
  then show ?case using Cons.IH [of bs' "replay_step b st"] Cons.prems(1) b(1,3) by (auto simp: fun_eq_iff)
qed

definition values_of :: "'p entries \<Rightarrow> bytes \<Rightarrow> bytes option" where
  "values_of m k = map_option (lr_value \<circ> snd) (m k)"

definition apply_write :: "log_record \<Rightarrow> (bytes \<Rightarrow> bytes option) \<Rightarrow> bytes \<Rightarrow> bytes option" where
  "apply_write r m = m(lr_key r := if lr_type r = DELETED then None else Some (lr_value r))"

lemma fold_apply_values:
  assumes "s \<noteq> NON_TRANSACTION_SEQ_NO" "map snd bs = map (with_seq s) rs"
  shows "values_of (fold apply_entry (zip (map lr_key rs) bs) m)
    = fold apply_write rs (values_of m)"
  using assms(2)
proof (induction rs arbitrary: bs m)
  case (Cons r rs)
  obtain b bs' where b: "bs = b # bs'" "snd b = with_seq s r" "map snd bs' = map (with_seq s) rs"
    using Cons.prems by auto
  have "values_of (apply_entry (lr_key r, b) m)
      = apply_write r (values_of m)"
    using b(2) seq_records(3,4) [OF assms(1), of r] by (auto simp: fun_eq_iff apply_entry_def apply_write_def values_of_def)
  then show ?case using Cons.IH [OF b(3)] b(1) by simp
qed simp

lemma committed_alt: "committed rs = values_of (fst (replay (map (Pair ()) rs)))"
  by (simp add: committed_def fun_eq_iff values_of_def)

lemma batch_atomic_log:
  assumes s: "s \<noteq> NON_TRANSACTION_SEQ_NO" and rs: "\<forall>r \<in> set rs. lr_type r \<noteq> TXN_FINISHED"
    and new: "\<forall>r \<in> set done_rs. seq_of r \<noteq> s"
  shows "committed (done_rs @ take i (batch_records s rs)) =
    (if i \<le> length rs then committed done_rs else fold apply_write rs (committed done_rs))"
proof -
  define st where "st = replay (map (Pair ()) done_rs)"
  have none: "snd st s = []"
    using new replay_pending_none [of "map (Pair ()) done_rs" s] by (auto simp: st_def)
  have run: "replay (map (Pair ()) (done_rs @ xs)) = fold replay_step (map (Pair ()) xs) st" for xs
    by (simp add: replay_def st_def)
  have part: "fold replay_step (map (Pair ()) (map (with_seq s) ys)) st
      = (fst st, (snd st)(s := zip (map lr_key ys) (map (Pair ()) (map (with_seq s) ys))))"
    if sub: "set ys \<subseteq> set rs" for ys
  proof -
    have "\<forall>r \<in> set ys. lr_type r \<noteq> TXN_FINISHED" using rs sub by blast
    from replay_batch_open [OF s this, of "map (Pair ()) (map (with_seq s) ys)" st] none
    show ?thesis by (simp add: comp_def prod_eq_iff)
  qed
  show ?thesis
  proof (cases "i \<le> length rs")
    case True
    then have "take i (batch_records s rs) = map (with_seq s) (take i rs)"
      by (simp add: batch_records_def take_map)
    then show ?thesis
      using True part [OF set_take_subset, of i] unfolding committed_alt run by (simp add: st_def)
  next
    case False
    then have all: "take i (batch_records s rs) = map (with_seq s) rs @ [txn_fin_record s]"
      by (simp add: batch_records_def)
    have fin: "replay_step ((), txn_fin_record s) (m, pend) = (fold apply_entry (pend s) m, pend(s := []))"
      for m and pend :: "unit pending"
      using seq_records(5,6) [OF s] s
      by (simp add: replay_step_def Let_def seq_of_def) (simp add: txn_fin_record_def)
    have "fst (replay (map (Pair ()) (done_rs @ take i (batch_records s rs))))
        = fold apply_entry (zip (map lr_key rs) (map (Pair ()) (map (with_seq s) rs))) (fst st)"
      unfolding all run using part [OF order_refl] fin by simp
    then show ?thesis
      using False fold_apply_values [OF s, of "map (Pair ()) (map (with_seq s) rs)" rs "fst st"]
      by (simp add: committed_alt st_def comp_def)
  qed
qed

section \<open>Committing\<close>

definition fs_frame :: "string \<Rightarrow> fsys \<Rightarrow> fsys \<Rightarrow> bool" where
  "fs_frame p fs fs' \<longleftrightarrow>
     fs_dirs fs' = fs_dirs fs \<and> fs_locks fs' = fs_locks fs \<and> fs_page_size fs' = fs_page_size fs
     \<and> (\<forall>q. q \<noteq> p \<longrightarrow> fs_get fs' q = fs_get fs q)"

lemma fs_frame_put [simp]: "fs_frame p fs fs" "fs_frame p fs (fs_put p c fs)"
  by (simp_all add: fs_frame_def)

lemma fs_frame_trans: "fs_frame p a b \<Longrightarrow> fs_frame p b c \<Longrightarrow> fs_frame p a c"
  by (simp add: fs_frame_def)

definition log_appends :: "u32 \<Rightarrow> log_record list \<Rightarrow> (u32 \<Rightarrow> log_record list) \<Rightarrow> u32 \<Rightarrow> log_record list" where
  "log_appends fid rs logs = logs(fid := logs fid @ rs)"

lemma log_appends_simps:
  "log_appends fid [] logs = logs" "log_appends fid [r] logs = log_append fid r logs"
  "log_appends fid (r # rs) logs = log_appends fid rs (log_append fid r logs)"
  "log_appends fid (rs @ [r]) logs = log_append fid r (log_appends fid rs logs)"
  by (simp_all add: log_appends_def log_append_def)

lemma room_append:
  assumes "log_files db fs logs fids" "log_files db' fs' (log_append (active_id db) r logs) fids"
    "db_options db' = db_options db" "active_id db' = active_id db" "fs_page_size fs' = fs_page_size fs"
    "room db fs (length (enc r) + m)"
  shows "room db' fs' m"
  using assms(6) unfolding room_log [OF assms(1)] room_log [OF assms(2)]
  by (simp add: assms(3-5) log_append_def)

lemma room_fits: "room db fs (length (enc r) + m) \<Longrightarrow> fits db fs r"
  unfolding fits_room room_def by fastforce

lemma append_pending_ok:
  assumes "log_files db fs logs fids" "room db fs (length (encs (map (with_seq s) rs)) + m)"
    and "\<forall>r \<in> set rs. readable (with_seq s r)"
  shows "\<exists>ps db' fs'. append_pending s rs db fs = (Inr ps, db', fs') \<and> length ps = length rs
    \<and> log_files db' fs' (log_appends (active_id db) (map (with_seq s) rs) logs) fids
    \<and> log_of (log_appends (active_id db) (map (with_seq s) rs) logs) fids
        = log_of logs fids @ zip ps (map (with_seq s) rs)
    \<and> db_index db' = db_index db \<and> db_options db' = db_options db \<and> active_id db' = active_id db
    \<and> db_file_lock_fd db' = db_file_lock_fd db
    \<and> room db' fs' m \<and> fs_frame (data_name db (active_id db)) fs fs'"
  using assms
proof (induction rs arbitrary: db fs logs)
  case Nil
  then show ?case by (simp add: log_appends_simps)
next
  case (Cons r rs)
  let ?r = "with_seq s r" and ?id = "active_id db"
  have room: "room db fs (length (enc ?r) + (length (encs (map (with_seq s) rs)) + m))"
    using Cons.prems(2) by (simp add: add.assoc)
  obtain pos db1 fs1 where app: "append_log_record_internal ?r db fs = (Inr pos, db1, fs1)"
    and files1: "log_files db1 fs1 (log_append ?id ?r logs) fids"
    and log1: "log_of (log_append ?id ?r logs) fids = log_of logs fids @ [(pos, ?r)]"
    and same1: "db_index db1 = db_index db" "db_options db1 = db_options db" "active_id db1 = ?id"
      "db_file_lock_fd db1 = db_file_lock_fd db"
    and fs1: "fs1 = fs_put (data_name db ?id) (encs (logs ?id @ [?r])) fs"
    using log_append_ok [OF Cons.prems(1) room_fits [OF room]] Cons.prems(3) by (metis list.set_intros(1))
  have room1: "room db1 fs1 (length (encs (map (with_seq s) rs)) + m)"
    using room_append [OF Cons.prems(1) files1 same1(2,3) _ room] fs1 by simp
  from Cons.IH [OF files1 room1] Cons.prems(3)
  obtain ps db' fs' where rest: "append_pending s rs db1 fs1 = (Inr ps, db', fs')" "length ps = length rs"
    "log_files db' fs' (log_appends ?id (map (with_seq s) (r # rs)) logs) fids"
    "log_of (log_appends ?id (map (with_seq s) (r # rs)) logs) fids
      = log_of (log_append ?id ?r logs) fids @ zip ps (map (with_seq s) rs)"
    "db_index db' = db_index db1" "db_options db' = db_options db1" "active_id db' = active_id db1"
    "room db' fs' m" "fs_frame (data_name db1 (active_id db1)) fs1 fs'"
    "db_file_lock_fd db' = db_file_lock_fd db1"
    by (auto simp: same1 log_appends_simps)
  have "fs_frame (data_name db ?id) fs fs'"
    using rest(9) fs1 fs_frame_trans [of "data_name db ?id" fs fs1 fs'] by (simp add: same1)
  then show ?case
    using app rest log1 same1 by (intro exI [of _ "pos # ps"] exI [of _ db'] exI [of _ fs']) simp
qed

lemma apply_pending_update:
  "lr_type r \<in> {NORMAL, DELETED} \<Longrightarrow> apply_pending r pos db = update_index (lr_key r) (lr_type r) pos db"
  by (auto simp: apply_pending_def update_index_def)

lemma apply_pending_txn:
  "length ps = length rs \<Longrightarrow> \<forall>r \<in> set rs. lr_type r \<in> {NORMAL, DELETED} \<Longrightarrow>
   fold (\<lambda>(r, pos). apply_pending r pos) (zip rs ps) db
     = apply_txn (map txn_of (zip (map lr_key rs) (zip ps (map (with_seq s) rs)))) db"
proof (induction rs arbitrary: ps db)
  case (Cons r rs)
  then obtain p ps' where ps: "ps = p # ps'" by (cases ps) auto
  have "apply_pending r p db = update_index (lr_key r) (lr_type r) p db"
    using Cons.prems(2) by (intro apply_pending_update) simp
  then show ?case
    using Cons.IH [of ps' "update_index (lr_key r) (lr_type r) p db"] Cons.prems
    by (simp add: ps apply_txn_def txn_of_def with_seq_def)
qed (simp add: apply_txn_def)

definition batch_ok :: "write_batch \<Rightarrow> bool" where
  "batch_ok wb \<longleftrightarrow> wb_seq_no wb \<noteq> NON_TRANSACTION_SEQ_NO
     \<and> (\<forall>r \<in> set (wb_pending wb). lr_key r \<noteq> [] \<and> lr_type r \<in> {NORMAL, DELETED}
          \<and> readable (with_seq (wb_seq_no wb) r))"

lemma commit_logs:
  assumes inv: "log_inv db fs logs fids" and ok: "batch_ok wb" and ne: "wb_pending wb \<noteq> []"
    and room: "room db fs (length (encs (batch_records (wb_seq_no wb) (wb_pending wb))))"
    and new: "\<forall>r \<in> set (records logs fids). seq_of r \<noteq> wb_seq_no wb"
  defines "logs' \<equiv> log_appends (active_id db) (batch_records (wb_seq_no wb) (wb_pending wb)) logs"
  shows "\<exists>db' fs'. WriteBatch_commit wb db fs = (Inr (), wb\<lparr>wb_pending := []\<rparr>, db', fs')
    \<and> log_inv db' fs' logs' fids
    \<and> records logs' fids = records logs fids @ batch_records (wb_seq_no wb) (wb_pending wb)
    \<and> db_options db' = db_options db \<and> db_seq_no db' = wb_seq_no wb + 1
    \<and> db_file_lock_fd db' = db_file_lock_fd db \<and> fs_frame (data_name db (active_id db)) fs fs'"
proof -
  let ?s = "wb_seq_no wb" and ?rs = "wb_pending wb" and ?id = "active_id db"
  let ?ws = "map (with_seq ?s) ?rs" and ?fin = "txn_fin_record ?s"
  have s: "?s \<noteq> NON_TRANSACTION_SEQ_NO" and types: "\<forall>r \<in> set ?rs. lr_type r \<in> {NORMAL, DELETED}"
    using ok by (auto simp: batch_ok_def)
  have files: "log_files db fs logs fids" using inv by (simp add: log_inv_def)
  have room': "room db fs (length (encs ?ws) + length (enc ?fin))"
    using room by (simp add: batch_records_def)
  obtain ps db1 fs1 where app: "append_pending ?s ?rs db fs = (Inr ps, db1, fs1)" "length ps = length ?rs"
    and files1: "log_files db1 fs1 (log_appends ?id ?ws logs) fids"
    and log1: "log_of (log_appends ?id ?ws logs) fids = log_of logs fids @ zip ps ?ws"
    and same1: "db_index db1 = db_index db" "db_options db1 = db_options db" "active_id db1 = ?id"
      "db_file_lock_fd db1 = db_file_lock_fd db"
    and room1: "room db1 fs1 (length (enc ?fin))" and fr1: "fs_frame (data_name db ?id) fs fs1"
    using append_pending_ok [OF files room'] ok by (auto simp: batch_ok_def)
  have logs': "logs' = log_append ?id ?fin (log_appends ?id ?ws logs)"
    by (simp add: logs'_def batch_records_def log_appends_simps)
  obtain pos db2 fs2 where fin: "append_log_record_internal ?fin db1 fs1 = (Inr pos, db2, fs2)"
    and files2: "log_files db2 fs2 logs' fids"
    and log2: "log_of logs' fids = log_of (log_appends ?id ?ws logs) fids @ [(pos, ?fin)]"
    and same2: "db_index db2 = db_index db1" "db_options db2 = db_options db1"
      "db_file_lock_fd db2 = db_file_lock_fd db1"
    and fs2: "fs2 = fs_put (data_name db1 ?id) (encs (log_appends ?id ?ws logs ?id @ [?fin])) fs1"
    using log_append_ok [OF files1 _ seq_records(7) [OF s]] room1 unfolding logs' fits_room same1(3) by metis
  let ?es = "zip (map lr_key ?rs) (zip ps ?ws)"
  define db3 where "db3 = apply_txn (map txn_of ?es) db2"
  have hold2: "db_holds db2 (fst (replay (log_of logs fids)))"
    using inv same1(1) same2(1) by (simp add: log_inv_def db_holds_def)
  have db3: "db_holds db3 (fold apply_entry ?es (fst (replay (log_of logs fids))))" "same_files db2 db3"
    using apply_txn_holds [OF hold2, of ?es] by (simp_all add: db3_def)
  have run: "WriteBatch_commit wb db fs = (Inr (), wb\<lparr>wb_pending := []\<rparr>, db3\<lparr>db_seq_no := ?s + 1\<rparr>, fs2)"
    using ne app fin apply_pending_txn [OF app(2) types, of db2 ?s]
    by (simp add: WriteBatch_commit_def db3_def Let_def)
  have recs: "records logs' fids = records logs fids @ batch_records ?s ?rs"
  proof -
    have "map snd (log_of logs' fids) = map snd (log_of logs fids) @ batch_records ?s ?rs"
      using app(2) unfolding log2 log1 by (simp add: batch_records_def)
    then show ?thesis by simp
  qed
  have keys: "keys_ok (batch_records ?s ?rs)"
    using ok seq_records [OF s] s
    by (auto simp: keys_ok_def batch_records_def batch_ok_def) (simp_all add: txn_fin_record_def)
  have none: "snd (replay (log_of logs fids)) ?s = []"
  proof (rule replay_pending_none, rule ballI)
    fix e assume "e \<in> set (log_of logs fids)"
    then have "snd e \<in> set (records logs fids)" by (metis image_eqI list.set_map map_snd_log_of)
    then show "seq_of (snd e) \<noteq> ?s" using new by blast
  qed
  have "fst (replay (log_of logs' fids)) = fold apply_entry ?es (fst (replay (log_of logs fids)))"
  proof -
    have "\<forall>r \<in> set ?rs. lr_type r \<noteq> TXN_FINISHED" using types by auto
    from replay_batch_open [OF s this, of "zip ps ?ws" "replay (log_of logs fids)"] app(2) none
    have "replay (log_of logs fids @ zip ps ?ws)
        = (fst (replay (log_of logs fids)), (snd (replay (log_of logs fids)))(?s := ?es))"
      by (simp add: replay_def prod_eq_iff)
    then show ?thesis
      using seq_records(5,6) [OF s] s
      by (simp add: log2 log1 replay_snoc replay_step_def Let_def seq_of_def flip: append_assoc)
        (simp add: txn_fin_record_def)
  qed
  then have "db_holds (db3\<lparr>db_seq_no := ?s + 1\<rparr>) (fst (replay (log_of logs' fids)))"
    using db3(1) by (simp add: db_holds_def)
  moreover have "log_files (db3\<lparr>db_seq_no := ?s + 1\<rparr>) fs2 logs' fids"
    using log_files_frame [of "db3\<lparr>db_seq_no := ?s + 1\<rparr>" db2 fs2 logs' fids] same_filesD [OF db3(2)] files2
    by simp
  ultimately have "log_inv (db3\<lparr>db_seq_no := ?s + 1\<rparr>) fs2 logs' fids"
    using inv keys by (simp add: log_inv_def recs keys_ok_append)
  moreover have "fs_frame (data_name db ?id) fs fs2"
    using fs_frame_trans [OF fr1] fs2 same1(2) by simp
  ultimately show ?thesis
    using run recs same_filesD(3,5) [OF db3(2)] same1(2,4) same2(2,3) by auto
qed

text \<open>The bytes that a commit appends.\<close>

lemma commit_bytes:
  assumes "log_inv db fs logs fids" and "batch_ok wb" and "wb_pending wb \<noteq> []"
    and "room db fs (length (encs (batch_records (wb_seq_no wb) (wb_pending wb))))"
    and "\<forall>r \<in> set (records logs fids). seq_of r \<noteq> wb_seq_no wb"
  shows "\<exists>db' fs'. WriteBatch_commit wb db fs = (Inr (), wb\<lparr>wb_pending := []\<rparr>, db', fs')
    \<and> fs_get fs' (data_name db (active_id db))
        = Some (the (fs_get fs (data_name db (active_id db))) @ encs (batch_records (wb_seq_no wb) (wb_pending wb)))"
proof -
  let ?id = "active_id db" and ?b = "batch_records (wb_seq_no wb) (wb_pending wb)"
  have active: "fs_get fs1 (data_name db1 (active_id db1)) = Some (encs (logs1 (active_id db1))) \<and> last fids = active_id db1"
    if l: "log_inv db1 fs1 logs1 fids" for db1 fs1 logs1
  proof -
    obtain df where "db_active_file db1 = Some df" "fs_get fs1 (io_path (df_io df)) = Some (encs (logs1 (df_file_id df)))"
      "last fids = df_file_id df" "files_ok db1 fs1" using l by (auto simp: log_inv_def log_files_def)
    then show ?thesis by (simp add: active_id_def files_ok_def)
  qed
  obtain db' fs' where c: "WriteBatch_commit wb db fs = (Inr (), wb\<lparr>wb_pending := []\<rparr>, db', fs')"
    "log_inv db' fs' (log_appends ?id ?b logs) fids" "db_options db' = db_options db"
    using commit_logs [OF assms] by blast
  then have "fs_get fs' (data_name db ?id) = Some (encs (log_appends ?id ?b logs ?id))"
    using active [OF c(2)] active [OF assms(1)] by simp
  then show ?thesis using c(1) active [OF assms(1)] by (simp add: log_appends_def)
qed

lemma fold_apply_write_local:
  "m k = m' k \<Longrightarrow> fold apply_write rs m k = fold apply_write rs m' k"
proof (induction rs arbitrary: m m')
  case (Cons r rs)
  have "fold apply_write rs (apply_write r m) k = fold apply_write rs (apply_write r m') k"
    by (rule Cons.IH) (simp add: apply_write_def Cons.prems)
  then show ?case by simp
qed simp

text \<open>
  C31: \<open>commit\<close> applies the batch: in a state whose index is the replay of its log, when the batch is
  not empty, its number is new in the log and its records fit in the active file, the commit
  returns, empties the batch, advances the sequence number, keeps the invariant, and afterwards the
  contents are those before with the writes of the batch applied in their order.
\<close>

theorem WriteBatch_commit_refines:
  assumes "log_inv db fs logs fids" and "batch_ok wb" and "wb_pending wb \<noteq> []"
    and "room db fs (length (encs (batch_records (wb_seq_no wb) (wb_pending wb))))"
    and "\<forall>r \<in> set (records logs fids). seq_of r \<noteq> wb_seq_no wb"
  shows "\<exists>db' fs' logs'. WriteBatch_commit wb db fs = (Inr (), wb\<lparr>wb_pending := []\<rparr>, db', fs')
    \<and> log_inv db' fs' logs' fids \<and> db_seq_no db' = wb_seq_no wb + 1
    \<and> (\<forall>k. k \<noteq> [] \<longrightarrow> db_kv db' fs' k = fold apply_write (wb_pending wb) (db_kv db fs) k)"
proof -
  let ?rs = "wb_pending wb" and ?b = "batch_records (wb_seq_no wb) (wb_pending wb)"
  define logs' where "logs' = log_appends (active_id db) ?b logs"
  obtain db' fs' where c: "WriteBatch_commit wb db fs = (Inr (), wb\<lparr>wb_pending := []\<rparr>, db', fs')"
    "log_inv db' fs' logs' fids" "db_seq_no db' = wb_seq_no wb + 1"
    and recs: "records logs' fids = records logs fids @ ?b"
    using commit_logs [OF assms] unfolding logs'_def by (elim exE conjE)
  have types: "\<forall>r \<in> set ?rs. lr_type r \<noteq> TXN_FINISHED" and s: "wb_seq_no wb \<noteq> NON_TRANSACTION_SEQ_NO"
    using assms(2) by (auto simp: batch_ok_def)
  have "take (Suc (length ?rs)) ?b = ?b" by (simp add: batch_records_def)
  then have com: "committed (records logs' fids) = fold apply_write ?rs (committed (records logs fids))"
    using batch_atomic_log [OF s types assms(5), of "Suc (length ?rs)"] unfolding recs by simp
  have "db_kv db' fs' k = fold apply_write ?rs (db_kv db fs) k" if k: "k \<noteq> []" for k
  proof -
    have "db_kv db' fs' k = fold apply_write ?rs (committed (records logs fids)) k"
      unfolding db_log_inv(2) [OF log_inv_log [OF c(2)] k] com ..
    also have "\<dots> = fold apply_write ?rs (db_kv db fs) k"
      by (rule fold_apply_write_local) (simp only: db_log_inv(2) [OF log_inv_log [OF assms(1)] k])
    finally show ?thesis .
  qed
  then show ?thesis using c by blast
qed

lemma wit_log_inv: "log_inv wit_db wit_dbfs (\<lambda>_. []) [0]"
proof -
  have ok: "io_ok (df_io wit_df) wit_dbfs []" by (simp add: io_ok_def fs_get_def)
  then have "files_hold wit_db wit_dbfs (\<lambda>_. []) [0]"
    by (auto simp: files_hold_def files_to_process_def find_data_file_def holds_log_def parse_record_def wit_name)
  moreover have "files_ok wit_db wit_dbfs" using wit_inv by (simp add: db_inv_def)
  ultimately show ?thesis
    by (simp add: log_inv_def log_files_def log_end_def fs_get_def records_def keys_ok_def db_holds_def
        in_memory_def fun_eq_iff log_of_def)
qed

abbreviation wit_batch :: write_batch where
  "wit_batch \<equiv> \<lparr>wb_options = default_batch_options, wb_pending = [put_record [107] [1]], wb_seq_no = 1\<rparr>"

lemma wit_batch_ok: "batch_ok wit_batch"
  by (auto simp: batch_ok_def put_record_def readable_def with_seq_def log_record_key_with_seq_def
      NON_TRANSACTION_SEQ_NO_def MAX_RECORD_SIZE_def)

lemma wit_batch_length: "length (encs (batch_records 1 [put_record [107] [1]])) = 32"
  by (simp add: batch_records_def length_LogRecord_encode header_length_def put_record_def with_seq_def
      txn_fin_record_def log_record_key_with_seq_def NON_TRANSACTION_SEQ_NO_def encode_varint_small)

theorem WriteBatch_commit_refines_witness:
  "\<exists>db' fs'. WriteBatch_commit wit_batch wit_db wit_dbfs = (Inr (), wit_batch\<lparr>wb_pending := []\<rparr>, db', fs')
    \<and> db_kv db' fs' [107] = Some [1]"
proof -
  have "room wit_db wit_dbfs (length (encs (batch_records 1 [put_record [107] [1]])))"
    using wit_log_inv wit_batch_length by (simp add: room_log [of _ _ "\<lambda>_. []" "[0]"] log_inv_def)
  then show ?thesis
    using WriteBatch_commit_refines [OF wit_log_inv wit_batch_ok]
    by (auto simp: records_def apply_write_def put_record_def)
qed

section \<open>Loading what a commit wrote\<close>

definition load_records :: "(log_record_pos \<times> log_record) list \<Rightarrow> load_state \<Rightarrow> load_state" where
  "load_records es ls = fold (\<lambda>(p, r). load_record p r) es ls"

text \<open>The load loop over a batch: without the end marker the records wait, with it they are applied.\<close>

lemma load_batch_open:
  assumes s: "s \<noteq> NON_TRANSACTION_SEQ_NO" and rs: "\<forall>r \<in> set rs. lr_type r \<noteq> TXN_FINISHED" and len: "length ps = length rs"
  shows "ls_db (load_records (zip ps (map (with_seq s) rs)) ls) = ls_db ls
    \<and> waiting (load_records (zip ps (map (with_seq s) rs)) ls) s
        = waiting ls s @ map (\<lambda>(p, r). \<lparr>tr_record = r, tr_pos = p\<rparr>) (zip ps rs)"
  using rs len
proof (induction rs arbitrary: ps ls)
  case (Cons r rs)
  then obtain p ps' where ps: "ps = p # ps'" by (cases ps) auto
  have parse: "parse_log_record_key (lr_key (with_seq s r)) = (lr_key r, s)"
    using parse_key_with_seq [OF s] by (simp add: with_seq_def)
  let ?ls = "load_record p (with_seq s r) ls"
  have "lr_type r \<noteq> TXN_FINISHED" using Cons.prems(1) by simp
  then have step: "ls_db ?ls = ls_db ls" "waiting ?ls s = waiting ls s @ [\<lparr>tr_record = r, tr_pos = p\<rparr>]"
    using s parse by (simp_all add: load_record_def Let_def waiting_def [symmetric] with_seq_def)
  have "length ps' = length rs" "\<forall>r \<in> set rs. lr_type r \<noteq> TXN_FINISHED" using Cons.prems ps by simp_all
  from Cons.IH [OF this(2,1), of ?ls] show ?case by (simp add: ps step load_records_def)
qed (simp add: load_records_def)

lemma load_batch_fin:
  assumes "s \<noteq> NON_TRANSACTION_SEQ_NO"
  shows "ls_db (load_record p (txn_fin_record s) ls) = apply_txn (waiting ls s) (ls_db ls)"
    and "waiting (load_record p (txn_fin_record s) ls) s = []"
proof -
  have parse: "parse_log_record_key (lr_key (txn_fin_record s)) = ([], s)"
    using parse_key_with_seq [OF assms] by (simp add: txn_fin_record_def)
  have type: "lr_type (txn_fin_record s) = TXN_FINISHED" by (simp add: txn_fin_record_def)
  show "ls_db (load_record p (txn_fin_record s) ls) = apply_txn (waiting ls s) (ls_db ls)"
    "waiting (load_record p (txn_fin_record s) ls) s = []"
    using assms by (auto simp: load_record_def parse type Let_def waiting_def apply_txn_def delete_conv' split: option.split)
qed

text \<open>
  C32: a batch is all or nothing for the loader. What \<open>commit\<close> appends to the active file, when the
  batch is not empty, its number is not 0 and new in the log, its keys are not empty and its records fit, are the encodings of the
  records of the batch with the number behind their keys, in their order, and then of the end
  marker. When the loader, in any state in which no record with that number waits, reads any proper part of these
  records from the first on, at whatever positions, the index and everything else of the database stay as they
  were; when it reads all of them, every put and removal of the batch is applied to the index, in order.
\<close>

theorem batch_atomic:
  assumes "log_inv db fs logs fids" and "batch_ok wb" and "wb_pending wb \<noteq> []"
    and "room db fs (length (encs (batch_records (wb_seq_no wb) (wb_pending wb))))"
    and "\<forall>r \<in> set (records logs fids). seq_of r \<noteq> wb_seq_no wb"
    and "waiting ls (wb_seq_no wb) = []" and "length ps = length (wb_pending wb)"
  shows "\<exists>wb' db' fs'. WriteBatch_commit wb db fs = (Inr (), wb', db', fs')
    \<and> fs_get fs' (data_name db (active_id db))
        = Some (the (fs_get fs (data_name db (active_id db))) @ encs (batch_records (wb_seq_no wb) (wb_pending wb)))
    \<and> (\<forall>i \<le> length (wb_pending wb).
         ls_db (load_records (take i (zip (ps @ [q]) (batch_records (wb_seq_no wb) (wb_pending wb)))) ls) = ls_db ls)
    \<and> ls_db (load_records (zip (ps @ [q]) (batch_records (wb_seq_no wb) (wb_pending wb))) ls)
        = fold (\<lambda>(r, p). update_index (lr_key r) (lr_type r) p) (zip (wb_pending wb) ps) (ls_db ls)"
proof -
  let ?s = "wb_seq_no wb" and ?ws = "wb_pending wb" and ?id = "active_id db"
  have s: "?s \<noteq> NON_TRANSACTION_SEQ_NO" and types: "\<forall>r \<in> set ?ws. lr_type r \<noteq> TXN_FINISHED"
    using assms(2) by (auto simp: batch_ok_def)
  let ?rs = "batch_records ?s ?ws"
  obtain db' fs' where c: "WriteBatch_commit wb db fs = (Inr (), wb\<lparr>wb_pending := []\<rparr>, db', fs')"
    "fs_get fs' (data_name db ?id) = Some (the (fs_get fs (data_name db ?id)) @ encs ?rs)"
    using commit_bytes [OF assms(1-5)] by blast
  have zip: "zip (ps @ [q]) ?rs = zip ps (map (with_seq ?s) ?ws) @ [(q, txn_fin_record ?s)]"
    using assms(7) by (simp add: batch_records_def)
  have part: "ls_db (load_records (take i (zip (ps @ [q]) ?rs)) ls) = ls_db ls" if "i \<le> length ?ws" for i
  proof -
    have "take i (zip (ps @ [q]) ?rs) = zip (take i ps) (map (with_seq ?s) (take i ?ws))"
      using that assms(7) unfolding zip by (simp add: take_zip take_map)
    moreover have "\<forall>r \<in> set (take i ?ws). lr_type r \<noteq> TXN_FINISHED" using types by (meson in_set_takeD)
    ultimately show ?thesis
      using load_batch_open [OF s, of "take i ?ws" "take i ps" ls] assms(7) by simp
  qed
  have "load_records (zip (ps @ [q]) ?rs) ls
      = load_record q (txn_fin_record ?s) (load_records (zip ps (map (with_seq ?s) ?ws)) ls)"
    unfolding zip by (simp add: load_records_def)
  then have "ls_db (load_records (zip (ps @ [q]) ?rs) ls)
      = apply_txn (map (\<lambda>(p, r). \<lparr>tr_record = r, tr_pos = p\<rparr>) (zip ps ?ws)) (ls_db ls)"
    using load_batch_open [OF s types assms(7), of ls] load_batch_fin(1) [OF s] assms(6) by simp
  also have "\<dots> = fold (\<lambda>(r, p). update_index (lr_key r) (lr_type r) p) (zip ?ws ps) (ls_db ls)"
  proof -
    have "apply_txn (map (\<lambda>(p, r). \<lparr>tr_record = r, tr_pos = p\<rparr>) (zip ps ws)) d
        = fold (\<lambda>(r, p). update_index (lr_key r) (lr_type r) p) (zip ws ps) d" if "length ps = length ws" for ps ws d
      using that by (induction ps ws arbitrary: d rule: list_induct2) (simp_all add: apply_txn_def)
    then show ?thesis using assms(7) by blast
  qed
  finally show ?thesis using c part by blast
qed

theorem batch_atomic_witness:
  "\<exists>wb' db' fs'. WriteBatch_commit wit_batch wit_db wit_dbfs = (Inr (), wb', db', fs')
    \<and> fs_get fs' ''d/000000000.data'' = Some (encs [with_seq 1 (put_record [107] [1]), txn_fin_record 1])
    \<and> (let ls = \<lparr>ls_db = wit_db, ls_txns = [], ls_seq_no = 0\<rparr>; p = \<lparr>pos_fid = 0, pos_offset = 0, pos_size = 16\<rparr> in
       ls_db (load_records [(p, with_seq 1 (put_record [107] [1]))] ls) = wit_db
       \<and> ls_db (load_records [(p, with_seq 1 (put_record [107] [1])), (p, txn_fin_record 1)] ls) = update_index [107] NORMAL p wit_db)"
proof -
  let ?ls = "\<lparr>ls_db = wit_db, ls_txns = [], ls_seq_no = 0\<rparr>" and ?p = "\<lparr>pos_fid = 0, pos_offset = 0, pos_size = 16\<rparr>"
  let ?r = "with_seq 1 (put_record [107] [1])"
  have room: "room wit_db wit_dbfs (length (encs (batch_records (wb_seq_no wit_batch) (wb_pending wit_batch))))"
    using wit_log_inv wit_batch_length by (simp add: room_log [of _ _ "\<lambda>_. []" "[0]"] log_inv_def)
  have recs: "batch_records (wb_seq_no wit_batch) (wb_pending wit_batch) = [?r, txn_fin_record 1]"
    by (simp add: batch_records_def)
  have name: "data_name wit_db (active_id wit_db) = ''d/000000000.data''" by (simp add: active_id_def wit_name)
  have w: "waiting ?ls (wb_seq_no wit_batch) = []" "length [?p] = length (wb_pending wit_batch)" by (simp_all add: waiting_def)
  obtain wb' db' fs' where "WriteBatch_commit wit_batch wit_db wit_dbfs = (Inr (), wb', db', fs')"
    "fs_get fs' ''d/000000000.data'' = Some (the (fs_get wit_dbfs ''d/000000000.data'') @ encs [?r, txn_fin_record 1])"
    "\<forall>i \<le> length (wb_pending wit_batch). ls_db (load_records (take i (zip ([?p] @ [?p]) [?r, txn_fin_record 1])) ?ls) = ls_db ?ls"
    "ls_db (load_records (zip ([?p] @ [?p]) [?r, txn_fin_record 1]) ?ls)
      = fold (\<lambda>(r, p). update_index (lr_key r) (lr_type r) p) (zip (wb_pending wit_batch) [?p]) (ls_db ?ls)"
    using batch_atomic [OF wit_log_inv wit_batch_ok _ room _ w, of ?p] unfolding recs name
    by (simp add: records_def) blast
  moreover from this(3) have "ls_db (load_records [(?p, ?r)] ?ls) = wit_db" by (drule_tac spec [where x = 1]) simp
  ultimately show ?thesis by (simp add: fs_get_def put_record_def)
qed

end
