(* ===== verification/Db_Running.thy ===== *)
theory Db_Running
  imports Write_Batch
begin

text \<open>
  A database in use and what opening, closing and each operation keep of it: the open files hold a
  log, the directory can be opened again, and the index is the replay of the log. Also opening a
  new directory, and opening while another process holds the lock.
\<close>

section \<open>A running database\<close>

definition session_options :: "options \<Rightarrow> bool" where
  "session_options opts \<longleftrightarrow>
     check_options opts = Inr () \<and> \<not> opt_mmap_at_startup opts \<and> opt_index_type opts \<noteq> BPLUS_TREE"

definition lock_name :: "options \<Rightarrow> string" where
  "lock_name opts = opt_dir_path opts @ ''/'' @ FILE_LOCK_NAME"

definition running :: "db \<Rightarrow> fsys \<Rightarrow> (u32 \<Rightarrow> log_record list) \<Rightarrow> nat \<Rightarrow> bool" where
  "running db fs logs n \<longleftrightarrow>
     session_options (db_options db) \<and> log_inv db fs logs (first_ids n)
     \<and> disk_log (opt_dir_path (db_options db)) fs logs n \<and> plain_dir (opt_dir_path (db_options db)) fs
     \<and> (\<forall>p. db_file_lock_fd db = LockHeld p \<longrightarrow> p = lock_name (db_options db))
     \<and> (db_file_lock_fd db = NoLockFd \<longrightarrow> lock_name (db_options db) \<notin> set (fs_locks fs))
     \<and> db_file_lock_fd db \<noteq> StaleLockFd"

text \<open>Every record carries a number up to the last one given.\<close>

definition seqs_below :: "u64 \<Rightarrow> log_record list \<Rightarrow> bool" where
  "seqs_below s rs \<longleftrightarrow> (\<forall>r \<in> set rs. seq_of r \<le> s)"

text \<open>Directories on disk that differ in files other than the data files.\<close>

lemma disk_log_frame:
  assumes "disk_log dir fs logs n" and "fs_dirs fs' = fs_dirs fs" "fs_page_size fs' = fs_page_size fs"
    and "\<And>fid. fs_get fs' (get_data_file_name dir fid) = fs_get fs (get_data_file_name dir fid)"
  shows "disk_log dir fs' logs n"
  using assms by (simp add: disk_log_def file_exists_def directory_exists_def)

text \<open>An append to a data file of the log keeps the directory in order.\<close>

lemma disk_log_append:
  assumes disk: "disk_log dir fs logs n" and files: "log_files db fs' logs' (first_ids n)"
    and dir: "opt_dir_path (db_options db) = dir" and fr: "fs_frame (get_data_file_name dir fid) fs fs'"
    and fid: "unat fid < n"
  shows "disk_log dir fs' logs' n"
proof -
  have n: "n \<le> MAX_SCAN_FILES" using disk by (simp add: disk_log_def)
  have hold: "\<forall>f \<in> set (first_ids n). \<exists>df c. find_data_file f db = Some df \<and> df_file_id df = f
      \<and> io_path (df_io df) = get_data_file_name dir f \<and> io_ok (df_io df) fs' c \<and> holds_log c (logs' f)"
    using files by (simp add: log_files_def files_hold_def dir)
  have each: "\<exists>c. fs_get fs' (get_data_file_name dir f) = Some c \<and> holds_log c (logs' f)" if f: "unat f < n" for f
  proof -
    have "f \<in> set (first_ids n)" using set_first_ids [OF n] f by simp
    then obtain df :: data_file and c where "io_path (df_io df) = get_data_file_name dir f" "io_ok (df_io df) fs' c"
      "holds_log c (logs' f)"
      using hold by blast
    then show ?thesis by (metis io_ok_def)
  qed
  have "file_exists (get_data_file_name dir f) fs' \<longleftrightarrow> unat f < n" for f
  proof (cases "f = fid")
    case True
    then show ?thesis using each [OF fid] fid by (auto simp: file_exists_def)
  next
    case False
    then have "fs_get fs' (get_data_file_name dir f) = fs_get fs (get_data_file_name dir f)"
      using fr by (simp add: fs_frame_def)
    then show ?thesis using disk by (simp add: disk_log_def file_exists_def)
  qed
  then show ?thesis
    using disk each fr by (simp add: disk_log_def fs_frame_def directory_exists_def)
qed

lemma plain_dir_append:
  "plain_dir dir fs \<Longrightarrow> fs_frame (get_data_file_name dir fid) fs fs' \<Longrightarrow> plain_dir dir fs'"
  using special_names(2,3) [of dir fid, symmetric]
  by (simp add: plain_dir_def fs_frame_def file_exists_def directory_exists_def)

lemma active_id_first:
  assumes "running db fs logs n"
  shows "unat (active_id db) < n"
proof -
  have n: "n \<le> MAX_SCAN_FILES" using assms by (simp add: running_def disk_log_def)
  obtain df where "db_active_file db = Some df" "df_file_id df \<in> set (first_ids n)"
    using assms unfolding running_def log_inv_def log_files_def files_hold_def by blast
  then show ?thesis using set_first_ids [OF n] by (simp add: active_id_def)
qed

lemma running_step:
  assumes run: "running db fs logs n" and inv: "log_inv db' fs' logs' (first_ids n)"
    and opts: "db_options db' = db_options db" "db_file_lock_fd db' = db_file_lock_fd db"
    and fr: "fs_frame (data_name db (active_id db)) fs fs'"
  shows "running db' fs' logs' n"
proof -
  have "disk_log (opt_dir_path (db_options db)) fs' logs' n"
    using disk_log_append [of "opt_dir_path (db_options db)" fs logs n db' fs' logs' "active_id db"]
      run inv fr opts active_id_first [OF run]
    by (simp add: running_def log_inv_def)
  moreover have "plain_dir (opt_dir_path (db_options db)) fs'"
    using plain_dir_append run fr by (auto simp: running_def)
  ultimately show ?thesis using run inv opts fr by (simp add: running_def fs_frame_def)
qed

text \<open>What the user sees of a running database.\<close>

lemma running_get:
  assumes "running db fs logs n"
  shows "DB_get k db fs = (if k = [] then Inl KeyEmptyError
      else case committed (records logs (first_ids n)) k of None \<Rightarrow> Inl KeyNotFoundError | Some v \<Rightarrow> Inr v)"
  using assms db_log_inv(3) [OF log_inv_log] by (simp add: running_def)

section \<open>Closing and restarting\<close>

text \<open>A restart after a stop without \<open>close\<close>: the file system as it is, no process holds a lock.\<close>

definition crash :: "fsys \<Rightarrow> fsys" where
  "crash fs = fs\<lparr>fs_locks := []\<rparr>"

lemma crash_simps [simp]:
  "fs_get (crash fs) p = fs_get fs p" "fs_dirs (crash fs) = fs_dirs fs" "fs_locks (crash fs) = []"
  "fs_page_size (crash fs) = fs_page_size fs"
  by (simp_all add: crash_def)

lemma plain_dir_frame:
  assumes "plain_dir dir fs" "fs_dirs fs' = fs_dirs fs"
    and "\<And>q. q \<noteq> dir @ ''/'' @ SEQ_NO_FILE_NAME \<Longrightarrow> fs_get fs' q = fs_get fs q"
  shows "plain_dir dir fs'"
  using assms
  by (simp add: plain_dir_def file_exists_def directory_exists_def)
    (simp add: HINT_FILE_NAME_def MERGE_FINISHED_FILE_NAME_def SEQ_NO_FILE_NAME_def)

text \<open>\<open>close\<close> where the directory has its data file 0: the sequence number is saved, nothing else changes.\<close>

lemma save_seq_no_ok:
  fixes db :: db
  defines "dir \<equiv> opt_dir_path (db_options db)"
  assumes d: "dir \<noteq> []" "directory_exists dir fs" "file_exists (get_data_file_name dir 0) fs"
    "\<not> directory_exists (get_data_file_name dir 0) fs" "\<not> directory_exists (dir @ ''/'' @ SEQ_NO_FILE_NAME) fs"
  shows "\<exists>fs'. save_seq_no db fs = (Inr (), fs') \<and> fs_frame (dir @ ''/'' @ SEQ_NO_FILE_NAME) fs fs'
    \<and> (\<exists>rest. fs_get fs' (dir @ ''/'' @ SEQ_NO_FILE_NAME) = Some (enc (seq_no_record (db_seq_no db)) @ rest))"
proof -
  let ?p = "dir @ ''/'' @ SEQ_NO_FILE_NAME" and ?d = "enc (seq_no_record (db_seq_no db))"
  define fs1 where "fs1 = (if file_exists ?p fs then fs else fs_put ?p [] fs)"
  have o: "open_seq_no_file dir fs = (Inr \<lparr>df_file_id = 0, df_write_off = 0, df_io = file_io ?p\<rparr>, fs1)"
    using open_special_file_ok [OF d plain_names(4)] by (simp add: open_seq_no_file_def fs1_def)
  obtain c where c: "fs_get fs1 ?p = Some c" by (cases "fs_get fs ?p") (simp_all add: fs1_def file_exists_def)
  have fr: "fs_frame ?p fs fs1" by (simp add: fs1_def)
  have "io_write (file_io ?p) ?d 0 fs1
      = (Some (length ?d), file_io ?p, fs_put ?p (pwrite_bytes c ?d (unat (0 :: u64))) fs1)"
    using c sint_nonneg [of 0] by (simp add: io_write_def FileIOManager_write_def file_io_def)
  then show ?thesis
    using o fs_frame_trans [OF fr]
    by (simp add: save_seq_no_def DataFile_write_def pwrite_bytes_def dir_def)
qed

lemma disk_log_seq_no:
  assumes "disk_log dir fs logs n" "plain_dir dir fs"
  shows "dir \<noteq> []" "directory_exists dir fs" "file_exists (get_data_file_name dir 0) fs"
    "\<not> directory_exists (get_data_file_name dir 0) fs" "\<not> directory_exists (dir @ ''/'' @ SEQ_NO_FILE_NAME) fs"
  using assms by (simp_all add: disk_log_def plain_dir_def)

lemma DB_close_ok:
  assumes run: "running db fs logs n"
  shows "\<exists>db' fs'. DB_close db fs = (Inr (), db', fs')
    \<and> fs_dirs fs' = fs_dirs fs \<and> fs_page_size fs' = fs_page_size fs
    \<and> (\<forall>q. q \<noteq> opt_dir_path (db_options db) @ ''/'' @ SEQ_NO_FILE_NAME \<longrightarrow> fs_get fs' q = fs_get fs q)
    \<and> lock_name (db_options db) \<notin> set (fs_locks fs')"
proof -
  let ?dir = "opt_dir_path (db_options db)"
  have disk: "disk_log ?dir fs logs n" and plain: "plain_dir ?dir fs" and mem: "in_memory (db_index db)"
    and lock: "case db_file_lock_fd db of LockHeld p \<Rightarrow> p = lock_name (db_options db)
      | NoLockFd \<Rightarrow> lock_name (db_options db) \<notin> set (fs_locks fs) | StaleLockFd \<Rightarrow> False"
    using run by (auto simp: running_def log_inv_def db_holds_def split: lock_fd.split)
  obtain fs1 where save: "save_seq_no db fs = (Inr (), fs1)"
    and fr: "fs_frame (?dir @ ''/'' @ SEQ_NO_FILE_NAME) fs fs1"
    using save_seq_no_ok [OF disk_log_seq_no [OF disk plain]] by blast
  obtain i' where i: "idx_close (db_index db) fs1 = (i', fs1)"
    using in_memory_close [OF mem, of fs1] by (cases "idx_close (db_index db) fs1") simp
  show ?thesis
    using save i fr lock
    by (cases "db_active_file db"; cases "db_file_lock_fd db")
      (simp_all add: DB_close_def release_file_lock_def fs_frame_def)
qed

text \<open>A directory that can be opened, and the state that opening it gives.\<close>

definition openable :: "options \<Rightarrow> fsys \<Rightarrow> (u32 \<Rightarrow> log_record list) \<Rightarrow> nat \<Rightarrow> bool" where
  "openable opts fs logs n \<longleftrightarrow>
     session_options opts \<and> disk_log (opt_dir_path opts) fs logs n \<and> plain_dir (opt_dir_path opts) fs
     \<and> fs_get fs (get_data_file_name (opt_dir_path opts) (last_id n)) = Some (encs (logs (last_id n)))
     \<and> lock_name opts \<notin> set (fs_locks fs) \<and> keys_ok (records logs (first_ids n))"

lemma max_seq_ge: "(p, r) \<in> set es \<Longrightarrow> seq_of r \<le> max_seq es"
proof (induction es rule: rev_induct)
  case (snoc e es)
  then show ?case by (auto simp: max_seq_def le_max_iff_disj)
qed simp

lemma records_log_of: "r \<in> set (records logs fids) \<Longrightarrow> \<exists>p. (p, r) \<in> set (log_of logs fids)"
proof -
  assume "r \<in> set (records logs fids)"
  then have "r \<in> snd ` set (log_of logs fids)" by (metis list.set_map map_snd_log_of)
  then show ?thesis by force
qed

lemma open_running:
  assumes "openable opts fs logs n"
  shows "\<exists>db. DB_open coins opts fs = (Inr db, locked_fs (opt_dir_path opts) fs)
    \<and> running db (locked_fs (opt_dir_path opts) fs) logs n \<and> db_options db = opts
    \<and> seqs_below (db_seq_no db) (records logs (first_ids n))"
proof -
  let ?dir = "opt_dir_path opts" and ?fs = "locked_fs (opt_dir_path opts) fs" and ?fids = "first_ids n"
  have opts: "session_options opts" "check_options opts = Inr ()" "\<not> opt_mmap_at_startup opts"
    "opt_index_type opts \<noteq> BPLUS_TREE"
    and disk: "disk_log ?dir fs logs n" "plain_dir ?dir fs" and lock: "lock_name opts \<notin> set (fs_locks fs)"
    and keys: "keys_ok (records logs ?fids)"
    and tight: "fs_get fs (get_data_file_name ?dir (last_id n)) = Some (encs (logs (last_id n)))"
    using assms by (simp_all add: openable_def session_options_def)
  obtain db where db: "DB_open coins opts fs = (Inr db, ?fs)" "db_log db ?fs logs ?fids"
    "db_seq_no db = max_seq (log_of logs ?fids)" "db_options db = opts"
    "db_file_lock_fd db = LockHeld (lock_name opts)"
    "db_active_file db = Some (set_write_off (log_end logs (last_id n)) (opened ?dir (last_id n)))"
    using open_recovers [OF opts(2-4) disk lock [unfolded lock_name_def] keys, of coins]
    unfolding lock_name_def by blast
  have n: "0 < n" "n \<le> MAX_SCAN_FILES" using disk(1) by (simp_all add: disk_log_def)
  have last: "last ?fids = last_id n" using n by (cases n) (simp_all add: last_id_def)
  have "log_files db ?fs logs ?fids"
    using db(2,6) tight last first_ids_inj [OF n(2)] by (simp add: log_files_def db_log_def set_write_off_def)
  then have inv: "log_inv db ?fs logs ?fids" using db(2) by (simp add: log_inv_def db_log_def)
  have seqs: "seqs_below (db_seq_no db) (records logs ?fids)"
    unfolding db(3) seqs_below_def using records_log_of max_seq_ge by metis
  have "running db ?fs logs n"
    using inv opts(1) disk db(4,5) by (simp add: running_def locked_fs_disk)
  then show ?thesis using db(1,4) seqs by blast
qed

lemma files_openable:
  assumes files: "log_files db fs logs (first_ids n)" and keys: "keys_ok (records logs (first_ids n))"
    and opts: "session_options (db_options db)" and disk: "disk_log (opt_dir_path (db_options db)) fs logs n"
    and plain: "plain_dir (opt_dir_path (db_options db)) fs"
    and frame: "fs_dirs fs' = fs_dirs fs" "fs_page_size fs' = fs_page_size fs"
    and same: "\<And>q. q \<noteq> opt_dir_path (db_options db) @ ''/'' @ SEQ_NO_FILE_NAME \<Longrightarrow> fs_get fs' q = fs_get fs q"
    and lock: "lock_name (db_options db) \<notin> set (fs_locks fs')"
  shows "openable (db_options db) fs' logs n"
proof -
  let ?dir = "opt_dir_path (db_options db)"
  have n: "0 < n" using disk by (simp add: disk_log_def)
  have data: "fs_get fs' (get_data_file_name ?dir fid) = fs_get fs (get_data_file_name ?dir fid)" for fid
    by (rule same) simp
  obtain df :: data_file where df: "db_active_file db = Some df" "last (first_ids n) = df_file_id df"
    "fs_get fs (io_path (df_io df)) = Some (encs (logs (df_file_id df)))"
    using files by (auto simp: log_files_def)
  have "io_path (df_io df) = data_name db (df_file_id df)"
    using files df(1) by (simp add: log_files_def files_ok_def)
  moreover have "last (first_ids n) = last_id n" using n by (cases n) (simp_all add: last_id_def)
  ultimately have "fs_get fs (get_data_file_name ?dir (last_id n)) = Some (encs (logs (last_id n)))"
    using df by simp
  moreover have "disk_log ?dir fs' logs n" using disk_log_frame [OF disk frame] data by blast
  moreover have "plain_dir ?dir fs'" using plain_dir_frame [OF plain frame(1)] same by blast
  ultimately show ?thesis
    using opts lock data keys by (simp add: openable_def)
qed

lemma running_openable:
  assumes run: "running db fs logs n"
    and frame: "fs_dirs fs' = fs_dirs fs" "fs_page_size fs' = fs_page_size fs"
    and same: "\<And>q. q \<noteq> opt_dir_path (db_options db) @ ''/'' @ SEQ_NO_FILE_NAME \<Longrightarrow> fs_get fs' q = fs_get fs q"
    and lock: "lock_name (db_options db) \<notin> set (fs_locks fs')"
  shows "openable (db_options db) fs' logs n"
  using run by (intro files_openable [OF _ _ _ _ _ frame same lock]) (simp_all add: running_def log_inv_def)

lemma crash_openable: "running db fs logs n \<Longrightarrow> openable (db_options db) (crash fs) logs n"
  by (rule running_openable) simp_all

lemma close_openable:
  assumes "running db fs logs n" "DB_close db fs = (Inr (), db', fs')"
  shows "openable (db_options db) fs' logs n"
  using DB_close_ok [OF assms(1)] assms(2) running_openable [OF assms(1)] by auto

text \<open>
  C26: a second open is refused, but leaves a trace: while the lock of the directory is held, \<open>open\<close>
  fails with \<open>DatabaseIsUsingError\<close>, keeps every data file and the locks, and creates no file but
  the lock file; yet the file of the sequence number, which belongs to the process that has the
  database open, begins with the number 0 afterwards (the destructor of the object that could not
  be initialised runs \<open>close\<close>).
\<close>

theorem DB_open_locked:
  assumes "check_options opts = Inr ()" and disk: "disk_log (opt_dir_path opts) fs logs n"
    and plain: "plain_dir (opt_dir_path opts) fs" and lock: "lock_name opts \<in> set (fs_locks fs)"
  shows "\<exists>fs' rest. DB_open coins opts fs = (Inl DatabaseIsUsingError, fs') \<and> fs_locks fs' = fs_locks fs
    \<and> (\<forall>q. q \<noteq> lock_name opts \<and> q \<noteq> opt_dir_path opts @ ''/'' @ SEQ_NO_FILE_NAME \<longrightarrow> fs_get fs' q = fs_get fs q)
    \<and> fs_get fs' (opt_dir_path opts @ ''/'' @ SEQ_NO_FILE_NAME) = Some (enc (seq_no_record 0) @ rest)"
proof -
  let ?dir = "opt_dir_path opts" and ?p = "lock_name opts" and ?s = "opt_dir_path opts @ ''/'' @ SEQ_NO_FILE_NAME"
  define fs0 where "fs0 = (if file_exists ?p fs then fs else fs_put ?p [] fs)"
  define db where "db = (DB_new opts)\<lparr>db_file_lock_fd := StaleLockFd\<rparr>"
  have d: "?dir \<noteq> []" "directory_exists ?dir fs" using disk by (simp_all add: disk_log_def)
  have p: "get_data_file_name ?dir fid \<noteq> ?p" "?s \<noteq> ?p" for fid
    by (simp_all add: lock_name_def)
  have get0: "fs_get fs0 q = fs_get fs q" if "q \<noteq> ?p" for q using that by (simp add: fs0_def)
  have same0: "fs_dirs fs0 = fs_dirs fs" "fs_locks fs0 = fs_locks fs" "fs_page_size fs0 = fs_page_size fs"
    by (simp_all add: fs0_def)
  have disk0: "disk_log ?dir fs0 logs n" by (rule disk_log_frame [OF disk same0(1,3)]) (simp add: get0 p)
  have plain0: "plain_dir ?dir fs0"
    using plain get0 by (simp add: plain_dir_def file_exists_def directory_exists_def same0 lock_name_def)
  have "dir_name ?p = ?dir"
    using dir_name_append [OF d(1), of FILE_LOCK_NAME] by (simp add: lock_name_def FILE_LOCK_NAME_def)
  then have acq: "acquire_file_lock (DB_new opts) fs = (Inl DatabaseIsUsingError, db, fs0)"
    using d plain lock
    by (simp add: acquire_file_lock_def lock_path_def DB_new_def db_def plain_dir_def Let_def fs0_def
        same0 lock_name_def)
  have init: "DB_init coins (DB_new opts) fs = (Inl DatabaseIsUsingError, db, fs0)"
    using d acq by (simp add: DB_init_def Let_def) (simp add: DB_new_def)
  obtain fs1 rest where save: "save_seq_no db fs0 = (Inr (), fs1)" "fs_frame ?s fs0 fs1"
    "fs_get fs1 ?s = Some (enc (seq_no_record 0) @ rest)"
    using save_seq_no_ok [of db fs0] disk_log_seq_no [OF disk0 plain0]
    by (auto simp: db_def DB_new_def NON_TRANSACTION_SEQ_NO_def)
  have "DB_open coins opts fs = (Inl DatabaseIsUsingError, fs1)"
    using assms(1) init save(1)
    by (simp add: DB_open_def catchable_def DB_close_def db_def DB_new_def release_file_lock_def)
  then show ?thesis using save(2,3) get0 same0(2) by (auto simp: fs_frame_def)
qed

theorem DB_open_locked_witness:
  "\<exists>fs'. DB_open (\<lambda>_ _. True) wit_options (wit_dbfs\<lparr>fs_locks := [''d/flock'']\<rparr>) = (Inl DatabaseIsUsingError, fs')"
proof -
  let ?fs = "wit_dbfs\<lparr>fs_locks := [''d/flock'']\<rparr>"
  have "disk_log ''d'' ?fs (\<lambda>_. []) 1" "plain_dir ''d'' ?fs" by (rule wit_disk [of "[]"]; simp)+
  then show ?thesis
    using DB_open_locked [of wit_options ?fs "\<lambda>_. []" 1 "\<lambda>_ _. True"]
    by (auto simp: check_options_def lock_name_def FILE_LOCK_NAME_def)
qed

section \<open>The operations of a running database\<close>

lemma put_running:
  assumes run: "running db fs logs n" and key: "plain_key key" and val: "length v \<le> MAX_RECORD_SIZE"
    and room: "room db fs (length (enc (put_record key v)))"
  shows "\<exists>db' fs' logs'. DB_put key v db fs = (Inr (), db', fs') \<and> running db' fs' logs' n
    \<and> records logs' (first_ids n) = records logs (first_ids n) @ [put_record key v]
    \<and> db_options db' = db_options db \<and> db_seq_no db' = db_seq_no db
    \<and> fs_frame (data_name db (active_id db)) fs fs'"
proof -
  have inv: "log_inv db fs logs (first_ids n)" using run by (simp add: running_def)
  obtain db' fs' where put: "DB_put key v db fs = (Inr (), db', fs')"
    "log_inv db' fs' (log_append (active_id db) (put_record key v) logs) (first_ids n)"
    "records (log_append (active_id db) (put_record key v) logs) (first_ids n)
      = records logs (first_ids n) @ [put_record key v]"
    "db_options db' = db_options db" "db_file_lock_fd db' = db_file_lock_fd db" "db_seq_no db' = db_seq_no db"
    "fs' = fs_put (data_name db (active_id db)) (encs (logs (active_id db) @ [put_record key v])) fs"
    using DB_put_logs [OF inv key val room [folded fits_room]] by blast
  have "running db' fs' (log_append (active_id db) (put_record key v) logs) n"
    using running_step [OF run put(2,4,5)] put(7) by simp
  then show ?thesis using put(1,3,4,6,7) fs_frame_put(2) by blast
qed

lemma remove_running:
  assumes run: "running db fs logs n" and key: "plain_key key"
    and room: "room db fs (length (enc (delete_record key)))"
  shows "\<exists>db' fs' logs'. DB_remove key db fs = (Inr (), db', fs') \<and> running db' fs' logs' n
    \<and> committed (records logs' (first_ids n)) = (committed (records logs (first_ids n)))(key := None)
    \<and> set (records logs' (first_ids n)) \<subseteq> insert (delete_record key) (set (records logs (first_ids n)))
    \<and> db_options db' = db_options db \<and> db_seq_no db' = db_seq_no db"
proof -
  let ?rs = "records logs (first_ids n)"
  have inv: "log_inv db fs logs (first_ids n)" using run by (simp add: running_def)
  have ne: "key \<noteq> []" using key by (simp add: plain_key_def)
  show ?thesis
  proof (cases "idx_get key (db_index db) = None")
    case True
    have ok: "idx_ok (db_index db)" using inv by (simp add: log_inv_def db_holds_def)
    have "db_kv db fs key = None"
      using db_kv_none [OF ok] True ix.get_abs [OF ok, of key] by simp
    then have "committed ?rs key = None" using db_log_inv(2) [OF log_inv_log [OF inv] ne] by simp
    then have "(committed ?rs)(key := None) = committed ?rs" by auto
    then show ?thesis
      using DB_remove_absent [OF ne True, of fs] run by (intro exI [of _ db] exI [of _ fs] exI [of _ logs]) auto
  next
    case False
    obtain db' fs' where rem: "DB_remove key db fs = (Inr (), db', fs')"
      "log_inv db' fs' (log_append (active_id db) (delete_record key) logs) (first_ids n)"
      "records (log_append (active_id db) (delete_record key) logs) (first_ids n) = ?rs @ [delete_record key]"
      "db_options db' = db_options db" "db_file_lock_fd db' = db_file_lock_fd db" "db_seq_no db' = db_seq_no db"
      "fs' = fs_put (data_name db (active_id db)) (encs (logs (active_id db) @ [delete_record key])) fs"
      using DB_remove_logs [OF inv key room [folded fits_room] False] by blast
    have "running db' fs' (log_append (active_id db) (delete_record key) logs) n"
      using running_step [OF run rem(2,4,5)] rem(7) by simp
    moreover have "committed (?rs @ [delete_record key]) = (committed ?rs)(key := None)"
      using committed_snoc [OF plain_records(3,4) [OF key]] by (simp add: delete_record_def)
    ultimately show ?thesis using rem(1,3,4,6) by (metis set_append set_simps Un_insert_right order_refl sup_bot.right_neutral)
  qed
qed

text \<open>A batch made after the last commit, whose records fit.\<close>

definition batch_fits :: "write_batch \<Rightarrow> db \<Rightarrow> fsys \<Rightarrow> bool" where
  "batch_fits wb db fs \<longleftrightarrow>
     batch_ok wb \<and> wb_pending wb \<noteq> [] \<and> wb_seq_no wb = db_seq_no db + 1
     \<and> unat (db_seq_no db) + 2 < 2 ^ 64
     \<and> room db fs (length (encs (batch_records (wb_seq_no wb) (wb_pending wb))))"

lemma batch_fits_new:
  assumes "batch_fits wb db fs" "seqs_below (db_seq_no db) rs"
  shows "\<forall>r \<in> set rs. seq_of r \<noteq> wb_seq_no wb" "wb_seq_no wb \<noteq> NON_TRANSACTION_SEQ_NO"
    "\<forall>r \<in> set (wb_pending wb). lr_type r \<noteq> TXN_FINISHED"
    "\<forall>r \<in> set (wb_pending wb). lr_key r \<noteq> [] \<and> readable (with_seq (wb_seq_no wb) r)"
    "unat (wb_seq_no wb) = unat (db_seq_no db) + 1"
proof -
  show "unat (wb_seq_no wb) = unat (db_seq_no db) + 1"
    using assms(1) unat_add_of_nat [of "db_seq_no db" 1] by (simp add: batch_fits_def)
  then show "\<forall>r \<in> set rs. seq_of r \<noteq> wb_seq_no wb"
    using assms(2) by (fastforce simp: seqs_below_def word_le_nat_alt)
qed (use assms(1) in \<open>auto simp: batch_fits_def batch_ok_def\<close>)

lemma commit_running:
  assumes run: "running db fs logs n" and fits: "batch_fits wb db fs"
    and seqs: "seqs_below (db_seq_no db) (records logs (first_ids n))"
  shows "\<exists>db' fs' logs'. WriteBatch_commit wb db fs = (Inr (), wb\<lparr>wb_pending := []\<rparr>, db', fs')
    \<and> running db' fs' logs' n
    \<and> committed (records logs' (first_ids n))
        = fold apply_write (wb_pending wb) (committed (records logs (first_ids n)))
    \<and> db_options db' = db_options db \<and> seqs_below (db_seq_no db') (records logs' (first_ids n))"
proof -
  let ?rs = "records logs (first_ids n)" and ?b = "batch_records (wb_seq_no wb) (wb_pending wb)"
  let ?logs = "log_appends (active_id db) ?b logs"
  note new = batch_fits_new [OF fits seqs]
  have inv: "log_inv db fs logs (first_ids n)" using run by (simp add: running_def)
  have b: "batch_ok wb" "wb_pending wb \<noteq> []" "room db fs (length (encs ?b))"
    using fits unfolding batch_fits_def by blast+
  obtain db' fs' where c: "WriteBatch_commit wb db fs = (Inr (), wb\<lparr>wb_pending := []\<rparr>, db', fs')"
    "log_inv db' fs' ?logs (first_ids n)" "records ?logs (first_ids n) = ?rs @ ?b"
    "db_options db' = db_options db" "db_seq_no db' = wb_seq_no wb + 1"
    "db_file_lock_fd db' = db_file_lock_fd db" "fs_frame (data_name db (active_id db)) fs fs'"
    using commit_logs [OF inv b new(1)] by blast
  have "take (Suc (length (wb_pending wb))) ?b = ?b" by (simp add: batch_records_def)
  then have com: "committed (?rs @ ?b) = fold apply_write (wb_pending wb) (committed ?rs)"
    using batch_atomic_log [OF new(2,3,1), of "Suc (length (wb_pending wb))"] by simp
  have seq: "seq_of r = wb_seq_no wb" if "r \<in> set ?b" for r
    using that seq_records(2,6) [OF new(2)] by (auto simp: batch_records_def)
  have "unat (db_seq_no db') = unat (wb_seq_no wb) + 1"
    using fits new(5) unat_add_of_nat [of "wb_seq_no wb" 1] by (simp add: c(5) batch_fits_def)
  then have "seqs_below (db_seq_no db') (?rs @ ?b)"
    using seqs seq new(5) by (fastforce simp: seqs_below_def word_le_nat_alt)
  then show ?thesis using running_step [OF run c(2,4,6,7)] c(1,3,4) com by metis
qed

text \<open>The records of a commit that did not reach its end marker.\<close>

lemma cut_running:
  assumes run: "running db fs logs n" and fits: "batch_fits wb db fs"
    and seqs: "seqs_below (db_seq_no db) (records logs (first_ids n))"
  shows "\<exists>ps db' fs' logs'. append_pending (wb_seq_no wb) (take i (wb_pending wb)) db fs = (Inr ps, db', fs')
    \<and> running db' fs' logs' n
    \<and> committed (records logs' (first_ids n)) = committed (records logs (first_ids n))
    \<and> db_options db' = db_options db"
proof -
  let ?s = "wb_seq_no wb" and ?rs = "take i (wb_pending wb)" and ?recs = "records logs (first_ids n)"
  let ?ws = "map (with_seq ?s) ?rs" and ?logs = "log_appends (active_id db) (map (with_seq ?s) ?rs) logs"
  note new = batch_fits_new [OF fits seqs]
  have inv: "log_inv db fs logs (first_ids n)" using run by (simp add: running_def)
  have files: "log_files db fs logs (first_ids n)" using inv by (simp add: log_inv_def)
  define m where "m = length (encs (map (with_seq ?s) (drop i (wb_pending wb)) @ [txn_fin_record ?s]))"
  have split: "batch_records ?s (wb_pending wb)
      = ?ws @ map (with_seq ?s) (drop i (wb_pending wb)) @ [txn_fin_record ?s]"
    by (simp add: batch_records_def flip: map_append append_assoc)
  have room: "room db fs (length (encs ?ws) + m)"
    using conjunct2 [OF conjunct2 [OF conjunct2 [OF conjunct2 [OF fits [unfolded batch_fits_def split]]]]]
    by (simp add: m_def)
  have rd: "\<forall>r \<in> set ?rs. readable (with_seq ?s r)" using new(4) by (meson in_set_takeD)
  obtain ps db' fs' where app: "append_pending ?s ?rs db fs = (Inr ps, db', fs')" "length ps = length ?rs"
    "log_files db' fs' ?logs (first_ids n)" "log_of ?logs (first_ids n) = log_of logs (first_ids n) @ zip ps ?ws"
    "db_index db' = db_index db" "db_options db' = db_options db" "db_file_lock_fd db' = db_file_lock_fd db"
    "fs_frame (data_name db (active_id db)) fs fs'"
    using append_pending_ok [OF files room rd] by blast
  have recs: "records ?logs (first_ids n) = ?recs @ ?ws"
  proof -
    have "map snd (log_of ?logs (first_ids n)) = map snd (log_of logs (first_ids n)) @ ?ws"
      using app(2) unfolding app(4) by simp
    then show ?thesis by simp
  qed
  have types: "\<forall>r \<in> set ?rs. lr_type r \<noteq> TXN_FINISHED" using new(3) by (meson in_set_takeD)
  have "fst (replay (log_of ?logs (first_ids n))) = fst (replay (log_of logs (first_ids n)))"
    using replay_batch_open [OF new(2) types, of "zip ps ?ws" "replay (log_of logs (first_ids n))"] app(2)
    unfolding app(4) by (simp add: replay_def)
  moreover have "keys_ok ?ws"
    using new(4) seq_records(1) [OF new(2)] by (auto simp: keys_ok_def dest!: in_set_takeD)
  ultimately have "log_inv db' fs' ?logs (first_ids n)"
    using app(3,5) inv by (simp add: log_inv_def db_holds_def recs keys_ok_append)
  then have "running db' fs' ?logs n" by (rule running_step [OF run _ app(6-8)])
  moreover have "committed (?recs @ ?ws) = committed ?recs"
    using batch_atomic_log [OF new(2,3,1), of "min i (length (wb_pending wb))"]
    by (simp add: batch_records_def take_map min_def split: if_splits)
  ultimately show ?thesis using app(1,6) recs by metis
qed

section \<open>Opening a new directory\<close>

lemmas special_names_sym [simp] = special_names [symmetric]

definition empty_dir :: "string \<Rightarrow> fsys \<Rightarrow> bool" where
  "empty_dir d fs \<longleftrightarrow> directory_exists d fs
     \<and> (\<forall>s. fs_get fs (d @ ''/'' @ s) = None \<and> \<not> directory_exists (d @ ''/'' @ s) fs)"

lemma entry_name_Some: "entry_name d p = Some e \<Longrightarrow> p = d @ ''/'' @ e"
  by (auto simp: entry_name_def Let_def split: if_splits)
    (metis append.assoc append_Cons append_Nil append_take_drop_id)

lemma in_map_filter: "x \<in> set (List.map_filter f xs) \<longleftrightarrow> (\<exists>y \<in> set xs. f y = Some x)"
  by (induction xs) (auto split: option.splits)

lemma dir_entries_under: "e \<in> set (dir_entries d fs) \<Longrightarrow> directory_exists (d @ ''/'' @ e) fs"
  using entry_name_Some by (fastforce simp: dir_entries_def directory_exists_def in_map_filter)

lemma dir_size_empty:
  assumes "\<And>s. fs_get fs (d @ ''/'' @ s) \<in> {None, Some []}" "\<And>s. \<not> directory_exists (d @ ''/'' @ s) fs"
  shows "dir_size d fs = 0"
proof -
  have "e \<notin> set (dir_entries d fs)" for e using assms(2) dir_entries_under by blast
  then have "dir_entries d fs = []" by (cases "dir_entries d fs") auto
  moreover have "(case fs_get fs (d @ ''/'' @ e) of Some c \<Rightarrow> length c | None \<Rightarrow> 0) = 0" for e
    using assms(1) [of e] by auto
  ultimately have "dir_size_n n d fs = 0" for n by (cases n) simp_all
  then show ?thesis by (simp add: dir_size_def)
qed

lemma open_fresh:
  assumes opts: "session_options opts" and empty: "empty_dir (opt_dir_path opts) fs"
    and page: "0 < fs_page_size fs" and lock: "lock_name opts \<notin> set (fs_locks fs)"
  defines "dir \<equiv> opt_dir_path opts"
  shows "\<exists>db. DB_open coins opts fs = (Inr db, fs_put (get_data_file_name dir 0) [] (locked_fs dir fs))
    \<and> running db (fs_put (get_data_file_name dir 0) [] (locked_fs dir fs)) (\<lambda>_. []) 1
    \<and> db_options db = opts \<and> db_seq_no db = 0 \<and> db_older_files db = []"
proof -
  let ?p = "dir @ ''/'' @ FILE_LOCK_NAME" and ?name = "get_data_file_name dir 0"
  let ?fs = "locked_fs dir fs" and ?fs1 = "fs_put (get_data_file_name dir 0) [] (locked_fs dir fs)"
  have o: "check_options opts = Inr ()" "\<not> opt_mmap_at_startup opts" "opt_index_type opts \<noteq> BPLUS_TREE"
    using opts by (simp_all add: session_options_def)
  have d: "dir \<noteq> []" "directory_exists dir fs"
    using o(1) empty by (auto simp: dir_def check_options_def empty_dir_def split: if_splits)
  have none: "fs_get fs (dir @ CHR ''/'' # s) = None" "\<not> directory_exists (dir @ CHR ''/'' # s) fs" for s
    using empty by (simp_all add: empty_dir_def dir_def)
  have name: "\<exists>s. get_data_file_name dir fid = dir @ CHR ''/'' # s" for fid
    by (simp add: get_data_file_name_def)
  have none_data: "fs_get fs (get_data_file_name dir fid) = None" "\<not> directory_exists (get_data_file_name dir fid) fs" for fid
    using name [of fid] none by auto
  define db1 where "db1 = (DB_new opts)\<lparr>db_file_lock_fd := LockHeld ?p\<rparr>"
  have acq: "acquire_file_lock (DB_new opts) fs = (Inr (), db1, ?fs)"
    using acquire_file_lock_ok [of "DB_new opts" dir fs] d none lock
    by (simp add: DB_new_def db1_def dir_def lock_name_def)
  have size: "dir_size dir ?fs = 0"
  proof (rule dir_size_empty)
    fix s
    show "fs_get ?fs (dir @ ''/'' @ s) \<in> {None, Some []}" using none(1) by (auto simp: locked_fs_def Let_def)
    show "\<not> directory_exists (dir @ ''/'' @ s) ?fs" using none(2) by simp
  qed
  obtain i where i: "create_indexer (coins 0) (opt_index_type opts) dir ?fs = (Inr i, ?fs)"
    using create_indexer_new [OF o(3)] by blast
  define db2 where "db2 = db1\<lparr>db_is_initial := True, db_index := i\<rparr>"
  have db2: "db_options db2 = opts" "db_older_files db2 = []" "db_file_lock_fd db2 = LockHeld ?p"
    "db_active_file db2 = None" "db_is_initial db2"
    by (simp_all add: db2_def db1_def DB_new_def)
  have merge: "load_merge_files db2 ?fs = (Inr (), ?fs)"
    using none by (simp add: load_merge_files_def db2 dir_def)
  have "\<not> file_exists (get_data_file_name dir fid) ?fs" for fid
    using none_data by (simp add: file_exists_def)
  then have scan: "scan_files dir ?fs [] 0 [0..<MAX_SCAN_FILES] = []" by (intro scan_missing) simp
  define db3 where "db3 = db2\<lparr>db_file_ids := [], db_active_file := Some (opened dir 0)\<rparr>"
  have "open_data_file dir 0 STANDARD_FIO ?fs = (Inr (opened dir 0), ?fs1)"
    using open_data_file_ok [of dir ?fs 0] d none_data by (simp add: opened_def file_exists_def)
  then have load: "load_data_files db2 ?fs = (Inr (), db3, ?fs1)"
    using scan db2 by (simp add: load_data_files_def set_active_data_file_def INITIAL_FILE_ID_def db3_def Let_def dir_def)
  have hold: "files_hold db3 ?fs1 (\<lambda>_. []) [0]"
    using page by (auto simp: files_hold_def files_to_process_def db3_def db2 find_data_file_def opened_def
        holds_log_def parse_record_def dir_def intro!: file_io_ok)
  have "files_ok db3 ?fs1"
    using page by (auto simp: files_ok_def db3_def db2 df_ok_def opened_def dir_def intro!: file_io_ok)
  note rec = load_index_recovers [OF hold _ _ this, of "coins 1"]
  have nofin: "\<not> file_exists (opt_dir_path (db_options db3) @ ''/'' @ MERGE_FINISHED_FILE_NAME) ?fs1"
    using none by (simp add: db3_def db2 file_exists_def dir_def [symmetric])
  have keys: "keys_ok (records (\<lambda>_. []) [0])" by (simp add: keys_ok_def records_def)
  have "opt_index_type (db_options db3) \<noteq> BPLUS_TREE" by (simp add: db3_def db2 o)
  from rec [OF this nofin keys]
  obtain db' where db': "load_index_from_data_files (coins 1) db3 ?fs1 = (Inr (), db', ?fs1)"
    "db_log db' ?fs1 (\<lambda>_. []) [0]" "db_seq_no db' = max_seq (log_of (\<lambda>_. []) [0])" "db_options db' = opts"
    "db_older_files db' = []" "db_file_lock_fd db' = LockHeld ?p"
    "db_active_file db' = Some (set_write_off (log_end (\<lambda>_. []) 0) (opened dir 0))"
    by (auto simp: db3_def db2)
  have idx: "load_index (coins 1) db3 ?fs1 = (Inr (), db', ?fs1)"
    using db'(1,4) none o
    by (simp add: load_index_def load_index_from_hint_file_def db3_def db2 file_exists_def dir_def [symmetric])
  have init: "DB_init coins (DB_new opts) fs = (Inr (), db', ?fs1)"
  proof -
    have "db1\<lparr>db_is_initial := True\<rparr>\<lparr>db_index := i\<rparr> = db2" by (simp add: db2_def)
    moreover have "db_options (DB_new opts) = opts" "db_options db1 = opts" by (simp_all add: DB_new_def db1_def)
    ultimately show ?thesis
      using d acq i merge load idx db'(4) o(3) size
      by (simp add: DB_init_def Let_def dir_def [symmetric])
  qed
  have "log_files db' ?fs1 (\<lambda>_. []) [0]"
    using db'(2,7) by (simp add: log_files_def db_log_def set_write_off_def)
  then have "log_inv db' ?fs1 (\<lambda>_. []) [0]" using db'(2) by (simp add: log_inv_def db_log_def)
  moreover have "disk_log dir ?fs1 (\<lambda>_. []) 1"
    using d page none_data
    by (auto simp: disk_log_def file_exists_def directory_exists_def MAX_SCAN_FILES_def unat_eq_0
        holds_log_def parse_record_def)
  moreover have "plain_dir dir ?fs1"
    using none by (simp add: plain_dir_def file_exists_def directory_exists_def)
  ultimately have "running db' ?fs1 (\<lambda>_. []) 1"
    using opts db'(4,6) by (simp add: running_def lock_name_def dir_def)
  moreover have "db_seq_no db' = 0" using db'(3) by (simp add: max_seq_def log_of_def NON_TRANSACTION_SEQ_NO_def)
  ultimately show ?thesis
    using o(1) init db'(4,5) by (intro exI [of _ db']) (simp add: DB_open_def)
qed

end
