(* ===== verification/Db_Session.thy ===== *)
theory Db_Session
  imports Db_Running
begin

text \<open>
  Sessions: the states that sequences of insertions, removals, batch commits, and
  restarts (orderly or not) of the engine can reach, as an inductive relation that tracks the map
  the user expects. Opening, closing and the operations compose: what was written is found,
  whatever happened in between. A restart without \<open>close\<close> keeps the file system as it is and
  frees the locks, as the end of a process does.
\<close>

section \<open>Sessions\<close>

text \<open>
  The states that use of a database can reach, with the map that the user expects: opening an
  old or a new directory, the operations, closing and opening again, the end of the process at any moment between operations,
  and its end in the middle of a commit.
\<close>

inductive session :: "options \<Rightarrow> (bytes \<Rightarrow> bytes option) \<Rightarrow> db \<Rightarrow> fsys \<Rightarrow> bool" for opts :: options where
  session_open: "openable opts fs logs n \<Longrightarrow> DB_open coins opts fs = (Inr db, fs') \<Longrightarrow>
    session opts (committed (records logs (first_ids n))) db fs'"
| session_new: "session_options opts \<Longrightarrow> empty_dir (opt_dir_path opts) fs \<Longrightarrow> 0 < fs_page_size fs \<Longrightarrow>
    lock_name opts \<notin> set (fs_locks fs) \<Longrightarrow> DB_open coins opts fs = (Inr db, fs') \<Longrightarrow>
    session opts Map.empty db fs'"
| session_put: "session opts m db fs \<Longrightarrow> plain_key key \<Longrightarrow> length v \<le> MAX_RECORD_SIZE \<Longrightarrow>
    room db fs (length (enc (put_record key v))) \<Longrightarrow> DB_put key v db fs = (Inr (), db', fs') \<Longrightarrow>
    session opts (m(key \<mapsto> v)) db' fs'"
| session_remove: "session opts m db fs \<Longrightarrow> plain_key key \<Longrightarrow>
    room db fs (length (enc (delete_record key))) \<Longrightarrow> DB_remove key db fs = (Inr (), db', fs') \<Longrightarrow>
    session opts (m(key := None)) db' fs'"
| session_commit: "session opts m db fs \<Longrightarrow> batch_fits wb db fs \<Longrightarrow>
    WriteBatch_commit wb db fs = (Inr (), wb', db', fs') \<Longrightarrow>
    session opts (fold apply_write (wb_pending wb) m) db' fs'"
| session_reopen: "session opts m db fs \<Longrightarrow> DB_close db fs = (Inr (), db1, fs1) \<Longrightarrow>
    DB_open coins opts fs1 = (Inr db', fs') \<Longrightarrow> session opts m db' fs'"
| session_crash: "session opts m db fs \<Longrightarrow> DB_open coins opts (crash fs) = (Inr db', fs') \<Longrightarrow>
    session opts m db' fs'"
| session_crash_commit: "session opts m db fs \<Longrightarrow> batch_fits wb db fs \<Longrightarrow>
    append_pending (wb_seq_no wb) (take i (wb_pending wb)) db fs = (Inr ps, db1, fs1) \<Longrightarrow>
    DB_open coins opts (crash fs1) = (Inr db', fs') \<Longrightarrow> session opts m db' fs'"

definition session_inv :: "options \<Rightarrow> (bytes \<Rightarrow> bytes option) \<Rightarrow> db \<Rightarrow> fsys \<Rightarrow> (u32 \<Rightarrow> log_record list) \<Rightarrow> nat \<Rightarrow> bool" where
  "session_inv opts m db fs logs n \<longleftrightarrow>
     running db fs logs n \<and> db_options db = opts \<and> m = committed (records logs (first_ids n))
     \<and> seqs_below (db_seq_no db) (records logs (first_ids n))"

lemma committed_Nil: "committed [] = Map.empty"
  by (simp add: committed_def fun_eq_iff)

lemma session_inv_open:
  assumes "openable opts fs logs n" "DB_open coins opts fs = (Inr db, fs')"
  shows "session_inv opts (committed (records logs (first_ids n))) db fs' logs n"
  using open_running [OF assms(1), of coins] assms(2) by (auto simp: session_inv_def)

lemma session_holds: "session opts m db fs \<Longrightarrow> \<exists>logs n. session_inv opts m db fs logs n"
proof (induction rule: session.induct)
  case (session_open fs logs n coins db fs')
  then show ?case using session_inv_open by blast
next
  case (session_new fs coins db fs')
  have "records (\<lambda>_. []) (first_ids 1) = []" by (simp add: records_def)
  then have "session_inv opts Map.empty db fs' (\<lambda>_. []) 1"
    using open_fresh [OF session_new(1-4), of coins] session_new(5)
    by (auto simp: session_inv_def committed_Nil seqs_below_def)
  then show ?case by blast
next
  case (session_put m db fs key v db' fs')
  then obtain logs n where inv: "session_inv opts m db fs logs n" by blast
  then obtain logs' where "running db' fs' logs' n"
    "records logs' (first_ids n) = records logs (first_ids n) @ [put_record key v]"
    "db_options db' = db_options db" "db_seq_no db' = db_seq_no db"
    using put_running [OF _ session_put(2-4)] session_put(5) by (fastforce simp: session_inv_def)
  moreover note committed_snoc [OF plain_records(1,2) [OF session_put(2)], of "records logs (first_ids n)" v]
  ultimately have "session_inv opts (m(key \<mapsto> v)) db' fs' logs' n"
    using inv plain_records(2) [OF session_put(2)]
    by (auto simp: session_inv_def seqs_below_def put_record_def NON_TRANSACTION_SEQ_NO_def)
  then show ?case by blast
next
  case (session_remove m db fs key db' fs')
  then obtain logs n where inv: "session_inv opts m db fs logs n" by blast
  then obtain logs' where r: "running db' fs' logs' n"
    "committed (records logs' (first_ids n)) = (committed (records logs (first_ids n)))(key := None)"
    "set (records logs' (first_ids n)) \<subseteq> insert (delete_record key) (set (records logs (first_ids n)))"
    "db_options db' = db_options db" "db_seq_no db' = db_seq_no db"
    using remove_running [OF _ session_remove(2,3)] session_remove(4) by (fastforce simp: session_inv_def)
  have "seqs_below (db_seq_no db') (records logs' (first_ids n))"
    using r(3,5) inv plain_records(4) [OF session_remove(2)]
    by (fastforce simp: session_inv_def seqs_below_def NON_TRANSACTION_SEQ_NO_def)
  then have "session_inv opts (m(key := None)) db' fs' logs' n"
    using inv r(1,2,4) by (simp add: session_inv_def)
  then show ?case by blast
next
  case (session_commit m db fs wb wb' db' fs')
  then obtain logs n where inv: "session_inv opts m db fs logs n" by blast
  then have "\<exists>logs'. session_inv opts (fold apply_write (wb_pending wb) m) db' fs' logs' n"
    using commit_running [OF _ session_commit(2), of logs n] session_commit(3)
    by (fastforce simp: session_inv_def)
  then show ?case by blast
next
  case (session_reopen m db fs db1 fs1 coins db' fs')
  then obtain logs n where inv: "session_inv opts m db fs logs n" by blast
  then have "openable opts fs1 logs n"
    using close_openable [OF _ session_reopen(2)] by (auto simp: session_inv_def)
  from session_inv_open [OF this session_reopen(3)] inv show ?case by (auto simp: session_inv_def)
next
  case (session_crash m db fs coins db' fs')
  then obtain logs n where inv: "session_inv opts m db fs logs n" by blast
  then have "openable opts (crash fs) logs n" using crash_openable by (auto simp: session_inv_def)
  from session_inv_open [OF this session_crash(2)] inv show ?case by (auto simp: session_inv_def)
next
  case (session_crash_commit m db fs wb i ps db1 fs1 coins db' fs')
  then obtain logs n where inv: "session_inv opts m db fs logs n" by blast
  then obtain logs' where r: "running db1 fs1 logs' n" "db_options db1 = opts"
    "committed (records logs' (first_ids n)) = m"
    using cut_running [OF _ session_crash_commit(2), of logs n i] session_crash_commit(3)
    by (auto simp: session_inv_def)
  then have "openable opts (crash fs1) logs' n" using crash_openable by blast
  from session_inv_open [OF this session_crash_commit(4)] r(3) show ?case by blast
qed

lemma session_gets:
  assumes "session_inv opts m db fs logs n"
  shows "DB_get k db fs =
    (if k = [] then Inl KeyEmptyError else case m k of None \<Rightarrow> Inl KeyNotFoundError | Some v \<Rightarrow> Inr v)"
  using assms running_get by (auto simp: session_inv_def)

lemma session_keys:
  assumes "session_inv opts m db fs logs n"
  shows "set (DB_list_keys db) = dom m \<and> sorted (DB_list_keys db) \<and> distinct (DB_list_keys db)"
proof -
  let ?m = "fst (replay (log_of logs (first_ids n)))"
  have "db_holds db ?m" using assms by (simp add: session_inv_def running_def log_inv_def)
  then have ok: "idx_ok (db_index db)" and abs: "idx_abs (db_index db) = map_option fst \<circ> ?m"
    by (simp_all add: db_holds_def)
  have "m k = map_option (lr_value \<circ> snd) (?m k)" for k
    using assms committed_replay [of "log_of logs (first_ids n)" k] by (simp add: session_inv_def)
  then have "dom m = dom ?m" by (auto simp: dom_def)
  moreover have "set (DB_list_keys db) = dom ?m"
    using ix.keys_set [OF ok] abs by (auto simp: DB_list_keys_def dom_def)
  ultimately show ?thesis using ix.keys_sorted [OF ok] by (simp add: DB_list_keys_def)
qed

lemma session_get:
  assumes "session opts m db fs"
  shows "DB_get k db fs =
    (if k = [] then Inl KeyEmptyError else case m k of None \<Rightarrow> Inl KeyNotFoundError | Some v \<Rightarrow> Inr v)"
  using session_holds [OF assms] session_gets by blast

text \<open>
  C3: within the limits of a session the engine is the map the user expects. A session is any sequence
  of puts, removals, commits, restarts and interrupted commits under these restrictions: the option
  \<open>mmap_at_startup\<close>, which is on by default, is off; the index is not the B+ tree; every key put or
  removed on its own is plain, that is not empty and either shorter than 8 bytes or with its last 8 bytes all
  zero (other keys are lost by a restart, see \<open>DB_put_long_key_lost\<close>); keys and values have at most
  64 MB; every record fits in the active file, so that no file is ever rotated (rotation overwrites, see
  \<open>DB_put_rotation_overwrites\<close>); a batch is not empty and has the next sequence number. In every state of a session \<open>get\<close> returns
  the value last written and not removed, the error \<open>KeyNotFoundError\<close> for a key that is not in the
  map, and \<open>list_keys\<close> is the increasing list of the keys of the map.
\<close>

theorem session_is_map:
  assumes "session opts m db fs"
  shows "DB_get k db fs =
      (if k = [] then Inl KeyEmptyError else case m k of None \<Rightarrow> Inl KeyNotFoundError | Some v \<Rightarrow> Inr v)
    \<and> set (DB_list_keys db) = dom m \<and> sorted (DB_list_keys db) \<and> distinct (DB_list_keys db)"
  using session_holds [OF assms] session_gets session_keys by blast

text \<open>
  C4: within the limits of a session (\<open>mmap_at_startup\<close>, which is on by default, is off; the index is not the
  B+ tree; keys put or removed on their own are shorter than 8 bytes or end in 8 zero bytes; no record is
  appended that would make the active file rotate) nothing that was written is lost: from every state
  of a session the database can be opened again, after \<open>close\<close> as well as after the process just
  ended, it does not fail to open, and every key is answered as before.
\<close>

theorem session_durable:
  assumes "session opts m db fs"
  shows "(\<exists>db' fs'. DB_open coins opts (crash fs) = (Inr db', fs') \<and> (\<forall>k. DB_get k db' fs' = DB_get k db fs))
    \<and> (\<exists>db1 fs1 db' fs'. DB_close db fs = (Inr (), db1, fs1) \<and> DB_open coins opts fs1 = (Inr db', fs')
         \<and> (\<forall>k. DB_get k db' fs' = DB_get k db fs))"
proof -
  obtain logs n where inv: "session_inv opts m db fs logs n" using session_holds [OF assms] by blast
  then have run: "running db fs logs n" and opts: "db_options db = opts" by (simp_all add: session_inv_def)
  have again: "\<exists>db' fs'. DB_open coins opts fs1 = (Inr db', fs') \<and> (\<forall>k. DB_get k db' fs' = DB_get k db fs)"
    if o: "openable opts fs1 logs n" for fs1
  proof -
    obtain db' fs' where op: "DB_open coins opts fs1 = (Inr db', fs')" using open_running [OF o] by blast
    from session_gets [OF session_inv_open [OF o op]] session_gets [OF inv] inv
    have "DB_get k db' fs' = DB_get k db fs" for k by (simp add: session_inv_def)
    with op show ?thesis by blast
  qed
  obtain db1 fs1 where cl: "DB_close db fs = (Inr (), db1, fs1)" using DB_close_ok [OF run] by blast
  show ?thesis
    using again [OF crash_openable [OF run, unfolded opts]] again [OF close_openable [OF run cl, unfolded opts]] cl
    by blast
qed

text \<open>
  C6: within the limits of a session (\<open>mmap_at_startup\<close>, which is on by default, is off; the index is not the
  B+ tree; keys put or removed on their own before are shorter than 8 bytes or end in 8 zero bytes; no file was
  rotated) a commit that is interrupted has no effect: when a batch with the next sequence number
  fits in the active file and the process ends in its commit after any number of its records
  were appended, but not the end marker, the database opens again and answers every key as before
  the commit.
\<close>

theorem interrupted_commit:
  assumes "session opts m db fs" and "batch_fits wb db fs"
  shows "\<exists>ps db1 fs1 db' fs'. append_pending (wb_seq_no wb) (take i (wb_pending wb)) db fs = (Inr ps, db1, fs1)
    \<and> DB_open coins opts (crash fs1) = (Inr db', fs') \<and> (\<forall>k. DB_get k db' fs' = DB_get k db fs)"
proof -
  obtain logs n where inv: "session_inv opts m db fs logs n" using session_holds [OF assms(1)] by blast
  then have run: "running db fs logs n" and seqs: "seqs_below (db_seq_no db) (records logs (first_ids n))"
    by (simp_all add: session_inv_def)
  obtain ps db1 fs1 logs' where c: "append_pending (wb_seq_no wb) (take i (wb_pending wb)) db fs = (Inr ps, db1, fs1)"
    "running db1 fs1 logs' n" "committed (records logs' (first_ids n)) = committed (records logs (first_ids n))"
    "db_options db1 = db_options db"
    using cut_running [OF run assms(2) seqs] by blast
  then have "openable opts (crash fs1) logs' n"
    using crash_openable [OF c(2)] inv by (simp add: session_inv_def)
  moreover from this obtain db' fs' where op: "DB_open coins opts (crash fs1) = (Inr db', fs')"
    using open_running by blast
  ultimately have "DB_get k db' fs' = DB_get k db fs" for k
    using session_gets [OF session_inv_open] session_gets [OF inv] inv c(3) by (simp add: session_inv_def)
  then show ?thesis using c(1) op by blast
qed

text \<open>
  C7: what is not plain is lost: in a database in which all other keys that were put are shorter than 8 bytes
  or end in 8 zero bytes (a session, so also \<open>mmap_at_startup\<close> off, no B+ tree, no rotation), a
  key of more than 8 bytes whose last 8 bytes are not all zero, which \<open>put\<close> accepts and \<open>get\<close> finds,
  is taken for a key of a transaction that never ended when the files are read again: after the
  next opening every key, this one included, is answered as it was before the \<open>put\<close>. The record
  of the put must fit in the active file.
\<close>

theorem DB_put_long_key_lost:
  assumes sess: "session opts m db fs" and long: "8 < length key" "snd (parse_log_record_key key) \<noteq> NON_TRANSACTION_SEQ_NO"
    and len: "length key \<le> MAX_RECORD_SIZE" "length v \<le> MAX_RECORD_SIZE"
    and room: "room db fs (length (enc (put_record key v)))"
  shows "\<exists>db' fs' db2 fs2. DB_put key v db fs = (Inr (), db', fs') \<and> DB_get key db' fs' = Inr v
    \<and> DB_open coins opts (crash fs') = (Inr db2, fs2) \<and> (\<forall>k. DB_get k db2 fs2 = DB_get k db fs)"
proof -
  let ?r = "put_record key v"
  obtain logs n where inv: "session_inv opts m db fs logs n" using session_holds [OF sess] by blast
  then have run: "running db fs logs n" and opts: "db_options db = opts" by (simp_all add: session_inv_def)
  then have log: "log_inv db fs logs (first_ids n)" by (simp add: running_def)
  let ?recs = "records logs (first_ids n)" and ?logs = "log_append (active_id db) ?r logs"
  have ne: "key \<noteq> []" using long(1) by auto
  have rd: "readable ?r" by (rule put_record_readable [OF ne len])
  have files: "log_files db fs logs (first_ids n)" using log by (simp add: log_inv_def)
  obtain pos db1 fs' where app: "append_log_record_internal ?r db fs = (Inr pos, db1, fs')"
    "log_files db1 fs' ?logs (first_ids n)" "db_options db1 = db_options db"
    "log_of ?logs (first_ids n) = log_of logs (first_ids n) @ [(pos, ?r)]"
    "fs' = fs_put (data_name db (active_id db)) (encs (logs (active_id db) @ [?r])) fs"
    using log_append_ok [OF files room [folded fits_room] rd] by metis
  obtain db' where put: "DB_put key v db fs = (Inr (), db', fs')" and get: "DB_get key db' fs' = Inr v"
  proof -
    obtain db' fs2 where p: "DB_put key v db fs = (Inr (), db', fs2)" "db_inv db' fs2" "db_kv db' fs2 key = Some v"
      using DB_put_ok [OF db_log_inv(1) [OF log_inv_log [OF log]] ne len room [folded fits_room]] by auto
    have "fs2 = fs'" using p(1) DB_put_update [OF ne app(1)] by simp
    then show ?thesis using that p db_inv_get(1) ne by simp
  qed
  have key: "key_of ?r = take (length key - 8) key" "seq_of ?r \<noteq> NON_TRANSACTION_SEQ_NO"
    using long by (simp_all add: key_of_def seq_of_def put_record_def parse_log_record_key_def Let_def split: if_splits)
  have recs: "records ?logs (first_ids n) = ?recs @ [?r]" by (rule records_append [OF app(4)])
  have "keys_ok (?recs @ [?r])"
    using log key(1) long(1) ne by (simp add: keys_ok_append log_inv_def) (simp add: keys_ok_def)
  moreover have fr: "fs_frame (data_name db (active_id db)) fs fs'" by (simp add: app(5))
  moreover have "disk_log (opt_dir_path opts) fs' ?logs n"
    using disk_log_append [OF _ app(2) _ _ active_id_first [OF run], of "opt_dir_path opts" fs logs] run fr
    by (simp add: running_def app(3) opts)
  moreover have "plain_dir (opt_dir_path opts) fs'"
    using plain_dir_append run fr by (auto simp: running_def opts)
  ultimately have "openable opts (crash fs') ?logs n"
    using files_openable [OF app(2), of "crash fs'"] run by (simp add: app(3) opts recs running_def)
  moreover from this obtain db2 fs2 where op: "DB_open coins opts (crash fs') = (Inr db2, fs2)"
    using open_running by blast
  moreover have "committed (?recs @ [?r]) = committed ?recs"
    using key(2) by (simp add: committed_def fun_eq_iff replay_snoc replay_step_def Let_def seq_of_def put_record_def)
  ultimately have "DB_get k db2 fs2 = DB_get k db fs" for k
    using session_gets [OF session_inv_open] session_gets [OF inv] inv recs by (simp add: session_inv_def)
  then show ?thesis using put get op by blast
qed

subsection \<open>Sessions there are\<close>

lemma wit_openable: "openable wit_options wit_dbfs (\<lambda>_. []) 1"
proof -
  have "disk_log ''d'' wit_dbfs (\<lambda>_. []) 1" "plain_dir ''d'' wit_dbfs"
    by (rule wit_disk [of "[]"]; simp)+
  moreover have "fs_get wit_dbfs ''d/000000000.data'' = Some []" by (simp add: fs_get_def)
  ultimately show ?thesis
    by (simp add: openable_def session_options_def check_options_def last_id_def wit_name records_def keys_ok_def)
qed

text \<open>The files of the session: the data file and the lock file.\<close>

definition wit_files :: "fsys \<Rightarrow> bool" where
  "wit_files fs \<longleftrightarrow> fs_dirs fs = [''d''] \<and> fs_locks fs = [''d/flock'']
     \<and> (\<forall>q. q \<notin> {''d/000000000.data'', ''d/flock''} \<longrightarrow> fs_get fs q = None)"

lemma wit_session:
  "\<exists>db fs. session wit_options Map.empty db fs \<and> db_seq_no db = 0 \<and> wit_files fs \<and> db_options db = wit_options
    \<and> (\<forall>m \<le> 100. room db fs m)"
proof -
  let ?fs = "locked_fs ''d'' wit_dbfs"
  obtain db where o: "DB_open (\<lambda>_ _. True) wit_options wit_dbfs = (Inr db, ?fs)"
    "running db ?fs (\<lambda>_. []) 1" "db_options db = wit_options"
    using open_running [OF wit_openable, of "\<lambda>_ _. True"] by auto
  have "db_seq_no db = 0"
    using open_recovers [of wit_options wit_dbfs "\<lambda>_. []" 1 "\<lambda>_ _. True"] wit_openable o(1)
    by (auto simp: openable_def session_options_def lock_name_def max_seq_def log_of_def NON_TRANSACTION_SEQ_NO_def)
  moreover have "wit_files ?fs"
    by (auto simp: wit_files_def locked_fs_def Let_def FILE_LOCK_NAME_def) (simp add: fs_get_def)
  moreover have "log_files db ?fs (\<lambda>_. []) (first_ids 1)"
    using o(2) by (simp add: running_def log_inv_def)
  then have "room db ?fs m" if "m \<le> 100" for m
    using that room_log [of db _ "\<lambda>_. []"] o(3) by simp
  ultimately show ?thesis
    using session_open [OF wit_openable, of "\<lambda>_ _. True"] o(1,3) committed_Nil
    by (intro exI [of _ db] exI [of _ ?fs]) (simp add: records_def)
qed

lemma wit_session1: "\<exists>db fs. session wit_options [[107] \<mapsto> [1]] db fs \<and> wit_files fs"
proof -
  obtain db fs where s: "session wit_options Map.empty db fs" and w: "wit_files fs" "db_options db = wit_options"
    and room: "\<And>m. m \<le> 100 \<Longrightarrow> room db fs m"
    using wit_session by blast
  have key: "plain_key [107]" by (rule plain_key_short) simp_all
  have "length (enc (put_record [107] [1])) = 9" by (rule length_enc_wit)
  then have r: "room db fs (length (enc (put_record [107] [1])))" using room by simp
  have v: "length [1 :: u8] \<le> MAX_RECORD_SIZE" by (simp add: MAX_RECORD_SIZE_def)
  obtain logs n where run: "running db fs logs n" using session_holds [OF s] unfolding session_inv_def by blast
  from put_running [OF this key v r]
  obtain db' fs' where put: "DB_put [107] [1] db fs = (Inr (), db', fs')"
    "fs_frame (data_name db (active_id db)) fs fs'" by blast
  have s': "session wit_options [[107] \<mapsto> [1]] db' fs'" using session_put [OF s key v r put(1)] .
  have "unat (active_id db) < 1"
  proof -
    have "\<not> unat (1 :: u32) < n"
    proof
      assume "unat (1 :: u32) < n"
      then have "file_exists (get_data_file_name ''d'' 1) fs"
        using run w(2) by (simp add: running_def disk_log_def)
      moreover have "get_data_file_name ''d'' 1 \<noteq> ''d/000000000.data''"
        using wit_name get_data_file_name_eq [of "''d''" 1 0] by simp
      moreover have "get_data_file_name ''d'' 1 \<noteq> ''d/flock''"
        using special_names(4) [of "''d''" 1] by (simp add: FILE_LOCK_NAME_def)
      ultimately show False using w(1) by (auto simp: wit_files_def file_exists_def)
    qed
    then show ?thesis using active_id_first [OF run] by simp
  qed
  then have "active_id db = 0" by (simp add: unat_eq_0)
  then have "wit_files fs'"
    using put(2) w wit_name by (auto simp: wit_files_def fs_frame_def)
  then show ?thesis using s' by blast
qed

theorem session_is_map_witness:
  "\<exists>db fs. session wit_options [[107] \<mapsto> [1]] db fs \<and> DB_get [107] db fs = Inr [1]
    \<and> DB_get [108] db fs = Inl KeyNotFoundError"
proof -
  obtain db fs where s: "session wit_options [[107] \<mapsto> [1]] db fs" using wit_session1 by blast
  have "DB_get [107] db fs = Inr [1]" "DB_get [108] db fs = Inl KeyNotFoundError"
    using session_is_map [OF s, of "[107]"] session_is_map [OF s, of "[108]"] by simp_all
  with s show ?thesis by blast
qed

theorem session_durable_witness:
  "\<exists>db fs db' fs'. session wit_options [[107] \<mapsto> [1]] db fs
    \<and> DB_open (\<lambda>_ _. True) wit_options (crash fs) = (Inr db', fs') \<and> DB_get [107] db' fs' = Inr [1]"
proof -
  obtain db fs where s: "session wit_options [[107] \<mapsto> [1]] db fs" using wit_session1 by blast
  have "DB_get [107] db fs = Inr [1]" using session_get [OF s, of "[107]"] by simp
  with s session_durable [OF s, of "\<lambda>_ _. True"] show ?thesis by metis
qed

theorem interrupted_commit_witness:
  "\<exists>db fs ps db1 fs1 db' fs'. session wit_options Map.empty db fs
    \<and> append_pending 1 (take 1 (wb_pending wit_batch)) db fs = (Inr ps, db1, fs1)
    \<and> DB_open (\<lambda>_ _. True) wit_options (crash fs1) = (Inr db', fs') \<and> DB_get [107] db' fs' = DB_get [107] db fs"
proof -
  obtain db fs where s: "session wit_options Map.empty db fs" "db_seq_no db = 0"
    and room: "\<And>m. m \<le> 100 \<Longrightarrow> room db fs m"
    using wit_session by blast
  have "batch_fits wit_batch db fs"
    unfolding batch_fits_def using s(2) wit_batch_ok wit_batch_length room by simp
  from interrupted_commit [OF s(1) this, of 1 "\<lambda>_ _. True"] s(1) show ?thesis by fastforce
qed

theorem DB_put_long_key_lost_witness:
  "\<exists>db fs db' fs' db2 fs2. session wit_options Map.empty db fs
    \<and> DB_put [1, 2, 3, 4, 5, 6, 7, 8, 9] [1] db fs = (Inr (), db', fs')
    \<and> DB_get [1, 2, 3, 4, 5, 6, 7, 8, 9] db' fs' = Inr [1]
    \<and> DB_open (\<lambda>_ _. True) wit_options (crash fs') = (Inr db2, fs2)
    \<and> DB_get [1, 2, 3, 4, 5, 6, 7, 8, 9] db2 fs2 = Inl KeyNotFoundError"
proof -
  let ?k = "[1, 2, 3, 4, 5, 6, 7, 8, 9] :: bytes"
  obtain db fs where s: "session wit_options Map.empty db fs" and room: "\<And>m. m \<le> 100 \<Longrightarrow> room db fs m"
    using wit_session by blast
  have "length (enc (put_record ?k [1])) \<le> 100"
    by (simp add: length_LogRecord_encode header_length_def put_record_def encode_varint_small)
  note r = room [OF this]
  have seq: "snd (parse_log_record_key ?k) \<noteq> NON_TRANSACTION_SEQ_NO" by code_simp
  from DB_put_long_key_lost [OF s _ seq _ _ r, of "\<lambda>_ _. True"]
  obtain db' fs' db2 fs2 where "DB_put ?k [1] db fs = (Inr (), db', fs')" "DB_get ?k db' fs' = Inr [1]"
    "DB_open (\<lambda>_ _. True) wit_options (crash fs') = (Inr db2, fs2)" "DB_get ?k db2 fs2 = DB_get ?k db fs"
    by (auto simp: MAX_RECORD_SIZE_def)
  moreover from this(4) have "DB_get ?k db2 fs2 = Inl KeyNotFoundError" using session_get [OF s, of ?k] by simp
  ultimately show ?thesis using s by blast
qed

end
