(* ===== verification/Db_Backup.thy ===== *)
theory Db_Backup
  imports Db_Session
begin

text \<open>
  Statistics and backup (\<open>DB::stat\<close>, \<open>DB::backup\<close> of \<open>src/db.cpp\<close>). The lemmas show that a backup
  into a new directory can be opened and holds the contents of the database, and what a backup into
  the data directory does.
\<close>

section \<open>Statistics\<close>

record stat_info =
  st_key_num :: u32
  st_data_file_num :: u32
  st_reclaimable_size :: int
  st_disk_size :: int

definition DB_stat :: "db \<Rightarrow> fsys \<Rightarrow> stat_info" where
  "DB_stat db fs =
     \<lparr>st_key_num = of_nat (idx_size (db_index db)),
      st_data_file_num =
        (let n = of_nat (length (db_older_files db)) in if db_active_file db \<noteq> None then n + 1 else n),
      st_reclaimable_size = db_reclaim_size db,
      st_disk_size = sint (dir_size (opt_dir_path (db_options db)) fs)\<rparr>"

section \<open>Backup\<close>

text \<open>
  The copies whose failure is ignored: the data files but the active one. The flag tells whether a
  file was copied so far.
\<close>

fun backup_older :: "string \<Rightarrow> string \<Rightarrow> u32 option \<Rightarrow> u32 list \<Rightarrow> bool \<Rightarrow> fsys \<Rightarrow> bool \<times> fsys" where
  "backup_older src_dir dir active [] any_file_copied fs = (any_file_copied, fs)"
| "backup_older src_dir dir active (fid # fids) any_file_copied fs =
     (if active = Some fid then backup_older src_dir dir active fids any_file_copied fs
      else
        (let src_file = get_data_file_name src_dir fid; dst_file = get_data_file_name dir fid in
         if file_exists src_file fs
         then (case copy_file src_file dst_file fs of
                 (Inl e, fs) \<Rightarrow> backup_older src_dir dir active fids any_file_copied fs
               | (Inr _, fs) \<Rightarrow> backup_older src_dir dir active fids True fs)
         else backup_older src_dir dir active fids any_file_copied fs))"

text \<open>A copy that is made when the source is there and may fail.\<close>

definition backup_extra :: "string \<Rightarrow> string \<Rightarrow> string \<Rightarrow> fsys \<Rightarrow> fsys" where
  "backup_extra src_dir dir name fs =
     (let src = src_dir @ ''/'' @ name; dst = dir @ ''/'' @ name in
      if file_exists src fs then snd (copy_file src dst fs) else fs)"

definition DB_backup :: "string \<Rightarrow> db \<Rightarrow> fsys \<Rightarrow> unit res \<times> db \<times> fsys" where
  "DB_backup dir db fs =
     (let fs = create_directory dir fs;
          src_dir = opt_dir_path (db_options db);
          active = map_option df_file_id (db_active_file db);
          db = (case active of None \<Rightarrow> db | Some fid \<Rightarrow> db\<lparr>db_file_ids := add_file_id fid (db_file_ids db)\<rparr>)
      in if db_file_ids db = [] \<and> active = None then (Inr (), db, fs)
         else
           (let fs = (if opt_index_type (db_options db) = BPLUS_TREE
                      then (case db_index db of BPlusTreeIdx t \<Rightarrow> BPlusTreeIndex_sync t fs | _ \<Rightarrow> fs)
                      else fs);
                (r, any_file_copied, fs) =
                  (case active of
                     None \<Rightarrow> (Inr (), False, fs)
                   | Some fid \<Rightarrow>
                       if file_exists (get_data_file_name src_dir fid) fs
                       then (case copy_file (get_data_file_name src_dir fid) (get_data_file_name dir fid) fs of
                               (Inl e, fs) \<Rightarrow>
                                 (Inl (BitcaskException ''Failed to backup active data file''), False, fs)
                             | (Inr _, fs) \<Rightarrow> (Inr (), True, fs))
                       else (Inr (), False, fs))
            in case r of
                 Inl e \<Rightarrow> (Inl e, db, fs)
               | Inr _ \<Rightarrow>
                   (let (any_file_copied, fs) =
                          backup_older src_dir dir active (db_file_ids db) any_file_copied fs
                    in if \<not> any_file_copied \<and> (active \<noteq> None \<or> db_file_ids db \<noteq> [])
                       then (Inl (BitcaskException ''No data files were copied during backup''), db, fs)
                       else
                         (let fs = backup_extra src_dir dir HINT_FILE_NAME fs;
                              fs = backup_extra src_dir dir SEQ_NO_FILE_NAME fs;
                              fs = (if opt_index_type (db_options db) = BPLUS_TREE
                                    then backup_extra src_dir dir ''bptree-index.db'' fs else fs)
                          in (Inr (), db, fs)))))"

section \<open>What a backup holds\<close>

lemma data_file_name_dir:
  assumes "d \<noteq> []" "b \<noteq> []" "get_data_file_name d x = get_data_file_name b y"
  shows "d = b"
  using assms dir_name_data_file by metis

lemma copy_file_ok:
  assumes "fs_get fs src = Some c" "directory_exists (dir_name dst) fs" "\<not> directory_exists dst fs" "src \<noteq> dst"
  shows "copy_file src dst fs = (Inr (), fs_put dst c (fs_put dst [] fs))"
  using assms by (simp add: copy_file_def copy_blocks_eq)

text \<open>The directory of a backup that can be made: a new one, apart from the data directory.\<close>

definition backup_target :: "string \<Rightarrow> string \<Rightarrow> fsys \<Rightarrow> bool" where
  "backup_target dir b fs \<longleftrightarrow>
     b \<noteq> [] \<and> b \<noteq> dir \<and> directory_exists b (create_directory b fs)
     \<and> (\<forall>p. dir_name p = b \<longrightarrow> fs_get fs p = None \<and> \<not> directory_exists p (create_directory b fs))
     \<and> b @ ''/'' @ FILE_LOCK_NAME \<notin> set (fs_locks fs)"

lemma mkdir_simps [simp]:
  "fs_get (mkdir p fs) q = fs_get fs q" "fs_locks (mkdir p fs) = fs_locks fs"
  "fs_page_size (mkdir p fs) = fs_page_size fs"
  by (simp_all add: mkdir_def)

lemma create_directory_simps [simp]:
  "fs_get (create_directory p fs) q = fs_get fs q" "fs_locks (create_directory p fs) = fs_locks fs"
  "fs_page_size (create_directory p fs) = fs_page_size fs"
proof -
  have "fs_get (create_directory_loop d p fs) q = fs_get fs q
    \<and> fs_locks (create_directory_loop d p fs) = fs_locks fs
    \<and> fs_page_size (create_directory_loop d p fs) = fs_page_size fs" for d p fs
    by (induction d p fs rule: create_directory_loop.induct) auto
  then show "fs_get (create_directory p fs) q = fs_get fs q" "fs_locks (create_directory p fs) = fs_locks fs"
    "fs_page_size (create_directory p fs) = fs_page_size fs" by (simp_all add: create_directory_def)
qed

text \<open>The copies of the data files other than the active one.\<close>

lemma backup_older_copies:
  assumes b: "b \<noteq> []" "dir \<noteq> []" "b \<noteq> dir" "directory_exists b fs"
    and free: "\<And>fid. \<not> directory_exists (get_data_file_name b fid) fs"
  shows "\<exists>flag fs'. backup_older dir b active fids True fs = (flag, fs') \<and> flag
    \<and> fs_dirs fs' = fs_dirs fs \<and> fs_locks fs' = fs_locks fs \<and> fs_page_size fs' = fs_page_size fs
    \<and> (\<forall>q. (\<forall>fid. q \<noteq> get_data_file_name b fid) \<longrightarrow> fs_get fs' q = fs_get fs q)
    \<and> (\<forall>fid. fs_get fs' (get_data_file_name b fid)
          = (if fid \<in> set fids \<and> active \<noteq> Some fid \<and> file_exists (get_data_file_name dir fid) fs
             then fs_get fs (get_data_file_name dir fid) else fs_get fs (get_data_file_name b fid)))"
  using b(4) free
proof (induction fids arbitrary: fs)
  case (Cons fid fids)
  have ne: "get_data_file_name dir x \<noteq> get_data_file_name b y" for x y
    using data_file_name_dir [OF b(2,1)] b(3) by blast
  show ?case
  proof (cases "active = Some fid \<or> \<not> file_exists (get_data_file_name dir fid) fs")
    case True
    then have step: "backup_older dir b active (fid # fids) True fs = backup_older dir b active fids True fs"
      by (auto simp: Let_def)
    show ?thesis
      using Cons.IH [OF Cons.prems] True unfolding step by (elim exE conjE) (intro exI conjI, assumption+, auto)
  next
    case False
    then obtain c where c: "fs_get fs (get_data_file_name dir fid) = Some c" "active \<noteq> Some fid"
      by (auto simp: file_exists_def)
    let ?fs = "fs_put (get_data_file_name b fid) c (fs_put (get_data_file_name b fid) [] fs)"
    have cp: "copy_file (get_data_file_name dir fid) (get_data_file_name b fid) fs = (Inr (), ?fs)"
      using c Cons.prems ne b(1) by (intro copy_file_ok) simp_all
    have step: "backup_older dir b active (fid # fids) True fs = backup_older dir b active fids True ?fs"
      using c cp by (simp add: Let_def file_exists_def)
    have prems: "directory_exists b ?fs" "\<And>fid. \<not> directory_exists (get_data_file_name b fid) ?fs"
      using Cons.prems by (simp_all add: directory_exists_def)
    obtain flag fs' where fs': "backup_older dir b active fids True ?fs = (flag, fs')" "flag"
      "fs_dirs fs' = fs_dirs ?fs" "fs_locks fs' = fs_locks ?fs" "fs_page_size fs' = fs_page_size ?fs"
      "\<forall>q. (\<forall>fid. q \<noteq> get_data_file_name b fid) \<longrightarrow> fs_get fs' q = fs_get ?fs q"
      "\<forall>fid. fs_get fs' (get_data_file_name b fid)
          = (if fid \<in> set fids \<and> active \<noteq> Some fid \<and> file_exists (get_data_file_name dir fid) ?fs
             then fs_get ?fs (get_data_file_name dir fid) else fs_get ?fs (get_data_file_name b fid))"
      using Cons.IH [OF prems] by blast
    have "fs_get fs' (get_data_file_name b f)
          = (if f \<in> set (fid # fids) \<and> active \<noteq> Some f \<and> file_exists (get_data_file_name dir f) fs
             then fs_get fs (get_data_file_name dir f) else fs_get fs (get_data_file_name b f))" for f
      using fs'(7) c ne by (auto simp: file_exists_def)
    then show ?thesis using fs'(1-6) unfolding step by auto
  qed
qed auto

lemma files_of_ids:
  assumes "log_files db fs logs fids" "fid \<in> set fids"
  shows "fid \<in> set (db_file_ids db) \<or> db_active_file db \<noteq> None \<and> fid = active_id db"
proof -
  have "map fst (files_to_process db) = fids" using assms(1) by (simp add: log_files_def files_hold_def)
  then have "fid \<in> fst ` set (files_to_process db)" using assms(2) by force
  then obtain df where "(fid, df) \<in> set (files_to_process db)" by force
  then show ?thesis
    by (auto simp: files_to_process_def active_id_def List.map_filter_def split: option.splits if_splits)
qed

lemma set_add_file_id [simp]: "set (add_file_id fid fids) = insert fid (set fids)"
  by (auto simp: add_file_id_def)

lemma DB_backup_ok:
  assumes run: "running db fs logs n" and tgt: "backup_target (opt_dir_path (db_options db)) b fs"
  shows "\<exists>db' fs'. DB_backup b db fs = (Inr (), db', fs')
    \<and> openable (db_options db\<lparr>opt_dir_path := b\<rparr>) fs' logs n
    \<and> (\<forall>q. dir_name q \<noteq> b \<longrightarrow> fs_get fs' q = fs_get fs q)"
proof -
  let ?dir = "opt_dir_path (db_options db)" and ?fs0 = "create_directory b fs" and ?a = "active_id db"
  have disk: "disk_log ?dir fs logs n" and plain: "plain_dir ?dir fs" and opts: "session_options (db_options db)"
    and files: "log_files db fs logs (first_ids n)"
    using run by (simp_all add: running_def log_inv_def)
  have b: "b \<noteq> []" "b \<noteq> ?dir" "directory_exists b ?fs0" "?dir \<noteq> []"
    using tgt disk by (simp_all add: backup_target_def disk_log_def)
  have fresh: "dir_name p = b \<Longrightarrow> fs_get fs p = None \<and> \<not> directory_exists p ?fs0" for p
    using tgt by (simp add: backup_target_def)
  have ne: "get_data_file_name ?dir x \<noteq> get_data_file_name b y" for x y
    using data_file_name_dir [OF b(4,1)] b(2) by blast
  have sub: "dir_name (b @ CHR ''/'' # s) = b" if "find_last_sep s = None" for s
    using that b(1) by (rule dir_name_append [rotated])
  have n: "n \<le> MAX_SCAN_FILES" using disk by (simp add: disk_log_def)
  obtain df :: data_file where act: "db_active_file db = Some df" "df_file_id df = ?a"
    using files by (auto simp: log_files_def active_id_def)
  have aN: "unat ?a < n" by (rule active_id_first [OF run])
  then obtain c where c: "fs_get fs (get_data_file_name ?dir ?a) = Some c"
    using disk by (auto simp: disk_log_def)
  let ?fs1 = "fs_put (get_data_file_name b ?a) c (fs_put (get_data_file_name b ?a) [] ?fs0)"
  have cp: "copy_file (get_data_file_name ?dir ?a) (get_data_file_name b ?a) ?fs0 = (Inr (), ?fs1)"
    using c b ne fresh by (intro copy_file_ok) simp_all
  let ?ids = "add_file_id ?a (db_file_ids db)" and ?db = "db\<lparr>db_file_ids := add_file_id (active_id db) (db_file_ids db)\<rparr>"
  obtain flag fs2 where older: "backup_older ?dir b (Some ?a) ?ids True ?fs1 = (flag, fs2)" "flag"
    "fs_dirs fs2 = fs_dirs ?fs0" "fs_locks fs2 = fs_locks fs" "fs_page_size fs2 = fs_page_size fs"
    and q2: "\<forall>q. (\<forall>fid. q \<noteq> get_data_file_name b fid) \<longrightarrow> fs_get fs2 q = fs_get ?fs1 q"
    and d2: "\<forall>fid. fs_get fs2 (get_data_file_name b fid)
          = (if fid \<in> set ?ids \<and> Some ?a \<noteq> Some fid \<and> file_exists (get_data_file_name ?dir fid) ?fs1
             then fs_get ?fs1 (get_data_file_name ?dir fid) else fs_get ?fs1 (get_data_file_name b fid))"
    using backup_older_copies [OF b(1,4,2), of ?fs1 "Some ?a" ?ids] b(1,3) fresh
    by (auto simp: directory_exists_def)
  have data: "fs_get fs2 (get_data_file_name b fid) = fs_get fs (get_data_file_name ?dir fid)" for fid
  proof (cases "fid = ?a")
    case True
    then show ?thesis using d2 c by simp
  next
    case False
    show ?thesis
    proof (cases "unat fid < n")
      case True
      then have "fid \<in> set ?ids" using files_of_ids [OF files, of fid] set_first_ids [OF n] by auto
      then show ?thesis using d2 False ne c fresh b(1) by (auto simp: file_exists_def)
    next
      case out: False
      then have "\<not> file_exists (get_data_file_name ?dir fid) fs" using disk by (simp add: disk_log_def)
      then have "fs_get fs (get_data_file_name ?dir fid) = None" by (simp add: file_exists_def)
      then show ?thesis using d2 False ne fresh b(1) by (simp add: file_exists_def)
    qed
  qed
  let ?s = "b @ ''/'' @ SEQ_NO_FILE_NAME"
  define fs3 where "fs3 = backup_extra ?dir b SEQ_NO_FILE_NAME (backup_extra ?dir b HINT_FILE_NAME fs2)"
  have hint: "backup_extra ?dir b HINT_FILE_NAME fs2 = fs2"
  proof -
    have "?dir @ ''/'' @ HINT_FILE_NAME \<noteq> get_data_file_name b fid" for fid
      using b dir_name_append [OF b(4) plain_names(1)] dir_name_data_file [OF b(1)] by auto
    then have "fs_get fs2 (?dir @ ''/'' @ HINT_FILE_NAME) = fs_get fs (?dir @ ''/'' @ HINT_FILE_NAME)"
      using q2 by auto
    then show ?thesis using plain by (simp add: backup_extra_def file_exists_def plain_dir_def)
  qed
  have dirs3: "fs_dirs fs3 = fs_dirs ?fs0" "fs_locks fs3 = fs_locks fs" "fs_page_size fs3 = fs_page_size fs"
    "q \<noteq> ?s \<Longrightarrow> fs_get fs3 q = fs_get fs2 q" for q
    using older(3-5) unfolding fs3_def hint
    by (auto simp: backup_extra_def Let_def copy_file_def split: option.splits if_splits)
  have run': "DB_backup b db fs = (Inr (), ?db, fs3)"
    using act cp older(1,2) opts c
    by (simp add: DB_backup_def Let_def file_exists_def session_options_def fs3_def)
  have other: "fs_get fs3 q = fs_get fs q" if "dir_name q \<noteq> b" for q
  proof -
    have "q \<noteq> ?s" "q \<noteq> get_data_file_name b fid" for fid
      using that sub [OF plain_names(4)] dir_name_data_file [OF b(1)] by auto
    then show ?thesis using dirs3(4) q2 by auto
  qed
  have none: "fs_get fs3 (b @ CHR ''/'' # s) = None" "\<not> directory_exists (b @ CHR ''/'' # s) fs3"
    if s: "find_last_sep s = None" "s \<noteq> SEQ_NO_FILE_NAME" "\<And>fid. get_data_file_name b fid \<noteq> b @ CHR ''/'' # s" for s
    using fresh [OF sub [OF s(1)]] s(2,3) q2 dirs3(1,4) by (auto simp: directory_exists_def) metis
  have data3: "fs_get fs3 (get_data_file_name b fid) = fs_get fs (get_data_file_name ?dir fid)" for fid
    using data dirs3(4) by simp
  have op: "openable (db_options db) (crash fs) logs n" by (rule crash_openable [OF run])
  have "openable (db_options db\<lparr>opt_dir_path := b\<rparr>) fs3 logs n"
  proof -
    have "\<not> directory_exists (get_data_file_name b fid) fs3" for fid
      using fresh b(1) dirs3(1) by (simp add: directory_exists_def)
    then have "disk_log b fs3 logs n"
      using disk b data3 dirs3(1,3) by (simp add: disk_log_def file_exists_def directory_exists_def)
    moreover have "plain_dir b fs3"
    proof -
      have "\<not> directory_exists (b @ CHR ''/'' # s) fs3" if "find_last_sep s = None" for s
        using fresh [OF sub [OF that]] dirs3(1) by (simp add: directory_exists_def)
      then show ?thesis
        using none(1) [OF plain_names(1)] none(1) [OF plain_names(2)] plain_names(3-5)
        by (simp add: plain_dir_def file_exists_def)
          (simp add: HINT_FILE_NAME_def MERGE_FINISHED_FILE_NAME_def SEQ_NO_FILE_NAME_def)
    qed
    ultimately show ?thesis
      using op opts b(1) tgt data3 dirs3(2)
      by (simp add: openable_def session_options_def check_options_def lock_name_def backup_target_def split: if_splits)
  qed
  then show ?thesis using run' other by blast
qed

text \<open>
  C27: a backup can be opened: backing up a database in a state of a session (\<open>mmap_at_startup\<close>, which is on
  by default, is off; the index is not the B+ tree; keys put or removed on their own are shorter than 8 bytes or end
  in 8 zero bytes, the others would be lost in the copy as they are by a restart; no file was
  rotated) into a new directory succeeds, changes nothing outside that directory, and opening the
  directory gives a database that answers every key as the original does.
\<close>

theorem DB_backup_restores:
  assumes "session opts m db fs" and "backup_target (opt_dir_path opts) b fs"
  shows "\<exists>db' fs' db2 fs2. DB_backup b db fs = (Inr (), db', fs')
    \<and> (\<forall>q. dir_name q \<noteq> b \<longrightarrow> fs_get fs' q = fs_get fs q)
    \<and> DB_open coins (opts\<lparr>opt_dir_path := b\<rparr>) fs' = (Inr db2, fs2) \<and> (\<forall>k. DB_get k db2 fs2 = DB_get k db fs)"
proof -
  obtain logs n where inv: "session_inv opts m db fs logs n" using session_holds [OF assms(1)] by blast
  then have run: "running db fs logs n" "db_options db = opts" by (simp_all add: session_inv_def)
  obtain db' fs' where b: "DB_backup b db fs = (Inr (), db', fs')"
    "openable (opts\<lparr>opt_dir_path := b\<rparr>) fs' logs n" "\<forall>q. dir_name q \<noteq> b \<longrightarrow> fs_get fs' q = fs_get fs q"
    using DB_backup_ok [OF run(1)] assms(2) run(2) by blast
  obtain db2 fs2 where op: "DB_open coins (opts\<lparr>opt_dir_path := b\<rparr>) fs' = (Inr db2, fs2)"
    using open_running [OF b(2)] by blast
  have "DB_get k db2 fs2 = DB_get k db fs" for k
    using session_gets [OF session_inv_open [OF b(2) op]] session_gets [OF inv] inv by (simp add: session_inv_def)
  then show ?thesis using b(1,3) op by blast
qed

theorem DB_backup_restores_witness:
  "\<exists>db fs db' fs' db2 fs2. session wit_options [[107] \<mapsto> [1]] db fs
    \<and> DB_backup ''b'' db fs = (Inr (), db', fs')
    \<and> DB_open (\<lambda>_ _. True) (wit_options\<lparr>opt_dir_path := ''b''\<rparr>) fs' = (Inr db2, fs2) \<and> DB_get [107] db2 fs2 = Inr [1]"
proof -
  obtain db fs where s: "session wit_options [[107] \<mapsto> [1]] db fs" and w: "wit_files fs"
    using wit_session1 by blast
  have dn: "dir_name ''d/000000000.data'' = ''d''" "dir_name ''d/flock'' = ''d''" "dir_name ''d'' = ''.''"
    "dir_name ''b'' = ''.''"
    by (simp_all add: dir_name_def)
  have none: "fs_get fs q = None" if "q \<noteq> ''d/000000000.data''" "q \<noteq> ''d/flock''" for q
    using w that by (simp add: wit_files_def)
  have dirs: "fs_dirs fs = [''d'']" "fs_locks fs = [''d/flock'']" using w by (simp_all add: wit_files_def)
  have cr: "create_directory ''b'' fs = fs\<lparr>fs_dirs := [''b'', ''d'']\<rparr>"
    using none [of "''b''"] none [of "''.''"] dirs dn
    by (simp add: create_directory_def mkdir_def directory_exists_def file_exists_def)
  have "fs_get fs p = None" if "dir_name p = ''b''" for p
    by (rule none) (use dn that in auto)
  moreover have "p \<noteq> ''b'' \<and> p \<noteq> ''d''" if "dir_name p = ''b''" for p using dn that by auto
  ultimately have "backup_target (opt_dir_path wit_options) ''b'' fs"
    by (simp add: backup_target_def cr directory_exists_def FILE_LOCK_NAME_def dirs)
  from DB_backup_restores [OF s this, of "\<lambda>_ _. True"]
  obtain db' fs' db2 fs2 where "DB_backup ''b'' db fs = (Inr (), db', fs')"
    "DB_open (\<lambda>_ _. True) (wit_options\<lparr>opt_dir_path := ''b''\<rparr>) fs' = (Inr db2, fs2)"
    "DB_get [107] db2 fs2 = DB_get [107] db fs" by blast
  moreover have "DB_get [107] db fs = Inr [1]" using session_get [OF s, of "[107]"] by simp
  ultimately show ?thesis using s by metis
qed

text \<open>The same copies when the target is the data directory: every file is truncated first.\<close>

lemma copy_file_self:
  assumes "file_exists p fs" "directory_exists (dir_name p) fs" "\<not> directory_exists p fs"
  shows "copy_file p p fs = (Inr (), fs_put p [] (fs_put p [] fs))"
  using assms by (auto simp: copy_file_def copy_blocks_eq file_exists_def)

definition emptied :: "(string \<Rightarrow> bool) \<Rightarrow> fsys \<Rightarrow> fsys \<Rightarrow> bool" where
  "emptied P fs fs' \<longleftrightarrow>
     fs_dirs fs' = fs_dirs fs \<and> fs_locks fs' = fs_locks fs \<and> fs_page_size fs' = fs_page_size fs
     \<and> (\<forall>q. fs_get fs' q = (if P q \<and> file_exists q fs then Some [] else fs_get fs q))"

lemma backup_older_self:
  assumes "directory_exists dir fs" "dir \<noteq> []"
    "\<And>fid. file_exists (get_data_file_name dir fid) fs \<Longrightarrow> \<not> directory_exists (get_data_file_name dir fid) fs"
  shows "\<exists>fs'. backup_older dir dir active fids True fs = (True, fs')
    \<and> emptied (\<lambda>q. \<exists>fid \<in> set fids. active \<noteq> Some fid \<and> q = get_data_file_name dir fid) fs fs'"
  using assms(1,3)
proof (induction fids arbitrary: fs)
  case (Cons fid fids)
  let ?p = "get_data_file_name dir fid"
  show ?case
  proof (cases "active = Some fid \<or> \<not> file_exists ?p fs")
    case True
    then have step: "backup_older dir dir active (fid # fids) True fs = backup_older dir dir active fids True fs"
      by (auto simp: Let_def)
    show ?thesis using Cons.IH [OF Cons.prems] True unfolding step by (auto simp: emptied_def)
  next
    case False
    let ?fs = "fs_put ?p [] (fs_put ?p [] fs)"
    have cp: "copy_file ?p ?p fs = (Inr (), ?fs)"
      using False Cons.prems assms(2) by (intro copy_file_self) simp_all
    have step: "backup_older dir dir active (fid # fids) True fs = backup_older dir dir active fids True ?fs"
      using False cp by (simp add: Let_def)
    have prems: "directory_exists dir ?fs" "\<And>fid. file_exists (get_data_file_name dir fid) ?fs \<Longrightarrow>
        \<not> directory_exists (get_data_file_name dir fid) ?fs"
      using Cons.prems False by (auto simp: directory_exists_def file_exists_def split: if_splits)
    show ?thesis using Cons.IH [OF prems] False unfolding step by (auto simp: emptied_def file_exists_def)
  qed
qed (simp add: emptied_def)

lemma backup_extra_self:
  assumes "directory_exists dir fs" "dir \<noteq> []" "\<not> directory_exists (dir @ ''/'' @ name) fs"
    "find_last_sep name = None"
  shows "emptied (\<lambda>q. q = dir @ ''/'' @ name) fs (backup_extra dir dir name fs)"
  using copy_file_self [of "dir @ ''/'' @ name" fs] assms dir_name_append [OF assms(2,4)]
  by (auto simp: backup_extra_def emptied_def Let_def)

text \<open>
  a backup into the data directory itself destroys the database: it succeeds, but every data file
  is empty afterwards (the destination is truncated before the source is read), and the database
  that is opened next has no key.
\<close>

theorem DB_backup_onto_itself:
  assumes sess: "session opts m db fs" and cr: "create_directory (opt_dir_path opts) fs = fs"
  shows "\<exists>db' fs' db2 fs2. DB_backup (opt_dir_path opts) db fs = (Inr (), db', fs')
    \<and> DB_open coins opts (crash fs') = (Inr db2, fs2) \<and> (\<forall>k. k \<noteq> [] \<longrightarrow> DB_get k db2 fs2 = Inl KeyNotFoundError)"
proof -
  obtain logs n where inv: "session_inv opts m db fs logs n" using session_holds [OF sess] by blast
  then have run: "running db fs logs n" and opts: "db_options db = opts" by (simp_all add: session_inv_def)
  let ?dir = "opt_dir_path opts" and ?a = "active_id db"
  let ?p = "get_data_file_name ?dir ?a"
  have disk: "disk_log ?dir fs logs n" and plain: "plain_dir ?dir fs" and so: "session_options opts"
    and files: "log_files db fs logs (first_ids n)"
    using run opts by (simp_all add: running_def log_inv_def)
  have n: "n \<le> MAX_SCAN_FILES" and dir: "directory_exists ?dir fs" "?dir \<noteq> []"
    using disk by (simp_all add: disk_log_def)
  have aN: "unat ?a < n" by (rule active_id_first [OF run])
  have nodir: "file_exists (get_data_file_name ?dir fid) fs \<Longrightarrow> \<not> directory_exists (get_data_file_name ?dir fid) fs" for fid
    using disk by (simp add: disk_log_def)
  obtain df :: data_file where act: "db_active_file db = Some df" "df_file_id df = ?a"
    using files by (auto simp: log_files_def active_id_def)
  have ex: "file_exists ?p fs" using disk aN by (simp add: disk_log_def)
  let ?fs1 = "fs_put ?p [] (fs_put ?p [] fs)"
  have cp: "copy_file ?p ?p fs = (Inr (), ?fs1)" using ex dir nodir by (intro copy_file_self) simp_all
  let ?ids = "add_file_id ?a (db_file_ids db)" and ?db = "db\<lparr>db_file_ids := add_file_id (active_id db) (db_file_ids db)\<rparr>"
  have nodir1: "file_exists (get_data_file_name ?dir fid) ?fs1 \<Longrightarrow> \<not> directory_exists (get_data_file_name ?dir fid) ?fs1" for fid
    using nodir ex by (auto simp: directory_exists_def file_exists_def split: if_splits)
  have dir1: "directory_exists ?dir ?fs1" using dir(1) by (simp add: directory_exists_def)
  obtain fs2 where older: "backup_older ?dir ?dir (Some ?a) ?ids True ?fs1 = (True, fs2)"
    and e2: "emptied (\<lambda>q. \<exists>fid \<in> set ?ids. Some ?a \<noteq> Some fid \<and> q = get_data_file_name ?dir fid) ?fs1 fs2"
    using backup_older_self [OF dir1 dir(2) nodir1] by blast
  have same2: "fs_dirs fs2 = fs_dirs fs" "fs_page_size fs2 = fs_page_size fs"
    and get2: "fs_get fs2 q = (if \<exists>fid. fid \<in> insert ?a (set ?ids) \<and> q = get_data_file_name ?dir fid \<and> file_exists q fs
      then Some [] else fs_get fs q)" for q
    using e2 ex by (auto simp: emptied_def file_exists_def)
  have hint: "backup_extra ?dir ?dir HINT_FILE_NAME fs2 = fs2"
  proof -
    have "fs_get fs2 (?dir @ ''/'' @ HINT_FILE_NAME) = fs_get fs (?dir @ ''/'' @ HINT_FILE_NAME)"
      unfolding get2 by (auto simp: special_names [symmetric])
    then show ?thesis using plain by (simp add: backup_extra_def file_exists_def plain_dir_def)
  qed
  define fs3 where "fs3 = backup_extra ?dir ?dir SEQ_NO_FILE_NAME fs2"
  have e3: "emptied (\<lambda>q. q = ?dir @ ''/'' @ SEQ_NO_FILE_NAME) fs2 fs3"
    unfolding fs3_def using dir plain plain_names(4) same2(1)
    by (intro backup_extra_self) (simp_all add: directory_exists_def plain_dir_def)
  have run': "DB_backup ?dir db fs = (Inr (), ?db, fs3)"
    using act cp older so ex opts hint cr
    by (simp add: DB_backup_def Let_def session_options_def fs3_def)
  have data3: "fs_get fs3 (get_data_file_name ?dir fid) = (if unat fid < n then Some [] else None)" for fid
  proof -
    have "fs_get fs3 (get_data_file_name ?dir fid) = fs_get fs2 (get_data_file_name ?dir fid)"
      using e3 by (simp add: emptied_def)
    moreover have "fid \<in> insert ?a (set ?ids)" if "unat fid < n"
      using files_of_ids [OF files, of fid] set_first_ids [OF n] that by auto
    moreover have "file_exists (get_data_file_name ?dir fid) fs \<longleftrightarrow> unat fid < n"
      using disk by (simp add: disk_log_def)
    ultimately show ?thesis by (auto simp: get2 file_exists_def)
  qed
  let ?logs = "\<lambda>_ :: u32. [] :: log_record list"
  have "holds_log [] []" by (simp add: holds_log_def parse_record_def)
  then have "disk_log ?dir (crash fs3) ?logs n"
    using disk data3 e3 same2
    by (simp add: disk_log_def file_exists_def directory_exists_def emptied_def)
  moreover have "plain_dir ?dir (crash fs3)"
  proof -
    have "fs_get fs3 (?dir @ ''/'' @ HINT_FILE_NAME) = fs_get fs (?dir @ ''/'' @ HINT_FILE_NAME)"
      "fs_get fs3 (?dir @ ''/'' @ MERGE_FINISHED_FILE_NAME) = fs_get fs (?dir @ ''/'' @ MERGE_FINISHED_FILE_NAME)"
      using e3 unfolding emptied_def get2
      by (auto simp: special_names [symmetric])
        (simp_all add: HINT_FILE_NAME_def SEQ_NO_FILE_NAME_def MERGE_FINISHED_FILE_NAME_def)
    then show ?thesis
      using plain e3 same2 by (simp add: plain_dir_def file_exists_def directory_exists_def emptied_def)
  qed
  moreover have "unat (last_id n) < n"
    using disk unat_of_nat_small [of "n - 1" n] by (simp add: disk_log_def last_id_def)
  ultimately have o: "openable opts (crash fs3) ?logs n"
    using so data3 by (simp add: openable_def records_def keys_ok_def)
  obtain db2 fs4 where op: "DB_open coins opts (crash fs3) = (Inr db2, fs4)" using open_running [OF o] by blast
  have "records ?logs (first_ids n) = []" by (simp add: records_def)
  then have "DB_get k db2 fs4 = Inl KeyNotFoundError" if "k \<noteq> []" for k
    using session_gets [OF session_inv_open [OF o op], of k] that committed_Nil by simp
  then show ?thesis using run' op by blast
qed

theorem DB_backup_onto_itself_witness:
  "\<exists>db fs db' fs' db2 fs2. session wit_options [[107] \<mapsto> [1]] db fs \<and> DB_get [107] db fs = Inr [1]
    \<and> DB_backup ''d'' db fs = (Inr (), db', fs')
    \<and> DB_open (\<lambda>_ _. True) wit_options (crash fs') = (Inr db2, fs2) \<and> DB_get [107] db2 fs2 = Inl KeyNotFoundError"
proof -
  obtain db fs where s: "session wit_options [[107] \<mapsto> [1]] db fs" and w: "wit_files fs"
    using wit_session1 by blast
  have "create_directory (opt_dir_path wit_options) fs = fs"
    using w by (simp add: create_directory_def mkdir_def wit_files_def directory_exists_def)
  from DB_backup_onto_itself [OF s this, of "\<lambda>_ _. True"]
  obtain db' fs' db2 fs2 where "DB_backup ''d'' db fs = (Inr (), db', fs')"
    "DB_open (\<lambda>_ _. True) wit_options (crash fs') = (Inr db2, fs2)" "DB_get [107] db2 fs2 = Inl KeyNotFoundError"
    by auto
  moreover have "DB_get [107] db fs = Inr [1]" using session_get [OF s, of "[107]"] by simp
  ultimately show ?thesis using s by blast
qed

end
