(* ===== verification/Db_Merge.thy ===== *)
theory Db_Merge
  imports Db_Backup
begin

text \<open>
  Merging (\<open>DB::merge\<close> of \<open>src/db.cpp\<close>): the records that the index points to are copied into a
  database of its own, beside the data directory, and the files of that database are put in the
  place of the old ones.
\<close>

section \<open>Merging\<close>

text \<open>\<open>find_last_of('/')\<close>\<close>

fun find_last_slash :: "string \<Rightarrow> nat option" where
  "find_last_slash [] = None"
| "find_last_slash (c # s) =
     (case find_last_slash s of
        Some n \<Rightarrow> Some (Suc n)
      | None \<Rightarrow> if c = CHR ''/'' then Some 0 else None)"

definition get_merge_path :: "db \<Rightarrow> string" where
  "get_merge_path db =
     (let dir_path_str = opt_dir_path (db_options db) in
      case find_last_slash dir_path_str of
        None \<Rightarrow> dir_path_str @ MERGE_DIR_SUFFIX
      | Some last_sep \<Rightarrow>
          (let parent_path = take last_sep dir_path_str; dir_name = drop (last_sep + 1) dir_path_str
           in parent_path @ ''/'' @ dir_name @ MERGE_DIR_SUFFIX))"

text \<open>\<open>double\<close> is rational here: the rounding of the quotient is not modelled.\<close>

definition should_merge :: "db \<Rightarrow> fsys \<Rightarrow> bool" where
  "should_merge db fs =
     (let total_size = dir_size (opt_dir_path (db_options db)) fs in
      if total_size = 0 then False
      else rat_of_int (db_reclaim_size db) / rat_of_nat (unat total_size)
             \<ge> opt_data_file_merge_ratio (db_options db))"

fun open_merge_files :: "string \<Rightarrow> u32 list \<Rightarrow> fsys \<Rightarrow> data_file list res \<times> fsys" where
  "open_merge_files dir [] fs = (Inr [], fs)"
| "open_merge_files dir (file_id # ids) fs =
     (case open_data_file dir file_id STANDARD_FIO fs of
        (Inl e, fs) \<Rightarrow> (Inl e, fs)
      | (Inr df, fs) \<Rightarrow>
          (case open_merge_files dir ids fs of
             (Inl e, fs) \<Rightarrow> (Inl e, fs)
           | (Inr dfs, fs) \<Rightarrow> (Inr (df # dfs), fs)))"

definition rotate_merge_files :: "db \<Rightarrow> fsys \<Rightarrow> data_file list res \<times> db \<times> fsys" where
  "rotate_merge_files db fs =
     (let older_ids = map fst (db_older_files db) in
      bind_res
        (case db_active_file db of
           None \<Rightarrow> (Inr older_ids, db, fs)
         | Some df \<Rightarrow>
             bind_res
               (set_active_data_file
                  (db\<lparr>db_older_files := AList.update (df_file_id df) df (db_older_files db),
                      db_active_file := None\<rparr>) fs)
               (\<lambda>_ (db, fs). (Inr (older_ids @ [df_file_id df]), db, fs)))
        (\<lambda>merge_file_ids (db, fs).
           case open_merge_files (opt_dir_path (db_options db)) (sort merge_file_ids) fs of
             (r, fs) \<Rightarrow> (r, db, fs)))"

text \<open>The map from keys to the positions of their valid records, a copy of the index.\<close>

definition valid_records :: "index \<Rightarrow> bytes \<Rightarrow> log_record_pos option" where
  "valid_records i =
     map_of (List.map_filter (\<lambda>key. map_option (Pair key) (idx_get key i)) (idx_list_keys i))"

text \<open>What the merge writes to: the database of the merge and its hint file.\<close>

record merge_out =
  mo_db :: db
  mo_hint :: data_file

text \<open>One record that was read: copied when it is the one the index points to.\<close>

definition merge_record ::
    "(bytes \<Rightarrow> log_record_pos option) \<Rightarrow> u32 \<Rightarrow> u64 \<Rightarrow> log_record \<Rightarrow> merge_out \<Rightarrow> fsys
      \<Rightarrow> unit res \<times> merge_out \<times> fsys" where
  "merge_record valid fid offset log_record mo fs =
     (let (real_key, seq_no) = parse_log_record_key (lr_key log_record) in
      case valid real_key of
        None \<Rightarrow> (Inr (), mo, fs)
      | Some pos \<Rightarrow>
          if pos_fid pos = fid \<and> pos_offset pos = offset \<and> lr_type log_record \<noteq> DELETED
          then
            (let log_record = log_record\<lparr>lr_key := log_record_key_with_seq real_key NON_TRANSACTION_SEQ_NO\<rparr>
             in case append_log_record_internal log_record (mo_db mo) fs of
                  (Inl e, d, fs) \<Rightarrow> (Inl e, mo\<lparr>mo_db := d\<rparr>, fs)
                | (Inr new_pos, d, fs) \<Rightarrow>
                    (case write_hint_record (mo_hint mo) real_key new_pos fs of
                       (r, h, fs) \<Rightarrow> (r, mo\<lparr>mo_db := d, mo_hint := h\<rparr>, fs)))
          else (Inr (), mo, fs))"

text \<open>The loop over one file: after an exception it goes on at the next byte.\<close>

fun merge_file ::
    "nat \<Rightarrow> (bytes \<Rightarrow> log_record_pos option) \<Rightarrow> data_file \<Rightarrow> u64 \<Rightarrow> merge_out \<Rightarrow> fsys
      \<Rightarrow> unit res \<times> merge_out \<times> fsys" where
  "merge_file 0 valid data_file offset mo fs = (Inl OutOfFuel, mo, fs)"
| "merge_file (Suc n) valid data_file offset mo fs =
     (let (r, mo, fs) =
            (case read_log_record data_file offset fs of
               Inl e \<Rightarrow> (Inl e, mo, fs)
             | Inr rr \<Rightarrow>
                 (case merge_record valid (df_file_id data_file) offset (rr_record rr) mo fs of
                    (Inl e, mo, fs) \<Rightarrow> (Inl e, mo, fs)
                  | (Inr _, mo, fs) \<Rightarrow> (Inr (rr_size rr), mo, fs)))
      in case r of
           Inr sz \<Rightarrow> merge_file n valid data_file (offset + of_nat sz) mo fs
         | Inl e \<Rightarrow>
             if e = ReadDataFileEOFError then (Inr (), mo, fs)
             else if \<not> catchable e then (Inl e, mo, fs)
             else merge_file n valid data_file (offset + 1) mo fs)"

fun merge_loop ::
    "(bytes \<Rightarrow> log_record_pos option) \<Rightarrow> data_file list \<Rightarrow> merge_out \<Rightarrow> fsys
      \<Rightarrow> unit res \<times> merge_out \<times> fsys" where
  "merge_loop valid [] mo fs = (Inr (), mo, fs)"
| "merge_loop valid (df # dfs) mo fs =
     (case merge_file (file_fuel df fs) valid df 0 mo fs of
        (Inl e, mo, fs) \<Rightarrow> (Inl e, mo, fs)
      | (Inr _, mo, fs) \<Rightarrow> merge_loop valid dfs mo fs)"

text \<open>The mark that the merge is complete.\<close>

definition merge_finished_record :: "data_file list \<Rightarrow> log_record" where
  "merge_finished_record merge_files =
     (let non_merge_file_id = (if merge_files = [] then 0 else df_file_id (last merge_files) + 1)
      in \<lparr>lr_key = string_to_bytes MERGE_FINISHED_KEY,
          lr_value = string_to_bytes (show_nat (unat non_merge_file_id)), lr_type = NORMAL\<rparr>)"

definition write_merge_finished :: "string \<Rightarrow> data_file list \<Rightarrow> fsys \<Rightarrow> unit res \<times> fsys" where
  "write_merge_finished merge_path merge_files fs =
     (case open_merge_finished_file merge_path fs of
        (Inl e, fs) \<Rightarrow> (Inl e, fs)
      | (Inr merge_finished_file, fs) \<Rightarrow>
          (case DataFile_write merge_finished_file
                  (fst (LogRecord_encode (merge_finished_record merge_files))) fs of
             (Inl e, _, fs) \<Rightarrow> (Inl e, fs)
           | (Inr _, _, fs) \<Rightarrow> (Inr (), fs)))"

text \<open>The old data files are removed; \<open>std::remove\<close> of a file that exists succeeds.\<close>

definition remove_data_files :: "string \<Rightarrow> u32 list \<Rightarrow> fsys \<Rightarrow> fsys" where
  "remove_data_files dir fids fs =
     fold (\<lambda>fid fs. let p = get_data_file_name dir fid in if file_exists p fs then fs_remove p fs else fs)
       fids fs"

text \<open>The files of the merge are copied until, after the first one found, a number is missing.\<close>

fun copy_merged :: "string \<Rightarrow> string \<Rightarrow> bool \<Rightarrow> nat list \<Rightarrow> fsys \<Rightarrow> unit res \<times> fsys" where
  "copy_merged merge_path dir found [] fs = (Inr (), fs)"
| "copy_merged merge_path dir found (fid # fids) fs =
     (let merge_file_path = get_data_file_name merge_path (of_nat fid) in
      if file_exists merge_file_path fs
      then (case copy_file merge_file_path (get_data_file_name dir (of_nat fid)) fs of
              (Inl e, fs) \<Rightarrow> (Inl e, fs)
            | (Inr _, fs) \<Rightarrow> copy_merged merge_path dir True fids fs)
      else if found then (Inr (), fs)
      else copy_merged merge_path dir found fids fs)"

definition copy_if_exists :: "string \<Rightarrow> string \<Rightarrow> fsys \<Rightarrow> unit res \<times> fsys" where
  "copy_if_exists src dst fs = (if file_exists src fs then copy_file src dst fs else (Inr (), fs))"

text \<open>
  The index is built anew from the hint file and the data files. \<open>coins n\<close> seeds the \<open>n\<close>-th index
  that the merge creates.
\<close>

definition rebuild_index :: "(nat \<Rightarrow> nat \<Rightarrow> bool) \<Rightarrow> u64 \<Rightarrow> db \<Rightarrow> fsys \<Rightarrow> unit res \<times> db \<times> fsys" where
  "rebuild_index coins current_seq db fs =
     (let (i, fs) = idx_close (db_index db) fs; db = db\<lparr>db_index := i\<rparr> in
      bind_res
        (case create_indexer (coins 2) (opt_index_type (db_options db)) (opt_dir_path (db_options db)) fs of
           (Inl e, fs) \<Rightarrow> (Inl e, db, fs)
         | (Inr i, fs) \<Rightarrow> (Inr (), db\<lparr>db_index := i\<rparr>, fs))
        (\<lambda>_ (db, fs). bind_res (load_index_from_hint_file db fs)
        (\<lambda>_ (db, fs). bind_res (load_index_from_data_files (coins 3) db fs)
        (\<lambda>_ (db, fs). (Inr (), db\<lparr>db_seq_no := current_seq\<rparr>, fs)))))"

text \<open>
  The files of the merge take the place of the old ones. An exception of the rebuilding is swallowed.
\<close>

definition take_over :: "(nat \<Rightarrow> nat \<Rightarrow> bool) \<Rightarrow> string \<Rightarrow> db \<Rightarrow> fsys \<Rightarrow> unit res \<times> db \<times> fsys" where
  "take_over coins merge_path db fs =
     (let current_seq = db_seq_no db;
          dir = opt_dir_path (db_options db);
          db = db\<lparr>db_older_files := [], db_active_file := None\<rparr>;
          fs = remove_data_files dir (db_file_ids db) fs
      in bind_res (case copy_merged merge_path dir False [0..<10000] fs of (r, fs) \<Rightarrow> (r, db, fs))
      (\<lambda>_ (db, fs). bind_res
         (case copy_if_exists (merge_path @ ''/'' @ HINT_FILE_NAME) (dir @ ''/'' @ HINT_FILE_NAME) fs of
            (r, fs) \<Rightarrow> (r, db, fs))
      (\<lambda>_ (db, fs). bind_res
         (case copy_if_exists (merge_path @ ''/'' @ MERGE_FINISHED_FILE_NAME)
                (dir @ ''/'' @ MERGE_FINISHED_FILE_NAME) fs of (r, fs) \<Rightarrow> (r, db, fs))
      (\<lambda>_ (db, fs). bind_res (load_data_files (db\<lparr>db_reclaim_size := 0, db_file_ids := []\<rparr>) fs)
      (\<lambda>_ (db, fs).
         case rebuild_index coins current_seq db fs of
           (r, db, fs) \<Rightarrow>
             (case r of
                Inl e \<Rightarrow> if catchable e
                         then (Inr (), db\<lparr>db_reclaim_size := 0\<rparr>, remove_directory merge_path fs)
                         else (Inl e, db, fs)
              | Inr _ \<Rightarrow> (Inr (), db\<lparr>db_reclaim_size := 0\<rparr>, remove_directory merge_path fs)))))))"

text \<open>From the opening of the hint file on; the database of the merge is returned for its destructor.\<close>

definition merge_with ::
    "(nat \<Rightarrow> nat \<Rightarrow> bool) \<Rightarrow> string \<Rightarrow> data_file list \<Rightarrow> db \<Rightarrow> db \<Rightarrow> fsys \<Rightarrow> unit res \<times> db \<times> db \<times> fsys" where
  "merge_with coins merge_path merge_files merge_db db fs =
     (case open_hint_file merge_path fs of
        (Inl e, fs) \<Rightarrow> (Inl e, merge_db, db, fs)
      | (Inr hint_file, fs) \<Rightarrow>
          (case merge_loop (valid_records (db_index db)) merge_files \<lparr>mo_db = merge_db, mo_hint = hint_file\<rparr> fs of
             (Inl e, mo, fs) \<Rightarrow> (Inl e, mo_db mo, db, fs)
           | (Inr _, mo, fs) \<Rightarrow>
               (case write_merge_finished merge_path merge_files fs of
                  (Inl e, fs) \<Rightarrow> (Inl e, mo_db mo, db, fs)
                | (Inr _, fs) \<Rightarrow>
                    (case DB_close (mo_db mo) fs of
                       (Inl e, merge_db, fs) \<Rightarrow> (Inl e, merge_db, db, fs)
                     | (Inr _, merge_db, fs) \<Rightarrow>
                         (case take_over coins merge_path db fs of (r, db, fs) \<Rightarrow> (r, merge_db, db, fs))))))"

definition merge_options :: "string \<Rightarrow> options \<Rightarrow> options" where
  "merge_options merge_path opts = opts\<lparr>opt_dir_path := merge_path, opt_sync_writes := False\<rparr>"

text \<open>The \<open>try\<close> block; at its end the database of the merge is destroyed, which closes it (again).\<close>

definition merge_body :: "(nat \<Rightarrow> nat \<Rightarrow> bool) \<Rightarrow> db \<Rightarrow> fsys \<Rightarrow> unit res \<times> db \<times> fsys" where
  "merge_body coins db fs =
     (let merge_path = get_merge_path db;
          fs = (if directory_exists merge_path fs then remove_directory merge_path fs else fs);
          fs = create_directory merge_path fs
      in bind_res (rotate_merge_files db fs)
      (\<lambda>merge_files (db, fs).
         case DB_open coins (merge_options merge_path (db_options db)) fs of
           (Inl e, fs) \<Rightarrow> (Inl e, db, fs)
         | (Inr merge_db, fs) \<Rightarrow>
             (case merge_with coins merge_path merge_files merge_db db fs of
                (r, merge_db, db, fs) \<Rightarrow>
                  if (case r of Inl e \<Rightarrow> \<not> catchable e | Inr _ \<Rightarrow> False) then (r, db, fs)
                  else (case DB_close merge_db fs of
                          (Inl e, _, fs) \<Rightarrow> (Inl (if catchable e then Terminated else e), db, fs)
                        | (Inr _, _, fs) \<Rightarrow> (r, db, fs)))))"

text \<open>\<open>available_size\<close> is the answer of \<open>statvfs\<close>.\<close>

definition DB_merge :: "(nat \<Rightarrow> nat \<Rightarrow> bool) \<Rightarrow> u64 \<Rightarrow> db \<Rightarrow> fsys \<Rightarrow> unit res \<times> db \<times> fsys" where
  "DB_merge coins available_size db fs =
     (if (case db_active_file db of None \<Rightarrow> True | Some df \<Rightarrow> get_write_off df = 0) \<and> db_older_files db = []
      then (Inr (), db, fs)
      else if db_is_merging db then (Inl MergeInProgressError, db, fs)
      else
        (let db = db\<lparr>db_is_merging := True\<rparr> in
         if \<not> should_merge db fs then (Inl MergeRatioUnreachedError, db\<lparr>db_is_merging := False\<rparr>, fs)
         else if available_size < 100 * 1024 * 1024
         then (Inl NoEnoughSpaceForMergeError, db\<lparr>db_is_merging := False\<rparr>, fs)
         else case merge_body coins db fs of
                (r, db, fs) \<Rightarrow> (r, db\<lparr>db_is_merging := False\<rparr>, fs)))"

definition get_non_merge_file_id :: "string \<Rightarrow> fsys \<Rightarrow> u32 res \<times> fsys" where
  "get_non_merge_file_id dir_path fs =
     (case open_merge_finished_file dir_path fs of
        (Inl e, fs) \<Rightarrow> (Inl e, fs)
      | (Inr merge_finished_file, fs) \<Rightarrow>
          (case read_log_record merge_finished_file 0 fs of
             Inl e \<Rightarrow> (Inl e, fs)
           | Inr rr \<Rightarrow>
               (case stoull (bytes_to_string (lr_value (rr_record rr))) of
                  Inl e \<Rightarrow> (Inl (StdException ''stoul''), fs)
                | Inr n \<Rightarrow> (Inr (ucast n), fs))))"

end
