(* ===== verification/Merge_Correct.thy ===== *)
theory Merge_Correct
  imports Db_Merge
begin

text \<open>
  A merge keeps the contents. The records that are copied are those the index points to, under
  their plain keys (\<open>committed_merged\<close>); the loop over the old file copies exactly them and writes a
  hint for each (\<open>merge_file_copies\<close>); and what is loaded from the files that take over is the
  replay of the copies.
\<close>

section \<open>The merge directory\<close>

lemma find_last_slash_split:
  "find_last_slash s = Some n \<Longrightarrow> take n s @ CHR ''/'' # drop (n + 1) s = s"
  by (induction s arbitrary: n) (auto split: option.splits if_splits)

lemma get_merge_path_eq: "get_merge_path db = opt_dir_path (db_options db) @ MERGE_DIR_SUFFIX"
proof (cases "find_last_slash (opt_dir_path (db_options db))")
  case (Some n)
  let ?d = "opt_dir_path (db_options db)"
  have "(take n ?d @ CHR ''/'' # drop (n + 1) ?d) @ MERGE_DIR_SUFFIX = ?d @ MERGE_DIR_SUFFIX"
    by (simp only: find_last_slash_split [OF Some])
  then show ?thesis using Some by (simp add: get_merge_path_def Let_def)
qed (simp add: get_merge_path_def)

definition under :: "string \<Rightarrow> string \<Rightarrow> bool" where
  "under d q \<longleftrightarrow> (\<exists>s. q = d @ ''/'' @ s)"

lemma under_data_file [simp]: "under d (get_data_file_name d fid)"
  by (simp add: under_def get_data_file_name_def)

lemma under_name [simp]: "under d (d @ CHR ''/'' # s)"
  by (simp add: under_def)

lemma under_merge_dir: "under (dir @ MERGE_DIR_SUFFIX) q \<Longrightarrow> \<not> under dir q"
  by (auto simp: under_def MERGE_DIR_SUFFIX_def)

text \<open>A change of the file system that keeps what is not in a directory.\<close>

definition fs_within :: "string \<Rightarrow> fsys \<Rightarrow> fsys \<Rightarrow> bool" where
  "fs_within d fs fs' \<longleftrightarrow> fs_page_size fs' = fs_page_size fs \<and> (\<forall>q. \<not> under d q \<longrightarrow> fs_get fs' q = fs_get fs q)"

lemma fs_within_refl [simp]: "fs_within d fs fs"
  by (simp add: fs_within_def)

lemma fs_within_trans: "fs_within d a b \<Longrightarrow> fs_within d b c \<Longrightarrow> fs_within d a c"
  by (simp add: fs_within_def)

lemma fs_within_frame: "under d p \<Longrightarrow> fs_frame p fs fs' \<Longrightarrow> fs_within d fs fs'"
  by (auto simp: fs_within_def fs_frame_def)

lemma remove_files_within:
  "fs_within d fs (fold (\<lambda>e fs. fs_remove (d @ CHR ''/'' # e) fs) es fs)
   \<and> fs_dirs (fold (\<lambda>e fs. fs_remove (d @ CHR ''/'' # e) fs) es fs) = fs_dirs fs
   \<and> fs_locks (fold (\<lambda>e fs. fs_remove (d @ CHR ''/'' # e) fs) es fs) = fs_locks fs"
proof (induction es arbitrary: fs)
  case (Cons e es)
  have "fs_within d fs (fs_remove (d @ CHR ''/'' # e) fs)" by (auto simp: fs_within_def)
  then show ?case using Cons [of "fs_remove (d @ CHR ''/'' # e) fs"] fs_within_trans by simp
qed simp

text \<open>Removing a directory without subdirectories.\<close>

lemma remove_directory_within:
  assumes flat: "\<And>s. \<not> directory_exists (d @ ''/'' @ s) fs" and d: "directory_exists d fs"
  shows "fs_within d fs (remove_directory d fs)"
    "fs_dirs (remove_directory d fs) = removeAll d (fs_dirs fs)" "fs_locks (remove_directory d fs) = fs_locks fs"
proof -
  obtain n where n: "length (fs_dirs fs) = Suc n" using d by (cases "fs_dirs fs") (auto simp: directory_exists_def)
  let ?fs1 = "fold (\<lambda>e fs. fs_remove (d @ CHR ''/'' # e) fs) (file_entries d fs) fs"
  note w = remove_files_within [of d fs "file_entries d fs"]
  have "e \<notin> set (dir_entries d ?fs1)" for e
    using dir_entries_under [of e d ?fs1] w flat by (auto simp: directory_exists_def)
  then have "dir_entries d ?fs1 = []" by (cases "dir_entries d ?fs1") auto
  then have r: "remove_directory d fs = ?fs1\<lparr>fs_dirs := removeAll d (fs_dirs ?fs1)\<rparr>"
    using d by (simp add: remove_directory_def n Let_def)
  show "fs_within d fs (remove_directory d fs)"
    "fs_dirs (remove_directory d fs) = removeAll d (fs_dirs fs)" "fs_locks (remove_directory d fs) = fs_locks fs"
    using w by (simp_all add: r fs_within_def)
qed

section \<open>The records that are copied\<close>

definition plain_record :: "log_record \<Rightarrow> log_record" where
  "plain_record r = r\<lparr>lr_key := key_of r\<rparr>"

text \<open>A record is live when the index has its position under its key.\<close>

definition live :: "(bytes \<Rightarrow> log_record_pos option) \<Rightarrow> log_record_pos \<times> log_record \<Rightarrow> bool" where
  "live valid e \<longleftrightarrow>
     (case valid (key_of (snd e)) of
        None \<Rightarrow> False
      | Some p \<Rightarrow> pos_fid p = pos_fid (fst e) \<and> pos_offset p = pos_offset (fst e))
     \<and> lr_type (snd e) \<noteq> DELETED"

definition merged :: "(bytes \<Rightarrow> log_record_pos option) \<Rightarrow> (log_record_pos \<times> log_record) list \<Rightarrow> log_record list" where
  "merged valid es = map (\<lambda>e. plain_record (snd e)) (filter (live valid) es)"

lemma merged_simps [simp]:
  "merged valid [] = []"
  "merged valid (e # es) = (if live valid e then plain_record (snd e) # merged valid es else merged valid es)"
  by (simp_all add: merged_def)

lemma valid_records_abs: "idx_ok i \<Longrightarrow> valid_records i = idx_abs i"
proof
  fix k assume ok: "idx_ok i"
  let ?f = "\<lambda>key. map_option (Pair key) (idx_get key i)"
  have "map_of (List.map_filter ?f ks) k = (if k \<in> set ks then idx_get k i else None)" for ks
    by (induction ks) (auto split: option.split)
  then show "valid_records i k = idx_abs i k"
    using ix.keys_set [OF ok] ix.get_abs [OF ok] by (auto simp: valid_records_def dom_def)
qed

lemma layout_offset_ge:
  assumes "(p, r) \<in> set (layout fid off rs)" "off + length (encs rs) < 2 ^ 63"
  shows "pos_fid p = fid \<and> off \<le> unat (pos_offset p) \<and> unat (pos_offset p) < off + length (encs rs)"
  using assms
proof (induction rs arbitrary: off)
  case (Cons r' rs)
  have pos: "0 < length (enc r')" by (simp only: length_greater_0_conv enc_not_Nil not_False_eq_True)
  show ?case
  proof (cases "(p, r) \<in> set (layout fid (off + length (enc r')) rs)")
    case True
    then show ?thesis using Cons.IH [OF True] Cons.prems(2) by simp
  next
    case False
    have "unat (of_nat off :: u64) = off" using Cons.prems(2) by (intro unat_of_nat_u64) simp
    then show ?thesis using False Cons.prems(1) pos by auto
  qed
qed simp

text \<open>An offset belongs to one record.\<close>

lemma layout_unique:
  assumes "(p, r) \<in> set (layout fid off rs)" "(p', r') \<in> set (layout fid off rs)"
    "pos_offset p = pos_offset p'" "off + length (encs rs) < 2 ^ 63"
  shows "(p, r) = (p', r')"
  using assms
proof (induction rs arbitrary: off)
  case (Cons r0 rs)
  let ?p0 = "\<lparr>pos_fid = fid, pos_offset = of_nat off, pos_size = of_nat (length (enc r0))\<rparr>"
  let ?off = "off + length (enc r0)"
  have pos: "0 < length (enc r0)" by (simp only: length_greater_0_conv enc_not_Nil not_False_eq_True)
  have off: "unat (of_nat off :: u64) = off" using Cons.prems(4) by (intro unat_of_nat_u64) simp
  have later: "unat (pos_offset q) \<noteq> off" if "(q, x) \<in> set (layout fid ?off rs)" for q x
  proof -
    have "off + length (enc r0) \<le> unat (pos_offset q)"
      using layout_offset_ge [OF that] Cons.prems(4) by simp
    then show ?thesis using pos by linarith
  qed
  show ?case
  proof (cases "(p, r) = (?p0, r0)")
    case True
    then have "\<not> (p', r') \<in> set (layout fid ?off rs)" using later [of p' r'] Cons.prems(3) off by auto
    then show ?thesis using True Cons.prems(2) by simp
  next
    case False
    then have p: "(p, r) \<in> set (layout fid ?off rs)" using Cons.prems(1) by auto
    then have "(p', r') \<in> set (layout fid ?off rs)" using later [OF p] Cons.prems(2,3) off by auto
    from Cons.IH [OF p this Cons.prems(3)] Cons.prems(4) show ?thesis by simp
  qed
qed simp

lemma distinct_layout:
  assumes "off + length (encs rs) < 2 ^ 63"
  shows "distinct (layout fid off rs)"
  using assms
proof (induction rs arbitrary: off)
  case (Cons r rs)
  have pos: "0 < length (enc r)" by (simp only: length_greater_0_conv enc_not_Nil not_False_eq_True)
  have off: "unat (of_nat off :: u64) = off" using Cons.prems by (intro unat_of_nat_u64) simp
  have "(p, x) \<notin> set (layout fid (off + length (enc r)) rs)" if p: "unat (pos_offset p) = off" for p x
  proof
    assume "(p, x) \<in> set (layout fid (off + length (enc r)) rs)"
    from layout_offset_ge [OF this] Cons.prems have "off + length (enc r) \<le> unat (pos_offset p)" by simp
    then show False using pos p by linarith
  qed
  then show ?case using Cons off by simp
qed simp

text \<open>A log of records under plain keys, none of them a removal: the last of a key counts.\<close>

lemma committed_puts:
  assumes "\<And>r. r \<in> set rs \<Longrightarrow> key_of r = lr_key r \<and> seq_of r = NON_TRANSACTION_SEQ_NO \<and> lr_type r \<noteq> DELETED"
  shows "committed rs = map_of (rev (map (\<lambda>r. (lr_key r, lr_value r)) rs))"
  using assms
proof (induction rs rule: rev_induct)
  case Nil
  show ?case by (simp add: committed_Nil)
next
  case (snoc r rs)
  then have "committed rs = map_of (rev (map (\<lambda>r. (lr_key r, lr_value r)) rs))"
    "key_of r = lr_key r \<and> seq_of r = NON_TRANSACTION_SEQ_NO \<and> lr_type r \<noteq> DELETED" by simp_all
  then show ?case using committed_snoc [of r "lr_key r" rs] by simp
qed

lemma committed_merged:
  fixes rs :: "log_record list" and fid :: u32
  defines "es \<equiv> layout fid 0 rs"
  assumes len: "length (encs rs) < 2 ^ 63"
    and plain: "\<And>k. fst (replay es) k \<noteq> None \<Longrightarrow> plain_key k"
  shows "committed (merged (map_option fst \<circ> fst (replay es)) es) = committed rs"
    and "\<And>r. r \<in> set (merged (map_option fst \<circ> fst (replay es)) es) \<Longrightarrow> plain_key (lr_key r)"
    and "keys_ok (merged (map_option fst \<circ> fst (replay es)) es)"
    and "distinct (map lr_key (merged (map_option fst \<circ> fst (replay es)) es))"
    and "\<And>r. r \<in> set (merged (map_option fst \<circ> fst (replay es)) es) \<Longrightarrow> committed rs (lr_key r) = Some (lr_value r)"
proof -
  define m where "m = fst (replay es)"
  let ?ms = "merged (map_option fst \<circ> fst (replay es)) es"
  have ok: "entries_ok (set es) m" using replay_ok [of es] by (simp add: m_def)
  have live: "live (map_option fst \<circ> m) e \<longleftrightarrow> m (key_of (snd e)) = Some e" if "e \<in> set es" for e
  proof -
    obtain p r where e: "e = (p, r)" by (cases e)
    show ?thesis
    proof (cases "m (key_of r)")
      case (Some x)
      obtain p' r' where x: "x = (p', r')" by (cases x)
      then have in': "(p', r') \<in> set es" "lr_type r' \<noteq> DELETED" using ok Some by (auto simp: entries_ok_def)
      have "(p', r') = (p, r)" if "pos_offset p' = pos_offset p"
        using layout_unique [of p' r' fid 0 rs p r] in'(1) \<open>e \<in> set es\<close> that len by (simp add: es_def e)
      then show ?thesis using Some x in'(2) by (auto simp: live_def e)
    qed (simp add: live_def e)
  qed
  have plainr: "key_of (plain_record r) = lr_key (plain_record r) \<and> lr_key (plain_record r) = key_of r
    \<and> seq_of (plain_record r) = NON_TRANSACTION_SEQ_NO \<and> plain_key (key_of r)"
    if "m (key_of r) \<noteq> None" for r
    using plain_key_parse [OF plain [OF that [unfolded m_def]]] plain [OF that [unfolded m_def]]
    by (simp add: plain_record_def key_of_def seq_of_def)
  have mem: "x \<in> set ?ms \<longleftrightarrow> (\<exists>p r. m (key_of r) = Some (p, r) \<and> x = plain_record r)" for x
  proof -
    have "x \<in> set ?ms \<longleftrightarrow> (\<exists>e \<in> set es. m (key_of (snd e)) = Some e \<and> x = plain_record (snd e))"
      using live by (auto simp: merged_def m_def)
    also have "\<dots> \<longleftrightarrow> (\<exists>p r. m (key_of r) = Some (p, r) \<and> x = plain_record r)"
      using ok by (force simp: entries_ok_def)
    finally show ?thesis .
  qed
  have recs: "key_of x = lr_key x \<and> seq_of x = NON_TRANSACTION_SEQ_NO \<and> lr_type x \<noteq> DELETED \<and> plain_key (lr_key x)"
    if xm: "x \<in> set ?ms" for x
  proof -
    obtain p r where x: "m (key_of r) = Some (p, r)" "x = plain_record r" using iffD1 [OF mem xm] by blast
    have "m (key_of r) \<noteq> None" using x(1) by simp
    note pr = plainr [OF this]
    have "lr_type r \<noteq> DELETED" using ok x(1) unfolding entries_ok_def by blast
    then have "lr_type (plain_record r) \<noteq> DELETED" by (simp add: plain_record_def)
    then show ?thesis using pr unfolding x(2) by simp
  qed
  show "plain_key (lr_key x)" if "x \<in> set ?ms" for x using recs [OF that] by blast
  have "key_of x \<noteq> []" if "x \<in> set ?ms" for x using recs [OF that] by (metis plain_key_def)
  then show "keys_ok ?ms" by (simp add: keys_ok_def)
  let ?es = "filter (live (map_option fst \<circ> fst (replay es))) es"
  have "e1 = e2" if "e1 \<in> set ?es" "e2 \<in> set ?es" "lr_key (plain_record (snd e1)) = lr_key (plain_record (snd e2))" for e1 e2
  proof -
    have e: "e1 \<in> set es" "live (map_option fst \<circ> m) e1" "e2 \<in> set es" "live (map_option fst \<circ> m) e2"
      using that(1,2) by (simp_all add: m_def)
    have "key_of (snd e1) = key_of (snd e2)" using that(3) by (simp add: plain_record_def)
    then have "Some e1 = Some e2"
      using iffD1 [OF live [OF e(1)] e(2)] iffD1 [OF live [OF e(3)] e(4)] by (simp only:)
    then show ?thesis by simp
  qed
  then have "inj_on (lr_key \<circ> (\<lambda>e. plain_record (snd e))) (set ?es)"
    by (intro inj_onI) (simp only: comp_apply)
  moreover have "distinct ?es" using distinct_layout [of 0 rs fid] len by (simp add: es_def)
  ultimately show dist: "distinct (map lr_key ?ms)" by (simp add: merged_def distinct_map)
  have "committed ?ms k = committed rs k" for k
  proof -
    have kv: "(k, v) \<in> (\<lambda>r. (lr_key r, lr_value r)) ` set ?ms \<longleftrightarrow> (\<exists>p r. m k = Some (p, r) \<and> v = lr_value r)" for v
    proof
      assume "(k, v) \<in> (\<lambda>r. (lr_key r, lr_value r)) ` set ?ms"
      then obtain x where x: "x \<in> set ?ms" "k = lr_key x" "v = lr_value x" by blast
      then obtain p r where "m (key_of r) = Some (p, r)" "x = plain_record r" using iffD1 [OF mem] by blast
      then show "\<exists>p r. m k = Some (p, r) \<and> v = lr_value r" using x(2,3) by (simp add: plain_record_def)
    next
      assume "\<exists>p r. m k = Some (p, r) \<and> v = lr_value r"
      then obtain p r where mr: "m k = Some (p, r)" "v = lr_value r" by blast
      then have "k = key_of r" using ok unfolding entries_ok_def by blast
      then have "plain_record r \<in> set ?ms" using mr(1) iffD2 [OF mem] by blast
      moreover have "lr_key (plain_record r) = k" "lr_value (plain_record r) = v"
        using mr(2) \<open>k = key_of r\<close> by (simp_all add: plain_record_def)
      ultimately show "(k, v) \<in> (\<lambda>r. (lr_key r, lr_value r)) ` set ?ms" by force
    qed
    let ?kvs = "rev (map (\<lambda>r. (lr_key r, lr_value r)) ?ms)"
    have kv': "(k, v) \<in> set ?kvs \<longleftrightarrow> (\<exists>p r. m k = Some (p, r) \<and> v = lr_value r)" for v
      unfolding set_rev set_map by (rule kv)
    have "committed ?ms = map_of ?kvs" by (rule committed_puts, drule recs) blast
    then have "committed ?ms k = map_of ?kvs k" by (rule fun_cong)
    also have "map_of ?kvs k = map_option (lr_value \<circ> snd) (m k)"
    proof (cases "map_of ?kvs k")
      case None
      have no: "(k, v) \<notin> set ?kvs" for v
      proof
        assume "(k, v) \<in> set ?kvs"
        from weak_map_of_SomeI [OF this] None show False by simp
      qed
      have "m k = None"
      proof (rule ccontr)
        assume "m k \<noteq> None"
        then obtain p r where "m k = Some (p, r)" by auto
        then have "(k, lr_value r) \<in> set ?kvs" by (intro iffD2 [OF kv']) blast
        with no show False by blast
      qed
      then show ?thesis using None by simp
    next
      case (Some v)
      from iffD1 [OF kv' map_of_SomeD [OF this]] Some show ?thesis by auto
    qed
    also have "\<dots> = committed rs k"
      using committed_replay [of es k] by (simp add: m_def es_def)
    finally show ?thesis .
  qed
  then show same: "committed ?ms = committed rs" by blast
  show "committed rs (lr_key r) = Some (lr_value r)" if r: "r \<in> set ?ms" for r
  proof -
    let ?kvs = "rev (map (\<lambda>r. (lr_key r, lr_value r)) ?ms)"
    have "distinct (map fst ?kvs)" using dist by (simp add: rev_map [symmetric] comp_def)
    moreover have "(lr_key r, lr_value r) \<in> set ?kvs" using r by force
    moreover have "committed ?ms = map_of ?kvs" by (rule committed_puts, drule recs) blast
    ultimately show ?thesis using same by simp
  qed
qed

section \<open>Copying a file\<close>

lemma length_encode_varint_mono: "a \<le> b \<Longrightarrow> length (encode_varint a) \<le> length (encode_varint b)"
proof (induction a arbitrary: b rule: encode_varint.induct)
  case (1 a)
  show ?case
  proof (cases "0x80 \<le> a")
    case True
    then have "0x80 \<le> b" using "1.prems" by simp
    moreover have "drop_bit 7 a \<le> drop_bit 7 b"
      using "1.prems" by (simp add: word_le_nat_alt unat_drop_bit_7 div_le_mono)
    ultimately show ?thesis
      using "1.IH" [OF True] True by (subst (1 2) encode_varint.simps) simp
  next
    case False
    then have "length (encode_varint a) = 1" by (subst encode_varint.simps) simp
    then show ?thesis using length_encode_varint_pos [of b] by linarith
  qed
qed

lemma key_of_length: "length (key_of r) \<le> length (lr_key r)"
  by (simp add: key_of_def parse_log_record_key_def Let_def)

lemma plain_record_length:
  assumes "readable r"
  shows "length (enc (plain_record r)) \<le> length (enc r)"
proof -
  have k: "length (key_of r) \<le> length (lr_key r)" "length (lr_key r) < 2 ^ 64"
    using assms key_of_length [of r] by (simp_all add: readable_def MAX_RECORD_SIZE_def)
  then have "(of_nat (length (key_of r)) :: u64) \<le> of_nat (length (lr_key r))"
    by (simp add: word_le_nat_alt unat_of_nat_u64)
  from length_encode_varint_mono [OF this] k(1) show ?thesis
    by (simp add: length_LogRecord_encode header_length_def plain_record_def)
qed

lemma plain_record_readable: "readable r \<Longrightarrow> key_of r \<noteq> [] \<Longrightarrow> readable (plain_record r)"
  using key_of_length [of r] by (simp add: readable_def plain_record_def)

text \<open>The files of a database that holds a log, when other files change.\<close>

lemma files_fs:
  assumes same: "\<And>fid. fs_get fs' (data_name db fid) = fs_get fs (data_name db fid)" "fs_page_size fs' = fs_page_size fs"
  shows "files_ok db fs \<Longrightarrow> files_ok db fs'" and "files_hold db fs logs fids \<Longrightarrow> files_hold db fs' logs fids"
proof -
  have io: "io_ok (df_io df) fs' c" if "io_ok (df_io df) fs c" "io_path (df_io df) = data_name db fid" for df c fid
    by (rule io_ok_frame [OF that(1)]) (simp_all add: that(2) same)
  show "files_ok db fs'" if ok: "files_ok db fs"
    unfolding files_ok_def
  proof (intro conjI allI impI)
    fix df assume df: "db_active_file db = Some df"
    then obtain c where "df_ok df fs c" "io_path (df_io df) = data_name db (df_file_id df)"
      using ok unfolding files_ok_def by blast
    then show "\<exists>c. df_ok df fs' c" "io_path (df_io df) = data_name db (df_file_id df)"
      using io by (auto simp: df_ok_def)
  qed (use ok in \<open>auto simp: files_ok_def\<close>)
  show "files_hold db fs' logs fids" if hold: "files_hold db fs logs fids"
    unfolding files_hold_def
  proof (intro conjI ballI)
    fix fid assume "fid \<in> set fids"
    then obtain df c where "find_data_file fid db = Some df" "df_file_id df = fid" "io_path (df_io df) = data_name db fid"
      "io_ok (df_io df) fs c" "holds_log c (logs fid)"
      using hold unfolding files_hold_def by blast
    then show "\<exists>df c. find_data_file fid db = Some df \<and> df_file_id df = fid
        \<and> io_path (df_io df) = data_name db fid \<and> io_ok (df_io df) fs' c \<and> holds_log c (logs fid)"
      using io by blast
  qed (use hold in \<open>auto simp: files_hold_def\<close>)
qed

lemma log_files_fs:
  assumes "log_files db fs logs fids"
    and same: "\<And>fid. fs_get fs' (data_name db fid) = fs_get fs (data_name db fid)" "fs_page_size fs' = fs_page_size fs"
  shows "log_files db fs' logs fids"
  using assms(1) files_fs [OF same] same(1) by (auto simp: log_files_def files_ok_def)

lemma db_log_fs:
  assumes "db_log db fs logs fids"
    and same: "\<And>fid. fs_get fs' (data_name db fid) = fs_get fs (data_name db fid)" "fs_page_size fs' = fs_page_size fs"
  shows "db_log db fs' logs fids"
  using assms(1) files_fs [OF same] by (simp add: db_log_def)

lemma db_log_frame:
  assumes "db_active_file db' = db_active_file db" "db_older_files db' = db_older_files db"
    "db_options db' = db_options db" "db_file_ids db' = db_file_ids db" "db_index db' = db_index db"
  shows "db_log db' fs logs fids = db_log db fs logs fids"
proof -
  have "files_to_process db' = files_to_process db" "\<And>f. find_data_file f db' = find_data_file f db"
    by (rule files_to_process_frame find_data_file_frame; simp add: assms)+
  then show ?thesis
    by (simp only: db_log_def files_hold_def counters_frame(2) [OF assms(1-3)] assms db_holds_def)
qed

text \<open>The hint file: records with the encoding of a position under a key.\<close>

definition hint_ok :: "log_record \<Rightarrow> bool" where
  "hint_ok h \<longleftrightarrow> readable h \<and> (\<exists>pos. lr_value h = LogRecordPos_encode pos)"

definition merge_out_ok :: "merge_out \<Rightarrow> fsys \<Rightarrow> (u32 \<Rightarrow> log_record list) \<Rightarrow> string \<Rightarrow> log_record list \<Rightarrow> bool" where
  "merge_out_ok mo fs logs hp hs \<longleftrightarrow>
     log_files (mo_db mo) fs logs [0]
     \<and> df_io (mo_hint mo) = file_io hp \<and> df_write_off (mo_hint mo) = of_nat (length (encs hs))
     \<and> fs_get fs hp = Some (encs hs) \<and> (\<forall>h \<in> set hs. hint_ok h)
     \<and> (\<forall>fid. hp \<noteq> data_name (mo_db mo) fid)"

text \<open>What a step keeps of the database of the merge, and of the rest of the file system.\<close>

definition merge_kept :: "string \<Rightarrow> merge_out \<Rightarrow> fsys \<Rightarrow> merge_out \<Rightarrow> fsys \<Rightarrow> bool" where
  "merge_kept hp mo fs mo' fs' \<longleftrightarrow>
     db_index (mo_db mo') = db_index (mo_db mo) \<and> db_options (mo_db mo') = db_options (mo_db mo)
     \<and> db_file_lock_fd (mo_db mo') = db_file_lock_fd (mo_db mo)
     \<and> fs_dirs fs' = fs_dirs fs \<and> fs_locks fs' = fs_locks fs \<and> fs_page_size fs' = fs_page_size fs
     \<and> (\<forall>q. q \<noteq> hp \<longrightarrow> q \<noteq> data_name (mo_db mo) 0 \<longrightarrow> fs_get fs' q = fs_get fs q)"

lemma merge_kept_refl [simp]: "merge_kept hp mo fs mo fs"
  by (simp add: merge_kept_def)

lemma merge_kept_trans:
  "merge_kept hp mo fs mo1 fs1 \<Longrightarrow> merge_kept hp mo1 fs1 mo2 fs2 \<Longrightarrow> merge_kept hp mo fs mo2 fs2"
  by (simp add: merge_kept_def)

lemma hint_record_ok:
  fixes pos :: log_record_pos
  assumes "readable (plain_record r)" "key_of r \<noteq> []"
  defines "h \<equiv> \<lparr>lr_key = key_of r, lr_value = LogRecordPos_encode pos, lr_type = NORMAL\<rparr>"
  shows "hint_ok h" "length (enc h) \<le> 64 * length (enc (plain_record r))"
proof -
  have l: "length (LogRecordPos_encode pos) \<le> 30"
    using length_encode_varint_10 [of "ucast (pos_fid pos)"] length_encode_varint_10 [of "pos_offset pos"]
      length_encode_varint_10 [of "ucast (pos_size pos)"]
    unfolding LogRecordPos_encode_def length_append by linarith
  have k: "length (key_of r) \<le> MAX_RECORD_SIZE" using assms(1) by (simp add: readable_def plain_record_def)
  show "hint_ok h"
    using l k assms(2) by (auto simp: hint_ok_def h_def readable_def MAX_RECORD_SIZE_def)
  have "length (enc h) \<le> 55 + length (key_of r)"
    using l length_encode_varint_10 [of "of_nat (length (key_of r))"]
      length_encode_varint_10 [of "of_nat (length (LogRecordPos_encode pos))"]
    unfolding length_LogRecord_encode header_length_def h_def by simp
  moreover have "1 + length (key_of r) \<le> length (enc (plain_record r))"
    by (simp add: length_LogRecord_encode header_length_def plain_record_def)
  ultimately show "length (enc h) \<le> 64 * length (enc (plain_record r))" by linarith
qed

lemma merge_record_dead:
  assumes "\<not> live valid (p, r)" "pos_fid p = fid" "pos_offset p = offset"
  shows "merge_record valid fid offset r mo fs = (Inr (), mo, fs)"
  using assms by (auto simp: merge_record_def live_def key_of_def Let_def split: prod.split option.split)

lemma merge_record_live:
  assumes live: "live valid (p, r)" "pos_fid p = fid" "pos_offset p = offset"
    and out: "merge_out_ok mo fs logs hp hs" and r: "readable r" "key_of r \<noteq> []"
    and room: "room (mo_db mo) fs (length (enc r) + m)"
    and hints: "length (encs hs) + 64 * length (enc r) < 2 ^ 63"
  shows "\<exists>mo' fs' h. merge_record valid fid offset r mo fs = (Inr (), mo', fs')
    \<and> merge_out_ok mo' fs' (log_append 0 (plain_record r) logs) hp (hs @ [h])
    \<and> length (enc h) \<le> 64 * length (enc r) \<and> merge_kept hp mo fs mo' fs' \<and> room (mo_db mo') fs' m"
proof -
  let ?r = "plain_record r" and ?d = "mo_db mo"
  have files: "log_files ?d fs logs [0]" and hp: "hp \<noteq> data_name ?d f" for f
    using out by (simp_all add: merge_out_ok_def)
  have id: "active_id ?d = 0" using files by (auto simp: log_files_def active_id_def)
  have rd: "readable ?r" by (rule plain_record_readable [OF r])
  have len: "length (enc ?r) \<le> length (enc r)" by (rule plain_record_length [OF r(1)])
  have "length (enc r) + m = length (enc ?r) + (length (enc r) - length (enc ?r) + m)" using len by linarith
  then have room1: "room ?d fs (length (enc ?r) + (length (enc r) - length (enc ?r) + m))" using room by metis
  obtain pos d1 fs1 where app: "append_log_record_internal ?r ?d fs = (Inr pos, d1, fs1)"
    "log_files d1 fs1 (log_append 0 ?r logs) [0]"
    "db_index d1 = db_index ?d" "db_options d1 = db_options ?d" "active_id d1 = 0"
    "db_file_lock_fd d1 = db_file_lock_fd ?d"
    "fs1 = fs_put (data_name ?d 0) (encs (logs 0 @ [?r])) fs"
    using log_append_ok [OF files room_fits [OF room1] rd] unfolding id by metis
  have room2: "room d1 fs1 (length (enc r) - length (enc ?r) + m)"
    using room_append [OF files _ app(4) _ _ room1, of fs1] app(2,5,7) by (simp add: id)
  let ?h = "\<lparr>lr_key = key_of r, lr_value = LogRecordPos_encode pos, lr_type = NORMAL\<rparr>"
  note h = hint_record_ok [OF rd r(2), of pos]
  have hint: "df_io (mo_hint mo) = file_io hp" "df_write_off (mo_hint mo) = of_nat (length (encs hs))"
    "fs_get fs hp = Some (encs hs)" "\<forall>h \<in> set hs. hint_ok h"
    using out by (simp_all add: merge_out_ok_def)
  have get1: "fs_get fs1 hp = Some (encs hs)" using hint(3) hp by (simp add: app(7))
  have off: "unat (df_write_off (mo_hint mo)) = length (encs hs)"
    using hints unfolding hint(2) by (intro unat_of_nat_u64) simp
  have page: "0 < fs_page_size fs" using room by (auto simp: room_def df_ok_def io_ok_def)
  have dfok: "df_ok (mo_hint mo) fs1 (encs hs)"
    using get1 page hints off hint(1) by (simp add: df_ok_def file_io_ok app(7))
  define h1 where "h1 = (mo_hint mo)\<lparr>df_write_off := df_write_off (mo_hint mo) + of_nat (length (enc ?h))\<rparr>"
  define fs2 where "fs2 = fs_put hp (encs hs @ enc ?h) fs1"
  have wr: "write_hint_record (mo_hint mo) (key_of r) pos fs1 = (Inr (), h1, fs2)"
    using DataFile_write_std [OF dfok _ off enc_not_Nil] hint(1)
    by (simp add: write_hint_record_def split_beta Let_def h1_def fs2_def) (simp add: file_io_def)
  define mo' where "mo' = mo\<lparr>mo_db := d1, mo_hint := h1\<rparr>"
  have "log_files d1 fs2 (log_append 0 ?r logs) [0]"
    using hp [symmetric] by (intro log_files_fs [OF app(2)]) (simp_all add: fs2_def app(4))
  moreover have "length (encs (hs @ [?h])) < 2 ^ 63" using h(2) hints len by simp
  then have "df_write_off h1 = of_nat (length (encs (hs @ [?h])))"
    by (simp add: h1_def hint(2))
  ultimately have "merge_out_ok mo' fs2 (log_append 0 ?r logs) hp (hs @ [?h])"
    using hint h(1) hp by (simp add: merge_out_ok_def mo'_def h1_def fs2_def app(4))
  moreover have "merge_record valid fid offset r mo fs = (Inr (), mo', fs2)"
    using live app(1) wr
    by (auto simp: merge_record_def live_def key_of_def Let_def mo'_def plain_record_def
        log_record_key_with_seq_def split: prod.split option.splits)
  moreover have "merge_kept hp mo fs mo' fs2"
    using app by (simp add: merge_kept_def mo'_def fs2_def)
  moreover have "room d1 fs2 m"
  proof -
    have l2: "log_files d1 fs2 (log_append 0 ?r logs) [0]" by fact
    have "fs_page_size fs2 = fs_page_size fs1" by (simp add: fs2_def)
    then show ?thesis using room2 unfolding room_log [OF l2] room_log [OF app(2)] by simp
  qed
  ultimately show ?thesis using h(2) len by (intro exI [of _ mo'] exI [of _ fs2] exI [of _ ?h]) (simp add: mo'_def)
qed

lemma room_less: "room db fs n \<Longrightarrow> m \<le> n \<Longrightarrow> room db fs m"
  by (fastforce simp: room_def)

lemma merge_file_copies:
  assumes src: "io_ok (df_io sf) fs c" "length c < 2 ^ 63" "df_file_id sf = fid" "io_path (df_io sf) \<noteq> hp"
      "\<And>f. io_path (df_io sf) \<noteq> data_name (mo_db mo) f"
    and out: "merge_out_ok mo fs logs hp hs" and valid: "\<And>k. valid k \<noteq> None \<Longrightarrow> k \<noteq> []"
    and rs: "\<forall>r \<in> set rs. readable r" and pad: "parse_record pad = Inl ReadDataFileEOFError"
    and c: "drop off c = encs rs @ pad" "off \<le> length c" and n: "length rs < n"
    and room: "room (mo_db mo) fs (length (encs rs))"
    and hints: "length (encs hs) + 64 * length (encs rs) < 2 ^ 63"
  shows "\<exists>mo' fs' hs'. merge_file n valid sf (of_nat off) mo fs = (Inr (), mo', fs')
    \<and> merge_out_ok mo' fs' (log_appends 0 (merged valid (layout fid off rs)) logs) hp hs'
    \<and> merge_kept hp mo fs mo' fs' \<and> length (encs hs') < 2 ^ 63"
  using src(1,4,5) out rs c n room hints
proof (induction rs arbitrary: off n mo fs logs hs)
  case Nil
  have "unat (of_nat off :: u64) = off" using Nil.prems src(2) by (intro unat_of_nat_u64) simp
  then have "read_log_record sf (of_nat off) fs = Inl ReadDataFileEOFError"
    using read_log_record_parse [OF Nil.prems(1) src(2), of "of_nat off"] pad Nil.prems(6) by simp
  then show ?case using Nil.prems(4,8,10) by (cases n) (auto simp: log_appends_simps)
next
  case (Cons r rs)
  obtain n' where n: "n = Suc n'" "length rs < n'" using Cons.prems(8) by (cases n) auto
  have l: "off + length (enc r) \<le> length c"
    using arg_cong [OF Cons.prems(6), of length] Cons.prems(7) by simp
  have off: "unat (of_nat off :: u64) = off" using l src(2) by (intro unat_of_nat_u64) simp
  have "drop off c = enc r @ (encs rs @ pad)" using Cons.prems(6) by simp
  then have rd: "read_log_record sf (of_nat off) fs = Inr \<lparr>rr_record = r, rr_size = length (enc r)\<rparr>"
    using read_log_record_parse [OF Cons.prems(1) src(2), of "of_nat off"] parse_record_enc Cons.prems(5)
    by (simp add: off)
  have "drop (off + length (enc r)) c = drop (length (enc r)) (drop off c)" by (simp add: add.commute)
  then have d: "drop (off + length (enc r)) c = encs rs @ pad" using Cons.prems(6) by simp
  let ?p = "\<lparr>pos_fid = fid, pos_offset = of_nat off, pos_size = of_nat (length (enc r))\<rparr>"
  have step: "merge_file n valid sf (of_nat off) mo fs = merge_file n' valid sf (of_nat (off + length (enc r))) mo1 fs1"
    if "merge_record valid fid (of_nat off) r mo fs = (Inr (), mo1, fs1)" for mo1 fs1
    using that by (simp add: n(1) rd src(3))
  have rsr: "\<forall>r \<in> set rs. readable r" using Cons.prems(5) by simp
  show ?case
  proof (cases "live valid (?p, r)")
    case False
    have "room (mo_db mo) fs (length (encs rs))" by (rule room_less [OF Cons.prems(9)]) simp
    moreover have "length (encs hs) + 64 * length (encs rs) < 2 ^ 63" using Cons.prems(10) by simp
    ultimately have "\<exists>mo' fs' hs'. merge_file n' valid sf (of_nat (off + length (enc r))) mo fs = (Inr (), mo', fs')
      \<and> merge_out_ok mo' fs' (log_appends 0 (merged valid (layout fid (off + length (enc r)) rs)) logs) hp hs'
      \<and> merge_kept hp mo fs mo' fs' \<and> length (encs hs') < 2 ^ 63"
      using Cons.IH [OF Cons.prems(1-4) rsr d l n(2)] by blast
    then show ?thesis using step [OF merge_record_dead [OF False]] False by simp
  next
    case True
    then have ne: "key_of r \<noteq> []" using valid [of "key_of r"] by (auto simp: live_def split: option.splits)
    have room: "room (mo_db mo) fs (length (enc r) + length (encs rs))" using Cons.prems(9) by simp
    have hl: "length (encs hs) + 64 * length (enc r) < 2 ^ 63" using Cons.prems(10) by simp
    have rr: "readable r" using Cons.prems(5) by simp
    obtain mo1 fs1 h where one: "merge_record valid fid (of_nat off) r mo fs = (Inr (), mo1, fs1)"
      "merge_out_ok mo1 fs1 (log_append 0 (plain_record r) logs) hp (hs @ [h])"
      "length (enc h) \<le> 64 * length (enc r)" "merge_kept hp mo fs mo1 fs1" "room (mo_db mo1) fs1 (length (encs rs))"
      using merge_record_live [OF True _ _ Cons.prems(4) rr ne room hl, of fid "of_nat off"] by auto
    have o: "db_options (mo_db mo1) = db_options (mo_db mo)" using one(4) by (simp add: merge_kept_def)
    have io1: "io_ok (df_io sf) fs1 c"
      using one(4) Cons.prems(2,3) by (intro io_ok_frame [OF Cons.prems(1)]) (simp_all add: merge_kept_def)
    have p1: "\<And>f. io_path (df_io sf) \<noteq> data_name (mo_db mo1) f" using Cons.prems(3) by (simp add: o)
    have h1: "length (encs (hs @ [h])) + 64 * length (encs rs) < 2 ^ 63"
      using one(3) Cons.prems(10) by simp
    obtain mo' fs' hs' where rest: "merge_file n' valid sf (of_nat (off + length (enc r))) mo1 fs1 = (Inr (), mo', fs')"
      "merge_out_ok mo' fs' (log_appends 0 (merged valid (layout fid (off + length (enc r)) rs))
         (log_append 0 (plain_record r) logs)) hp hs'" "merge_kept hp mo1 fs1 mo' fs'"
      "length (encs hs') < 2 ^ 63"
      using Cons.IH [OF io1 Cons.prems(2) p1 one(2) rsr d l n(2) one(5) h1] by blast
    have "merge_kept hp mo fs mo' fs'" by (rule merge_kept_trans [OF one(4) rest(3)])
    then show ?thesis using step [OF one(1)] rest(1,2,4) True by (auto simp: log_appends_simps)
  qed
qed

section \<open>The parts of a merge\<close>

lemma merge_kept_path:
  "merge_kept hp mo fs mo' fs' \<Longrightarrow> q \<noteq> hp \<Longrightarrow> q \<noteq> data_name (mo_db mo) 0 \<Longrightarrow> fs_get fs' q = fs_get fs q"
  by (simp add: merge_kept_def)

lemma load_hints_ok:
  assumes ok: "io_ok (df_io df) fs c" "length c < 2 ^ 63" and hs: "\<forall>h \<in> set hs. hint_ok h"
    and "drop off c = encs hs" "off \<le> length c" "length hs < n"
  shows "\<exists>i'. load_hints n df (of_nat off) i fs = (Inr (), i')"
  using hs assms(4-)
proof (induction hs arbitrary: off n i)
  case Nil
  have "unat (of_nat off :: u64) = off" using Nil.prems ok(2) by (intro unat_of_nat_u64) simp
  then have "read_log_record df (of_nat off) fs = Inl ReadDataFileEOFError"
    using read_log_record_parse [OF ok, of "of_nat off"] Nil.prems(2) by (simp add: parse_record_def)
  with Nil.prems(4) show ?case by (cases n) simp_all
next
  case (Cons h hs)
  obtain n' where n: "n = Suc n'" "length hs < n'" using Cons.prems(4) by (cases n) auto
  have l: "off + length (enc h) \<le> length c"
    using arg_cong [OF Cons.prems(2), of length] Cons.prems(3) by simp
  have off: "unat (of_nat off :: u64) = off" using l ok(2) by (intro unat_of_nat_u64) simp
  have h: "readable h" "\<exists>pos. lr_value h = LogRecordPos_encode pos" using Cons.prems(1) by (auto simp: hint_ok_def)
  have "drop off c = enc h @ encs hs" using Cons.prems(2) by simp
  then have rd: "read_log_record df (of_nat off) fs = Inr \<lparr>rr_record = h, rr_size = length (enc h)\<rparr>"
    using read_log_record_parse [OF ok, of "of_nat off"] parse_record_enc h(1) by (simp add: off)
  obtain pos where "LogRecordPos_decode (lr_value h) = Inr pos"
    using h(2) LogRecordPos_decode_encode_append [of _ "[]"] by auto
  moreover have "drop (off + length (enc h)) c = drop (length (enc h)) (drop off c)" by (simp add: add.commute)
  then have d: "drop (off + length (enc h)) c = encs hs" using Cons.prems(2) by simp
  ultimately show ?case using Cons.IH [OF _ d l n(2)] Cons.prems(1) by (simp add: n(1) rd)
qed

text \<open>\<open>close\<close> of a database whose directory has its data file 0.\<close>

lemma DB_close_effect:
  fixes db :: db
  defines "dir \<equiv> opt_dir_path (db_options db)"
  assumes d: "dir \<noteq> []" "directory_exists dir fs" "file_exists (get_data_file_name dir 0) fs"
    "\<not> directory_exists (get_data_file_name dir 0) fs" "\<not> directory_exists (dir @ ''/'' @ SEQ_NO_FILE_NAME) fs"
    and mem: "in_memory (db_index db)"
  shows "\<exists>db' fs'. DB_close db fs = (Inr (), db', fs') \<and> in_memory (db_index db')
    \<and> db_options db' = db_options db \<and> fs_dirs fs' = fs_dirs fs \<and> fs_page_size fs' = fs_page_size fs
    \<and> (\<forall>q. q \<noteq> dir @ ''/'' @ SEQ_NO_FILE_NAME \<longrightarrow> fs_get fs' q = fs_get fs q)"
proof -
  obtain fs1 where save: "save_seq_no db fs = (Inr (), fs1)" "fs_frame (dir @ ''/'' @ SEQ_NO_FILE_NAME) fs fs1"
    using save_seq_no_ok [of db fs] d unfolding dir_def by blast
  obtain i' where i: "idx_close (db_index db) fs1 = (i', fs1)"
    using in_memory_close [OF mem, of fs1] by (cases "idx_close (db_index db) fs1") simp
  have "in_memory i'" using mem i by (cases "db_index db") (auto simp: in_memory_def)
  then show ?thesis
    using save i
    by (cases "db_active_file db"; cases "db_file_lock_fd db")
      (simp_all add: DB_close_def release_file_lock_def fs_frame_def)
qed

text \<open>Creating a directory whose parents exist.\<close>

definition parents_exist :: "string \<Rightarrow> fsys \<Rightarrow> bool" where
  "parents_exist d fs \<longleftrightarrow>
     (\<forall>n < length d. d ! n = CHR ''/'' \<longrightarrow> 0 < n \<longrightarrow> directory_exists (take n d) fs)"

lemma create_directory_loop_parents:
  assumes "don @ rest \<noteq> []"
    "\<forall>n < length (don @ rest). length don \<le> n \<longrightarrow> (don @ rest) ! n = CHR ''/'' \<longrightarrow> 0 < n \<longrightarrow>
       directory_exists (take n (don @ rest)) fs"
  shows "create_directory_loop don rest fs = mkdir (don @ rest) fs"
  using assms
proof (induction don rest fs rule: create_directory_loop.induct)
  case (2 don c path fs)
  show ?case
  proof (cases "c = CHR ''/'' \<and> don \<noteq> []")
    case True
    have "directory_exists don fs" using 2(4) [rule_format, of "length don"] True by simp
    then have "mkdir don fs = fs" by (simp add: mkdir_def)
    then show ?thesis using "2.IH"(1) [OF True] 2(4) True by simp
  next
    case False
    then show ?thesis using "2.IH"(2) [OF False] 2(4) by auto
  qed
qed simp

lemma create_directory_new:
  assumes "parents_exist d fs" "d \<noteq> []" "\<not> directory_exists d fs" "\<not> file_exists d fs"
    "\<not> file_exists (dir_name d) fs"
  shows "create_directory d fs = fs\<lparr>fs_dirs := d # fs_dirs fs\<rparr>"
  using create_directory_loop_parents [of "[]" d fs] assms
  by (simp add: create_directory_def parents_exist_def mkdir_def)

text \<open>The directory of the merge does not exist and can be created.\<close>

definition merge_dir_free :: "string \<Rightarrow> fsys \<Rightarrow> bool" where
  "merge_dir_free mp fs \<longleftrightarrow>
     mp \<noteq> [] \<and> parents_exist mp fs \<and> \<not> directory_exists mp fs \<and> \<not> file_exists mp fs
     \<and> \<not> file_exists (dir_name mp) fs
     \<and> (\<forall>s. fs_get fs (mp @ ''/'' @ s) = None \<and> \<not> directory_exists (mp @ ''/'' @ s) fs)
     \<and> mp @ ''/'' @ FILE_LOCK_NAME \<notin> set (fs_locks fs)"

lemma merge_dir_created:
  assumes "merge_dir_free mp fs"
  shows "create_directory mp fs = fs\<lparr>fs_dirs := mp # fs_dirs fs\<rparr>" "empty_dir mp (create_directory mp fs)"
proof -
  show c: "create_directory mp fs = fs\<lparr>fs_dirs := mp # fs_dirs fs\<rparr>"
    using assms by (intro create_directory_new) (simp_all add: merge_dir_free_def)
  show "empty_dir mp (create_directory mp fs)"
    using assms by (simp add: c empty_dir_def merge_dir_free_def directory_exists_def)
qed

lemma dir_name_merge_dir:
  assumes "dir \<noteq> []"
  shows "\<not> under dir (dir_name (dir @ MERGE_DIR_SUFFIX))"
proof -
  let ?mp = "dir @ MERGE_DIR_SUFFIX"
  have no: "\<not> under dir (take n ?mp)" for n
  proof
    assume "under dir (take n ?mp)"
    then obtain s where s: "take n ?mp = dir @ CHR ''/'' # s" by (auto simp: under_def)
    have "dir @ CHR ''/'' # (s @ drop n ?mp) = take n ?mp @ drop n ?mp" by (simp only: s append_assoc append_Cons)
    also have "\<dots> = ?mp" by (rule append_take_drop_id)
    finally show False by (simp add: MERGE_DIR_SUFFIX_def)
  qed
  have "\<not> under dir ''.''" "\<not> under dir ''/''" using assms by (cases dir; simp add: under_def)+
  then show ?thesis using no by (auto simp: dir_name_def split: option.split)
qed

section \<open>The start of a merge\<close>

lemma running_single:
  assumes run: "running db fs logs n" and older: "db_older_files db = []"
  shows "n = 1" "\<exists>df :: data_file. db_active_file db = Some df \<and> df_file_id df = 0 \<and> df_write_off df = log_end logs 0
    \<and> io_path (df_io df) = data_name db 0 \<and> fs_get fs (data_name db 0) = Some (encs (logs 0))"
proof -
  have files: "log_files db fs logs (first_ids n)" using run by (simp add: running_def log_inv_def)
  obtain df :: data_file where df: "db_active_file db = Some df" "df_write_off df = log_end logs (df_file_id df)"
    "fs_get fs (io_path (df_io df)) = Some (encs (logs (df_file_id df)))"
    using files by (auto simp: log_files_def)
  have hold: "files_hold db fs logs (first_ids n)" "distinct (first_ids n)" "last (first_ids n) = df_file_id df"
    using files df(1) by (auto simp: log_files_def)
  have one: "fid = df_file_id df" if "fid \<in> set (first_ids n)" for fid
    using hold(1) that older df(1) unfolding files_hold_def by (auto simp: find_data_file_def split: if_splits)
  have "set (first_ids n) \<subseteq> {df_file_id df}" using one by blast
  then have "card (set (first_ids n)) \<le> 1" using card_mono [of "{df_file_id df}"] by fastforce
  then have "length (first_ids n) \<le> 1" unfolding distinct_card [OF hold(2)] .
  moreover have "0 < n" using run by (simp add: running_def disk_log_def)
  ultimately show n: "n = 1" by simp
  have "df_file_id df = 0" using hold(3) n by simp
  moreover have "io_path (df_io df) = data_name db (df_file_id df)"
    using files df(1) by (simp add: log_files_def files_ok_def)
  ultimately show "\<exists>df :: data_file. db_active_file db = Some df \<and> df_file_id df = 0 \<and> df_write_off df = log_end logs 0
    \<and> io_path (df_io df) = data_name db 0 \<and> fs_get fs (data_name db 0) = Some (encs (logs 0))"
    using df by (intro exI [of _ df]) simp
qed

lemma rotate_single:
  assumes act: "db_active_file db = Some df" "df_file_id df = 0" "db_older_files db = []"
    and dir: "opt_dir_path (db_options db) = dir" "dir \<noteq> []" "directory_exists dir fs"
    and f: "file_exists (get_data_file_name dir 0) fs" "\<not> directory_exists (get_data_file_name dir 0) fs"
  shows "rotate_merge_files db fs
    = (Inr [opened dir 0], db\<lparr>db_older_files := [(0, df)], db_active_file := Some (opened dir 0)\<rparr>, fs)"
  using open_data_file_ok [OF dir(3,2) f(2)] assms
  by (simp add: rotate_merge_files_def Let_def set_active_data_file_def INITIAL_FILE_ID_def opened_def)

text \<open>What the merge has written when it starts to replace the old files.\<close>

definition merge_written ::
    "string \<Rightarrow> fsys \<Rightarrow> fsys \<Rightarrow> log_record list \<Rightarrow> log_record list \<Rightarrow> bool" where
  "merge_written mp fs fs' ms hs \<longleftrightarrow>
     fs_within mp fs fs' \<and> fs_dirs fs' = fs_dirs fs
     \<and> fs_get fs' (get_data_file_name mp 0) = Some (encs ms) \<and> holds_log (encs ms) ms
     \<and> (\<forall>fid. fid \<noteq> 0 \<longrightarrow> fs_get fs' (get_data_file_name mp fid) = None)
     \<and> fs_get fs' (mp @ ''/'' @ HINT_FILE_NAME) = Some (encs hs) \<and> (\<forall>h \<in> set hs. hint_ok h)
     \<and> length (encs hs) < 2 ^ 63 \<and> file_exists (mp @ ''/'' @ MERGE_FINISHED_FILE_NAME) fs'"

lemma write_merge_finished_ok:
  assumes "mp \<noteq> []" "directory_exists mp fs" "file_exists (get_data_file_name mp 0) fs"
    "\<not> directory_exists (get_data_file_name mp 0) fs" "\<not> directory_exists (mp @ ''/'' @ MERGE_FINISHED_FILE_NAME) fs"
  shows "\<exists>fs'. write_merge_finished mp dfs fs = (Inr (), fs') \<and> fs_frame (mp @ ''/'' @ MERGE_FINISHED_FILE_NAME) fs fs'
    \<and> file_exists (mp @ ''/'' @ MERGE_FINISHED_FILE_NAME) fs'"
proof -
  let ?p = "mp @ ''/'' @ MERGE_FINISHED_FILE_NAME" and ?d = "enc (merge_finished_record dfs)"
  define fs1 where "fs1 = (if file_exists ?p fs then fs else fs_put ?p [] fs)"
  have o: "open_merge_finished_file mp fs = (Inr \<lparr>df_file_id = 0, df_write_off = 0, df_io = file_io ?p\<rparr>, fs1)"
    using open_special_file_ok [OF assms plain_names(2)] by (simp add: open_merge_finished_file_def fs1_def)
  obtain c where c: "fs_get fs1 ?p = Some c" by (cases "fs_get fs ?p") (simp_all add: fs1_def file_exists_def)
  have fr: "fs_frame ?p fs fs1" by (simp add: fs1_def)
  have "io_write (file_io ?p) ?d 0 fs1
      = (Some (length ?d), file_io ?p, fs_put ?p (pwrite_bytes c ?d (unat (0 :: u64))) fs1)"
    using c sint_nonneg [of 0] by (simp add: io_write_def FileIOManager_write_def file_io_def)
  then show ?thesis
    using o fs_frame_trans [OF fr]
    by (simp add: write_merge_finished_def DataFile_write_def pwrite_bytes_def file_exists_def)
qed

lemma special_file_names [simp]:
  "HINT_FILE_NAME \<noteq> MERGE_FINISHED_FILE_NAME" "HINT_FILE_NAME \<noteq> SEQ_NO_FILE_NAME"
  "MERGE_FINISHED_FILE_NAME \<noteq> SEQ_NO_FILE_NAME" "MERGE_FINISHED_FILE_NAME \<noteq> HINT_FILE_NAME"
  by (simp_all add: HINT_FILE_NAME_def MERGE_FINISHED_FILE_NAME_def SEQ_NO_FILE_NAME_def)

lemma merge_writes:
  fixes db mdb :: db
  assumes mdb: "running mdb fs2 (\<lambda>_. []) 1" "opt_dir_path (db_options mdb) = mp" "db_older_files mdb = []"
    and fs2: "fs2 = fs_put (get_data_file_name mp 0) [] (locked_fs mp fs1)" "empty_dir mp fs1"
    and src: "fs_get fs1 (get_data_file_name dir 0) = Some (encs rs)" "\<And>s. get_data_file_name dir 0 \<noteq> mp @ CHR ''/'' # s"
    and rs: "\<forall>r \<in> set rs. readable r" and valid: "\<And>k. valid_records (db_index db) k \<noteq> None \<Longrightarrow> k \<noteq> []"
    and size: "length (encs rs) \<le> unat (opt_data_file_size (db_options mdb))"
      "64 * length (encs rs) + fs_page_size fs1 < 2 ^ 63"
  defines "ms \<equiv> merged (valid_records (db_index db)) (layout 0 0 rs)"
  shows "\<exists>mdb' fs6 hs. merge_with coins mp [opened dir 0] mdb db fs2
      = (case take_over coins mp db fs6 of (r, db', fs') \<Rightarrow> (r, mdb', db', fs'))
    \<and> merge_written mp fs1 fs6 ms hs \<and> in_memory (db_index mdb') \<and> db_options mdb' = db_options mdb"
proof -
  let ?hp = "mp @ ''/'' @ HINT_FILE_NAME" and ?mf = "mp @ ''/'' @ MERGE_FINISHED_FILE_NAME"
  let ?data = "get_data_file_name mp 0" and ?src = "get_data_file_name dir 0"
  let ?valid = "valid_records (db_index db)"
  have none: "fs_get fs1 (mp @ CHR ''/'' # s) = None" "\<not> directory_exists (mp @ CHR ''/'' # s) fs1" for s
    using fs2(2) by (simp_all add: empty_dir_def)
  have data: "\<exists>s. get_data_file_name mp fid = mp @ CHR ''/'' # s" for fid by (simp add: get_data_file_name_def)
  have none_data: "fs_get fs1 (get_data_file_name mp fid) = None" "\<not> directory_exists (get_data_file_name mp fid) fs1" for fid
    using data [of fid] none by auto
  have mp: "mp \<noteq> []" "directory_exists mp fs2" using mdb(1,2) by (auto simp: running_def disk_log_def)
  have page: "0 < fs_page_size fs1" "fs_page_size fs2 = fs_page_size fs1"
    using mdb(1) by (simp_all add: running_def disk_log_def fs2(1))
  have dirs2: "fs_dirs fs2 = fs_dirs fs1" by (simp add: fs2(1))
  define fs3 where "fs3 = fs_put ?hp [] fs2"
  have hint: "open_hint_file mp fs2 = (Inr \<lparr>df_file_id = 0, df_write_off = 0, df_io = file_io ?hp\<rparr>, fs3)"
    using open_special_file_ok [OF mp _ _ _ plain_names(1)] none none_data
    by (simp add: open_hint_file_def fs3_def fs2(1) file_exists_def directory_exists_def)
  define mo where "mo = \<lparr>mo_db = mdb, mo_hint = \<lparr>df_file_id = 0, df_write_off = 0, df_io = file_io ?hp\<rparr>\<rparr>"
  have "log_files mdb fs2 (\<lambda>_. []) [0]" using mdb(1) by (simp add: running_def log_inv_def)
  then have files3: "log_files mdb fs3 (\<lambda>_. []) [0]" by (rule log_files_fs) (simp_all add: fs3_def mdb(2))
  have out: "merge_out_ok mo fs3 (\<lambda>_. []) ?hp []"
    using files3 by (simp add: merge_out_ok_def mo_def fs3_def mdb(2))
  have room: "room (mo_db mo) fs3 (length (encs rs))"
    using size page room_log [OF files3] by (simp add: mo_def fs3_def)
  have s: "?src \<noteq> mp @ CHR ''/'' # s" "mp @ CHR ''/'' # s \<noteq> ?src" for s
    using src(2) [of s] by auto
  have sdata: "?src \<noteq> get_data_file_name mp fid" for fid using data [of fid] s by metis
  have io: "io_ok (df_io (opened dir 0)) fs3 (encs rs)"
    using src(1) page sdata s by (simp add: opened_def file_io_ok fs3_def fs2(1))
  have fuel: "length rs < file_fuel (opened dir 0) fs3"
    using length_encs_ge [of rs] file_fuel_ok [OF io] by simp
  have l63: "length (encs rs) < 2 ^ 63" using size by simp
  have src0: "df_file_id (opened dir 0) = 0" "io_path (df_io (opened dir 0)) \<noteq> ?hp"
    "\<And>f. io_path (df_io (opened dir 0)) \<noteq> data_name (mo_db mo) f"
    using s sdata by (simp_all add: opened_def mo_def mdb(2))
  have pad: "parse_record [] = Inl ReadDataFileEOFError" by (simp add: parse_record_def)
  have whole: "drop 0 (encs rs) = encs rs @ []" "0 \<le> length (encs rs)" by simp_all
  have hints: "length (encs []) + 64 * length (encs rs) < 2 ^ 63" using size(2) by simp
  have copies: "\<exists>mo' fs' hs'. merge_file (file_fuel (opened dir 0) fs3) ?valid (opened dir 0) (of_nat 0) mo fs3 = (Inr (), mo', fs')
    \<and> merge_out_ok mo' fs' (log_appends 0 (merged ?valid (layout 0 0 rs)) (\<lambda>_. [])) ?hp hs'
    \<and> merge_kept ?hp mo fs3 mo' fs' \<and> length (encs hs') < 2 ^ 63"
    by (rule merge_file_copies [OF io l63 src0 out _ rs pad whole fuel room hints]) (rule valid)
  obtain mo' fs4 hs where loop: "merge_file (file_fuel (opened dir 0) fs3) ?valid (opened dir 0) 0 mo fs3 = (Inr (), mo', fs4)"
    "merge_out_ok mo' fs4 (log_appends 0 ms (\<lambda>_. [])) ?hp hs" "merge_kept ?hp mo fs3 mo' fs4" "length (encs hs) < 2 ^ 63"
    using copies unfolding semiring_1_class.of_nat_0 ms_def by blast
  have opts: "db_options (mo_db mo') = db_options mdb" "db_index (mo_db mo') = db_index mdb"
    and same4: "fs_dirs fs4 = fs_dirs fs1" "fs_page_size fs4 = fs_page_size fs1"
      "\<And>q. q \<noteq> ?hp \<Longrightarrow> q \<noteq> ?data \<Longrightarrow> fs_get fs4 q = fs_get fs2 q"
    using loop(3) page(2) by (simp_all add: merge_kept_def mo_def fs3_def mdb(2) dirs2)
  have "log_files (mo_db mo') fs4 (log_appends 0 ms (\<lambda>_. [])) [0]" using loop(2) by (simp add: merge_out_ok_def)
  then have get4: "fs_get fs4 ?data = Some (encs ms)" and holds4: "holds_log (encs ms) ms"
    using opts mdb(2) by (auto simp: log_files_def files_ok_def log_appends_def files_hold_def io_ok_def)
  have nodir: "\<not> directory_exists (mp @ CHR ''/'' # s) fs4" "\<not> directory_exists (get_data_file_name mp fid) fs4" for s fid
    using none(2) none_data(2) by (simp_all add: directory_exists_def same4(1))
  have mp4: "directory_exists mp fs4" using mp(2) by (simp add: directory_exists_def same4(1) dirs2)
  obtain fs5 where fin: "write_merge_finished mp [opened dir 0] fs4 = (Inr (), fs5)" "fs_frame ?mf fs4 fs5" "file_exists ?mf fs5"
    using write_merge_finished_ok [OF mp(1) mp4 _ nodir(2), of "[opened dir 0]"] nodir(1) get4 by (auto simp: file_exists_def)
  have same5: "fs_dirs fs5 = fs_dirs fs4" "fs_page_size fs5 = fs_page_size fs4"
    "\<And>q. q \<noteq> ?mf \<Longrightarrow> fs_get fs5 q = fs_get fs4 q"
    using fin(2) by (simp_all add: fs_frame_def)
  have mem: "in_memory (db_index (mo_db mo'))"
    using mdb(1) by (simp add: opts running_def log_inv_def db_holds_def)
  have ex5: "file_exists ?data fs5" "\<not> directory_exists ?data fs5" "directory_exists mp fs5"
    "\<not> directory_exists (mp @ ''/'' @ SEQ_NO_FILE_NAME) fs5"
    using get4 mp4 nodir by (simp_all add: file_exists_def directory_exists_def same5)
  obtain mdb' fs6 where close: "DB_close (mo_db mo') fs5 = (Inr (), mdb', fs6)" "in_memory (db_index mdb')"
    "db_options mdb' = db_options mdb" "fs_dirs fs6 = fs_dirs fs5" "fs_page_size fs6 = fs_page_size fs5"
    "\<And>q. q \<noteq> mp @ ''/'' @ SEQ_NO_FILE_NAME \<Longrightarrow> fs_get fs6 q = fs_get fs5 q"
    using DB_close_effect [of "mo_db mo'" fs5] mem ex5 mp(1) by (auto simp: opts mdb(2))
  have "merge_with coins mp [opened dir 0] mdb db fs2
      = (case take_over coins mp db fs6 of (r, db', fs') \<Rightarrow> (r, mdb', db', fs'))"
    using hint loop(1) fin(1) close(1) by (simp add: merge_with_def mo_def split_beta)
  moreover have "merge_written mp fs1 fs6 ms hs"
  proof -
    have "fs_get fs6 q = fs_get fs1 q" if q: "\<not> under mp q" for q
    proof -
      have "q \<noteq> mp @ CHR ''/'' # s" for s using q by auto
      moreover have "q \<noteq> get_data_file_name mp fid" for fid using q by auto
      ultimately show ?thesis by (simp add: close(6) same5(3) same4(3) fs2(1))
    qed
    moreover have "fs_get fs6 (get_data_file_name mp fid) = None" if "fid \<noteq> 0" for fid
      using that none_data by (simp add: close(6) same5(3) same4(3) fs2(1))
    moreover have "fs_get fs4 ?hp = Some (encs hs)" "\<forall>h \<in> set hs. hint_ok h"
      using loop(2) by (simp_all add: merge_out_ok_def)
    ultimately show ?thesis
      using fin(3) get4 loop(4) holds4
      by (simp add: merge_written_def fs_within_def close(4-6) same5 same4(1,2) file_exists_def)
  qed
  ultimately show ?thesis using close(2,3) by blast
qed

section \<open>The files of the merge take over\<close>

lemma remove_data_files_ok:
  "fs_dirs (remove_data_files dir fids fs) = fs_dirs fs
   \<and> fs_page_size (remove_data_files dir fids fs) = fs_page_size fs
   \<and> (\<forall>q. fs_get (remove_data_files dir fids fs) q = fs_get fs q
         \<or> (\<exists>fid. q = get_data_file_name dir fid) \<and> fs_get (remove_data_files dir fids fs) q = None)"
proof (induction fids arbitrary: fs)
  case (Cons fid fids)
  let ?p = "get_data_file_name dir fid"
  define fs1 where "fs1 = (if file_exists ?p fs then fs_remove ?p fs else fs)"
  have r: "remove_data_files dir (fid # fids) fs = remove_data_files dir fids fs1"
    by (simp add: remove_data_files_def fs1_def Let_def)
  have "fs_get (remove_data_files dir fids fs1) q = fs_get fs q
    \<or> (\<exists>fid. q = get_data_file_name dir fid) \<and> fs_get (remove_data_files dir fids fs1) q = None" for q
    using Cons [of fs1, THEN conjunct2, THEN conjunct2, rule_format, of q]
    by (cases "q = ?p") (auto simp: fs1_def file_exists_def split: if_splits)
  then show ?case
    using Cons [of fs1, THEN conjunct1] Cons [of fs1, THEN conjunct2, THEN conjunct1] by (simp add: r fs1_def)
qed (simp add: remove_data_files_def)

lemma copy_merged_one:
  assumes "fs_get fs (get_data_file_name mp 0) = Some c" "\<And>fid. fid \<noteq> 0 \<Longrightarrow> fs_get fs (get_data_file_name mp fid) = None"
    and d: "mp \<noteq> []" "dir \<noteq> []" "mp \<noteq> dir" "directory_exists dir fs" "\<not> directory_exists (get_data_file_name dir 0) fs"
  shows "copy_merged mp dir False [0..<10000] fs
    = (Inr (), fs_put (get_data_file_name dir 0) c (fs_put (get_data_file_name dir 0) [] fs))"
proof -
  have ne: "get_data_file_name dir x \<noteq> get_data_file_name mp y" for x y
    using data_file_name_dir [OF d(2,1)] d(3) by blast
  have step: "copy_merged mp dir False (0 # Suc 0 # ns) fs
      = (Inr (), fs_put (get_data_file_name dir 0) c (fs_put (get_data_file_name dir 0) [] fs))" for ns
    using copy_file_ok [OF assms(1), of "get_data_file_name dir 0"] assms(1,2) d ne [of 0] ne [of 0, symmetric]
    by (simp add: file_exists_def)
  have "[0..<10000] = 0 # [Suc 0..<10000]" by (rule upt_conv_Cons) simp
  also have "[Suc 0..<10000] = Suc 0 # [Suc (Suc 0)..<10000]" by (rule upt_conv_Cons) simp
  finally show ?thesis using step by (simp only:)
qed

lemma copy_if_exists_ok:
  assumes "fs_get fs src = Some c" "directory_exists (dir_name dst) fs" "\<not> directory_exists dst fs" "src \<noteq> dst"
  shows "copy_if_exists src dst fs = (Inr (), fs_put dst c (fs_put dst [] fs))"
  using copy_file_ok [OF assms] assms(1) by (simp add: copy_if_exists_def file_exists_def)

text \<open>The directory after the copies.\<close>

definition taken_over ::
    "string \<Rightarrow> string \<Rightarrow> fsys \<Rightarrow> fsys \<Rightarrow> log_record list \<Rightarrow> log_record list \<Rightarrow> bool" where
  "taken_over mp dir fs fs' ms hs \<longleftrightarrow>
     fs_within dir fs fs' \<and> fs_dirs fs' = fs_dirs fs
     \<and> fs_get fs' (get_data_file_name dir 0) = Some (encs ms)
     \<and> (\<forall>fid. fid \<noteq> 0 \<longrightarrow> fs_get fs' (get_data_file_name dir fid) = None)
     \<and> fs_get fs' (dir @ ''/'' @ HINT_FILE_NAME) = Some (encs hs)"

text \<open>A data directory with one data file, in which the merge can put its files.\<close>

definition mergeable_dir :: "string \<Rightarrow> string \<Rightarrow> fsys \<Rightarrow> bool" where
  "mergeable_dir mp dir fs \<longleftrightarrow>
     mp = dir @ MERGE_DIR_SUFFIX \<and> dir \<noteq> [] \<and> directory_exists dir fs
     \<and> (\<forall>fid. fid \<noteq> 0 \<longrightarrow> fs_get fs (get_data_file_name dir fid) = None)
     \<and> \<not> directory_exists (get_data_file_name dir 0) fs
     \<and> \<not> directory_exists (dir @ ''/'' @ HINT_FILE_NAME) fs
     \<and> \<not> directory_exists (dir @ ''/'' @ MERGE_FINISHED_FILE_NAME) fs"

lemma mergeable_dir_names:
  assumes "mergeable_dir mp dir fs"
  shows "mp \<noteq> []" "mp \<noteq> dir" "mp @ CHR ''/'' # s \<noteq> dir @ CHR ''/'' # s'"
    "get_data_file_name dir fid \<noteq> mp @ CHR ''/'' # s" "\<not> under mp (get_data_file_name dir fid)"
    "\<not> under mp (dir @ CHR ''/'' # s)"
proof -
  have mp: "mp = dir @ MERGE_DIR_SUFFIX" "dir \<noteq> []" using assms by (simp_all add: mergeable_dir_def)
  then show "mp \<noteq> []" "mp \<noteq> dir" "mp @ CHR ''/'' # s \<noteq> dir @ CHR ''/'' # s'"
    by (simp_all add: MERGE_DIR_SUFFIX_def)
  show "\<not> under mp (get_data_file_name dir fid)" "\<not> under mp (dir @ CHR ''/'' # s)"
    using under_merge_dir [of dir] mp(1) under_data_file under_name by blast+
  then show "get_data_file_name dir fid \<noteq> mp @ CHR ''/'' # s" by auto
qed

lemma merged_files_copied:
  assumes w: "merge_written mp fs1 fs6 ms hs" and d: "mergeable_dir mp dir fs1"
  shows "\<exists>fs7 fs8 fs9. copy_merged mp dir False [0..<10000] (remove_data_files dir fids fs6) = (Inr (), fs7)
    \<and> copy_if_exists (mp @ ''/'' @ HINT_FILE_NAME) (dir @ ''/'' @ HINT_FILE_NAME) fs7 = (Inr (), fs8)
    \<and> copy_if_exists (mp @ ''/'' @ MERGE_FINISHED_FILE_NAME) (dir @ ''/'' @ MERGE_FINISHED_FILE_NAME) fs8 = (Inr (), fs9)
    \<and> taken_over mp dir fs6 fs9 ms hs"
proof -
  note names = mergeable_dir_names [OF d]
  let ?fs0 = "remove_data_files dir fids fs6" and ?data = "get_data_file_name dir 0"
  let ?h = "dir @ ''/'' @ HINT_FILE_NAME" and ?m = "dir @ ''/'' @ MERGE_FINISHED_FILE_NAME"
  note r = remove_data_files_ok [of dir fids fs6]
  have dir: "dir \<noteq> []" "directory_exists dir fs1" "\<not> directory_exists ?data fs1" "\<not> directory_exists ?h fs1"
    "\<not> directory_exists ?m fs1" "\<And>fid. fid \<noteq> 0 \<Longrightarrow> fs_get fs1 (get_data_file_name dir fid) = None"
    using d by (simp_all add: mergeable_dir_def)
  have dirs: "fs_dirs ?fs0 = fs_dirs fs1" using r w by (simp add: merge_written_def)
  have same: "fs_get ?fs0 q = fs_get fs6 q" if "\<not> under dir q" for q
    using r that by (metis under_data_file)
  have at: "fs_get ?fs0 (mp @ CHR ''/'' # s) = fs_get fs6 (mp @ CHR ''/'' # s)"
    "fs_get ?fs0 (get_data_file_name mp fid) = fs_get fs6 (get_data_file_name mp fid)" for s fid
  proof -
    have "\<not> under dir q" if "under mp q" for q
      using under_merge_dir [of dir q] that d by (simp add: mergeable_dir_def)
    then show "fs_get ?fs0 (mp @ CHR ''/'' # s) = fs_get fs6 (mp @ CHR ''/'' # s)"
      "fs_get ?fs0 (get_data_file_name mp fid) = fs_get fs6 (get_data_file_name mp fid)"
      by (simp_all only: same under_name under_data_file simp_thms)
  qed
  have src: "fs_get ?fs0 (get_data_file_name mp 0) = Some (encs ms)"
    "\<And>fid. fid \<noteq> 0 \<Longrightarrow> fs_get ?fs0 (get_data_file_name mp fid) = None"
    using w by (simp_all add: at merge_written_def)
  define fs7 where "fs7 = fs_put ?data (encs ms) (fs_put ?data [] ?fs0)"
  have "directory_exists dir ?fs0" "\<not> directory_exists ?data ?fs0" using dir dirs by (simp_all add: directory_exists_def)
  then have one: "copy_merged mp dir False [0..<10000] ?fs0 = (Inr (), fs7)"
    using copy_merged_one [OF src names(1) dir(1) names(2)] by (simp add: fs7_def)
  have get7: "fs_get fs7 (mp @ CHR ''/'' # s) = fs_get fs6 (mp @ CHR ''/'' # s)" for s
    using names(4) [of 0 s, symmetric] by (simp add: fs7_def at)
  define fs8 where "fs8 = fs_put ?h (encs hs) (fs_put ?h [] fs7)"
  have "fs_get fs7 (mp @ ''/'' @ HINT_FILE_NAME) = Some (encs hs)" using w by (simp add: get7 merge_written_def)
  then have two: "copy_if_exists (mp @ ''/'' @ HINT_FILE_NAME) ?h fs7 = (Inr (), fs8)"
    using copy_if_exists_ok [of fs7 "mp @ ''/'' @ HINT_FILE_NAME" "encs hs" ?h] dir names(2,3)
      dir_name_append [OF dir(1) plain_names(1)]
    by (simp add: fs8_def fs7_def directory_exists_def dirs)
  obtain c where c: "fs_get fs6 (mp @ ''/'' @ MERGE_FINISHED_FILE_NAME) = Some c"
    using w by (auto simp: merge_written_def file_exists_def)
  define fs9 where "fs9 = fs_put ?m c (fs_put ?m [] fs8)"
  have "fs_get fs8 (mp @ ''/'' @ MERGE_FINISHED_FILE_NAME) = Some c"
    using c names(3) by (simp add: fs8_def get7)
  then have three: "copy_if_exists (mp @ ''/'' @ MERGE_FINISHED_FILE_NAME) ?m fs8 = (Inr (), fs9)"
    using copy_if_exists_ok [of fs8 "mp @ ''/'' @ MERGE_FINISHED_FILE_NAME" c ?m] dir names(2,3)
      dir_name_append [OF dir(1) plain_names(2)]
    by (simp add: fs9_def fs8_def fs7_def directory_exists_def dirs)
  have "fs_get ?fs0 (get_data_file_name dir fid) = None" if "fid \<noteq> 0" for fid
  proof -
    have "fs_get fs6 (get_data_file_name dir fid) = None"
      using w dir(6) [OF that] names(5) by (simp add: merge_written_def fs_within_def)
    then show ?thesis using r by metis
  qed
  moreover have "fs_within dir fs6 fs9"
    using same r by (auto simp: fs_within_def fs9_def fs8_def fs7_def)
  ultimately have "taken_over mp dir fs6 fs9 ms hs"
    using r by (simp add: taken_over_def fs9_def fs8_def fs7_def)
  then show ?thesis using one two three by blast
qed

lemma load_index_marker:
  assumes "opt_index_type (db_options db) \<noteq> BPLUS_TREE" "db_active_file db \<noteq> None"
  defines "m \<equiv> opt_dir_path (db_options db) @ ''/'' @ MERGE_FINISHED_FILE_NAME"
  shows "load_index_from_data_files coins db fs = load_index_from_data_files coins db (fs_remove m fs)"
proof -
  have none: "fs_remove m fs = fs" if "\<not> file_exists m fs"
    using that by (simp add: fs_remove_def file_exists_def fs_get_def delete_id map_of_eq_None_iff)
  have gone: "\<not> file_exists m (fs_remove m fs)" by (simp add: file_exists_def)
  obtain i where "\<And>fs. create_indexer coins (opt_index_type (db_options db)) (opt_dir_path (db_options db)) fs = (Inr i, fs)"
    using assms(1) by (cases "opt_index_type (db_options db)") (auto simp: create_indexer_def)
  moreover obtain a where "db_active_file db = Some a" using assms(2) by blast
  ultimately show ?thesis
    using assms(1) none gone unfolding m_def
    by (cases "file_exists m fs") (simp_all add: load_index_from_data_files_def m_def Let_def cong: prod.case_cong sum.case_cong if_cong index.case_cong)
qed

lemma rebuild_index_ok:
  fixes db :: db
  defines "dir \<equiv> opt_dir_path (db_options db)"
  assumes opts: "session_options (db_options db)" and mem: "in_memory (db_index db)"
    and files: "db_active_file db = Some (opened dir 0)" "db_older_files db = []" "db_file_ids db = [0]"
    and disk: "disk_log dir fs (\<lambda>_. ms) 1" and data: "fs_get fs (get_data_file_name dir 0) = Some (encs ms)"
    and keys: "keys_ok ms" and len: "length (encs hs) < 2 ^ 63"
    and hint: "fs_get fs (dir @ ''/'' @ HINT_FILE_NAME) = Some (encs hs)" "\<forall>h \<in> set hs. hint_ok h"
      "\<not> directory_exists (dir @ ''/'' @ HINT_FILE_NAME) fs"
  shows "\<exists>db'. rebuild_index coins s db fs = (Inr (), db', fs_remove (dir @ ''/'' @ MERGE_FINISHED_FILE_NAME) fs)
    \<and> db_log db' (fs_remove (dir @ ''/'' @ MERGE_FINISHED_FILE_NAME) fs) (\<lambda>_. ms) [0]
    \<and> db_options db' = db_options db \<and> db_seq_no db' = s"
proof -
  let ?h = "dir @ ''/'' @ HINT_FILE_NAME" and ?m = "dir @ ''/'' @ MERGE_FINISHED_FILE_NAME" and ?o = "db_options db"
  let ?fs = "fs_remove ?m fs"
  have type: "opt_index_type ?o \<noteq> BPLUS_TREE" using opts by (simp add: session_options_def)
  have d: "dir \<noteq> []" "directory_exists dir fs" "file_exists (get_data_file_name dir 0) fs"
    "\<not> directory_exists (get_data_file_name dir 0) fs" "0 < fs_page_size fs"
    using disk by (simp_all add: disk_log_def)
  have "\<forall>fid. unat fid < 1 \<longrightarrow> (\<exists>c. fs_get fs (get_data_file_name dir fid) = Some c \<and> holds_log c ms)"
    using disk unfolding disk_log_def by blast
  from spec [OF this, of 0] have log: "holds_log (encs ms) ms" using data by simp
  obtain i0 where i0: "idx_close (db_index db) fs = (i0, fs)"
    using in_memory_close [OF mem, of fs] by (cases "idx_close (db_index db) fs") simp
  obtain i1 where i1: "create_indexer (coins 2) (opt_index_type ?o) dir fs = (Inr i1, fs)"
    using create_indexer_new [OF type] by blast
  define hf where "hf = \<lparr>df_file_id = (0 :: u32), df_write_off = 0, df_io = file_io ?h\<rparr>"
  have ho: "open_hint_file dir fs = (Inr hf, fs)" and hx: "file_exists ?h fs"
    using open_special_file_ok [OF d(1-4) hint(3) plain_names(1)] hint(1)
    by (simp_all add: open_hint_file_def hf_def file_exists_def)
  have hio: "io_ok (df_io hf) fs (encs hs)" using hint(1) d(5) by (simp add: hf_def file_io_ok)
  have "length hs < file_fuel hf fs" using length_encs_ge [of hs] file_fuel_ok [OF hio] by simp
  then obtain i2 where i2: "load_hints (file_fuel hf fs) hf 0 i1 fs = (Inr (), i2)"
    using load_hints_ok [OF hio len hint(2), of 0 "file_fuel hf fs" i1] by auto
  define db2 where "db2 = db\<lparr>db_index := i2\<rparr>"
  have db2: "db_options db2 = ?o" "db_active_file db2 = Some (opened dir 0)" "db_older_files db2 = []" "db_file_ids db2 = [0]"
    by (simp_all add: db2_def files)
  have hints: "load_index_from_hint_file (db\<lparr>db_index := i1\<rparr>) fs = (Inr (), db2, fs)"
    using ho hx i2 by (simp add: load_index_from_hint_file_def db2_def dir_def [symmetric])
  have get: "fs_get ?fs (get_data_file_name dir 0) = Some (encs ms)" using data by simp
  have hold: "files_hold db2 ?fs (\<lambda>_. ms) [0]"
    using d log get by (auto simp: files_hold_def files_to_process_def db2 find_data_file_def opened_def
        dir_def [symmetric] intro!: file_io_ok)
  have ok: "files_ok db2 ?fs"
    using d log get by (auto simp: files_ok_def db2 df_ok_def opened_def dir_def [symmetric] holds_log_def intro!: file_io_ok)
  have type2: "opt_index_type (db_options db2) \<noteq> BPLUS_TREE" using type by (simp add: db2)
  have nofin: "\<not> file_exists (opt_dir_path (db_options db2) @ ''/'' @ MERGE_FINISHED_FILE_NAME) ?fs"
    by (simp add: db2 file_exists_def dir_def [symmetric])
  have "keys_ok (records (\<lambda>_. ms) [0])" using keys by (simp add: records_def)
  from load_index_recovers [OF hold type2 nofin ok this, of "coins 3"]
  obtain db' where db': "load_index_from_data_files (coins 3) db2 ?fs = (Inr (), db', ?fs)" "db_log db' ?fs (\<lambda>_. ms) [0]"
    "db_options db' = ?o" by (auto simp: db2)
  have "load_index_from_data_files (coins 3) db2 fs = (Inr (), db', ?fs)"
    using load_index_marker [OF type2, of "coins 3" fs] db'(1) by (simp add: db2 dir_def [symmetric])
  then have "rebuild_index coins s db fs = (Inr (), db'\<lparr>db_seq_no := s\<rparr>, ?fs)"
    using i0 i1 hints by (simp add: rebuild_index_def dir_def [symmetric])
  moreover have "db_log (db'\<lparr>db_seq_no := s\<rparr>) ?fs (\<lambda>_. ms) [0]"
    using db'(2) by (subst db_log_frame [where db = db']) simp_all
  ultimately show ?thesis using db'(3) by (intro exI [of _ "db'\<lparr>db_seq_no := s\<rparr>"]) simp
qed

lemma take_over_ok:
  fixes db :: db
  assumes w: "merge_written mp fs1 fs6 ms hs" and d: "mergeable_dir mp dir fs1" and page: "0 < fs_page_size fs1"
    and dir: "opt_dir_path (db_options db) = dir" and opts: "session_options (db_options db)"
    and mem: "in_memory (db_index db)" and keys: "keys_ok ms"
    and flat: "directory_exists mp fs1" "\<And>s. \<not> directory_exists (mp @ ''/'' @ s) fs1"
  shows "\<exists>db' fs'. take_over coins mp db fs6 = (Inr (), db', fs') \<and> db_log db' fs' (\<lambda>_. ms) [0]
    \<and> db_options db' = db_options db \<and> db_seq_no db' = db_seq_no db \<and> db_reclaim_size db' = 0
    \<and> fs_get fs' (get_data_file_name dir 0) = Some (encs ms)
    \<and> fs_dirs fs' = removeAll mp (fs_dirs fs1) \<and> fs_page_size fs' = fs_page_size fs1
    \<and> (\<forall>q. \<not> under dir q \<longrightarrow> \<not> under mp q \<longrightarrow> fs_get fs' q = fs_get fs1 q)"
proof -
  let ?m = "dir @ ''/'' @ MERGE_FINISHED_FILE_NAME" and ?h = "dir @ ''/'' @ HINT_FILE_NAME"
  let ?fs0 = "remove_data_files dir (db_file_ids db) fs6"
  note names = mergeable_dir_names [OF d]
  obtain fs7 fs8 fs9 where cp: "copy_merged mp dir False [0..<10000] ?fs0 = (Inr (), fs7)"
    "copy_if_exists (mp @ ''/'' @ HINT_FILE_NAME) ?h fs7 = (Inr (), fs8)"
    "copy_if_exists (mp @ ''/'' @ MERGE_FINISHED_FILE_NAME) ?m fs8 = (Inr (), fs9)"
    "taken_over mp dir fs6 fs9 ms hs"
    using merged_files_copied [OF w d] by blast
  have t: "fs_within dir fs6 fs9" "fs_dirs fs9 = fs_dirs fs1" "fs_get fs9 (get_data_file_name dir 0) = Some (encs ms)"
    "\<And>fid. fid \<noteq> 0 \<Longrightarrow> fs_get fs9 (get_data_file_name dir fid) = None" "fs_get fs9 ?h = Some (encs hs)"
    and w6: "fs_within mp fs1 fs6" "holds_log (encs ms) ms" "\<forall>h \<in> set hs. hint_ok h" "length (encs hs) < 2 ^ 63"
    using cp(4) w by (simp_all add: taken_over_def merge_written_def)
  have pages: "fs_page_size fs9 = fs_page_size fs1" using t(1) w6(1) by (simp add: fs_within_def)
  have "file_exists (get_data_file_name dir fid) fs9 \<longleftrightarrow> unat fid < 1" for fid
    using t(3,4) by (cases "fid = 0") (simp_all add: file_exists_def unat_eq_0)
  then have disk: "disk_log dir fs9 (\<lambda>_. ms) 1"
    using d t(2,3) w6(2) page pages
    by (auto simp: disk_log_def mergeable_dir_def directory_exists_def MAX_SCAN_FILES_def unat_eq_0)
  define db1 where "db1 = db\<lparr>db_older_files := [], db_active_file := None, db_reclaim_size := 0, db_file_ids := []\<rparr>"
  have "opt_dir_path (db_options db1) = dir" "\<not> opt_mmap_at_startup (db_options db1)" "db_older_files db1 = []"
    using dir opts by (simp_all add: db1_def session_options_def)
  from load_data_files_log [OF disk this] obtain older where
    older: "load_data_files db1 fs9 = (Inr (), db1\<lparr>db_file_ids := first_ids 1, db_active_file := Some (opened dir (last_id 1)),
        db_older_files := older\<rparr>, fs9)" "\<forall>fid. map_of older fid = None" by auto
  have "map_of older = Map.empty" using older(2) by (simp add: fun_eq_iff)
  then have "older = []" by simp
  define db2 where "db2 = db1\<lparr>db_file_ids := [0], db_active_file := Some (opened dir 0), db_older_files := []\<rparr>"
  have load: "load_data_files db1 fs9 = (Inr (), db2, fs9)"
    using older(1) \<open>older = []\<close> by (simp add: db2_def last_id_def)
  have db2: "db_options db2 = db_options db" "db_index db2 = db_index db" "db_active_file db2 = Some (opened dir 0)"
    "db_older_files db2 = []" "db_file_ids db2 = [0]" by (simp_all add: db2_def db1_def)
  have nodir: "\<not> directory_exists ?h fs9" using d t(2) by (simp add: mergeable_dir_def directory_exists_def)
  define fs10 where "fs10 = fs_remove ?m fs9"
  obtain db3 where reb: "rebuild_index coins (db_seq_no db) db2 fs9 = (Inr (), db3, fs10)"
    "db_log db3 fs10 (\<lambda>_. ms) [0]" "db_options db3 = db_options db" "db_seq_no db3 = db_seq_no db"
    using rebuild_index_ok [of db2 fs9 ms hs coins "db_seq_no db"] opts mem keys disk t(3,5) w6(3,4) nodir
    unfolding fs10_def db2 dir by auto
  have sub: "directory_exists mp fs10" "\<not> directory_exists (mp @ ''/'' @ s) fs10" for s
    using flat(1) flat(2) [of s] by (simp_all add: fs10_def directory_exists_def t(2))
  define fs' where "fs' = remove_directory mp fs10"
  note rm = remove_directory_within [OF sub(2,1)]
  define db' where "db' = db3\<lparr>db_reclaim_size := 0\<rparr>"
  have take: "take_over coins mp db fs6 = (Inr (), db', fs')"
    using cp(1-3) load reb(1) dir by (simp add: take_over_def Let_def db1_def db'_def fs'_def)
  have at: "fs_get fs' q = fs_get fs10 q" if "\<not> under mp q" for q
    using rm(1) that by (simp add: fs_within_def fs'_def)
  have log: "db_log db' fs' (\<lambda>_. ms) [0]"
  proof -
    have "db_log db' fs10 (\<lambda>_. ms) [0]" using reb(2) by (subst db_log_frame [where db = db3]) (simp_all add: db'_def)
    then show ?thesis
      by (rule db_log_fs) (use rm(1) names(5) in \<open>simp_all add: at fs'_def fs_within_def db'_def reb(3) dir\<close>)
  qed
  have data: "fs_get fs' (get_data_file_name dir 0) = Some (encs ms)"
    using names(5) t(3) by (simp add: at fs10_def)
  have rest: "fs_get fs' q = fs_get fs1 q" if q: "\<not> under dir q" "\<not> under mp q" for q
  proof -
    have "fs_get fs10 q = fs_get fs9 q" using q(1) by (auto simp: fs10_def)
    then show ?thesis using at [OF q(2)] t(1) w6(1) q by (simp add: fs_within_def)
  qed
  have "fs_dirs fs' = removeAll mp (fs_dirs fs1)" "fs_page_size fs' = fs_page_size fs1"
    using rm by (simp_all add: fs'_def fs10_def t(2) fs_within_def pages)
  then show ?thesis
    using take log data rest reb(3,4) by (intro exI [of _ db'] exI [of _ fs']) (simp add: db'_def)
qed

section \<open>The whole merge\<close>

text \<open>\<open>close\<close> of a database whose directory was removed makes the directory again.\<close>

lemma DB_close_recreates:
  fixes db :: db
  defines "mp \<equiv> opt_dir_path (db_options db)"
  assumes free: "mp \<noteq> []" "parents_exist mp fs" "\<not> directory_exists mp fs" "\<not> file_exists mp fs"
    "\<not> file_exists (dir_name mp) fs" "\<And>s. \<not> directory_exists (mp @ ''/'' @ s) fs"
    and mem: "in_memory (db_index db)"
  shows "\<exists>db' fs'. DB_close db fs = (Inr (), db', fs') \<and> fs_within mp fs fs'"
proof -
  let ?data = "get_data_file_name mp 0"
  define fs1 where "fs1 = fs\<lparr>fs_dirs := mp # fs_dirs fs\<rparr>"
  define fs2 where "fs2 = (if file_exists ?data fs then fs1 else fs_put ?data [] fs1)"
  have cr: "create_directory mp fs = fs1" using create_directory_new free by (simp add: fs1_def)
  obtain s where s: "?data = mp @ CHR ''/'' # s" by (auto simp: get_data_file_name_def)
  then have nodir: "\<not> directory_exists ?data fs1" "?data \<noteq> mp"
    using free(6) [of s] by (auto simp: fs1_def directory_exists_def)
  have mp1: "directory_exists mp fs1" by (simp add: fs1_def directory_exists_def)
  have "DataFile_new mp 0 STANDARD_FIO fs = DataFile_new mp 0 STANDARD_FIO fs2"
    using free(1,3) cr nodir mp1
    by (simp add: DataFile_new_def create_io_manager_def FileIOManager_new_def Let_def fs2_def directory_exists_def)
      (simp add: fs1_def file_exists_def)
  then have "save_seq_no db fs = save_seq_no db fs2"
    by (simp add: save_seq_no_def open_seq_no_file_def open_special_file_def mp_def)
  then have close: "DB_close db fs = DB_close db fs2" by (simp add: DB_close_def)
  have "directory_exists mp fs2" "file_exists ?data fs2" "\<not> directory_exists ?data fs2"
    "\<not> directory_exists (mp @ ''/'' @ SEQ_NO_FILE_NAME) fs2"
    using mp1 nodir free(6) [of SEQ_NO_FILE_NAME] by (auto simp: fs2_def fs1_def file_exists_def directory_exists_def)
  from DB_close_effect [of db fs2, folded mp_def, OF free(1) this mem]
  obtain db' fs' where c: "DB_close db fs2 = (Inr (), db', fs')" "fs_page_size fs' = fs_page_size fs2"
    "\<forall>q. q \<noteq> mp @ ''/'' @ SEQ_NO_FILE_NAME \<longrightarrow> fs_get fs' q = fs_get fs2 q" by blast
  have "fs_get fs' q = fs_get fs q" if q: "\<not> under mp q" for q
  proof -
    have "q \<noteq> mp @ ''/'' @ SEQ_NO_FILE_NAME" "q \<noteq> ?data" using q by auto
    then show ?thesis using c(3) by (simp add: fs2_def fs1_def)
  qed
  then show ?thesis using close c(1,2) by (auto simp: fs_within_def fs2_def fs1_def)
qed

lemma length_dir_name: "length (dir_name p) \<le> max 1 (length p)"
  by (auto simp: dir_name_def split: option.split)

lemma merge_dir_outside:
  assumes "dir \<noteq> []" "mp = dir @ MERGE_DIR_SUFFIX"
  shows "\<not> under dir mp" "\<not> under mp mp" "\<not> under dir (dir_name mp)" "\<not> under mp (dir_name mp)"
proof -
  show "\<not> under dir mp" "\<not> under mp mp" using assms by (simp_all add: under_def MERGE_DIR_SUFFIX_def)
  show "\<not> under dir (dir_name mp)" using dir_name_merge_dir assms by simp
  have "length (dir_name mp) \<le> length mp"
    using length_dir_name [of mp] assms by (cases dir) simp_all
  then show "\<not> under mp (dir_name mp)" by (auto simp: under_def)
qed

text \<open>
  When a merge goes through: one data file that is not empty, enough to reclaim and enough space;
  keys that are read back as they were written; a file that fits in one file of the merge; and a
  merge directory that does not exist but can be made.
\<close>

definition mergeable :: "u64 \<Rightarrow> db \<Rightarrow> fsys \<Rightarrow> bool" where
  "mergeable available db fs \<longleftrightarrow>
     db_older_files db = [] \<and> \<not> db_is_merging db \<and> should_merge db fs \<and> \<not> available < 100 * 1024 * 1024
     \<and> (\<forall>k \<in> set (DB_list_keys db). plain_key k)
     \<and> (\<exists>c. fs_get fs (data_name db 0) = Some c \<and> c \<noteq> [] \<and> length c \<le> unat (opt_data_file_size (db_options db))
          \<and> 64 * length c + fs_page_size fs < 2 ^ 63)
     \<and> merge_dir_free (opt_dir_path (db_options db) @ MERGE_DIR_SUFFIX) fs
     \<and> \<not> directory_exists (opt_dir_path (db_options db) @ ''/'' @ HINT_FILE_NAME) fs
     \<and> \<not> directory_exists (opt_dir_path (db_options db) @ ''/'' @ MERGE_FINISHED_FILE_NAME) fs"

text \<open>What the merge leaves of the database.\<close>

definition merge_result :: "db \<Rightarrow> fsys \<Rightarrow> db \<Rightarrow> fsys \<Rightarrow> bool" where
  "merge_result db fs db' fs' \<longleftrightarrow>
     (\<forall>k. DB_get k db' fs' = DB_get k db fs)
     \<and> (\<exists>ms. fs_get fs' (data_name db 0) = Some (encs ms) \<and> distinct (map lr_key ms)
          \<and> (\<forall>r \<in> set ms. DB_get (lr_key r) db fs = Inr (lr_value r)))
     \<and> db_reclaim_size db' = 0 \<and> \<not> db_is_merging db'"

lemma merge_body_ok:
  assumes run: "running db fs logs n" and m: "mergeable available db0 fs" and db0: "db = db0\<lparr>db_is_merging := True\<rparr>"
  shows "\<exists>db' fs'. merge_body coins db fs = (Inr (), db', fs') \<and> merge_result db fs (db'\<lparr>db_is_merging := False\<rparr>) fs'"
proof -
  let ?dir = "opt_dir_path (db_options db)" and ?o = "db_options db"
  let ?mp = "opt_dir_path (db_options db) @ MERGE_DIR_SUFFIX"
  have older: "db_older_files db = []" using m by (simp add: db0 mergeable_def)
  note single = running_single [OF run older]
  obtain df :: data_file where df: "db_active_file db = Some df" "df_file_id df = 0"
    and data: "fs_get fs (get_data_file_name ?dir 0) = Some (encs (logs 0))"
    using single(2) by blast
  have run1: "running db fs logs 1" using run single(1) by simp
  have opts: "session_options ?o" and disk: "disk_log ?dir fs logs 1" and holds: "db_holds db (fst (replay (layout 0 0 (logs 0))))"
    using run1 by (simp_all add: running_def log_inv_def)
  have d: "?dir \<noteq> []" "directory_exists ?dir fs" "0 < fs_page_size fs"
    "\<not> directory_exists (get_data_file_name ?dir 0) fs" "file_exists (get_data_file_name ?dir 0) fs"
    using disk by (simp_all add: disk_log_def)
  have nof: "fs_get fs (get_data_file_name ?dir fid) = None" if "fid \<noteq> 0" for fid
    using disk that by (auto simp: disk_log_def file_exists_def unat_eq_0)
  have rs: "\<forall>r \<in> set (logs 0). readable r"
  proof -
    have "\<forall>fid. unat fid < 1 \<longrightarrow> (\<exists>c. fs_get fs (get_data_file_name ?dir fid) = Some c \<and> holds_log c (logs fid))"
      using disk unfolding disk_log_def by blast
    from spec [OF this, of 0] show ?thesis by (auto simp: holds_log_def)
  qed
  have free: "merge_dir_free ?mp fs" and size: "length (encs (logs 0)) \<le> unat (opt_data_file_size ?o)"
      "64 * length (encs (logs 0)) + fs_page_size fs < 2 ^ 63"
    and nodirs: "\<not> directory_exists (?dir @ ''/'' @ HINT_FILE_NAME) fs" "\<not> directory_exists (?dir @ ''/'' @ MERGE_FINISHED_FILE_NAME) fs"
    using m data by (auto simp: mergeable_def db0)
  define fs1 where "fs1 = create_directory ?mp fs"
  note cr = merge_dir_created [OF free]
  have fs1: "fs1 = fs\<lparr>fs_dirs := ?mp # fs_dirs fs\<rparr>" using cr(1) by (simp add: fs1_def)
  have ne: "?mp \<noteq> ?dir" "get_data_file_name ?dir 0 \<noteq> ?mp" "?dir @ CHR ''/'' # s \<noteq> ?mp" for s
    by (simp_all add: MERGE_DIR_SUFFIX_def get_data_file_name_def)
  have dir1: "mergeable_dir ?mp ?dir fs1"
    using d nodirs nof ne by (simp add: mergeable_dir_def fs1 directory_exists_def)
  note names = mergeable_dir_names [OF dir1]
  define db1 where "db1 = db\<lparr>db_older_files := [(0, df)], db_active_file := Some (opened ?dir 0)\<rparr>"
  have rot: "rotate_merge_files db fs1 = (Inr [opened ?dir 0], db1, fs1)"
    using rotate_single [OF df older refl d(1), of fs1] dir1 d(5)
    by (simp add: db1_def mergeable_dir_def file_exists_def fs1)
  have mo: "session_options (merge_options ?mp ?o)"
    using opts names(1) by (auto simp: session_options_def merge_options_def check_options_def split: if_splits)
  have lock: "lock_name (merge_options ?mp ?o) \<notin> set (fs_locks fs1)"
    using free by (simp add: lock_name_def merge_options_def fs1 merge_dir_free_def)
  define fs2 where "fs2 = fs_put (get_data_file_name ?mp 0) [] (locked_fs ?mp fs1)"
  have page1: "fs_page_size fs1 = fs_page_size fs" by (simp add: fs1)
  obtain mdb where mdb: "DB_open coins (merge_options ?mp ?o) fs1 = (Inr mdb, fs2)"
    "running mdb fs2 (\<lambda>_. []) 1" "db_options mdb = merge_options ?mp ?o" "db_older_files mdb = []"
    using open_fresh [OF mo _ _ lock, of coins] cr(2) d(3) page1
    by (auto simp: merge_options_def fs1_def fs2_def)
  have mpdir: "opt_dir_path (db_options mdb) = ?mp" by (simp add: mdb(3) merge_options_def)
  have idx: "idx_ok (db_index db)" "in_memory (db_index db)"
    "idx_abs (db_index db) = map_option fst \<circ> fst (replay (layout 0 0 (logs 0)))"
    using holds by (simp_all add: db_holds_def)
  have plain: "plain_key k" if "fst (replay (layout 0 0 (logs 0))) k \<noteq> None" for k
  proof -
    have "k \<in> set (idx_list_keys (db_index db))" using ix.keys_set [OF idx(1)] that by (auto simp: idx(3))
    then show ?thesis using m by (simp add: mergeable_def db0 DB_list_keys_def)
  qed
  have valid: "valid_records (db_index db1) = map_option fst \<circ> fst (replay (layout 0 0 (logs 0)))"
    using valid_records_abs [OF idx(1)] idx(3) by (simp add: db1_def)
  have vne: "k \<noteq> []" if "valid_records (db_index db1) k \<noteq> None" for k
    using that plain [of k] by (auto simp: valid plain_key_def)
  have l63: "length (encs (logs 0)) < 2 ^ 63" using size(2) by simp
  define ms where "ms = merged (valid_records (db_index db1)) (layout 0 0 (logs 0))"
  note cm = committed_merged [where fid = 0 and rs = "logs 0", OF l63]
  have com: "committed ms = committed (logs 0)" "\<And>r. r \<in> set ms \<Longrightarrow> plain_key (lr_key r)" "keys_ok ms"
    "distinct (map lr_key ms)" "\<And>r. r \<in> set ms \<Longrightarrow> committed (logs 0) (lr_key r) = Some (lr_value r)"
    unfolding ms_def valid by (rule cm(1), erule plain) (rule cm(2), erule plain, assumption, rule cm(3), erule plain,
      rule cm(4), erule plain, rule cm(5), erule plain, assumption)
  have src: "fs_get fs1 (get_data_file_name ?dir 0) = Some (encs (logs 0))" by (simp add: fs1 data)
  have fsz: "length (encs (logs 0)) \<le> unat (opt_data_file_size (db_options mdb))"
    using size(1) by (simp add: mdb(3) merge_options_def)
  have size1: "64 * length (encs (logs 0)) + fs_page_size fs1 < 2 ^ 63" using size(2) page1 by simp
  have "\<exists>mdb' fs6 hs. merge_with coins ?mp [opened ?dir 0] mdb db1 fs2
      = (case take_over coins ?mp db1 fs6 of (r, db', fs') \<Rightarrow> (r, mdb', db', fs'))
    \<and> merge_written ?mp fs1 fs6 ms hs \<and> in_memory (db_index mdb') \<and> db_options mdb' = db_options mdb"
    unfolding ms_def
    by (rule merge_writes [OF mdb(2) mpdir mdb(4) fs2_def cr(2) [folded fs1_def] src names(4) rs _ fsz size1]) (rule vne)
  then obtain mdb' fs6 hs where w: "merge_with coins ?mp [opened ?dir 0] mdb db1 fs2
      = (case take_over coins ?mp db1 fs6 of (r, db', fs') \<Rightarrow> (r, mdb', db', fs'))"
    "merge_written ?mp fs1 fs6 ms hs" "in_memory (db_index mdb')" "db_options mdb' = db_options mdb" by blast
  have flat: "directory_exists ?mp fs1" "\<not> directory_exists (?mp @ ''/'' @ s) fs1" for s
    using cr(2) by (simp_all add: empty_dir_def fs1_def)
  have db1: "db_options db1 = ?o" "in_memory (db_index db1)" "opt_dir_path (db_options db1) = ?dir"
    using idx(2) by (simp_all add: db1_def)
  obtain db' fs7 where t: "take_over coins ?mp db1 fs6 = (Inr (), db', fs7)" "db_log db' fs7 (\<lambda>_. ms) [0]"
    "db_options db' = ?o" "db_reclaim_size db' = 0"
    "fs_get fs7 (get_data_file_name ?dir 0) = Some (encs ms)"
    "fs_dirs fs7 = removeAll ?mp (fs_dirs fs1)" "fs_page_size fs7 = fs_page_size fs1"
    "\<forall>q. \<not> under ?dir q \<longrightarrow> \<not> under ?mp q \<longrightarrow> fs_get fs7 q = fs_get fs1 q"
    using take_over_ok [OF w(2) dir1 _ db1(3) _ db1(2) com(3) flat, of coins] d(3) opts by (auto simp: db1(1) page1)
  note outside = merge_dir_outside [OF d(1) refl]
  have free': "?mp \<notin> set (fs_dirs fs)" using free by (simp add: merge_dir_free_def directory_exists_def)
  have dirs7: "fs_dirs fs7 = fs_dirs fs" using free' by (simp add: t(6) fs1)
  have get7: "fs_get fs7 q = fs_get fs q" if "\<not> under ?dir q" "\<not> under ?mp q" for q
    using t(8) that by (simp add: fs1)
  have mpdir': "opt_dir_path (db_options mdb') = ?mp" using w(4) mpdir by simp
  have "?mp \<noteq> []" "parents_exist ?mp fs7" "\<not> directory_exists ?mp fs7" "\<not> file_exists ?mp fs7"
    "\<not> file_exists (dir_name ?mp) fs7" "\<And>s. \<not> directory_exists (?mp @ ''/'' @ s) fs7"
    using free get7 [OF outside(1,2)] get7 [OF outside(3,4)]
    by (simp_all add: merge_dir_free_def parents_exist_def directory_exists_def dirs7 file_exists_def)
  from DB_close_recreates [of mdb' fs7, unfolded mpdir', OF this w(3)]
  obtain mdb2 fs8 where close: "DB_close mdb' fs7 = (Inr (), mdb2, fs8)" "fs_within ?mp fs7 fs8" by blast
  have body: "merge_body coins db fs = (Inr (), db', fs8)"
    using rot mdb(1) w(1) t(1) close(1) free'
    by (simp add: merge_body_def Let_def get_merge_path_eq directory_exists_def fs1_def [symmetric] db1(1))
  have at: "fs_get fs8 (get_data_file_name ?dir fid) = fs_get fs7 (get_data_file_name ?dir fid)" for fid
    using close(2) names(5) by (simp add: fs_within_def)
  have "db_log db' fs8 (\<lambda>_. ms) [0]"
    by (rule db_log_fs [OF t(2)]) (use at close(2) in \<open>simp_all add: t(3) fs_within_def\<close>)
  then have log: "db_log (db'\<lparr>db_is_merging := False\<rparr>) fs8 (\<lambda>_. ms) [0]"
    by (subst db_log_frame [where db = db']) simp_all
  have get: "DB_get k db fs = (if k = [] then Inl KeyEmptyError
      else case committed (logs 0) k of None \<Rightarrow> Inl KeyNotFoundError | Some v \<Rightarrow> Inr v)" for k
    using running_get [OF run1] by (simp add: records_def)
  have "DB_get k (db'\<lparr>db_is_merging := False\<rparr>) fs8 = DB_get k db fs" for k
    using db_log_inv(3) [OF log, of k] com(1) get [of k] by (simp add: records_def)
  moreover have "DB_get (lr_key r) db fs = Inr (lr_value r)" if "r \<in> set ms" for r
    using get [of "lr_key r"] com(2,5) [OF that] by (simp add: plain_key_def)
  moreover have "fs_get fs8 (get_data_file_name ?dir 0) = Some (encs ms)" by (simp add: at t(5))
  ultimately have "merge_result db fs (db'\<lparr>db_is_merging := False\<rparr>) fs8"
    unfolding merge_result_def using com(4) t(4) by auto
  with body show ?thesis by blast
qed

lemma running_merging: "running (db\<lparr>db_is_merging := b\<rparr>) fs logs n = running db fs logs n"
proof -
  have "files_to_process (db\<lparr>db_is_merging := b\<rparr>) = files_to_process db"
    by (rule files_to_process_frame) simp_all
  moreover have "find_data_file fid (db\<lparr>db_is_merging := b\<rparr>) = find_data_file fid db" for fid
    by (rule find_data_file_frame) simp_all
  ultimately show ?thesis
    by (simp add: running_def log_inv_def log_files_def files_ok_def files_hold_def db_holds_def)
qed

lemma DB_get_merging: "DB_get k (db\<lparr>db_is_merging := b\<rparr>) fs = DB_get k db fs"
proof -
  have "get_value_by_position pos (db\<lparr>db_is_merging := b\<rparr>) fs = get_value_by_position pos db fs" for pos
    using find_data_file_frame [of "db\<lparr>db_is_merging := b\<rparr>" db] by (simp add: get_value_by_position_def)
  then show ?thesis by (simp add: DB_get_def split: option.split)
qed

text \<open>
  C5: a merge keeps the contents and leaves one record per key. In any state of a running
  database (every state of a session is one) in which the merge can go through (\<open>mergeable\<close>), \<open>merge\<close> returns; afterwards \<open>get\<close> gives for every key what
  it gave before, the data file holds exactly one record for each key it holds, with the value that
  \<open>get\<close> returns, nothing is left to reclaim and the merging flag is off.
\<close>

theorem DB_merge_keeps:
  assumes run: "running db fs logs n" and ok: "mergeable available db fs"
  shows "\<exists>db' fs'. DB_merge coins available db fs = (Inr (), db', fs') \<and> merge_result db fs db' fs'"
proof -
  let ?db = "db\<lparr>db_is_merging := True\<rparr>"
  have "running ?db fs logs n" using run by (simp add: running_merging)
  then obtain db' fs' where body: "merge_body coins ?db fs = (Inr (), db', fs')"
    "merge_result ?db fs (db'\<lparr>db_is_merging := False\<rparr>) fs'"
    using merge_body_ok [OF _ ok refl] by blast
  have res: "merge_result db fs (db'\<lparr>db_is_merging := False\<rparr>) fs'" using body(2) by (simp add: merge_result_def DB_get_merging)
  have older: "db_older_files db = []" using ok by (simp add: mergeable_def)
  obtain df :: data_file where df: "db_active_file db = Some df" "df_write_off df = log_end logs 0"
    "fs_get fs (data_name db 0) = Some (encs (logs 0))"
    using running_single(2) [OF run older] by blast
  obtain c where c: "fs_get fs (data_name db 0) = Some c" "c \<noteq> []" "64 * length c + fs_page_size fs < 2 ^ 63"
    using ok unfolding mergeable_def by blast
  then have "0 < length c" "length c < 2 ^ 64" by simp_all
  then have "unat (of_nat (length c) :: u64) \<noteq> 0" by (simp add: unat_of_nat_u64)
  then have "df_write_off df \<noteq> 0" using df(2,3) c(1) by (auto simp: log_end_def)
  moreover have "should_merge ?db fs = should_merge db fs" by (simp add: should_merge_def)
  ultimately have "DB_merge coins available db fs = (Inr (), db'\<lparr>db_is_merging := False\<rparr>, fs')"
    using body(1) df(1) ok older by (simp add: DB_merge_def get_write_off_def mergeable_def Let_def)
  with res show ?thesis by blast
qed

text \<open>For the witness: a database with one data file does not depend on its older files.\<close>

lemma running_alone:
  assumes run: "running db fs logs 1"
  shows "running (db\<lparr>db_older_files := [], db_file_ids := [0], db_reclaim_size := r, db_is_merging := False\<rparr>) fs logs 1"
proof -
  let ?db = "db\<lparr>db_older_files := [], db_file_ids := [0], db_reclaim_size := r, db_is_merging := False\<rparr>"
  have files: "log_files db fs logs [0]" using run by (simp add: running_def log_inv_def)
  then obtain df :: data_file where df: "db_active_file db = Some df" "df_file_id df = 0"
    by (auto simp: log_files_def)
  have find: "find_data_file 0 ?db = Some df" "find_data_file 0 db = Some df"
    by (simp_all add: find_data_file_def df)
  have proc: "files_to_process ?db = [(0, df)]" using find by (simp add: files_to_process_def df)
  have "files_hold ?db fs logs [0]"
    using files unfolding log_files_def files_hold_def proc by (auto simp: df find)
  then have "log_files ?db fs logs [0]" using files by (simp add: log_files_def files_ok_def)
  then show ?thesis using run by (simp add: running_def log_inv_def db_holds_def)
qed

lemma parents_exist_flat: "CHR ''/'' \<notin> set d \<Longrightarrow> parents_exist d fs"
  by (auto simp: parents_exist_def in_set_conv_nth)

theorem DB_merge_keeps_witness:
  "\<exists>db fs db' fs'. DB_merge (\<lambda>_ _. True) 200000000 db fs = (Inr (), db', fs') \<and> merge_result db fs db' fs'
    \<and> DB_get [107] db' fs' = Inr [1]"
proof -
  let ?rs = "[put_record [107] [2], put_record [107] [1]]"
  let ?fs = "wit_dbfs\<lparr>fs_files := [(''d/000000000.data'', encs ?rs)]\<rparr>"
  have p: "plain_key [k]" for k by (rule plain_key_short) simp_all
  have rd: "\<forall>r \<in> set ?rs. readable r" using plain_records(5) [OF p] by (simp add: MAX_RECORD_SIZE_def)
  have len: "length (encs ?rs) = 18" by (simp add: length_enc_wit)
  have recs: "records (\<lambda>_. ?rs) (first_ids 1) = ?rs" by (simp add: records_def)
  have com: "committed ?rs = [[107] \<mapsto> [1]]"
    using committed_snoc [of "put_record [107] [1]" "[107]" "[put_record [107] [2]]"]
      committed_snoc [of "put_record [107] [2]" "[107]" "[]"] plain_records [OF p] committed_Nil
    by (simp add: put_record_def)
  have open': "openable wit_options ?fs (\<lambda>_. ?rs) 1"
    using wit_disk [OF rd _ , of ?fs] len plain_records(1) [OF p]
    by (simp add: openable_def session_options_def check_options_def last_id_def wit_name records_def keys_ok_def fs_get_def)
  define fs where "fs = locked_fs ''d'' ?fs"
  obtain db0 where o: "DB_open (\<lambda>_ _. True) wit_options ?fs = (Inr db0, fs)" "running db0 fs (\<lambda>_. ?rs) 1"
    "db_options db0 = wit_options"
    using open_running [OF open', of "\<lambda>_ _. True"] by (auto simp: fs_def)
  define db where "db = db0\<lparr>db_older_files := [], db_file_ids := [0], db_reclaim_size := 9, db_is_merging := False\<rparr>"
  have run: "running db fs (\<lambda>_. ?rs) 1" unfolding db_def by (rule running_alone [OF o(2)])
  have files: "fs_files fs = [(''d/000000000.data'', encs ?rs), (''d/flock'', [])]" "fs_dirs fs = [''d'']"
    "fs_locks fs = [''d/flock'']" "fs_page_size fs = 4096"
    by (simp_all add: fs_def locked_fs_def Let_def FILE_LOCK_NAME_def file_exists_def fs_get_def fs_put_def)
  have get: "fs_get fs q = (if q = ''d/000000000.data'' then Some (encs ?rs) else if q = ''d/flock'' then Some [] else None)" for q
    by (simp add: fs_get_def files)
  have db: "db_options db = wit_options" "db_reclaim_size db = 9" "\<not> db_is_merging db" "db_older_files db = []"
    by (simp_all add: db_def o(3))
  have "session_inv wit_options [[107] \<mapsto> [1]] db0 fs (\<lambda>_. ?rs) 1"
    using session_inv_open [OF open' o(1)] by (simp only: recs com)
  from session_keys [OF this] have "set (DB_list_keys db) = {[107]}"
    by (simp add: DB_list_keys_def db_def)
  then have keys: "\<forall>k \<in> set (DB_list_keys db). plain_key k" using p by simp
  have "dir_size ''d'' fs = 18"
    using len by (simp add: dir_size_def files file_entries_def dir_entries_def entry_name_def
        directory_exists_def get List.map_filter_def eval_nat_numeral)
  then have should: "should_merge db fs" by (simp add: should_merge_def db)
  have free: "merge_dir_free (''d'' @ MERGE_DIR_SUFFIX) fs"
    using parents_exist_flat [of "''d-merge''"]
    by (simp add: merge_dir_free_def MERGE_DIR_SUFFIX_def directory_exists_def files
        file_exists_def get dir_name_def FILE_LOCK_NAME_def)
  have "mergeable 200000000 db fs"
    unfolding mergeable_def using keys should free len
    by (simp add: db wit_name get directory_exists_def files)
  then obtain db' fs' where m: "DB_merge (\<lambda>_ _. True) 200000000 db fs = (Inr (), db', fs')" "merge_result db fs db' fs'"
    using DB_merge_keeps [OF run] by blast
  have "DB_get [107] db fs = Inr [1]"
    using running_get [OF run, of "[107]"] by (simp only: recs com) simp
  then have "DB_get [107] db' fs' = Inr [1]" using m(2) by (simp add: merge_result_def)
  then show ?thesis using m by blast
qed

end
