(* ===== verification/Redis_Data.thy ===== *)
theory Redis_Data
  imports Db_Iterator Db_Open
begin

text \<open>
  The Redis data types over the engine (\<open>src/redis_data_structure.cpp\<close>): strings with a time to live,
  hashes, sets, lists and sorted sets. A collection is a metadata record under its key and one
  record per element, under an internal key built from the key, the version of the collection and
  the element. The state is the database and the file system; the clock is a parameter: \<open>clock 0\<close> is
  the time at which an operation tests expiry, \<open>clock 1\<close> the time it takes for a new version. A
  \<open>double\<close> is its bit pattern, which is all the code looks at.
\<close>

section \<open>Metadata\<close>

text \<open>\<open>enum class RedisDataType : uint8_t\<close>; a byte read from a file may be none of the enumerators.\<close>

datatype redis_data_type = STRING | HASH | SET | LIST | ZSET | OTHER_DATA_TYPE u8

definition data_type_to_byte :: "redis_data_type \<Rightarrow> u8" where
  "data_type_to_byte t =
     (case t of STRING \<Rightarrow> 0 | HASH \<Rightarrow> 1 | SET \<Rightarrow> 2 | LIST \<Rightarrow> 3 | ZSET \<Rightarrow> 4 | OTHER_DATA_TYPE b \<Rightarrow> b)"

definition data_type_of_byte :: "u8 \<Rightarrow> redis_data_type" where
  "data_type_of_byte b =
     (if b = 0 then STRING else if b = 1 then HASH else if b = 2 then SET else if b = 3 then LIST
      else if b = 4 then ZSET else OTHER_DATA_TYPE b)"

record redis_metadata =
  md_data_type :: redis_data_type
  md_expire :: u64
  md_version :: u64
  md_size :: u32
  md_head :: u64
  md_tail :: u64

definition RedisMetadata_new :: redis_metadata where
  "RedisMetadata_new =
     \<lparr>md_data_type = STRING, md_expire = 0, md_version = 0, md_size = 0, md_head = 0, md_tail = 0\<rparr>"

definition RedisMetadata_encode :: "redis_metadata \<Rightarrow> bytes" where
  "RedisMetadata_encode m =
     [data_type_to_byte (md_data_type m)] @ le_encode 8 (md_expire m) @ le_encode 8 (md_version m)
     @ le_encode 4 (ucast (md_size m))
     @ (if md_data_type m = LIST then le_encode 8 (md_head m) @ le_encode 8 (md_tail m) else [])"

text \<open>The bytes from \<open>offset\<close> on, as a little-endian number.\<close>

definition read_le :: "nat \<Rightarrow> nat \<Rightarrow> bytes \<Rightarrow> u64" where
  "read_le offset n b = le_decode (take n (drop offset b))"

definition RedisMetadata_decode :: "bytes \<Rightarrow> redis_metadata res" where
  "RedisMetadata_decode b =
     (if length b < 21 then Inl (BitcaskException ''Invalid metadata size'')
      else
        (let m = RedisMetadata_new\<lparr>md_data_type := data_type_of_byte (b ! 0), md_expire := read_le 1 8 b,
                   md_version := read_le 9 8 b, md_size := ucast (read_le 17 4 b)\<rparr>
         in Inr (if md_data_type m = LIST \<and> length b \<ge> 37
                 then m\<lparr>md_head := read_le 21 8 b, md_tail := read_le 29 8 b\<rparr> else m)))"

section \<open>Internal keys\<close>

record hash_internal_key =
  hk_key :: bytes
  hk_version :: u64
  hk_field :: bytes

definition HashInternalKey_encode :: "hash_internal_key \<Rightarrow> bytes" where
  "HashInternalKey_encode k = hk_key k @ le_encode 8 (hk_version k) @ hk_field k"

record set_internal_key =
  sk_key :: bytes
  sk_version :: u64
  sk_member :: bytes

definition SetInternalKey_encode :: "set_internal_key \<Rightarrow> bytes" where
  "SetInternalKey_encode k = sk_key k @ le_encode 8 (sk_version k) @ sk_member k"

record list_internal_key =
  lk_key :: bytes
  lk_version :: u64
  lk_index :: u64

definition ListInternalKey_encode :: "list_internal_key \<Rightarrow> bytes" where
  "ListInternalKey_encode k = lk_key k @ le_encode 8 (lk_version k) @ le_encode 8 (lk_index k)"

type_synonym double_bits = u64

record zset_internal_key =
  zk_key :: bytes
  zk_version :: u64
  zk_score :: double_bits
  zk_member :: bytes

definition ZSetInternalKey_encode :: "zset_internal_key \<Rightarrow> bytes" where
  "ZSetInternalKey_encode k =
     zk_key k @ le_encode 8 (zk_version k) @ le_encode 8 (zk_score k) @ zk_member k"

section \<open>The engine below\<close>

type_synonym rds = "db \<times> fsys"

definition db_put :: "bytes \<Rightarrow> bytes \<Rightarrow> rds \<Rightarrow> unit res \<times> rds" where
  "db_put k v s = DB_put k v (fst s) (snd s)"

definition db_get :: "bytes \<Rightarrow> rds \<Rightarrow> bytes res" where
  "db_get k s = DB_get k (fst s) (snd s)"

definition db_remove :: "bytes \<Rightarrow> rds \<Rightarrow> unit res \<times> rds" where
  "db_remove k s = DB_remove k (fst s) (snd s)"

text \<open>\<open>catch (const KeyNotFoundError&)\<close>\<close>

definition catch_not_found :: "'a res \<times> rds \<Rightarrow> (rds \<Rightarrow> 'a res \<times> rds) \<Rightarrow> 'a res \<times> rds" where
  "catch_not_found m h =
     (case m of (Inl e, s) \<Rightarrow> (if e = KeyNotFoundError then h s else (Inl e, s)) | (Inr x, s) \<Rightarrow> (Inr x, s))"

section \<open>Private methods\<close>

definition INITIAL_LIST_MARK :: u64 where "INITIAL_LIST_MARK = 0xFFFFFFFFFFFFFFFF div 2"

definition is_expired :: "u64 \<Rightarrow> u64 \<Rightarrow> bool" where
  "is_expired current_timestamp expire_time \<longleftrightarrow> expire_time > 0 \<and> expire_time \<le> current_timestamp"

definition new_metadata :: "u64 \<Rightarrow> redis_data_type \<Rightarrow> redis_metadata" where
  "new_metadata current_timestamp data_type =
     (let m = RedisMetadata_new\<lparr>md_data_type := data_type, md_version := current_timestamp\<rparr>
      in if data_type = LIST then m\<lparr>md_head := INITIAL_LIST_MARK, md_tail := INITIAL_LIST_MARK\<rparr> else m)"

definition find_metadata ::
    "(nat \<Rightarrow> u64) \<Rightarrow> string \<Rightarrow> redis_data_type \<Rightarrow> rds \<Rightarrow> redis_metadata res \<times> rds" where
  "find_metadata clock key data_type s =
     catch_not_found
       (bind_res (db_get (string_to_bytes key) s, s)
       (\<lambda>metadata_bytes s. bind_res (RedisMetadata_decode metadata_bytes, s)
       (\<lambda>metadata s.
          if md_data_type metadata \<noteq> data_type then (Inl (BitcaskException ''Wrong type operation''), s)
          else if is_expired (clock 0) (md_expire metadata)
          then bind_res (db_remove (string_to_bytes key) s)
                 (\<lambda>_ s. (Inr (new_metadata (clock 1) data_type), s))
          else (Inr metadata, s))))
       (\<lambda>s. (Inr (new_metadata (clock 1) data_type), s))"

text \<open>Whether a key is there: \<open>try { get } catch (KeyNotFoundError)\<close>.\<close>

definition db_has :: "bytes \<Rightarrow> rds \<Rightarrow> bool res \<times> rds" where
  "db_has k s = catch_not_found (bind_res (db_get k s, s) (\<lambda>_ s. (Inr True, s))) (\<lambda>s. (Inr False, s))"

text \<open>The end of an operation that took an element away.\<close>

definition put_metadata :: "string \<Rightarrow> redis_metadata \<Rightarrow> rds \<Rightarrow> unit res \<times> rds" where
  "put_metadata key metadata s = db_put (string_to_bytes key) (RedisMetadata_encode metadata) s"

definition shrink_metadata :: "string \<Rightarrow> redis_metadata \<Rightarrow> rds \<Rightarrow> unit res \<times> rds" where
  "shrink_metadata key metadata s =
     (if md_size metadata = 0 then db_remove (string_to_bytes key) s else put_metadata key metadata s)"

section \<open>Strings\<close>

text \<open>\<open>ttl\<close> in milliseconds; a value that is empty is not stored.\<close>

definition rds_set :: "(nat \<Rightarrow> u64) \<Rightarrow> string \<Rightarrow> string \<Rightarrow> int \<Rightarrow> rds \<Rightarrow> unit res \<times> rds" where
  "rds_set clock key value ttl s =
     (if value = [] then (Inr (), s)
      else
        (let expire = (if ttl > 0 then clock 0 + word_of_int ttl * 1000000 else 0)
         in db_put (string_to_bytes key)
              ([data_type_to_byte STRING] @ le_encode 8 expire @ string_to_bytes value) s))"

definition rds_get :: "(nat \<Rightarrow> u64) \<Rightarrow> string \<Rightarrow> rds \<Rightarrow> string res" where
  "rds_get clock key s =
     (case db_get (string_to_bytes key) s of
        Inl e \<Rightarrow> Inl e
      | Inr encoded_value \<Rightarrow>
          if length encoded_value < 9 then Inl KeyNotFoundError
          else if data_type_of_byte (encoded_value ! 0) \<noteq> STRING
          then Inl (BitcaskException ''Wrong type operation'')
          else if is_expired (clock 0) (read_le 1 8 encoded_value) then Inl KeyNotFoundError
          else Inr (bytes_to_string (drop 9 encoded_value)))"

section \<open>Hashes\<close>

definition hash_key :: "string \<Rightarrow> redis_metadata \<Rightarrow> string \<Rightarrow> bytes" where
  "hash_key key metadata field =
     HashInternalKey_encode
       \<lparr>hk_key = string_to_bytes key, hk_version = md_version metadata, hk_field = string_to_bytes field\<rparr>"

definition rds_hset :: "(nat \<Rightarrow> u64) \<Rightarrow> string \<Rightarrow> string \<Rightarrow> string \<Rightarrow> rds \<Rightarrow> bool res \<times> rds" where
  "rds_hset clock key field value s =
     bind_res (find_metadata clock key HASH s)
     (\<lambda>metadata s. let internal_key_bytes = hash_key key metadata field in
       bind_res (db_has internal_key_bytes s)
       (\<lambda>field_exists s. bind_res (db_put internal_key_bytes (string_to_bytes value) s)
       (\<lambda>_ s. if \<not> field_exists
              then bind_res (put_metadata key (metadata\<lparr>md_size := md_size metadata + 1\<rparr>) s)
                     (\<lambda>_ s. (Inr True, s))
              else (Inr False, s))))"

definition rds_hget :: "(nat \<Rightarrow> u64) \<Rightarrow> string \<Rightarrow> string \<Rightarrow> rds \<Rightarrow> string res \<times> rds" where
  "rds_hget clock key field s =
     bind_res (find_metadata clock key HASH s)
     (\<lambda>metadata s.
        if md_size metadata = 0 then (Inl KeyNotFoundError, s)
        else (map_sum id bytes_to_string (db_get (hash_key key metadata field) s), s))"

definition rds_hdel :: "(nat \<Rightarrow> u64) \<Rightarrow> string \<Rightarrow> string \<Rightarrow> rds \<Rightarrow> bool res \<times> rds" where
  "rds_hdel clock key field s =
     bind_res (find_metadata clock key HASH s)
     (\<lambda>metadata s.
        if md_size metadata = 0 then (Inr False, s)
        else catch_not_found
               (bind_res (db_remove (hash_key key metadata field) s)
               (\<lambda>_ s. bind_res (shrink_metadata key (metadata\<lparr>md_size := md_size metadata - 1\<rparr>) s)
               (\<lambda>_ s. (Inr True, s))))
               (\<lambda>s. (Inr False, s)))"

section \<open>Sets\<close>

definition set_key :: "string \<Rightarrow> redis_metadata \<Rightarrow> string \<Rightarrow> bytes" where
  "set_key key metadata member =
     SetInternalKey_encode
       \<lparr>sk_key = string_to_bytes key, sk_version = md_version metadata, sk_member = string_to_bytes member\<rparr>"

definition rds_sadd :: "(nat \<Rightarrow> u64) \<Rightarrow> string \<Rightarrow> string \<Rightarrow> rds \<Rightarrow> bool res \<times> rds" where
  "rds_sadd clock key member s =
     bind_res (find_metadata clock key SET s)
     (\<lambda>metadata s. let internal_key_bytes = set_key key metadata member in
       bind_res (db_has internal_key_bytes s)
       (\<lambda>exists s.
          if exists then (Inr False, s)
          else bind_res (db_put internal_key_bytes [] s)
               (\<lambda>_ s. bind_res (put_metadata key (metadata\<lparr>md_size := md_size metadata + 1\<rparr>) s)
               (\<lambda>_ s. (Inr True, s)))))"

definition rds_sismember :: "(nat \<Rightarrow> u64) \<Rightarrow> string \<Rightarrow> string \<Rightarrow> rds \<Rightarrow> bool res \<times> rds" where
  "rds_sismember clock key member s =
     bind_res (find_metadata clock key SET s)
     (\<lambda>metadata s. if md_size metadata = 0 then (Inr False, s) else db_has (set_key key metadata member) s)"

definition rds_srem :: "(nat \<Rightarrow> u64) \<Rightarrow> string \<Rightarrow> string \<Rightarrow> rds \<Rightarrow> bool res \<times> rds" where
  "rds_srem clock key member s =
     bind_res (find_metadata clock key SET s)
     (\<lambda>metadata s.
        if md_size metadata = 0 then (Inr False, s)
        else catch_not_found
               (bind_res (db_remove (set_key key metadata member) s)
               (\<lambda>_ s. bind_res (shrink_metadata key (metadata\<lparr>md_size := md_size metadata - 1\<rparr>) s)
               (\<lambda>_ s. (Inr True, s))))
               (\<lambda>s. (Inr False, s)))"

section \<open>Lists\<close>

definition list_key :: "string \<Rightarrow> redis_metadata \<Rightarrow> u64 \<Rightarrow> bytes" where
  "list_key key metadata index =
     ListInternalKey_encode
       \<lparr>lk_key = string_to_bytes key, lk_version = md_version metadata, lk_index = index\<rparr>"

definition init_list :: "redis_metadata \<Rightarrow> redis_metadata" where
  "init_list metadata =
     (if md_size metadata = 0 then metadata\<lparr>md_head := INITIAL_LIST_MARK, md_tail := INITIAL_LIST_MARK\<rparr>
      else metadata)"

definition rds_lpush :: "(nat \<Rightarrow> u64) \<Rightarrow> string \<Rightarrow> string \<Rightarrow> rds \<Rightarrow> u32 res \<times> rds" where
  "rds_lpush clock key element s =
     bind_res (find_metadata clock key LIST s)
     (\<lambda>metadata s. let metadata = init_list metadata in
       bind_res (db_put (list_key key metadata (md_head metadata - 1)) (string_to_bytes element) s)
       (\<lambda>_ s. let metadata = metadata\<lparr>md_head := md_head metadata - 1, md_size := md_size metadata + 1\<rparr> in
         bind_res (put_metadata key metadata s) (\<lambda>_ s. (Inr (md_size metadata), s))))"

definition rds_rpush :: "(nat \<Rightarrow> u64) \<Rightarrow> string \<Rightarrow> string \<Rightarrow> rds \<Rightarrow> u32 res \<times> rds" where
  "rds_rpush clock key element s =
     bind_res (find_metadata clock key LIST s)
     (\<lambda>metadata s. let metadata = init_list metadata in
       bind_res (db_put (list_key key metadata (md_tail metadata)) (string_to_bytes element) s)
       (\<lambda>_ s. let metadata = metadata\<lparr>md_tail := md_tail metadata + 1, md_size := md_size metadata + 1\<rparr> in
         bind_res (put_metadata key metadata s) (\<lambda>_ s. (Inr (md_size metadata), s))))"

definition rds_lpop :: "(nat \<Rightarrow> u64) \<Rightarrow> string \<Rightarrow> rds \<Rightarrow> string res \<times> rds" where
  "rds_lpop clock key s =
     bind_res (find_metadata clock key LIST s)
     (\<lambda>metadata s.
        if md_size metadata = 0 then (Inl KeyNotFoundError, s)
        else (let internal_key = list_key key metadata (md_head metadata) in
          bind_res (db_get internal_key s, s)
          (\<lambda>value_bytes s. bind_res (db_remove internal_key s)
          (\<lambda>_ s. bind_res (shrink_metadata key
                   (metadata\<lparr>md_head := md_head metadata + 1, md_size := md_size metadata - 1\<rparr>) s)
          (\<lambda>_ s. (Inr (bytes_to_string value_bytes), s))))))"

definition rds_rpop :: "(nat \<Rightarrow> u64) \<Rightarrow> string \<Rightarrow> rds \<Rightarrow> string res \<times> rds" where
  "rds_rpop clock key s =
     bind_res (find_metadata clock key LIST s)
     (\<lambda>metadata s.
        if md_size metadata = 0 then (Inl KeyNotFoundError, s)
        else (let internal_key = list_key key metadata (md_tail metadata - 1) in
          bind_res (db_get internal_key s, s)
          (\<lambda>value_bytes s. bind_res (db_remove internal_key s)
          (\<lambda>_ s. bind_res (shrink_metadata key
                   (metadata\<lparr>md_tail := md_tail metadata - 1, md_size := md_size metadata - 1\<rparr>) s)
          (\<lambda>_ s. (Inr (bytes_to_string value_bytes), s))))))"

section \<open>Sorted sets\<close>

definition zset_key :: "string \<Rightarrow> redis_metadata \<Rightarrow> double_bits \<Rightarrow> string \<Rightarrow> bytes" where
  "zset_key key metadata score member =
     ZSetInternalKey_encode
       \<lparr>zk_key = string_to_bytes key, zk_version = md_version metadata, zk_score = score,
        zk_member = string_to_bytes member\<rparr>"

definition rds_zadd :: "(nat \<Rightarrow> u64) \<Rightarrow> string \<Rightarrow> double_bits \<Rightarrow> string \<Rightarrow> rds \<Rightarrow> bool res \<times> rds" where
  "rds_zadd clock key score member s =
     bind_res (find_metadata clock key ZSET s)
     (\<lambda>metadata s. let internal_key_bytes = zset_key key metadata score member in
       bind_res (db_has internal_key_bytes s)
       (\<lambda>member_exists s. bind_res (db_put internal_key_bytes [] s)
       (\<lambda>_ s. if \<not> member_exists
              then bind_res (put_metadata key (metadata\<lparr>md_size := md_size metadata + 1\<rparr>) s)
                     (\<lambda>_ s. (Inr True, s))
              else (Inr False, s))))"

text \<open>The body of the loop of \<open>zscore\<close>: the score, when the key of an entry is one of the member.\<close>

definition zscore_entry :: "bytes \<Rightarrow> u64 \<Rightarrow> bytes \<Rightarrow> bytes \<Rightarrow> double_bits option" where
  "zscore_entry key_bytes version member_bytes current_key =
     (let n = length key_bytes in
      if length current_key < n + 8 + 8 then None
      else if take n current_key \<noteq> key_bytes then None
      else if read_le n 8 current_key \<noteq> version then None
      else if length current_key - (n + 16) = length member_bytes \<and> drop (n + 16) current_key = member_bytes
      then Some (read_le (n + 8) 8 current_key) else None)"

text \<open>The loop, over all keys of the database in order, for at most as many rounds as there are keys.\<close>

fun zscore_loop :: "nat \<Rightarrow> bytes \<Rightarrow> u64 \<Rightarrow> bytes \<Rightarrow> db \<Rightarrow> db_iterator \<Rightarrow> double_bits res" where
  "zscore_loop 0 key_bytes version member_bytes db it = Inl OutOfFuel"
| "zscore_loop (Suc n) key_bytes version member_bytes db it =
     (if \<not> DBIterator_valid db it then Inl KeyNotFoundError
      else case DBIterator_key db it of
        Inl e \<Rightarrow> Inl e
      | Inr current_key \<Rightarrow>
          (case zscore_entry key_bytes version member_bytes current_key of
             Some score \<Rightarrow> Inr score
           | None \<Rightarrow> zscore_loop n key_bytes version member_bytes db (DBIterator_next db it)))"

definition rds_zscore :: "(nat \<Rightarrow> u64) \<Rightarrow> string \<Rightarrow> string \<Rightarrow> rds \<Rightarrow> double_bits res \<times> rds" where
  "rds_zscore clock key member s =
     bind_res (find_metadata clock key ZSET s)
     (\<lambda>metadata s.
        if md_size metadata = 0 then (Inl KeyNotFoundError, s)
        else
          (let db = fst s; it = DBIterator_rewind db (DBIterator_new \<lparr>io_prefix = [], io_reverse = False\<rparr> db)
           in (zscore_loop (Suc (idx_size (db_index db))) (string_to_bytes key) (md_version metadata)
                 (string_to_bytes member) db it, s)))"

section \<open>Keys\<close>

definition rds_del :: "string \<Rightarrow> rds \<Rightarrow> bool res \<times> rds" where
  "rds_del key s =
     catch_not_found (bind_res (db_remove (string_to_bytes key) s) (\<lambda>_ s. (Inr True, s)))
       (\<lambda>s. (Inr False, s))"

definition rds_exists :: "string \<Rightarrow> rds \<Rightarrow> bool res \<times> rds" where
  "rds_exists key s = db_has (string_to_bytes key) s"

definition rds_type :: "string \<Rightarrow> rds \<Rightarrow> redis_data_type res" where
  "rds_type key s =
     (case db_get (string_to_bytes key) s of
        Inl e \<Rightarrow> Inl e
      | Inr encoded_value \<Rightarrow>
          if encoded_value = [] then Inl KeyNotFoundError
          else Inr (data_type_of_byte (encoded_value ! 0)))"

definition rds_close :: "rds \<Rightarrow> unit res \<times> rds" where
  "rds_close s = DB_close (fst s) (snd s)"

end
