(* ===== verification/Redis_Engine.thy ===== *)
theory Redis_Engine
  imports Redis_Data Db_Running
begin

text \<open>
  The interface of the engine that the Redis data types use: a map from keys to values, with a budget
  of bytes that the active file still takes. The lemmas of the locale are about the sequences of
  engine calls that the operations make; the engine is an instance of it.
\<close>

section \<open>The interface\<close>

definition key_size_ok :: "bytes \<Rightarrow> bool" where
  "key_size_ok k \<longleftrightarrow> k \<noteq> [] \<and> length k \<le> MAX_RECORD_SIZE"

locale kv_engine =
  fixes put :: "bytes \<Rightarrow> bytes \<Rightarrow> 's \<Rightarrow> unit res \<times> 's"
    and get :: "bytes \<Rightarrow> 's \<Rightarrow> bytes res"
    and remove :: "bytes \<Rightarrow> 's \<Rightarrow> unit res \<times> 's"
    and kv :: "'s \<Rightarrow> bytes \<Rightarrow> bytes option"
    and ready :: "nat \<Rightarrow> 's \<Rightarrow> bool"
  assumes put_ok: "\<lbrakk>ready (25 + length k + length v + m) s; key_size_ok k; length v \<le> MAX_RECORD_SIZE\<rbrakk>
      \<Longrightarrow> \<exists>s'. put k v s = (Inr (), s') \<and> kv s' = (kv s)(k \<mapsto> v) \<and> ready m s'"
    and remove_ok: "\<lbrakk>ready (25 + length k + m) s; key_size_ok k\<rbrakk>
      \<Longrightarrow> \<exists>s'. remove k s = (Inr (), s') \<and> kv s' = (kv s)(k := None) \<and> ready m s'"
    and get_kv: "\<lbrakk>ready m s; k \<noteq> []\<rbrakk>
      \<Longrightarrow> get k s = (case kv s k of None \<Rightarrow> Inl KeyNotFoundError | Some v \<Rightarrow> Inr v)"
    and ready_less: "\<lbrakk>ready n s; m \<le> n\<rbrakk> \<Longrightarrow> ready m s"
begin

text \<open>A removal, or a write, and then another: what most operations do.\<close>

lemma put_put:
  assumes "ready (50 + length k + length v + length k' + length v' + m) s" "key_size_ok k" "key_size_ok k'"
    "length v \<le> MAX_RECORD_SIZE" "length v' \<le> MAX_RECORD_SIZE"
  shows "\<exists>s1 s2. put k v s = (Inr (), s1) \<and> put k' v' s1 = (Inr (), s2)
    \<and> kv s2 = (kv s)(k \<mapsto> v, k' \<mapsto> v') \<and> ready m s2"
proof -
  have "ready (25 + length k + length v + (25 + length k' + length v' + m)) s"
    by (rule ready_less [OF assms(1)]) simp
  from put_ok [OF this assms(2,4)] obtain s1 where s1: "put k v s = (Inr (), s1)"
    "kv s1 = (kv s)(k \<mapsto> v)" "ready (25 + length k' + length v' + m) s1" by blast
  from put_ok [OF s1(3) assms(3,5)] obtain s2 where "put k' v' s1 = (Inr (), s2)"
    "kv s2 = (kv s1)(k' \<mapsto> v')" "ready m s2" by blast
  with s1 show ?thesis by auto
qed

lemma remove_put:
  assumes "ready (50 + length k + length k' + length v' + m) s" "key_size_ok k" "key_size_ok k'"
    "length v' \<le> MAX_RECORD_SIZE"
  shows "\<exists>s1 s2. remove k s = (Inr (), s1) \<and> put k' v' s1 = (Inr (), s2)
    \<and> kv s2 = (kv s)(k := None, k' \<mapsto> v') \<and> ready m s2"
proof -
  have "ready (25 + length k + (25 + length k' + length v' + m)) s"
    by (rule ready_less [OF assms(1)]) simp
  from remove_ok [OF this assms(2)] obtain s1 where s1: "remove k s = (Inr (), s1)"
    "kv s1 = (kv s)(k := None)" "ready (25 + length k' + length v' + m) s1" by blast
  from put_ok [OF s1(3) assms(3,4)] obtain s2 where "put k' v' s1 = (Inr (), s2)"
    "kv s2 = (kv s1)(k' \<mapsto> v')" "ready m s2" by blast
  with s1 show ?thesis by auto
qed

lemma remove_remove:
  assumes "ready (50 + length k + length k' + m) s" "key_size_ok k" "key_size_ok k'"
  shows "\<exists>s1 s2. remove k s = (Inr (), s1) \<and> remove k' s1 = (Inr (), s2)
    \<and> kv s2 = (kv s)(k := None, k' := None) \<and> ready m s2"
proof -
  have "ready (25 + length k + (25 + length k' + m)) s" by (rule ready_less [OF assms(1)]) simp
  from remove_ok [OF this assms(2)] obtain s1 where s1: "remove k s = (Inr (), s1)"
    "kv s1 = (kv s)(k := None)" "ready (25 + length k' + m) s1" by blast
  from remove_ok [OF s1(3) assms(3)] obtain s2 where "remove k' s1 = (Inr (), s2)"
    "kv s2 = (kv s1)(k' := None)" "ready m s2" by blast
  with s1 show ?thesis by auto
qed

end

section \<open>The engine is an instance\<close>

definition kv_of :: "rds \<Rightarrow> bytes \<Rightarrow> bytes option" where
  "kv_of s = db_kv (fst s) (snd s)"

definition ready_for :: "nat \<Rightarrow> rds \<Rightarrow> bool" where
  "ready_for n s \<longleftrightarrow>
     db_inv (fst s) (snd s) \<and> (\<exists>logs fids. log_files (fst s) (snd s) logs fids) \<and> room (fst s) (snd s) n"

lemma log_files_same:
  assumes "db_active_file db' = db_active_file db" "db_older_files db' = db_older_files db"
    "db_options db' = db_options db" "db_file_ids db' = db_file_ids db"
  shows "log_files db' fs logs fids = log_files db fs logs fids"
proof -
  have "files_to_process db' = files_to_process db" "\<And>f. find_data_file f db' = find_data_file f db"
    by (rule files_to_process_frame find_data_file_frame; simp add: assms)+
  then show ?thesis
    by (simp only: log_files_def files_hold_def counters_frame(2) [OF assms(1-3)] assms)
qed

lemma length_enc_records:
  "length (enc (put_record k v)) \<le> 25 + length k + length v" "length (enc (delete_record k)) \<le> 25 + length k"
proof -
  have "length (enc r) \<le> 25 + length (lr_key r) + length (lr_value r)" for r
    using length_encode_varint_10 [of "of_nat (length (lr_key r))"] length_encode_varint_10 [of "of_nat (length (lr_value r))"]
    unfolding length_LogRecord_encode header_length_def by linarith
  from this [of "put_record k v"] this [of "delete_record k"]
  show "length (enc (put_record k v)) \<le> 25 + length k + length v" "length (enc (delete_record k)) \<le> 25 + length k"
    by (simp_all add: put_record_def delete_record_def)
qed

lemma room_same:
  "\<lbrakk>db_active_file db' = db_active_file db; db_options db' = db_options db\<rbrakk> \<Longrightarrow> room db' fs n = room db fs n"
  by (simp add: room_def)

text \<open>An operation that appends one record and then changes index and counters only.\<close>

lemma ready_after_append:
  assumes files: "log_files db fs logs fids" and room: "room db fs (length (enc r) + m)"
    and app: "append_log_record_internal r db fs = (Inr pos, db1, fs')" and r: "readable r"
    and same: "db_active_file db' = db_active_file db1" "db_older_files db' = db_older_files db1"
      "db_options db' = db_options db1" "db_file_ids db' = db_file_ids db1" and inv: "db_inv db' fs'"
  shows "ready_for m (db', fs')"
proof -
  obtain pos' db2 fs2 where a: "append_log_record_internal r db fs = (Inr pos', db2, fs2)"
    "log_files db2 fs2 (log_append (active_id db) r logs) fids" "db_options db2 = db_options db"
    "active_id db2 = active_id db" "fs2 = fs_put (data_name db (active_id db)) (encs (logs (active_id db) @ [r])) fs"
    using log_append_ok [OF files room_fits [OF room] r] by metis
  have eq: "db2 = db1" "fs2 = fs'" using a(1) app by simp_all
  have "room db1 fs' m" using room_append [OF files a(2-4) _ room] a(5) by (simp add: eq)
  then show ?thesis
    using a(2) inv log_files_same [OF same] room_same [OF same(1,3)] by (auto simp: ready_for_def eq)
qed

lemma room_weaken: "room db fs n \<Longrightarrow> m \<le> n \<Longrightarrow> room db fs m"
  by (fastforce simp: room_def)

lemma db_put_ready:
  assumes ready: "ready_for (25 + length k + length v + m) s" and k: "key_size_ok k" and v: "length v \<le> MAX_RECORD_SIZE"
  shows "\<exists>s'. db_put k v s = (Inr (), s') \<and> kv_of s' = (kv_of s)(k \<mapsto> v) \<and> ready_for m s'"
proof -
  obtain db fs where s: "s = (db, fs)" by (cases s)
  let ?r = "put_record k v"
  obtain logs fids where inv: "db_inv db fs" and files: "log_files db fs logs fids"
    and room: "room db fs (25 + length k + length v + m)"
    using ready by (auto simp: ready_for_def s)
  have room: "room db fs (length (enc ?r) + m)"
    by (rule room_weaken [OF room]) (use length_enc_records(1) [of k v] in simp)
  have key: "k \<noteq> []" "length k \<le> MAX_RECORD_SIZE" using k by (simp_all add: key_size_ok_def)
  obtain db' fs' where put: "DB_put k v db fs = (Inr (), db', fs')" "db_inv db' fs'"
    "db_kv db' fs' = (db_kv db fs)(k \<mapsto> v)"
    using DB_put_ok [OF inv key v room_fits [OF room]] by blast
  obtain pos db1 fs1 where app: "append_log_record_internal ?r db fs = (Inr pos, db1, fs1)"
    using log_append_ok [OF files room_fits [OF room] put_record_readable [OF key v]] by metis
  obtain old i where idx: "idx_put k pos (db_index db1) = (old, i)" by (cases "idx_put k pos (db_index db1)")
  have "db' = reclaim old (db1\<lparr>db_index := i\<rparr>)" "fs' = fs1"
    using put(1) app idx key by (simp_all add: DB_put_def put_record_def)
  then have "ready_for m (db', fs')"
    using ready_after_append [OF files room app put_record_readable [OF key v], of db'] put(2) by simp
  then show ?thesis using put by (simp add: db_put_def s kv_of_def)
qed

lemma db_remove_ready:
  assumes ready: "ready_for (25 + length k + m) s" and k: "key_size_ok k"
  shows "\<exists>s'. db_remove k s = (Inr (), s') \<and> kv_of s' = (kv_of s)(k := None) \<and> ready_for m s'"
proof -
  obtain db fs where s: "s = (db, fs)" by (cases s)
  let ?r = "delete_record k"
  obtain logs fids where inv: "db_inv db fs" and files: "log_files db fs logs fids"
    and room0: "room db fs (25 + length k + m)"
    using ready by (auto simp: ready_for_def s)
  have room: "room db fs (length (enc ?r) + m)"
    by (rule room_weaken [OF room0]) (use length_enc_records(2) [of k] in simp)
  have key: "k \<noteq> []" "length k \<le> MAX_RECORD_SIZE" using k by (simp_all add: key_size_ok_def)
  obtain db' fs' where rem: "DB_remove k db fs = (Inr (), db', fs')" "db_inv db' fs'"
    "db_kv db' fs' = (db_kv db fs)(k := None)"
    using DB_remove_ok [OF inv key room_fits [OF room]] by blast
  have "ready_for m (db', fs')"
  proof (cases "idx_get k (db_index db)")
    case None
    then have "db' = db" "fs' = fs" using rem(1) key by (simp_all add: DB_remove_def)
    then show ?thesis using inv files room_weaken [OF room0, of m] by (auto simp: ready_for_def)
  next
    case (Some old_pos)
    obtain pos db1 fs1 where app: "append_log_record_internal ?r db fs = (Inr pos, db1, fs1)"
      using log_append_ok [OF files room_fits [OF room] delete_record_readable [OF key]] by metis
    obtain old ok i where idx: "idx_remove k (db_index (reclaim (Some pos) db1)) = ((old, ok), i)"
      by (metis prod.exhaust)
    have "ok" "db' = reclaim old ((reclaim (Some pos) db1)\<lparr>db_index := i\<rparr>)" "fs' = fs1"
      using rem(1) app idx key Some by (auto simp: DB_remove_def delete_record_def Let_def split: if_splits)
    then show ?thesis
      using ready_after_append [OF files room app delete_record_readable [OF key], of db'] rem(2) by simp
  qed
  then show ?thesis using rem by (simp add: db_remove_def s kv_of_def)
qed

interpretation eng: kv_engine db_put db_get db_remove kv_of ready_for
proof
  fix m s and k :: bytes
  assume "ready_for m s" "k \<noteq> []"
  then show "db_get k s = (case kv_of s k of None \<Rightarrow> Inl KeyNotFoundError | Some v \<Rightarrow> Inr v)"
    using db_inv_get(1) [of "fst s" "snd s" k] by (simp add: ready_for_def db_get_def kv_of_def)
next
  fix n m :: nat and s
  assume "ready_for n s" "m \<le> n"
  then show "ready_for m s" using room_weaken by (auto simp: ready_for_def)
qed (rule db_put_ready db_remove_ready; assumption)+

text \<open>A running database is ready for what fits in its active file.\<close>

lemma running_ready: "running db fs logs n \<Longrightarrow> room db fs m \<Longrightarrow> ready_for m (db, fs)"
  using db_log_inv(1) [OF log_inv_log] by (auto simp: running_def log_inv_def ready_for_def)

end
