(* ===== verification/Redis_Correct.thy ===== *)
theory Redis_Correct
  imports Redis_Engine
begin

text \<open>
  What the Redis data types promise, over the interface of \<open>Redis_Engine\<close>: the metadata codec, the
  strings with a time to live, and hashes, sets and lists as a map, a set and a double-ended queue.
  A collection in the engine is a stored metadata record and one stored value per element; an empty
  one is a key under which nothing is stored.
\<close>

section \<open>The metadata codec\<close>

definition md_ok :: "redis_metadata \<Rightarrow> bool" where
  "md_ok m \<longleftrightarrow> data_type_of_byte (data_type_to_byte (md_data_type m)) = md_data_type m
     \<and> (md_data_type m \<noteq> LIST \<longrightarrow> md_head m = 0 \<and> md_tail m = 0)"

lemma length_RedisMetadata_encode: "length (RedisMetadata_encode m) = (if md_data_type m = LIST then 37 else 21)"
  by (simp add: RedisMetadata_encode_def)

lemma ucast_u32_u64_u32 [simp]: "ucast (ucast (x :: u32) :: u64) = x"
  by (rule ucast_up_ucast_id) (simp add: is_up)

lemma decode_encode_metadata:
  assumes "md_ok m"
  shows "RedisMetadata_decode (RedisMetadata_encode m) = Inr m"
proof -
  let ?e = "RedisMetadata_encode m"
  have r: "read_le (Suc 0) 8 ?e = md_expire m" "read_le 9 8 ?e = md_version m"
    "read_le 17 4 ?e = ucast (md_size m)"
    by (simp_all add: read_le_def RedisMetadata_encode_def le_decode_encode)
  have l: "read_le 21 8 ?e = md_head m" "read_le 29 8 ?e = md_tail m" if "md_data_type m = LIST"
    using that by (simp_all add: read_le_def RedisMetadata_encode_def le_decode_encode)
  have t: "data_type_of_byte (?e ! 0) = md_data_type m" using assms by (simp add: RedisMetadata_encode_def md_ok_def)
  show ?thesis
    using assms l by (simp add: RedisMetadata_decode_def Let_def length_RedisMetadata_encode r t)
      (simp add: RedisMetadata_new_def md_ok_def)
qed

lemma md_ok_update [simp]:
  "md_ok (m\<lparr>md_size := n\<rparr>) = md_ok m"
  "md_data_type m = LIST \<Longrightarrow> md_ok (m\<lparr>md_head := h\<rparr>) \<longleftrightarrow> md_ok m"
  "md_data_type m = LIST \<Longrightarrow> md_ok (m\<lparr>md_tail := h\<rparr>) \<longleftrightarrow> md_ok m"
  by (simp_all add: md_ok_def)

lemma new_metadata_simps [simp]:
  "md_data_type (new_metadata c t) = t" "md_expire (new_metadata c t) = 0" "md_version (new_metadata c t) = c"
  "md_size (new_metadata c t) = 0" "md_head (new_metadata c t) = (if t = LIST then INITIAL_LIST_MARK else 0)"
  "md_tail (new_metadata c t) = (if t = LIST then INITIAL_LIST_MARK else 0)"
  by (simp_all add: new_metadata_def RedisMetadata_new_def Let_def)

lemma new_metadata_ok: "data_type_of_byte (data_type_to_byte t) = t \<Longrightarrow> md_ok (new_metadata c t)"
  by (simp add: md_ok_def)

section \<open>Looking the metadata up\<close>

text \<open>The metadata that an operation of a collection finds, when the collection does not expire.\<close>

definition metadata_is :: "(nat \<Rightarrow> u64) \<Rightarrow> redis_data_type \<Rightarrow> rds \<Rightarrow> string \<Rightarrow> redis_metadata \<Rightarrow> bool" where
  "metadata_is clock t s key m \<longleftrightarrow>
     (case kv_of s (string_to_bytes key) of
        None \<Rightarrow> m = new_metadata (clock 1) t
      | Some b \<Rightarrow> b = RedisMetadata_encode m \<and> md_ok m \<and> md_data_type m = t \<and> md_expire m = 0)"

lemma string_to_bytes_Nil [simp]: "string_to_bytes s = [] \<longleftrightarrow> s = []"
  by (simp add: string_to_bytes_def)

text \<open>\<open>get\<close> answers from the contents.\<close>

definition answers :: "rds \<Rightarrow> bool" where
  "answers s \<longleftrightarrow> (\<forall>k. k \<noteq> [] \<longrightarrow> db_get k s = (case kv_of s k of None \<Rightarrow> Inl KeyNotFoundError | Some v \<Rightarrow> Inr v))"

lemma ready_answers: "ready_for n s \<Longrightarrow> answers s"
  by (simp add: answers_def eng.get_kv)

lemma find_metadata_answers:
  assumes "metadata_is clock t s key m" "answers s" "key \<noteq> []"
  shows "find_metadata clock key t s = (Inr m, s)"
proof -
  have get: "db_get (string_to_bytes key) s
      = (case kv_of s (string_to_bytes key) of None \<Rightarrow> Inl KeyNotFoundError | Some v \<Rightarrow> Inr v)"
    using assms(2,3) by (simp add: answers_def)
  show ?thesis
    using assms(1) by (cases "kv_of s (string_to_bytes key)")
      (auto simp: find_metadata_def get metadata_is_def catch_not_found_def decode_encode_metadata is_expired_def)
qed

lemmas find_metadata_is = find_metadata_answers [OF _ ready_answers]

lemma db_has_answers: "\<lbrakk>answers s; k \<noteq> []\<rbrakk> \<Longrightarrow> db_has k s = (Inr (kv_of s k \<noteq> None), s)"
  by (simp add: db_has_def answers_def catch_not_found_def split: option.split)

lemmas db_has_kv = db_has_answers [OF ready_answers]

section \<open>Hashes and sets\<close>

text \<open>Hashes and sets have the same internal keys.\<close>

definition elem_key :: "string \<Rightarrow> redis_metadata \<Rightarrow> string \<Rightarrow> bytes" where
  "elem_key key m f = string_to_bytes key @ le_encode 8 (md_version m) @ string_to_bytes f"

lemma internal_keys: "hash_key = elem_key" "set_key = elem_key"
  by (intro ext; simp add: hash_key_def set_key_def elem_key_def HashInternalKey_encode_def SetInternalKey_encode_def)+

lemma le_encode_Nil [simp]: "le_encode 8 x \<noteq> []"
  using length_le_encode [of 8 x] by (metis list.size(3) zero_neq_numeral)

lemma elem_key_simps [simp]:
  "elem_key key m f = elem_key key m g \<longleftrightarrow> f = g" "elem_key key (m\<lparr>md_size := n\<rparr>) = elem_key key m"
  "elem_key key m f \<noteq> string_to_bytes key" "string_to_bytes key \<noteq> elem_key key m f" "elem_key key m f \<noteq> []"
  "length (elem_key key m f) = length key + 8 + length f"
  by (auto simp: elem_key_def fun_eq_iff)

text \<open>The collection \<open>h\<close> of type \<open>t\<close> is stored under a key.\<close>

definition map_at :: "redis_data_type \<Rightarrow> rds \<Rightarrow> string \<Rightarrow> (string \<rightharpoonup> bytes) \<Rightarrow> bool" where
  "map_at t s key h \<longleftrightarrow>
     finite (dom h) \<and>
     (case kv_of s (string_to_bytes key) of
        None \<Rightarrow> dom h = {}
      | Some b \<Rightarrow> dom h \<noteq> {} \<and>
          (\<exists>m. b = RedisMetadata_encode m \<and> md_ok m \<and> md_data_type m = t \<and> md_expire m = 0
             \<and> unat (md_size m) = card (dom h) \<and> (\<forall>f. kv_of s (elem_key key m f) = h f)))"

text \<open>No element of an earlier collection is left under the version that a new one will get.\<close>

definition new_version :: "(nat \<Rightarrow> u64) \<Rightarrow> rds \<Rightarrow> string \<Rightarrow> bool" where
  "new_version clock s key \<longleftrightarrow>
     (kv_of s (string_to_bytes key) = None
        \<longrightarrow> (\<forall>f. kv_of s (elem_key key (new_metadata (clock 1) STRING) f) = None))"

lemma elem_key_new: "elem_key key (new_metadata c t) = elem_key key (new_metadata c STRING)"
  by (simp add: fun_eq_iff elem_key_def)

lemma map_at_metadata:
  assumes "map_at t s key h" "new_version clock s key" "data_type_of_byte (data_type_to_byte t) = t" "t \<noteq> LIST"
  obtains m where "metadata_is clock t s key m" "md_ok m" "md_data_type m = t" "md_expire m = 0"
    "unat (md_size m) = card (dom h)" "\<And>f. kv_of s (elem_key key m f) = h f" "finite (dom h)"
proof (cases "kv_of s (string_to_bytes key)")
  case None
  let ?m = "new_metadata (clock 1) t"
  have h: "h = Map.empty" using assms(1) None by (simp add: map_at_def)
  show ?thesis
  proof (rule that [of ?m])
    show "metadata_is clock t s key ?m" using None by (simp add: metadata_is_def)
    show "kv_of s (elem_key key ?m f) = h f" for f
      using assms(2) None by (simp add: new_version_def h elem_key_new [of key _ t])
    show "md_ok ?m" by (rule new_metadata_ok [OF assms(3)])
  qed (simp_all add: h)
next
  case (Some b)
  then obtain m where m: "b = RedisMetadata_encode m" "md_ok m" "md_data_type m = t" "md_expire m = 0"
    "unat (md_size m) = card (dom h)" "\<forall>f. kv_of s (elem_key key m f) = h f" "finite (dom h)"
    using assms(1) by (auto simp: map_at_def)
  show ?thesis by (rule that [of m]) (use m Some in \<open>simp_all add: metadata_is_def\<close>)
qed

lemma map_at_stored:
  assumes "finite (dom h)" "dom h \<noteq> {}" "kv_of s (string_to_bytes key) = Some (RedisMetadata_encode m)" "md_ok m"
    "md_data_type m = t" "md_expire m = 0" "unat (md_size m) = card (dom h)" "\<And>f. kv_of s (elem_key key m f) = h f"
  shows "map_at t s key h"
  using assms by (auto simp: map_at_def)

text \<open>The bytes of the log that a change of an element and of the metadata takes.\<close>

definition op_bytes :: "string \<Rightarrow> string \<Rightarrow> nat \<Rightarrow> nat" where
  "op_bytes key f v = 95 + 2 * length key + length f + v"

definition elem_size_ok :: "string \<Rightarrow> string \<Rightarrow> bool" where
  "elem_size_ok key f \<longleftrightarrow> key \<noteq> [] \<and> length key + 8 + length f \<le> MAX_RECORD_SIZE"

lemma elem_size_okD:
  assumes "elem_size_ok key f"
  shows "key \<noteq> []" "key_size_ok (string_to_bytes key)" "key_size_ok (elem_key key m f)"
  using assms by (simp_all add: elem_size_ok_def key_size_ok_def)

lemma length_metadata_le:
  "length (RedisMetadata_encode m) \<le> 37" "length (RedisMetadata_encode m) \<le> MAX_RECORD_SIZE"
  by (simp_all add: length_RedisMetadata_encode MAX_RECORD_SIZE_def)

text \<open>Only keys that start with the key of the collection change.\<close>

definition others_same :: "string \<Rightarrow> rds \<Rightarrow> rds \<Rightarrow> bool" where
  "others_same key s s' \<longleftrightarrow> (\<forall>k. take (length key) k \<noteq> string_to_bytes key \<longrightarrow> kv_of s' k = kv_of s k)"

lemma others_same_refl [simp]: "others_same key s s"
  by (simp add: others_same_def)

lemma take_own_key [simp]:
  "take (length key) (string_to_bytes key) = string_to_bytes key"
  "take (length key) (elem_key key m f) = string_to_bytes key"
  by (simp_all add: elem_key_def)

lemma unat_u32_plus_1: "unat (x :: u32) + 1 < 2 ^ 32 \<Longrightarrow> unat (x + 1) = unat x + 1"
  using unat_add_lem [of x 1] by simp

text \<open>An element is written, and the metadata when it is new.\<close>

lemma put_element:
  assumes m: "metadata_is clock t s key m" "md_ok m" "md_data_type m = t" "md_expire m = 0"
      "unat (md_size m) = card (dom h)" "\<And>f. kv_of s (elem_key key m f) = h f" "finite (dom h)"
    and ready: "ready_for (op_bytes key f (length v) + n) s"
    and sizes: "elem_size_ok key f" "length v \<le> MAX_RECORD_SIZE" "card (dom h) + 1 < 2 ^ 32"
    and new: "h f = None"
  shows "\<exists>s1 s2. db_put (elem_key key m f) v s = (Inr (), s1)
    \<and> put_metadata key (m\<lparr>md_size := md_size m + 1\<rparr>) s1 = (Inr (), s2)
    \<and> map_at t s2 key (h(f \<mapsto> v)) \<and> ready_for n s2 \<and> others_same key s s2"
proof -
  let ?m = "m\<lparr>md_size := md_size m + 1\<rparr>"
  have "ready_for (50 + length (elem_key key m f) + length v + length (string_to_bytes key)
      + length (RedisMetadata_encode ?m) + n) s"
    by (rule eng.ready_less [OF ready]) (use length_metadata_le(1) [of ?m] in \<open>simp add: op_bytes_def\<close>)
  from eng.put_put [OF this elem_size_okD(3,2) [OF sizes(1)] sizes(2) length_metadata_le(2)]
  obtain s1 s2 where s: "db_put (elem_key key m f) v s = (Inr (), s1)"
    "db_put (string_to_bytes key) (RedisMetadata_encode ?m) s1 = (Inr (), s2)"
    "kv_of s2 = (kv_of s)(elem_key key m f \<mapsto> v, string_to_bytes key \<mapsto> RedisMetadata_encode ?m)"
    "ready_for n s2" by auto
  have "map_at t s2 key (h(f \<mapsto> v))"
    by (rule map_at_stored [where m = ?m])
      (use m sizes(3) new unat_u32_plus_1 [of "md_size m"] in \<open>simp_all add: s(3) card_insert_if domIff\<close>)
  moreover have "others_same key s s2" by (auto simp: others_same_def s(3))
  ultimately show ?thesis using s(1,2,4) unfolding put_metadata_def by blast
qed

lemma overwrite_element:
  assumes m: "metadata_is clock t s key m" "md_ok m" "md_data_type m = t" "md_expire m = 0"
      "unat (md_size m) = card (dom h)" "\<And>f. kv_of s (elem_key key m f) = h f" "finite (dom h)"
    and ready: "ready_for (op_bytes key f (length v) + n) s"
    and sizes: "elem_size_ok key f" "length v \<le> MAX_RECORD_SIZE"
    and old: "h f \<noteq> None"
  shows "\<exists>s1. db_put (elem_key key m f) v s = (Inr (), s1)
    \<and> map_at t s1 key (h(f \<mapsto> v)) \<and> ready_for n s1 \<and> others_same key s s1"
proof -
  have "ready_for (25 + length (elem_key key m f) + length v + n) s"
    by (rule eng.ready_less [OF ready]) (simp add: op_bytes_def)
  from eng.put_ok [OF this elem_size_okD(3) [OF sizes(1)] sizes(2)]
  obtain s1 where s: "db_put (elem_key key m f) v s = (Inr (), s1)"
    "kv_of s1 = (kv_of s)(elem_key key m f \<mapsto> v)" "ready_for n s1" by blast
  have stored: "kv_of s (string_to_bytes key) = Some (RedisMetadata_encode m)"
  proof (cases "kv_of s (string_to_bytes key)")
    case None
    then have "md_size m = 0" using m(1) by (simp add: metadata_is_def)
    then show ?thesis using m(5,7) old by (auto simp: domIff)
  qed (use m(1) in \<open>simp add: metadata_is_def\<close>)
  have "map_at t s1 key (h(f \<mapsto> v))"
    by (rule map_at_stored [where m = m]) (use m old stored in \<open>simp_all add: s(2) card_insert_if domIff\<close>)
  moreover have "others_same key s s1" by (auto simp: others_same_def s(2))
  ultimately show ?thesis using s(1,3) by blast
qed

text \<open>An element is removed, and the metadata is written again or removed with the last one.\<close>

lemma remove_element:
  assumes m: "metadata_is clock t s key m" "md_ok m" "md_data_type m = t" "md_expire m = 0"
      "unat (md_size m) = card (dom h)" "\<And>f. kv_of s (elem_key key m f) = h f" "finite (dom h)"
    and ready: "ready_for (op_bytes key f 0 + n) s" and sizes: "elem_size_ok key f" and old: "h f \<noteq> None"
  shows "\<exists>s1 s2. db_remove (elem_key key m f) s = (Inr (), s1)
    \<and> shrink_metadata key (m\<lparr>md_size := md_size m - 1\<rparr>) s1 = (Inr (), s2)
    \<and> map_at t s2 key (h(f := None)) \<and> ready_for n s2 \<and> others_same key s s2"
proof -
  let ?m = "m\<lparr>md_size := md_size m - 1\<rparr>"
  have pos: "unat (md_size m) > 0" using m(5,7) old by (auto simp: card_gt_0_iff)
  then have size: "unat (md_size m - 1) = card (dom h) - 1"
    using m(5) unat_minus_one [of "md_size m"] by (metis semiring_1_class.of_nat_0 less_numeral_extra(3) unat_0)
  have dom: "card (dom (h(f := None))) = card (dom h) - 1" using m(7) old by (auto simp: domIff)
  show ?thesis
  proof (cases "md_size m - 1 = 0")
    case False
    have "ready_for (50 + length (elem_key key m f) + length (string_to_bytes key)
        + length (RedisMetadata_encode ?m) + n) s"
      by (rule eng.ready_less [OF ready]) (use length_metadata_le(1) [of ?m] in \<open>simp add: op_bytes_def\<close>)
    from eng.remove_put [OF this elem_size_okD(3,2) [OF sizes] length_metadata_le(2)]
    obtain s1 s2 where s: "db_remove (elem_key key m f) s = (Inr (), s1)"
      "db_put (string_to_bytes key) (RedisMetadata_encode ?m) s1 = (Inr (), s2)"
      "kv_of s2 = (kv_of s)(elem_key key m f := None, string_to_bytes key \<mapsto> RedisMetadata_encode ?m)"
      "ready_for n s2" by auto
    have "card (dom h) - 1 \<noteq> 0" using False size by (metis unat_eq_zero)
    then have "dom (h(f := None)) \<noteq> {}" using dom by (metis card.empty)
    then have "map_at t s2 key (h(f := None))"
      by (intro map_at_stored [where m = ?m]) (use m size dom in \<open>simp_all add: s(3)\<close>)
    moreover have "shrink_metadata key ?m s1 = (Inr (), s2)"
      using s(2) False by (simp add: shrink_metadata_def put_metadata_def)
    moreover have "others_same key s s2" by (auto simp: others_same_def s(3))
    ultimately show ?thesis using s(1,4) by blast
  next
    case True
    have "ready_for (50 + length (elem_key key m f) + length (string_to_bytes key) + n) s"
      by (rule eng.ready_less [OF ready]) (simp add: op_bytes_def)
    from eng.remove_remove [OF this elem_size_okD(3,2) [OF sizes]]
    obtain s1 s2 where s: "db_remove (elem_key key m f) s = (Inr (), s1)"
      "db_remove (string_to_bytes key) s1 = (Inr (), s2)"
      "kv_of s2 = (kv_of s)(elem_key key m f := None, string_to_bytes key := None)" "ready_for n s2" by auto
    have "dom (h(f := None)) = {}" using dom size m(7) True by (metis card_0_eq finite_Diff dom_fun_upd unat_0)
    then have "map_at t s2 key (h(f := None))" using m(7) by (simp add: map_at_def s(3) del: dom_fun_upd)
    moreover have "shrink_metadata key ?m s1 = (Inr (), s2)" using s(2) True by (simp add: shrink_metadata_def)
    moreover have "others_same key s s2" by (auto simp: others_same_def s(3))
    ultimately show ?thesis using s(1,4) by blast
  qed
qed

end
