(* ===== verification/Redis_Collections.thy ===== *)
theory Redis_Collections
  imports Redis_Correct Db_Session
begin

text \<open>
  The operations of the Redis data types as a user sees them: a hash is a finite map, a set a finite
  set, a list a sequence with two ends, a string with a time to live a value that is there until
  then. The cases in which the code does something else are stated too.
\<close>

declare split_paired_Ex [simp del] split_paired_All [simp del]

section \<open>A database to start from\<close>

text \<open>A new database with room for 900 bytes, for the witnesses.\<close>

lemma wit_ready:
  "\<exists>s. session wit_options Map.empty (fst s) (snd s) \<and> ready_for 900 s \<and> kv_of s = Map.empty"
proof -
  let ?fs = "locked_fs ''d'' wit_dbfs"
  obtain db where o: "DB_open (\<lambda>_ _. True) wit_options wit_dbfs = (Inr db, ?fs)"
    "running db ?fs (\<lambda>_. []) 1" "db_options db = wit_options"
    using open_running [OF wit_openable, of "\<lambda>_ _. True"] by auto
  have "log_files db ?fs (\<lambda>_. []) (first_ids 1)"
    using o(2) by (simp add: running_def log_inv_def)
  then have room: "room db ?fs 900" using room_log [of db _ "\<lambda>_. []"] o(3) by simp
  have "session wit_options Map.empty db ?fs"
    using session_open [OF wit_openable, of "\<lambda>_ _. True"] o(1) committed_Nil by (simp add: records_def)
  moreover have "kv_of (db, ?fs) = Map.empty"
    using session_get [OF calculation] by (simp add: fun_eq_iff kv_of_def db_kv_def)
  ultimately show ?thesis using running_ready [OF o(2) room] by (intro exI [of _ "(db, ?fs)"]) simp
qed

section \<open>Hashes\<close>

definition hash_at :: "rds \<Rightarrow> string \<Rightarrow> (string \<rightharpoonup> string) \<Rightarrow> bool" where
  "hash_at s key h \<longleftrightarrow> map_at HASH s key (\<lambda>f. map_option string_to_bytes (h f))"

lemma data_type_bytes [simp]:
  "data_type_of_byte (data_type_to_byte STRING) = STRING" "data_type_of_byte (data_type_to_byte HASH) = HASH"
  "data_type_of_byte (data_type_to_byte SET) = SET" "data_type_of_byte (data_type_to_byte LIST) = LIST"
  "data_type_of_byte (data_type_to_byte ZSET) = ZSET"
  by (simp_all add: data_type_of_byte_def data_type_to_byte_def)

lemma dom_map_option_comp [simp]: "dom (\<lambda>f. map_option g (h f)) = dom h"
  by (auto simp: domIff)

lemma map_option_fun_upd:
  "(\<lambda>f. map_option g (h f))(k \<mapsto> g v) = (\<lambda>f. map_option g ((h(k \<mapsto> v)) f))"
  "(\<lambda>f. map_option g (h f))(k := None) = (\<lambda>f. map_option g ((h(k := None)) f))"
  by auto

lemma hash_metadata:
  assumes "hash_at s key h" "new_version clock s key" "ready_for n s" "key \<noteq> []"
  obtains m where "find_metadata clock key HASH s = (Inr m, s)" "metadata_is clock HASH s key m" "md_ok m"
    "md_data_type m = HASH" "md_expire m = 0" "unat (md_size m) = card (dom h)"
    "\<And>f. kv_of s (elem_key key m f) = map_option string_to_bytes (h f)" "finite (dom h)"
proof -
  obtain m where m: "metadata_is clock HASH s key m" "md_ok m" "md_data_type m = HASH" "md_expire m = 0"
    "unat (md_size m) = card (dom h)" "\<And>f. kv_of s (elem_key key m f) = map_option string_to_bytes (h f)"
    "finite (dom h)"
    using map_at_metadata [OF assms(1) [unfolded hash_at_def] assms(2)] by auto
  from that [OF find_metadata_is [OF m(1) assms(3,4)] m] show ?thesis .
qed

lemma rds_hset_ok:
  assumes "hash_at s key h" "new_version clock s key" "ready_for (op_bytes key f (length v) + n) s"
    and sizes: "elem_size_ok key f" "length v \<le> MAX_RECORD_SIZE" "card (dom h) + 1 < 2 ^ 32"
  shows "\<exists>s'. rds_hset clock key f v s = (Inr (h f = None), s') \<and> hash_at s' key (h(f \<mapsto> v))
    \<and> ready_for n s' \<and> others_same key s s'"
proof -
  obtain m where find: "find_metadata clock key HASH s = (Inr m, s)"
    and m: "metadata_is clock HASH s key m" "md_ok m" "md_data_type m = HASH" "md_expire m = 0"
    "unat (md_size m) = card (dom (\<lambda>f. map_option string_to_bytes (h f)))"
    "\<And>f. kv_of s (elem_key key m f) = map_option string_to_bytes (h f)"
    "finite (dom (\<lambda>f. map_option string_to_bytes (h f)))"
    using hash_metadata [OF assms(1-3) elem_size_okD(1) [OF sizes(1)]] by auto
  have has: "db_has (elem_key key m f) s = (Inr (h f \<noteq> None), s)"
    using db_has_kv [OF assms(3)] by (simp add: m(6))
  show ?thesis
  proof (cases "h f = None")
    case True
    from put_element [OF m, of f "string_to_bytes v" n] assms(3) sizes True
    obtain s1 s2 where "db_put (elem_key key m f) (string_to_bytes v) s = (Inr (), s1)"
      "put_metadata key (m\<lparr>md_size := md_size m + 1\<rparr>) s1 = (Inr (), s2)"
      "map_at HASH s2 key ((\<lambda>f. map_option string_to_bytes (h f))(f \<mapsto> string_to_bytes v))" "ready_for n s2"
      "others_same key s s2" by auto
    then show ?thesis
      using find has True by (simp add: rds_hset_def internal_keys hash_at_def map_option_fun_upd)
  next
    case False
    from overwrite_element [OF m, of f "string_to_bytes v" n] assms(3) sizes False
    obtain s1 where "db_put (elem_key key m f) (string_to_bytes v) s = (Inr (), s1)"
      "map_at HASH s1 key ((\<lambda>f. map_option string_to_bytes (h f))(f \<mapsto> string_to_bytes v))" "ready_for n s1"
      "others_same key s s1" by auto
    then show ?thesis
      using find has False by (simp add: rds_hset_def internal_keys hash_at_def map_option_fun_upd)
  qed
qed

lemma rds_hget_ok:
  assumes "hash_at s key h" "new_version clock s key" "ready_for n s" "key \<noteq> []"
  shows "rds_hget clock key f s = ((case h f of None \<Rightarrow> Inl KeyNotFoundError | Some v \<Rightarrow> Inr v), s)"
proof -
  obtain m where m: "find_metadata clock key HASH s = (Inr m, s)" "unat (md_size m) = card (dom h)"
    "\<And>f. kv_of s (elem_key key m f) = map_option string_to_bytes (h f)" "finite (dom h)"
    using hash_metadata [OF assms] by blast
  have "h f = None" if "md_size m = 0" using that m(2,4) by (auto simp: domIff)
  then show ?thesis
    using m(1) eng.get_kv [OF assms(3), of "elem_key key m f"]
    by (auto simp: rds_hget_def internal_keys m(3) split: option.split)
qed

lemma rds_hdel_ok:
  assumes "hash_at s key h" "new_version clock s key" "ready_for (op_bytes key f 0 + n) s" "elem_size_ok key f"
    and "h f \<noteq> None"
  shows "\<exists>s'. rds_hdel clock key f s = (Inr True, s') \<and> hash_at s' key (h(f := None))
    \<and> ready_for n s' \<and> others_same key s s'"
proof -
  obtain m where find: "find_metadata clock key HASH s = (Inr m, s)"
    and m: "metadata_is clock HASH s key m" "md_ok m" "md_data_type m = HASH" "md_expire m = 0"
    "unat (md_size m) = card (dom (\<lambda>f. map_option string_to_bytes (h f)))"
    "\<And>f. kv_of s (elem_key key m f) = map_option string_to_bytes (h f)"
    "finite (dom (\<lambda>f. map_option string_to_bytes (h f)))"
    using hash_metadata [OF assms(1-3) elem_size_okD(1) [OF assms(4)]] by auto
  have size: "md_size m \<noteq> 0" using m(5,7) assms(5) by (auto simp: domIff)
  from remove_element [OF m, of f n] assms(3-5)
  obtain s1 s2 where "db_remove (elem_key key m f) s = (Inr (), s1)"
    "shrink_metadata key (m\<lparr>md_size := md_size m - 1\<rparr>) s1 = (Inr (), s2)"
    "map_at HASH s2 key ((\<lambda>f. map_option string_to_bytes (h f))(f := None))" "ready_for n s2"
    "others_same key s s2" by auto
  then show ?thesis
    using find size
    by (simp add: rds_hdel_def internal_keys hash_at_def map_option_fun_upd catch_not_found_def)
qed

lemma new_version_stored: "kv_of s (string_to_bytes key) \<noteq> None \<Longrightarrow> new_version clock s key"
  by (auto simp: new_version_def)

lemma map_at_stored_key: "map_at t s key h \<Longrightarrow> h f \<noteq> None \<Longrightarrow> kv_of s (string_to_bytes key) \<noteq> None"
  by (auto simp: map_at_def domIff split: option.splits)

lemma hash_at_new_version: "hash_at s key h \<Longrightarrow> h f \<noteq> None \<Longrightarrow> new_version clock s key"
  using map_at_stored_key [of HASH s key _ f] by (simp add: hash_at_def new_version_stored)

lemma map_at_empty: "kv_of s = Map.empty \<Longrightarrow> map_at t s key Map.empty" "kv_of s = Map.empty \<Longrightarrow> new_version clock s key"
  by (simp_all add: map_at_def new_version_def)

lemma hash_at_empty: "kv_of s = Map.empty \<Longrightarrow> hash_at s key Map.empty"
  using map_at_empty by (simp add: hash_at_def)

text \<open>
  C8: a hash is a map. Where \<open>h\<close> is stored under a key, \<open>hset\<close> returns whether the field is new and
  leaves \<open>h(f \<mapsto> v)\<close> stored; \<open>hget\<close> then returns for every field, at any time, what that map has; and
  no key that does not start with the key of the hash changes. The hypotheses: the bytes fit in the
  active file and in the record sizes, the field count does not wrap, and a hash that is created
  gets a version that no element left in the database has.
\<close>

theorem rds_hset_is_update:
  assumes "hash_at s key h" "new_version clock s key" "ready_for (op_bytes key f (length v) + n) s"
    and "elem_size_ok key f" "length v \<le> MAX_RECORD_SIZE" "card (dom h) + 1 < 2 ^ 32"
  shows "\<exists>s'. rds_hset clock key f v s = (Inr (h f = None), s') \<and> hash_at s' key (h(f \<mapsto> v))
    \<and> ready_for n s' \<and> others_same key s s'
    \<and> (\<forall>clock' g. rds_hget clock' key g s'
         = ((case (h(f \<mapsto> v)) g of None \<Rightarrow> Inl KeyNotFoundError | Some w \<Rightarrow> Inr w), s'))"
proof -
  obtain s' where s': "rds_hset clock key f v s = (Inr (h f = None), s')" "hash_at s' key (h(f \<mapsto> v))"
    "ready_for n s'" "others_same key s s'"
    using rds_hset_ok [OF assms] by blast
  have "rds_hget clock' key g s' = ((case (h(f \<mapsto> v)) g of None \<Rightarrow> Inl KeyNotFoundError | Some w \<Rightarrow> Inr w), s')" for clock' g
    using hash_at_new_version [OF s'(2), of f clock'] elem_size_okD(1) [OF assms(4)]
    by (intro rds_hget_ok [OF s'(2) _ s'(3)]) simp_all
  with s' show ?thesis by blast
qed

lemma wit_sizes: "elem_size_ok ''h'' [c]" "elem_size_ok ''h'' [c, d]"
  by (simp_all add: elem_size_ok_def MAX_RECORD_SIZE_def)

lemma wit_hash: "\<exists>s. hash_at s ''h'' [''f'' \<mapsto> ''v''] \<and> ready_for 600 s"
proof -
  obtain s where s: "ready_for 900 s" "kv_of s = Map.empty" using wit_ready by blast
  have "ready_for (op_bytes ''h'' ''f'' (length ''v'') + 600) s"
    by (rule eng.ready_less [OF s(1)]) (simp add: op_bytes_def)
  from rds_hset_ok [OF hash_at_empty [OF s(2)] map_at_empty(2) [OF s(2)] this wit_sizes(1)]
  show ?thesis by (fastforce simp: MAX_RECORD_SIZE_def)
qed

theorem rds_hset_is_update_witness:
  "\<exists>s s'. hash_at s ''h'' [''f'' \<mapsto> ''v''] \<and> rds_hset (\<lambda>_. 7) ''h'' ''g'' ''w'' s = (Inr True, s')
    \<and> rds_hget (\<lambda>_. 8) ''h'' ''f'' s' = (Inr ''v'', s') \<and> rds_hget (\<lambda>_. 8) ''h'' ''g'' s' = (Inr ''w'', s')
    \<and> rds_hget (\<lambda>_. 8) ''h'' ''x'' s' = (Inl KeyNotFoundError, s')"
proof -
  obtain s where s: "hash_at s ''h'' [''f'' \<mapsto> ''v'']" "ready_for 600 s" using wit_hash by blast
  have r: "ready_for (op_bytes ''h'' ''g'' (length ''w'') + 0) s"
    by (rule eng.ready_less [OF s(2)]) (simp add: op_bytes_def)
  have nv: "new_version (\<lambda>_. 7) s ''h''" using hash_at_new_version [OF s(1), of "''f''"] by simp
  obtain s' where s': "rds_hset (\<lambda>_. 7) ''h'' ''g'' ''w'' s = (Inr ([''f'' \<mapsto> ''v''] ''g'' = None), s')"
    "\<forall>clock' g. rds_hget clock' ''h'' g s'
         = ((case ([''f'' \<mapsto> ''v''](''g'' \<mapsto> ''w'')) g of None \<Rightarrow> Inl KeyNotFoundError | Some w \<Rightarrow> Inr w), s')"
    using rds_hset_is_update [OF s(1) nv r wit_sizes(1)] by (auto simp: MAX_RECORD_SIZE_def)
  show ?thesis using s(1) s'(1) s'(2) [rule_format, of "\<lambda>_. 8"] by (intro exI [of _ s] exI [of _ s']) simp
qed

text \<open>
  \<open>hdel\<close> of a field that is there returns true, leaves the map without it and the other fields as
  they were; with the last field the key goes away, so that \<open>exists\<close> is false exactly then.
\<close>

theorem rds_hdel_is_removal:
  assumes "hash_at s key h" "new_version clock s key" "ready_for (op_bytes key f 0 + n) s" "elem_size_ok key f"
    and "h f \<noteq> None"
  shows "\<exists>s'. rds_hdel clock key f s = (Inr True, s') \<and> hash_at s' key (h(f := None))
    \<and> ready_for n s' \<and> others_same key s s' \<and> rds_exists key s' = (Inr (\<exists>g. g \<noteq> f \<and> h g \<noteq> None), s')"
proof -
  obtain s' where s': "rds_hdel clock key f s = (Inr True, s')" "hash_at s' key (h(f := None))"
    "ready_for n s'" "others_same key s s'"
    using rds_hdel_ok [OF assms] by blast
  have "kv_of s' (string_to_bytes key) \<noteq> None \<longleftrightarrow> dom (h(f := None)) \<noteq> {}"
    using s'(2) by (auto simp: hash_at_def map_at_def simp del: fun_upd_apply dom_fun_upd split: option.splits)
  moreover have "dom (h(f := None)) \<noteq> {} \<longleftrightarrow> (\<exists>g. g \<noteq> f \<and> h g \<noteq> None)" by auto
  moreover have "rds_exists key s' = (Inr (kv_of s' (string_to_bytes key) \<noteq> None), s')"
    using db_has_kv [OF s'(3)] elem_size_okD(1) [OF assms(4)] by (simp add: rds_exists_def)
  ultimately show ?thesis using s' by auto
qed

theorem rds_hdel_is_removal_witness:
  "\<exists>s s'. hash_at s ''h'' [''f'' \<mapsto> ''v''] \<and> rds_hdel (\<lambda>_. 7) ''h'' ''f'' s = (Inr True, s')
    \<and> rds_exists ''h'' s' = (Inr False, s')"
proof -
  obtain s where s: "hash_at s ''h'' [''f'' \<mapsto> ''v'']" "ready_for 600 s" using wit_hash by blast
  have r: "ready_for (op_bytes ''h'' ''f'' 0 + 0) s"
    by (rule eng.ready_less [OF s(2)]) (simp add: op_bytes_def)
  have nv: "new_version (\<lambda>_. 7) s ''h''" using hash_at_new_version [OF s(1), of "''f''"] by simp
  from rds_hdel_is_removal [OF s(1) nv r wit_sizes(1)] show ?thesis using s(1) by fastforce
qed

text \<open>
  \<open>hdel\<close> of a field that is not there. \<open>remove\<close> does not report that a key is missing, so \<open>hdel\<close>
  returns true and takes one off the size all the same: a hash with one field is deleted by the
  removal of another one, and the field it had is no longer found.
\<close>

theorem rds_hdel_missing_deletes:
  assumes hash: "hash_at s key [g \<mapsto> w]" and other: "f \<noteq> g"
    and ready: "ready_for (op_bytes key f 0 + n) s" and sizes: "elem_size_ok key f"
  shows "\<exists>s'. rds_hdel clock key f s = (Inr True, s') \<and> rds_exists key s' = (Inr False, s')
    \<and> (\<forall>clock' x. rds_hget clock' key x s' = (Inl KeyNotFoundError, s'))"
proof -
  have nv: "new_version clock s key" using hash_at_new_version [OF hash, of g] by simp
  obtain m where m: "find_metadata clock key HASH s = (Inr m, s)" "unat (md_size m) = card (dom [g \<mapsto> w])"
    "\<And>f. kv_of s (elem_key key m f) = map_option string_to_bytes ([g \<mapsto> w] f)"
    using hash_metadata [OF hash nv ready elem_size_okD(1) [OF sizes]] by blast
  have size: "md_size m = 1" using m(2) by (simp add: word_unat_eq_iff)
  have "ready_for (50 + length (elem_key key m f) + length (string_to_bytes key) + n) s"
    by (rule eng.ready_less [OF ready]) (simp add: op_bytes_def)
  from eng.remove_remove [OF this elem_size_okD(3,2) [OF sizes]]
  obtain s1 s2 where s: "db_remove (elem_key key m f) s = (Inr (), s1)"
    "db_remove (string_to_bytes key) s1 = (Inr (), s2)"
    "kv_of s2 = (kv_of s)(elem_key key m f := None, string_to_bytes key := None)" "ready_for n s2" by auto
  have "rds_hdel clock key f s = (Inr True, s2)"
    using m(1) size s(1,2) by (simp add: rds_hdel_def internal_keys shrink_metadata_def catch_not_found_def)
  moreover have "rds_exists key s2 = (Inr False, s2)"
    using db_has_kv [OF s(4)] elem_size_okD(1) [OF sizes] by (simp add: rds_exists_def s(3))
  moreover have "rds_hget clock' key x s2 = (Inl KeyNotFoundError, s2)" for clock' x
  proof -
    have "metadata_is clock' HASH s2 key (new_metadata (clock' 1) HASH)" by (simp add: metadata_is_def s(3))
    from find_metadata_is [OF this s(4) elem_size_okD(1) [OF sizes]] show ?thesis by (simp add: rds_hget_def)
  qed
  ultimately show ?thesis by blast
qed

theorem rds_hdel_missing_deletes_witness:
  "\<exists>s s'. hash_at s ''h'' [''f'' \<mapsto> ''v''] \<and> rds_hdel (\<lambda>_. 7) ''h'' ''g'' s = (Inr True, s')
    \<and> rds_hget (\<lambda>_. 8) ''h'' ''f'' s' = (Inl KeyNotFoundError, s')"
proof -
  obtain s where s: "hash_at s ''h'' [''f'' \<mapsto> ''v'']" "ready_for 600 s" using wit_hash by blast
  have r: "ready_for (op_bytes ''h'' ''g'' 0 + 0) s"
    by (rule eng.ready_less [OF s(2)]) (simp add: op_bytes_def)
  from rds_hdel_missing_deletes [OF s(1) _ r wit_sizes(1), of "\<lambda>_. 7"] s(1) show ?thesis by fastforce
qed

section \<open>Sets\<close>

definition set_at :: "rds \<Rightarrow> string \<Rightarrow> string set \<Rightarrow> bool" where
  "set_at s key A \<longleftrightarrow> map_at SET s key (\<lambda>x. if x \<in> A then Some [] else None)"

lemma dom_set_map [simp]: "dom (\<lambda>x. if x \<in> A then Some b else None) = A"
  by (auto simp: domIff split: if_splits)

lemma set_map_upd:
  "(\<lambda>x. if x \<in> A then Some [] else None)(y \<mapsto> []) = (\<lambda>x. if x \<in> insert y A then Some [] else None)"
  "(\<lambda>x. if x \<in> A then Some [] else None)(y := None) = (\<lambda>x. if x \<in> A - {y} then Some [] else None)"
  by auto

lemma set_metadata:
  assumes "set_at s key A" "new_version clock s key" "ready_for n s" "key \<noteq> []"
  obtains m where "find_metadata clock key SET s = (Inr m, s)" "metadata_is clock SET s key m" "md_ok m"
    "md_data_type m = SET" "md_expire m = 0" "unat (md_size m) = card (dom (\<lambda>x. if x \<in> A then Some ([] :: bytes) else None))"
    "\<And>x. kv_of s (elem_key key m x) = (if x \<in> A then Some [] else None)"
    "finite (dom (\<lambda>x. if x \<in> A then Some ([] :: bytes) else None))"
proof -
  obtain m where m: "metadata_is clock SET s key m" "md_ok m" "md_data_type m = SET" "md_expire m = 0"
    "unat (md_size m) = card (dom (\<lambda>x. if x \<in> A then Some ([] :: bytes) else None))"
    "\<And>x. kv_of s (elem_key key m x) = (if x \<in> A then Some [] else None)"
    "finite (dom (\<lambda>x. if x \<in> A then Some ([] :: bytes) else None))"
    using map_at_metadata [OF assms(1) [unfolded set_at_def] assms(2)] by auto
  from that [OF find_metadata_is [OF m(1) assms(3,4)] m] show ?thesis .
qed

lemma set_at_new_version: "set_at s key A \<Longrightarrow> x \<in> A \<Longrightarrow> new_version clock s key"
  using map_at_stored_key [of SET s key _ x] by (simp add: set_at_def new_version_stored)

lemma rds_sismember_ok:
  assumes "set_at s key A" "new_version clock s key" "ready_for n s" "key \<noteq> []"
  shows "rds_sismember clock key x s = (Inr (x \<in> A), s)"
proof -
  obtain m where m: "find_metadata clock key SET s = (Inr m, s)" "unat (md_size m) = card A" "finite A"
    "\<And>x. kv_of s (elem_key key m x) = (if x \<in> A then Some [] else None)"
    using set_metadata [OF assms] by auto
  have "x \<notin> A" if "md_size m = 0" using that m(2,3) by auto
  then show ?thesis
    using m(1,4) db_has_kv [OF assms(3), of "elem_key key m x"] by (simp add: rds_sismember_def internal_keys)
qed

lemma rds_sadd_ok:
  assumes "set_at s key A" "new_version clock s key" "ready_for (op_bytes key x 0 + n) s"
    and sizes: "elem_size_ok key x" "card A + 1 < 2 ^ 32"
  shows "\<exists>s'. rds_sadd clock key x s = (Inr (x \<notin> A), s') \<and> set_at s' key (insert x A)
    \<and> ready_for n s' \<and> others_same key s s'"
proof -
  let ?h = "\<lambda>x. if x \<in> A then Some ([] :: bytes) else None"
  obtain m where find: "find_metadata clock key SET s = (Inr m, s)"
    and m: "metadata_is clock SET s key m" "md_ok m" "md_data_type m = SET" "md_expire m = 0"
    "unat (md_size m) = card (dom ?h)" "\<And>x. kv_of s (elem_key key m x) = ?h x" "finite (dom ?h)"
    using set_metadata [OF assms(1-3) elem_size_okD(1) [OF sizes(1)]] by blast
  have has: "db_has (elem_key key m x) s = (Inr (x \<in> A), s)"
    using db_has_kv [OF assms(3), of "elem_key key m x"] m(6) [of x] by simp
  show ?thesis
  proof (cases "x \<in> A")
    case True
    then show ?thesis
      using find has assms(1) eng.ready_less [OF assms(3), of n]
      by (simp add: rds_sadd_def internal_keys insert_absorb)
  next
    case False
    from put_element [OF m, of x "[]" n] assms(3) sizes False
    obtain s1 s2 where "db_put (elem_key key m x) [] s = (Inr (), s1)"
      "put_metadata key (m\<lparr>md_size := md_size m + 1\<rparr>) s1 = (Inr (), s2)"
      "map_at SET s2 key (?h(x \<mapsto> []))" "ready_for n s2" "others_same key s s2" by auto
    then show ?thesis
      using find has False by (simp add: rds_sadd_def internal_keys set_at_def set_map_upd)
  qed
qed

lemma rds_srem_ok:
  assumes "set_at s key A" "new_version clock s key" "ready_for (op_bytes key x 0 + n) s" "elem_size_ok key x" "x \<in> A"
  shows "\<exists>s'. rds_srem clock key x s = (Inr True, s') \<and> set_at s' key (A - {x})
    \<and> ready_for n s' \<and> others_same key s s'"
proof -
  let ?h = "\<lambda>x. if x \<in> A then Some ([] :: bytes) else None"
  obtain m where find: "find_metadata clock key SET s = (Inr m, s)"
    and m: "metadata_is clock SET s key m" "md_ok m" "md_data_type m = SET" "md_expire m = 0"
    "unat (md_size m) = card (dom ?h)" "\<And>x. kv_of s (elem_key key m x) = ?h x" "finite (dom ?h)"
    using set_metadata [OF assms(1-3) elem_size_okD(1) [OF assms(4)]] by blast
  have size: "md_size m \<noteq> 0" using m(5,7) assms(5) by auto
  from remove_element [OF m, of x n] assms(3-5)
  obtain s1 s2 where "db_remove (elem_key key m x) s = (Inr (), s1)"
    "shrink_metadata key (m\<lparr>md_size := md_size m - 1\<rparr>) s1 = (Inr (), s2)"
    "map_at SET s2 key (?h(x := None))" "ready_for n s2" "others_same key s s2" by auto
  then show ?thesis
    using find size by (simp add: rds_srem_def internal_keys set_at_def set_map_upd catch_not_found_def)
qed

text \<open>
  C10: a set is a set. \<open>sadd\<close> returns whether the member is new and inserts it, \<open>sismember\<close> then tells
  membership, and \<open>srem\<close> of a member that is there removes it; no key that does not start with the
  key of the set changes. The hypotheses are those of the hash: the bytes fit in the active file and in
  the record sizes, the count of members does not wrap, and a set that is created gets a version that no
  element left in the database has.
\<close>

theorem rds_set_is_set:
  assumes "set_at s key A" "new_version clock s key" "ready_for (op_bytes key x 0 + (op_bytes key y 0 + n)) s"
    and "elem_size_ok key x" "elem_size_ok key y" "card A + 1 < 2 ^ 32" "y \<in> insert x A"
  shows "\<exists>s1 s2. rds_sadd clock key x s = (Inr (x \<notin> A), s1) \<and> set_at s1 key (insert x A)
    \<and> (\<forall>clock' z. rds_sismember clock' key z s1 = (Inr (z \<in> insert x A), s1))
    \<and> rds_srem clock2 key y s1 = (Inr True, s2) \<and> set_at s2 key (insert x A - {y}) \<and> ready_for n s2
    \<and> others_same key s s1 \<and> others_same key s1 s2"
proof -
  obtain s1 where s1: "rds_sadd clock key x s = (Inr (x \<notin> A), s1)" "set_at s1 key (insert x A)"
    "ready_for (op_bytes key y 0 + n) s1" "others_same key s s1"
    using rds_sadd_ok [OF assms(1-4,6)] by blast
  have nv: "new_version clock' s1 key" for clock' using set_at_new_version [OF s1(2)] by blast
  have "rds_sismember clock' key z s1 = (Inr (z \<in> insert x A), s1)" for clock' z
    by (rule rds_sismember_ok [OF s1(2) nv s1(3) elem_size_okD(1) [OF assms(4)]])
  with s1 rds_srem_ok [OF s1(2) nv s1(3) assms(5,7)] show ?thesis by blast
qed

theorem rds_set_is_set_witness:
  "\<exists>s s1 s2. kv_of s = Map.empty \<and> rds_sadd (\<lambda>_. 7) ''h'' ''x'' s = (Inr True, s1)
    \<and> rds_sismember (\<lambda>_. 8) ''h'' ''x'' s1 = (Inr True, s1) \<and> rds_sismember (\<lambda>_. 8) ''h'' ''y'' s1 = (Inr False, s1)
    \<and> rds_srem (\<lambda>_. 9) ''h'' ''x'' s1 = (Inr True, s2) \<and> set_at s2 ''h'' {}"
proof -
  obtain s where s: "ready_for 900 s" "kv_of s = Map.empty" using wit_ready by blast
  have "set_at s ''h'' {}" using map_at_empty(1) [OF s(2)] by (simp add: set_at_def)
  moreover have "ready_for (op_bytes ''h'' ''x'' 0 + (op_bytes ''h'' ''x'' 0 + 0)) s"
    by (rule eng.ready_less [OF s(1)]) (simp add: op_bytes_def)
  ultimately obtain s1 s2 where w: "rds_sadd (\<lambda>_. 7) ''h'' ''x'' s = (Inr (''x'' \<notin> {}), s1)"
    "\<forall>clock' z. rds_sismember clock' ''h'' z s1 = (Inr (z \<in> insert ''x'' {}), s1)"
    "rds_srem (\<lambda>_. 9) ''h'' ''x'' s1 = (Inr True, s2)" "set_at s2 ''h'' (insert ''x'' {} - {''x''})"
    using rds_set_is_set [OF _ map_at_empty(2) [OF s(2)] _ wit_sizes(1) wit_sizes(1), of "{}" _ _ 0] by fastforce
  have "rds_sismember (\<lambda>_. 8) ''h'' ''x'' s1 = (Inr True, s1)" "rds_sismember (\<lambda>_. 8) ''h'' ''y'' s1 = (Inr False, s1)"
    using w(2) by simp_all
  then show ?thesis using s(2) w(1,3,4) by (intro exI [of _ s] exI [of _ s1] exI [of _ s2]) simp
qed

end
