(* ===== verification/Redis_Lists.thy ===== *)
theory Redis_Lists
  imports Redis_Collections
begin

text \<open>
  Lists and strings of the Redis data types: a list is a sequence with two ends, whatever the
  positions of its marks (the indexes are 64-bit numbers and wrap); a string with a time to live is
  there until then.
\<close>

section \<open>Lists\<close>

lemma list_key_simps [simp]:
  "list_key key m i = list_key key m j \<longleftrightarrow> i = j" "list_key key m i \<noteq> string_to_bytes key"
  "string_to_bytes key \<noteq> list_key key m i" "list_key key m i \<noteq> []"
  "length (list_key key m i) = length key + 16" "take (length key) (list_key key m i) = string_to_bytes key"
  "list_key key (m\<lparr>md_size := n\<rparr>) = list_key key m" "list_key key (m\<lparr>md_head := u\<rparr>) = list_key key m"
  "list_key key (m\<lparr>md_tail := u\<rparr>) = list_key key m"
  by (auto simp: list_key_def ListInternalKey_encode_def le_encode_inj fun_eq_iff)

text \<open>The elements of \<open>xs\<close> under the indexes from the head mark on.\<close>

definition list_stored :: "rds \<Rightarrow> string \<Rightarrow> redis_metadata \<Rightarrow> string list \<Rightarrow> bool" where
  "list_stored s key m xs \<longleftrightarrow>
     md_ok m \<and> md_data_type m = LIST \<and> md_expire m = 0 \<and> length xs < 2 ^ 32
     \<and> md_size m = of_nat (length xs) \<and> md_tail m = md_head m + of_nat (length xs)
     \<and> (\<forall>i < length xs. kv_of s (list_key key m (md_head m + of_nat i)) = Some (string_to_bytes (xs ! i)))"

definition list_at :: "rds \<Rightarrow> string \<Rightarrow> string list \<Rightarrow> bool" where
  "list_at s key xs \<longleftrightarrow>
     (case kv_of s (string_to_bytes key) of
        None \<Rightarrow> xs = []
      | Some b \<Rightarrow> xs \<noteq> [] \<and> (\<exists>m. b = RedisMetadata_encode m \<and> list_stored s key m xs))"

lemma of_nat_u32_0: "n < 2 ^ 32 \<Longrightarrow> (of_nat n :: u32) = 0 \<longleftrightarrow> n = 0"
  by (simp add: word_unat_eq_iff unat_of_nat take_bit_nat_eq_self)

lemma of_nat_index: "\<lbrakk>i < 2 ^ 33; j < 2 ^ 33\<rbrakk> \<Longrightarrow> (of_nat i :: u64) = of_nat j \<longleftrightarrow> i = j"
  by (simp add: word_unat_eq_iff unat_of_nat take_bit_nat_eq_self)

lemma list_metadata:
  assumes "list_at s key xs" "ready_for n s" "key \<noteq> []"
  obtains m where "find_metadata clock key LIST s = (Inr m, s)" "init_list m = m" "list_stored s key m xs"
proof (cases "kv_of s (string_to_bytes key)")
  case None
  then have "metadata_is clock LIST s key (new_metadata (clock 1) LIST)" "xs = []"
    using assms(1) by (simp_all add: metadata_is_def list_at_def)
  then show ?thesis
    using that find_metadata_is [OF _ assms(2,3)]
    by (simp add: init_list_def list_stored_def new_metadata_ok)
next
  case (Some b)
  then obtain m where m: "b = RedisMetadata_encode m" "list_stored s key m xs" "xs \<noteq> []"
    using assms(1) by (auto simp: list_at_def)
  then have "metadata_is clock LIST s key m" using Some by (simp add: metadata_is_def list_stored_def)
  moreover have "init_list m = m"
    using m(2,3) of_nat_u32_0 [of "length xs"] by (simp add: list_stored_def init_list_def)
  ultimately show ?thesis using that find_metadata_is [OF _ assms(2,3)] m(2) by blast
qed

definition list_bytes :: "string \<Rightarrow> nat \<Rightarrow> nat" where
  "list_bytes key v = 103 + 2 * length key + v"

definition list_size_ok :: "string \<Rightarrow> bool" where
  "list_size_ok key \<longleftrightarrow> key \<noteq> [] \<and> length key + 16 \<le> MAX_RECORD_SIZE"

lemma list_size_okD:
  assumes "list_size_ok key"
  shows "key \<noteq> []" "key_size_ok (string_to_bytes key)" "key_size_ok (list_key key m i)"
  using assms by (simp_all add: list_size_ok_def key_size_ok_def)

text \<open>An element is written under an index, and then the metadata.\<close>

lemma push_element:
  assumes ready: "ready_for (list_bytes key (length v) + n) s" and sizes: "list_size_ok key" "length v \<le> MAX_RECORD_SIZE"
    and key: "list_key key m' = list_key key m" and ne: "ys \<noteq> []"
    and stored: "\<And>s'. kv_of s' = (kv_of s)(list_key key m i \<mapsto> v, string_to_bytes key \<mapsto> RedisMetadata_encode m')
      \<Longrightarrow> list_stored s' key m' ys"
  shows "\<exists>s1 s2. db_put (list_key key m i) v s = (Inr (), s1) \<and> put_metadata key m' s1 = (Inr (), s2)
    \<and> list_at s2 key ys \<and> ready_for n s2 \<and> others_same key s s2"
proof -
  have "ready_for (50 + length (list_key key m i) + length v + length (string_to_bytes key)
      + length (RedisMetadata_encode m') + n) s"
    by (rule eng.ready_less [OF ready]) (use length_metadata_le(1) [of m'] in \<open>simp add: list_bytes_def\<close>)
  from eng.put_put [OF this list_size_okD(3,2) [OF sizes(1)] sizes(2) length_metadata_le(2)]
  obtain s1 s2 where s: "db_put (list_key key m i) v s = (Inr (), s1)"
    "db_put (string_to_bytes key) (RedisMetadata_encode m') s1 = (Inr (), s2)"
    "kv_of s2 = (kv_of s)(list_key key m i \<mapsto> v, string_to_bytes key \<mapsto> RedisMetadata_encode m')"
    "ready_for n s2" by blast
  have "list_at s2 key ys" using stored [OF s(3)] ne by (auto simp: list_at_def s(3))
  moreover have "others_same key s s2" by (auto simp: others_same_def s(3))
  ultimately show ?thesis using s(1,2,4) unfolding put_metadata_def by blast
qed

text \<open>An element is removed, and the metadata is written again or removed with the last one.\<close>

lemma pop_element:
  assumes ready: "ready_for (list_bytes key 0 + n) s" and sizes: "list_size_ok key"
    and size: "md_size m' = of_nat (length ys)" "length ys < 2 ^ 32"
    and stored: "\<And>s'. \<lbrakk>ys \<noteq> []; kv_of s' = (kv_of s)(list_key key m i := None, string_to_bytes key \<mapsto> RedisMetadata_encode m')\<rbrakk>
      \<Longrightarrow> list_stored s' key m' ys"
  shows "\<exists>s1 s2. db_remove (list_key key m i) s = (Inr (), s1) \<and> shrink_metadata key m' s1 = (Inr (), s2)
    \<and> list_at s2 key ys \<and> ready_for n s2 \<and> others_same key s s2"
proof (cases "ys = []")
  case False
  then have "md_size m' \<noteq> 0" using size of_nat_u32_0 by simp
  have "ready_for (50 + length (list_key key m i) + length (string_to_bytes key)
      + length (RedisMetadata_encode m') + n) s"
    by (rule eng.ready_less [OF ready]) (use length_metadata_le(1) [of m'] in \<open>simp add: list_bytes_def\<close>)
  from eng.remove_put [OF this list_size_okD(3,2) [OF sizes] length_metadata_le(2)]
  obtain s1 s2 where s: "db_remove (list_key key m i) s = (Inr (), s1)"
    "db_put (string_to_bytes key) (RedisMetadata_encode m') s1 = (Inr (), s2)"
    "kv_of s2 = (kv_of s)(list_key key m i := None, string_to_bytes key \<mapsto> RedisMetadata_encode m')"
    "ready_for n s2" by blast
  have "list_at s2 key ys" using stored [OF False s(3)] False by (auto simp: list_at_def s(3))
  moreover have "others_same key s s2" by (auto simp: others_same_def s(3))
  moreover have "shrink_metadata key m' s1 = (Inr (), s2)"
    using s(2) \<open>md_size m' \<noteq> 0\<close> by (simp add: shrink_metadata_def put_metadata_def)
  ultimately show ?thesis using s(1,4) by blast
next
  case True
  have "ready_for (50 + length (list_key key m i) + length (string_to_bytes key) + n) s"
    by (rule eng.ready_less [OF ready]) (simp add: list_bytes_def)
  from eng.remove_remove [OF this list_size_okD(3,2) [OF sizes]]
  obtain s1 s2 where s: "db_remove (list_key key m i) s = (Inr (), s1)"
    "db_remove (string_to_bytes key) s1 = (Inr (), s2)"
    "kv_of s2 = (kv_of s)(list_key key m i := None, string_to_bytes key := None)" "ready_for n s2" by blast
  have "list_at s2 key ys" using True by (simp add: list_at_def s(3))
  moreover have "others_same key s s2" by (auto simp: others_same_def s(3))
  moreover have "shrink_metadata key m' s1 = (Inr (), s2)"
    using s(2) size True by (simp add: shrink_metadata_def)
  ultimately show ?thesis using s(1,4) by blast
qed

lemma rds_lpush_ok:
  assumes "list_at s key xs" "ready_for (list_bytes key (length x) + n) s" "list_size_ok key"
    and "length x \<le> MAX_RECORD_SIZE" "length xs + 1 < 2 ^ 32"
  shows "\<exists>s'. rds_lpush clock key x s = (Inr (of_nat (length (x # xs))), s') \<and> list_at s' key (x # xs)
    \<and> ready_for n s' \<and> others_same key s s'"
proof -
  obtain m where m: "find_metadata clock key LIST s = (Inr m, s)" "init_list m = m" "list_stored s key m xs"
    using list_metadata [OF assms(1,2) list_size_okD(1) [OF assms(3)]] by blast
  let ?m = "m\<lparr>md_head := md_head m - 1, md_size := md_size m + 1\<rparr>" and ?i = "md_head m - 1"
  have st: "list_stored s' key ?m (x # xs)"
    if "kv_of s' = (kv_of s)(list_key key m ?i \<mapsto> string_to_bytes x, string_to_bytes key \<mapsto> RedisMetadata_encode ?m)" for s'
  proof -
    have "kv_of s' (list_key key m (?i + of_nat i)) = Some (string_to_bytes ((x # xs) ! i))" if i: "i < Suc (length xs)" for i
    proof (cases i)
      case (Suc j)
      have "(of_nat i :: u64) \<noteq> 0" using of_nat_index [of i 0] i Suc assms(5) by simp
      moreover have "?i + of_nat i = md_head m + of_nat j" by (simp add: Suc)
      ultimately show ?thesis
        using m(3) i Suc \<open>kv_of s' = _\<close> by (auto simp: list_stored_def)
    qed (simp add: \<open>kv_of s' = _\<close>)
    then show ?thesis using m(3) assms(5) by (simp add: list_stored_def)
  qed
  obtain s1 s2 where s: "db_put (list_key key m ?i) (string_to_bytes x) s = (Inr (), s1)"
    "put_metadata key ?m s1 = (Inr (), s2)" "list_at s2 key (x # xs)" "ready_for n s2" "others_same key s s2"
    using push_element [of key "string_to_bytes x" n s ?m m "x # xs" ?i, OF _ assms(3) _ _ _ st] assms(2,4) by auto
  have "md_size m = of_nat (length xs)" using m(3) by (simp add: list_stored_def)
  then show ?thesis
    using m(1,2) s by (simp add: rds_lpush_def Let_def add.commute)
qed

lemma rds_rpush_ok:
  assumes "list_at s key xs" "ready_for (list_bytes key (length x) + n) s" "list_size_ok key"
    and "length x \<le> MAX_RECORD_SIZE" "length xs + 1 < 2 ^ 32"
  shows "\<exists>s'. rds_rpush clock key x s = (Inr (of_nat (length (xs @ [x]))), s') \<and> list_at s' key (xs @ [x])
    \<and> ready_for n s' \<and> others_same key s s'"
proof -
  obtain m where m: "find_metadata clock key LIST s = (Inr m, s)" "init_list m = m" "list_stored s key m xs"
    using list_metadata [OF assms(1,2) list_size_okD(1) [OF assms(3)]] by blast
  let ?m = "m\<lparr>md_tail := md_tail m + 1, md_size := md_size m + 1\<rparr>" and ?i = "md_tail m"
  have i: "?i = md_head m + of_nat (length xs)" using m(3) by (simp add: list_stored_def)
  have st: "list_stored s' key ?m (xs @ [x])"
    if "kv_of s' = (kv_of s)(list_key key m ?i \<mapsto> string_to_bytes x, string_to_bytes key \<mapsto> RedisMetadata_encode ?m)" for s'
  proof -
    have "kv_of s' (list_key key m (md_head m + of_nat j)) = Some (string_to_bytes ((xs @ [x]) ! j))"
      if j: "j < Suc (length xs)" for j
      using m(3) j of_nat_index [of j "length xs"] assms(5) \<open>kv_of s' = _\<close>
      by (auto simp: list_stored_def i nth_append less_Suc_eq)
    then show ?thesis using m(3) assms(5) by (simp add: list_stored_def)
  qed
  obtain s1 s2 where s: "db_put (list_key key m ?i) (string_to_bytes x) s = (Inr (), s1)"
    "put_metadata key ?m s1 = (Inr (), s2)" "list_at s2 key (xs @ [x])" "ready_for n s2" "others_same key s s2"
    using push_element [of key "string_to_bytes x" n s ?m m "xs @ [x]" ?i, OF _ assms(3) _ _ _ st] assms(2,4) by auto
  have "md_size m = of_nat (length xs)" using m(3) by (simp add: list_stored_def)
  then show ?thesis
    using m(1,2) s by (simp add: rds_rpush_def Let_def add.commute)
qed

lemma list_stored_pop:
  assumes "list_stored s key m xs" "xs \<noteq> []"
  shows "md_size m \<noteq> 0" "md_size m - 1 = of_nat (length xs - 1)" "length xs - 1 < 2 ^ 32"
    "md_tail m - 1 = md_head m + of_nat (length xs - 1)"
proof -
  obtain k where k: "length xs = Suc k" using assms(2) by (cases xs) auto
  show "md_size m \<noteq> 0" using assms of_nat_u32_0 [of "length xs"] by (simp add: list_stored_def)
  show "md_size m - 1 = of_nat (length xs - 1)" "length xs - 1 < 2 ^ 32"
    "md_tail m - 1 = md_head m + of_nat (length xs - 1)"
    using assms(1) by (simp_all add: list_stored_def k)
qed

lemma rds_lpop_ok:
  assumes "list_at s key (x # xs)" "ready_for (list_bytes key 0 + n) s" "list_size_ok key"
  shows "\<exists>s'. rds_lpop clock key s = (Inr x, s') \<and> list_at s' key xs \<and> ready_for n s' \<and> others_same key s s'"
proof -
  obtain m where m: "find_metadata clock key LIST s = (Inr m, s)" "list_stored s key m (x # xs)"
    using list_metadata [OF assms(1,2) list_size_okD(1) [OF assms(3)]] by blast
  let ?m = "m\<lparr>md_head := md_head m + 1, md_size := md_size m - 1\<rparr>" and ?i = "md_head m"
  note pop = list_stored_pop [OF m(2), simplified]
  have elem: "kv_of s (list_key key m (?i + of_nat j)) = Some (string_to_bytes ((x # xs) ! j))" if "j < Suc (length xs)" for j
    using m(2) that by (simp add: list_stored_def)
  have get: "db_get (list_key key m ?i) s = Inr (string_to_bytes x)"
    using eng.get_kv [OF assms(2), of "list_key key m ?i"] elem [of 0] by simp
  have st: "list_stored s' key ?m xs"
    if kv: "kv_of s' = (kv_of s)(list_key key m ?i := None, string_to_bytes key \<mapsto> RedisMetadata_encode ?m)" for s'
  proof -
    have "kv_of s' (list_key key m (?i + 1 + of_nat j)) = Some (string_to_bytes (xs ! j))" if j: "j < length xs" for j
    proof -
      have "(of_nat (Suc j) :: u64) \<noteq> 0" using of_nat_index [of "Suc j" 0] j pop(3) by simp
      then have "kv_of s' (list_key key m (?i + of_nat (Suc j))) = kv_of s (list_key key m (?i + of_nat (Suc j)))"
        unfolding kv by simp
      then show ?thesis using elem [of "Suc j"] j by (simp add: add.assoc)
    qed
    then show ?thesis using m(2) by (simp add: list_stored_def)
  qed
  have "\<exists>s1 s2. db_remove (list_key key m ?i) s = (Inr (), s1) \<and> shrink_metadata key ?m s1 = (Inr (), s2)
    \<and> list_at s2 key xs \<and> ready_for n s2 \<and> others_same key s s2"
    by (rule pop_element [OF assms(2,3)]) (use pop(2,3) in simp, use pop(3) in simp, erule st)
  then obtain s1 s2 where s: "db_remove (list_key key m ?i) s = (Inr (), s1)" "shrink_metadata key ?m s1 = (Inr (), s2)"
    "list_at s2 key xs" "ready_for n s2" "others_same key s s2" by blast
  then show ?thesis using m(1) pop(1) get by (auto simp: rds_lpop_def)
qed

lemma rds_rpop_ok:
  assumes "list_at s key (xs @ [x])" "ready_for (list_bytes key 0 + n) s" "list_size_ok key"
  shows "\<exists>s'. rds_rpop clock key s = (Inr x, s') \<and> list_at s' key xs \<and> ready_for n s' \<and> others_same key s s'"
proof -
  obtain m where m: "find_metadata clock key LIST s = (Inr m, s)" "list_stored s key m (xs @ [x])"
    using list_metadata [OF assms(1,2) list_size_okD(1) [OF assms(3)]] by blast
  let ?m = "m\<lparr>md_tail := md_tail m - 1, md_size := md_size m - 1\<rparr>" and ?i = "md_tail m - 1"
  note pop = list_stored_pop [OF m(2), simplified]
  have elem: "kv_of s (list_key key m (md_head m + of_nat j)) = Some (string_to_bytes ((xs @ [x]) ! j))" if "j < Suc (length xs)" for j
    using m(2) that by (simp add: list_stored_def)
  have get: "db_get (list_key key m ?i) s = Inr (string_to_bytes x)"
    using eng.get_kv [OF assms(2), of "list_key key m ?i"] elem [of "length xs"] by (simp add: pop(4))
  have st: "list_stored s' key ?m xs"
    if kv: "kv_of s' = (kv_of s)(list_key key m ?i := None, string_to_bytes key \<mapsto> RedisMetadata_encode ?m)" for s'
  proof -
    have "kv_of s' (list_key key m (md_head m + of_nat j)) = Some (string_to_bytes (xs ! j))" if j: "j < length xs" for j
    proof -
      have "(of_nat j :: u64) \<noteq> of_nat (length xs)" using of_nat_index [of j "length xs"] j pop(3) by simp
      then have "kv_of s' (list_key key m (md_head m + of_nat j)) = kv_of s (list_key key m (md_head m + of_nat j))"
        unfolding kv pop(4) by simp
      then show ?thesis using elem [of j] j by (simp add: nth_append)
    qed
    then show ?thesis using m(2) pop by (simp add: list_stored_def)
  qed
  have "\<exists>s1 s2. db_remove (list_key key m ?i) s = (Inr (), s1) \<and> shrink_metadata key ?m s1 = (Inr (), s2)
    \<and> list_at s2 key xs \<and> ready_for n s2 \<and> others_same key s s2"
    by (rule pop_element [OF assms(2,3)]) (use pop(2,3) in simp, use pop(3) in simp, erule st)
  then obtain s1 s2 where s: "db_remove (list_key key m ?i) s = (Inr (), s1)" "shrink_metadata key ?m s1 = (Inr (), s2)"
    "list_at s2 key xs" "ready_for n s2" "others_same key s s2" by blast
  then show ?thesis using m(1) pop(1) get by (auto simp: rds_rpop_def)
qed

lemma rds_pop_empty:
  assumes "list_at s key []" "ready_for n s" "key \<noteq> []"
  shows "rds_lpop clock key s = (Inl KeyNotFoundError, s)" "rds_rpop clock key s = (Inl KeyNotFoundError, s)"
proof -
  obtain m where "find_metadata clock key LIST s = (Inr m, s)" "md_size m = 0"
    using list_metadata [OF assms] by (auto simp: list_stored_def)
  then show "rds_lpop clock key s = (Inl KeyNotFoundError, s)" "rds_rpop clock key s = (Inl KeyNotFoundError, s)"
    by (simp_all add: rds_lpop_def rds_rpop_def)
qed

text \<open>
  C9: a list is a double-ended queue. Where \<open>xs\<close> is stored under a key, \<open>lpush\<close> and \<open>rpush\<close> leave
  \<open>x # xs\<close> and \<open>xs @ [x]\<close> and return the new length; \<open>lpop\<close> and \<open>rpop\<close> return the first and the last
  element and leave the rest, and report \<open>KeyNotFoundError\<close> exactly on the empty list. The marks are
  64-bit numbers that may wrap; the length must not exceed 32 bits.
\<close>

theorem rds_list_is_deque:
  assumes list: "list_at s key xs" and ready: "ready_for (list_bytes key (length x) + n) s"
    and sizes: "list_size_ok key" "length x \<le> MAX_RECORD_SIZE" "length xs + 1 < 2 ^ 32"
  shows "(\<exists>s'. rds_lpush clock key x s = (Inr (of_nat (length xs + 1)), s') \<and> list_at s' key (x # xs)
        \<and> ready_for n s' \<and> others_same key s s')
    \<and> (\<exists>s'. rds_rpush clock key x s = (Inr (of_nat (length xs + 1)), s') \<and> list_at s' key (xs @ [x])
        \<and> ready_for n s' \<and> others_same key s s')
    \<and> (\<exists>s'. rds_lpop clock key s = ((if xs = [] then Inl KeyNotFoundError else Inr (hd xs)), s')
        \<and> list_at s' key (tl xs) \<and> ready_for n s' \<and> others_same key s s')
    \<and> (\<exists>s'. rds_rpop clock key s = ((if xs = [] then Inl KeyNotFoundError else Inr (last xs)), s')
        \<and> list_at s' key (butlast xs) \<and> ready_for n s' \<and> others_same key s s')"
    (is "?lpush \<and> ?rpush \<and> ?lpop \<and> ?rpop")
proof -
  have less: "ready_for (list_bytes key 0 + n) s" by (rule eng.ready_less [OF ready]) (simp add: list_bytes_def)
  have n: "ready_for n s" by (rule eng.ready_less [OF ready]) simp
  note key = list_size_okD(1) [OF sizes(1)]
  have "?lpush" using rds_lpush_ok [OF list ready sizes, of clock] by simp
  moreover have "?rpush" using rds_rpush_ok [OF list ready sizes, of clock] by simp
  moreover have "?lpop"
  proof (cases xs)
    case Nil
    then show ?thesis using rds_pop_empty(1) [OF list [unfolded Nil] n key] list n by simp
  next
    case (Cons y ys)
    then show ?thesis using rds_lpop_ok [OF list [unfolded Cons] less sizes(1)] by simp
  qed
  moreover have "?rpop"
  proof (cases xs rule: rev_cases)
    case Nil
    then show ?thesis using rds_pop_empty(2) [OF list [unfolded Nil] n key] list n by simp
  next
    case (snoc ys y)
    then show ?thesis using rds_rpop_ok [OF list [unfolded snoc] less sizes(1)] by simp
  qed
  ultimately show ?thesis by blast
qed

lemma wit_list_size: "list_size_ok ''l''"
  by (simp add: list_size_ok_def MAX_RECORD_SIZE_def)

lemma wit_list: "\<exists>s. list_at s ''l'' [''x''] \<and> ready_for 600 s"
proof -
  obtain s where s: "ready_for 900 s" "kv_of s = Map.empty" using wit_ready by blast
  have r: "ready_for (list_bytes ''l'' (length ''x'') + 600) s"
    by (rule eng.ready_less [OF s(1)]) (simp add: list_bytes_def)
  have "list_at s ''l'' []" by (simp add: list_at_def s(2))
  from rds_lpush_ok [OF this r wit_list_size] show ?thesis by (fastforce simp: MAX_RECORD_SIZE_def)
qed

theorem rds_list_is_deque_witness:
  "\<exists>s s'. list_at s ''l'' [''x''] \<and> rds_rpush (\<lambda>_. 7) ''l'' ''y'' s = (Inr 2, s') \<and> list_at s' ''l'' [''x'', ''y'']"
proof -
  obtain s where s: "list_at s ''l'' [''x'']" "ready_for 600 s" using wit_list by blast
  have r: "ready_for (list_bytes ''l'' (length ''y'') + 0) s"
    by (rule eng.ready_less [OF s(2)]) (simp add: list_bytes_def)
  have "length ''y'' \<le> MAX_RECORD_SIZE" "length [''x''] + 1 < 2 ^ 32" by (simp_all add: MAX_RECORD_SIZE_def)
  from rds_list_is_deque [OF s(1) r wit_list_size this, of "\<lambda>_. 7"] s(1) show ?thesis by fastforce
qed

section \<open>Strings\<close>

lemma read_le_expire: "read_le (Suc 0) 8 (b # le_encode 8 e @ v) = e"
  by (simp add: read_le_def le_decode_encode)

lemma unat_expire:
  assumes "0 < ttl" "unat (now :: u64) + nat ttl * 1000000 < 2 ^ 64"
  shows "unat (now + word_of_int ttl * 1000000) = unat now + nat ttl * 1000000"
proof -
  have "(word_of_int ttl :: u64) * 1000000 = of_nat (nat ttl * 1000000)" using assms(1) by (simp add: of_nat_mult)
  moreover have "unat (of_nat (nat ttl * 1000000) :: u64) = nat ttl * 1000000"
    by (rule unat_of_nat_u64) (use assms(2) in simp)
  ultimately show ?thesis using assms(2) unat_add_lem [of now "of_nat (nat ttl * 1000000)"] by simp
qed

lemma rds_set_ok:
  assumes ready: "ready_for (34 + length key + length v + n) s" and key: "key_size_ok (string_to_bytes key)"
    and v: "v \<noteq> []" "length v + 9 \<le> MAX_RECORD_SIZE"
    and bound: "0 < ttl \<longrightarrow> unat (clock 0) + nat ttl * 1000000 < 2 ^ 64"
  shows "\<exists>s'. rds_set clock key v ttl s = (Inr (), s') \<and> ready_for n s' \<and> rds_type key s' = Inr STRING
    \<and> (\<forall>clock'. rds_get clock' key s'
         = (if 0 < ttl \<and> unat (clock 0) + nat ttl * 1000000 \<le> unat (clock' 0) then Inl KeyNotFoundError else Inr v))"
proof -
  let ?e = "if ttl > 0 then clock 0 + word_of_int ttl * 1000000 else 0"
  let ?b = "[data_type_to_byte STRING] @ le_encode 8 ?e @ string_to_bytes v"
  have "ready_for (25 + length (string_to_bytes key) + length ?b + n) s"
    by (rule eng.ready_less [OF ready]) simp
  moreover have "length ?b \<le> MAX_RECORD_SIZE" using v(2) by simp
  ultimately obtain s' where s': "db_put (string_to_bytes key) ?b s = (Inr (), s')"
    "kv_of s' = (kv_of s)(string_to_bytes key \<mapsto> ?b)" "ready_for n s'"
    using eng.put_ok [OF _ key] by blast
  have get: "db_get (string_to_bytes key) s' = Inr ?b"
    using eng.get_kv [OF s'(3), of "string_to_bytes key"] key by (simp add: s'(2) key_size_ok_def)
  have exp: "is_expired now ?e \<longleftrightarrow> 0 < ttl \<and> unat (clock 0) + nat ttl * 1000000 \<le> unat now" for now
  proof (cases "0 < ttl")
    case True
    then show ?thesis
      using unat_expire [OF True, of "clock 0"] bound
      by (auto simp: is_expired_def word_less_nat_alt word_le_nat_alt)
  qed (simp add: is_expired_def)
  have "rds_get clock' key s'
      = (if 0 < ttl \<and> unat (clock 0) + nat ttl * 1000000 \<le> unat (clock' 0) then Inl KeyNotFoundError else Inr v)" for clock'
    using exp [of "clock' 0"] unfolding rds_get_def get by (simp add: read_le_expire)
  moreover have "rds_type key s' = Inr STRING" by (simp add: rds_type_def get)
  moreover have "rds_set clock key v ttl s = (Inr (), s')" using s'(1) v(1) by (simp add: rds_set_def Let_def)
  ultimately show ?thesis using s'(3) by blast
qed

text \<open>
  C14: a string is there until it expires. After \<open>set\<close> with a time to live of \<open>ttl\<close> milliseconds (none when it is not positive), \<open>get\<close> at any time
  returns the value as long as the clock, in nanoseconds, has not reached the time of the \<open>set\<close> plus
  the time to live, and \<open>KeyNotFoundError\<close> from then on; the type is \<open>STRING\<close>. The sum must not exceed 64
  bits, and the value must not be empty (an empty one is not stored at all).
\<close>

theorem rds_set_then_get:
  assumes ready: "ready_for (34 + length key + length v + n) s" and key: "key_size_ok (string_to_bytes key)"
    and v: "v \<noteq> []" "length v + 9 \<le> MAX_RECORD_SIZE"
    and bound: "0 < ttl \<longrightarrow> unat (clock 0) + nat ttl * 1000000 < 2 ^ 64"
  shows "\<exists>s'. rds_set clock key v ttl s = (Inr (), s') \<and> ready_for n s' \<and> rds_type key s' = Inr STRING
    \<and> (\<forall>clock'. rds_get clock' key s'
         = (if 0 < ttl \<and> unat (clock 0) + nat ttl * 1000000 \<le> unat (clock' 0) then Inl KeyNotFoundError else Inr v))"
  using rds_set_ok [OF ready key v, of ttl clock, OF bound] .

theorem rds_set_then_get_witness:
  "\<exists>s s'. kv_of s = Map.empty \<and> rds_set (\<lambda>_. 5) ''k'' ''v'' 2 s = (Inr (), s')
    \<and> rds_get (\<lambda>_. 2000004) ''k'' s' = Inr ''v'' \<and> rds_get (\<lambda>_. 2000005) ''k'' s' = Inl KeyNotFoundError"
proof -
  obtain s where s: "ready_for 900 s" "kv_of s = Map.empty" using wit_ready by blast
  have r: "ready_for (34 + length ''k'' + length ''v'' + 0) s" by (rule eng.ready_less [OF s(1)]) simp
  have k: "key_size_ok (string_to_bytes ''k'')" by (simp add: key_size_ok_def MAX_RECORD_SIZE_def)
  obtain s' where s': "rds_set (\<lambda>_. 5) ''k'' ''v'' 2 s = (Inr (), s')"
    "\<forall>clock'. rds_get clock' ''k'' s'
         = (if 0 < (2 :: int) \<and> unat (5 :: u64) + nat 2 * 1000000 \<le> unat (clock' 0) then Inl KeyNotFoundError else Inr ''v'')"
    using rds_set_then_get [OF r k, of 2 "\<lambda>_. 5"] by (auto simp: MAX_RECORD_SIZE_def)
  show ?thesis using s(2) s'(1) s'(2) [rule_format, of "\<lambda>_. 2000004"] s'(2) [rule_format, of "\<lambda>_. 2000005"]
    by (intro exI [of _ s] exI [of _ s']) simp
qed

section \<open>Metadata\<close>

text \<open>
  C16: The metadata codec is a round trip: \<open>decode\<close> of what \<open>encode\<close> wrote is the metadata, for every
  metadata record whose type is what its byte stands for and that has marks only when it is a list
  (the ones the operations make), and 21 bytes, or 37 for a list, are written.
\<close>

theorem metadata_roundtrip:
  assumes "md_ok m"
  shows "RedisMetadata_decode (RedisMetadata_encode m) = Inr m
    \<and> length (RedisMetadata_encode m) = (if md_data_type m = LIST then 37 else 21)"
  using decode_encode_metadata [OF assms] length_RedisMetadata_encode [of m] by simp

theorem metadata_roundtrip_witness:
  "\<exists>m. m = \<lparr>md_data_type = LIST, md_expire = 0, md_version = 5, md_size = 3, md_head = 7, md_tail = 10\<rparr>
    \<and> RedisMetadata_decode (RedisMetadata_encode m) = Inr m"
  using metadata_roundtrip [of "\<lparr>md_data_type = LIST, md_expire = 0, md_version = 5, md_size = 3, md_head = 7, md_tail = 10\<rparr>"]
  by (simp add: md_ok_def)

end
