(* ===== verification/Redis_Sorted_Sets.thy ===== *)
theory Redis_Sorted_Sets
  imports Redis_Collections
begin

text \<open>
  Sorted sets of the Redis data types. The score is part of the internal key, so what is stored is
  a set of pairs of a member and a score; \<open>zscore\<close> goes over the keys of the whole database and
  returns the score of the first entry of the member, in the order of the bytes of the scores.
\<close>

section \<open>What is stored\<close>

definition score_field :: "string \<times> double_bits \<Rightarrow> string" where
  "score_field p = bytes_to_string (le_encode 8 (snd p)) @ fst p"

lemma bytes_string_append: "string_to_bytes (s @ t) = string_to_bytes s @ string_to_bytes t"
  by (simp add: string_to_bytes_def)

lemma zset_key_elem: "zset_key key m sc x = elem_key key m (score_field (x, sc))"
  by (simp add: zset_key_def ZSetInternalKey_encode_def elem_key_def score_field_def bytes_string_append)

lemma length_bytes_to_string [simp]: "length (bytes_to_string b) = length b"
  by (simp add: bytes_to_string_def)

lemma score_field_inj: "score_field p = score_field q \<longleftrightarrow> p = q"
proof
  assume "score_field p = score_field q"
  then have "bytes_to_string (le_encode 8 (snd p)) = bytes_to_string (le_encode 8 (snd q))" "fst p = fst q"
    by (simp_all add: score_field_def append_eq_append_conv)
  then have "le_encode 8 (snd p) = le_encode 8 (snd q)" by (metis bytes_string_bytes)
  with \<open>fst p = fst q\<close> show "p = q" by (simp add: le_encode_inj prod_eq_iff)
qed simp

definition zset_at :: "rds \<Rightarrow> string \<Rightarrow> (string \<times> double_bits) set \<Rightarrow> bool" where
  "zset_at s key Z \<longleftrightarrow> map_at ZSET s key (\<lambda>f. if f \<in> score_field ` Z then Some [] else None)"

lemma zset_metadata:
  assumes "zset_at s key Z" "new_version clock s key" "ready_for n s" "key \<noteq> []"
  defines "h \<equiv> \<lambda>f. if f \<in> score_field ` Z then Some ([] :: bytes) else None"
  obtains m where "find_metadata clock key ZSET s = (Inr m, s)" "metadata_is clock ZSET s key m" "md_ok m"
    "md_data_type m = ZSET" "md_expire m = 0" "unat (md_size m) = card (dom h)"
    "\<And>f. kv_of s (elem_key key m f) = h f" "finite (dom h)"
proof -
  obtain m where m: "metadata_is clock ZSET s key m" "md_ok m" "md_data_type m = ZSET" "md_expire m = 0"
    "unat (md_size m) = card (dom h)" "\<And>f. kv_of s (elem_key key m f) = h f" "finite (dom h)"
    using map_at_metadata [OF assms(1) [unfolded zset_at_def] assms(2)] unfolding h_def by auto
  from that [OF find_metadata_is [OF m(1) assms(3,4)] m] show ?thesis .
qed

lemma zset_upd:
  "(\<lambda>f. if f \<in> score_field ` Z then Some [] else None)(score_field p \<mapsto> [])
    = (\<lambda>f. if f \<in> score_field ` insert p Z then Some [] else None)"
  by auto

lemma rds_zadd_ok:
  assumes "zset_at s key Z" "new_version clock s key" "ready_for (op_bytes key (score_field (x, sc)) 0 + n) s"
    and sizes: "elem_size_ok key (score_field (x, sc))" "card Z + 1 < 2 ^ 32"
  shows "\<exists>s'. rds_zadd clock key sc x s = (Inr ((x, sc) \<notin> Z), s') \<and> zset_at s' key (insert (x, sc) Z)
    \<and> ready_for n s' \<and> others_same key s s'"
proof -
  let ?h = "\<lambda>f. if f \<in> score_field ` Z then Some ([] :: bytes) else None" and ?f = "score_field (x, sc)"
  obtain m where find: "find_metadata clock key ZSET s = (Inr m, s)"
    and m: "metadata_is clock ZSET s key m" "md_ok m" "md_data_type m = ZSET" "md_expire m = 0"
    "unat (md_size m) = card (dom ?h)" "\<And>f. kv_of s (elem_key key m f) = ?h f" "finite (dom ?h)"
    using zset_metadata [OF assms(1-3) elem_size_okD(1) [OF sizes(1)]] by blast
  have mem: "?f \<in> score_field ` Z \<longleftrightarrow> (x, sc) \<in> Z" using score_field_inj by (metis image_iff)
  have has: "db_has (elem_key key m ?f) s = (Inr ((x, sc) \<in> Z), s)"
    using db_has_kv [OF assms(3), of "elem_key key m ?f"] m(6) [of ?f] mem by simp
  have card: "card (dom ?h) = card Z" using score_field_inj by (simp add: card_image inj_on_def)
  show ?thesis
  proof (cases "(x, sc) \<in> Z")
    case True
    from overwrite_element [OF m, of ?f "[]" n] assms(3) sizes True mem
    obtain s1 where "db_put (elem_key key m ?f) [] s = (Inr (), s1)"
      "map_at ZSET s1 key (?h(?f \<mapsto> []))" "ready_for n s1" "others_same key s s1" by auto
    then show ?thesis
      using find has True by (simp add: rds_zadd_def zset_key_elem zset_at_def zset_upd insert_absorb Let_def)
  next
    case False
    from put_element [OF m, of ?f "[]" n] assms(3) sizes False mem card
    obtain s1 s2 where "db_put (elem_key key m ?f) [] s = (Inr (), s1)"
      "put_metadata key (m\<lparr>md_size := md_size m + 1\<rparr>) s1 = (Inr (), s2)"
      "map_at ZSET s2 key (?h(?f \<mapsto> []))" "ready_for n s2" "others_same key s s2" by auto
    then show ?thesis
      using find has False by (simp add: rds_zadd_def zset_key_elem zset_at_def zset_upd Let_def)
  qed
qed

section \<open>Looking a score up\<close>

lemma zscore_entry_iff:
  "zscore_entry (string_to_bytes key) (md_version m) (string_to_bytes x) k = Some sc \<longleftrightarrow> k = zset_key key m sc x"
proof
  let ?n = "length key"
  assume "zscore_entry (string_to_bytes key) (md_version m) (string_to_bytes x) k = Some sc"
  then have k: "length k \<ge> ?n + 16" "take ?n k = string_to_bytes key" "read_le ?n 8 k = md_version m"
    "drop (?n + 16) k = string_to_bytes x" "read_le (?n + 8) 8 k = sc"
    by (auto simp: zscore_entry_def Let_def split: if_splits)
  have "k = take ?n k @ take 8 (drop ?n k) @ take 8 (drop 8 (drop ?n k)) @ drop 8 (drop 8 (drop ?n k))"
    by (simp only: append_take_drop_id)
  then have "k = take ?n k @ take 8 (drop ?n k) @ take 8 (drop (?n + 8) k) @ drop (?n + 16) k"
    by (simp add: add.commute)
  moreover have "take 8 (drop ?n k) = le_encode 8 (md_version m)" "take 8 (drop (?n + 8) k) = le_encode 8 sc"
    using k(1) le_encode_decode [of "take 8 (drop ?n k)"] le_encode_decode [of "take 8 (drop (?n + 8) k)"]
    by (simp_all add: k(3,5) [symmetric] read_le_def)
  ultimately show "k = zset_key key m sc x" using k(2,4) by (simp add: zset_key_def ZSetInternalKey_encode_def)
next
  assume "k = zset_key key m sc x"
  then show "zscore_entry (string_to_bytes key) (md_version m) (string_to_bytes x) k = Some sc"
    by (simp add: zscore_entry_def Let_def zset_key_def ZSetInternalKey_encode_def read_le_def le_decode_encode)
qed

lemma zscore_loop_rest:
  assumes "it_ok (db_index db) t" "di_iter it = Some t" "io_prefix (di_options it) = []"
    and "length (it_rest (db_index db) t) < n"
  shows "zscore_loop n kb ver mb db it
    = (case find (\<lambda>k. zscore_entry kb ver mb k \<noteq> None) (map fst (it_rest (db_index db) t)) of
         None \<Rightarrow> Inl KeyNotFoundError | Some k \<Rightarrow> Inr (the (zscore_entry kb ver mb k)))"
  using assms
proof (induction n arbitrary: it t)
  case (Suc n)
  let ?i = "db_index db"
  note valid = dbi_valid [OF Suc.prems(1,2)]
  show ?case
  proof (cases "it_rest ?i t")
    case Nil
    then show ?thesis using valid by simp
  next
    case (Cons e es)
    have val: "DBIterator_valid db it" using valid Suc.prems(3) Cons by simp
    have v: "it_valid ?i t" "it_entry ?i t = e"
      using Suc.prems(1) it.valid_rest it.cur_rest Cons by fastforce+
    have key: "DBIterator_key db it = Inr (fst e)"
      using it_entry_key_value [OF Suc.prems(1) v(1)] v(2) val Suc.prems(2) by (simp add: DBIterator_key_def)
    have nxt: "it_ok ?i (it_next ?i t)" "it_rest ?i (it_next ?i t) = es"
      using it.next_inv [OF Suc.prems(1)] it.next_rest [OF Suc.prems(1)] Cons by simp_all
    have d: "DBIterator_next db it = it\<lparr>di_iter := Some (it_next ?i t)\<rparr>"
      using Suc.prems(2) by (simp add: DBIterator_next_def)
    show ?thesis
      using Suc.IH [OF nxt(1), of "DBIterator_next db it"] Suc.prems(2-4) nxt(2) Cons val key
      by (auto simp: d split: option.split)
  qed
qed simp

text \<open>A new iterator without prefix, rewound, is at the first of all keys.\<close>

lemma all_keys_iterator:
  assumes "db_inv db fs"
  obtains t where "DBIterator_rewind db (DBIterator_new \<lparr>io_prefix = [], io_reverse = False\<rparr> db)
      = \<lparr>di_options = \<lparr>io_prefix = [], io_reverse = False\<rparr>, di_iter = Some t\<rparr>"
    "it_ok (db_index db) t" "map fst (it_rest (db_index db) t) = DB_list_keys db"
    "length (it_rest (db_index db) t) = idx_size (db_index db)"
proof -
  let ?i = "db_index db" and ?t = "idx_iterator False (db_index db)"
  have ok: "idx_ok ?i" using assms by (simp add: db_inv_def)
  note full = idx_iterator_full [OF ok, of False]
  have rest: "it_rest ?i (it_rewind ?i ?t) = idx_entries ?i"
    using it.rewind_rest [of ?i ?t] full by simp
  show ?thesis
  proof (rule that)
    show "DBIterator_rewind db (DBIterator_new \<lparr>io_prefix = [], io_reverse = False\<rparr> db)
      = \<lparr>di_options = \<lparr>io_prefix = [], io_reverse = False\<rparr>, di_iter = Some (it_rewind ?i ?t)\<rparr>"
      by (simp add: DBIterator_rewind_def DBIterator_new_def)
    show "it_ok ?i (it_rewind ?i ?t)" using it.rewind_inv [of ?i ?t] full by simp
    show "map fst (it_rest ?i (it_rewind ?i ?t)) = DB_list_keys db"
      using rest idx_entries_keys [OF ok] by (simp add: DB_list_keys_def)
    show "length (it_rest ?i (it_rewind ?i ?t)) = idx_size ?i"
      using rest idx_entries_length [OF ok] by simp
  qed
qed

lemma list_keys_kv: "db_inv db fs \<Longrightarrow> k \<in> set (DB_list_keys db) \<longleftrightarrow> kv_of (db, fs) k \<noteq> None"
proof -
  assume inv: "db_inv db fs"
  then have "idx_ok (db_index db)" by (simp add: db_inv_def)
  from ix.keys_set [OF this] show ?thesis
    using db_inv_get(2) [OF inv, of k] by (auto simp: DB_list_keys_def kv_of_def dom_def)
qed

lemma append_le_same: "p @ a \<le> p @ b \<longleftrightarrow> a \<le> (b :: bytes)"
  by (induction p) simp_all

lemma append_le_fronts: "a @ b \<le> a' @ b' \<Longrightarrow> length a = length a' \<Longrightarrow> a \<le> (a' :: bytes)"
proof (induction a arbitrary: a')
  case (Cons x a)
  then show ?case by (cases a') (auto simp: Cons_le_Cons)
qed simp

lemma find_first:
  assumes "sorted xs" "List.find P xs = Some (x :: 'a :: linorder)"
  shows "x \<in> set xs \<and> P x \<and> (\<forall>y \<in> set xs. P y \<longrightarrow> x \<le> y)"
  using assms by (induction xs) (auto split: if_splits)

lemma rds_zscore_ok:
  assumes "zset_at s key Z" "new_version clock s key" "ready_for n s" "key \<noteq> []"
  shows "(\<nexists>sc. (x, sc) \<in> Z) \<and> rds_zscore clock key x s = (Inl KeyNotFoundError, s)
    \<or> (\<exists>sc. (x, sc) \<in> Z \<and> rds_zscore clock key x s = (Inr sc, s)
         \<and> (\<forall>sc'. (x, sc') \<in> Z \<longrightarrow> le_encode 8 sc \<le> le_encode 8 sc'))"
proof -
  let ?h = "\<lambda>f. if f \<in> score_field ` Z then Some ([] :: bytes) else None"
  obtain m where find: "find_metadata clock key ZSET s = (Inr m, s)"
    and m: "unat (md_size m) = card (dom ?h)" "\<And>f. kv_of s (elem_key key m f) = ?h f" "finite (dom ?h)"
    using zset_metadata [OF assms] by blast
  obtain db fs where s: "s = (db, fs)" by (cases s)
  have inv: "db_inv db fs" using assms(3) by (simp add: ready_for_def s)
  obtain t where t: "DBIterator_rewind db (DBIterator_new \<lparr>io_prefix = [], io_reverse = False\<rparr> db)
      = \<lparr>di_options = \<lparr>io_prefix = [], io_reverse = False\<rparr>, di_iter = Some t\<rparr>"
    "it_ok (db_index db) t" "map fst (it_rest (db_index db) t) = DB_list_keys db"
    "length (it_rest (db_index db) t) = idx_size (db_index db)"
    using all_keys_iterator [OF inv] by blast
  define entry where "entry = zscore_entry (string_to_bytes key) (md_version m) (string_to_bytes x)"
  have entry: "entry k = Some sc \<longleftrightarrow> k = zset_key key m sc x" for k sc
    unfolding entry_def by (rule zscore_entry_iff)
  have stored: "zset_key key m sc x \<in> set (DB_list_keys db) \<longleftrightarrow> (x, sc) \<in> Z" for sc
    using m(2) list_keys_kv [OF inv, of "zset_key key m sc x"] score_field_inj by (force simp: zset_key_elem s)
  have sorted: "sorted (DB_list_keys db)"
    using ix.keys_sorted [of "db_index db"] inv by (simp add: DB_list_keys_def db_inv_def)
  have less: "zset_key key m a x \<le> zset_key key m b x \<Longrightarrow> le_encode 8 a \<le> le_encode 8 b" for a b
    by (simp add: zset_key_def ZSetInternalKey_encode_def append_le_same) (erule append_le_fronts, simp)
  have loop: "zscore_loop (Suc (idx_size (db_index db))) (string_to_bytes key) (md_version m) (string_to_bytes x) db
        \<lparr>di_options = \<lparr>io_prefix = [], io_reverse = False\<rparr>, di_iter = Some t\<rparr>
      = (case List.find (\<lambda>k. entry k \<noteq> None) (DB_list_keys db) of
           None \<Rightarrow> Inl KeyNotFoundError | Some k \<Rightarrow> Inr (the (entry k)))"
    unfolding entry_def t(3) [symmetric] by (rule zscore_loop_rest [OF t(2)]) (simp_all add: t(4))
  show ?thesis
  proof (cases "md_size m = 0")
    case True
    then have "Z = {}" using m(1,3) by simp
    then show ?thesis using find True by (simp add: rds_zscore_def)
  next
    case False
    have run: "rds_zscore clock key x s
        = (case List.find (\<lambda>k. entry k \<noteq> None) (DB_list_keys db) of
             None \<Rightarrow> Inl KeyNotFoundError | Some k \<Rightarrow> Inr (the (entry k)), s)"
      using find False loop by (simp add: rds_zscore_def s Let_def t(1) del: zscore_loop.simps)
    show ?thesis
    proof (cases "List.find (\<lambda>k. entry k \<noteq> None) (DB_list_keys db)")
      case None
      then have "entry k = None" if "k \<in> set (DB_list_keys db)" for k using that by (auto simp: find_None_iff)
      then have "(x, sc) \<notin> Z" for sc
        using stored [of sc] entry [of "zset_key key m sc x" sc] by (metis option.distinct(1))
      then show ?thesis using run None by simp
    next
      case (Some k)
      from find_first [OF sorted Some] obtain sc where k: "entry k = Some sc" "k \<in> set (DB_list_keys db)"
        "\<forall>y \<in> set (DB_list_keys db). entry y \<noteq> None \<longrightarrow> k \<le> y" by auto
      then have key: "k = zset_key key m sc x" using entry by blast
      have "(x, sc) \<in> Z" using k(2) stored key by blast
      moreover have "le_encode 8 sc \<le> le_encode 8 sc'" if "(x, sc') \<in> Z" for sc'
        by (rule less) (use k(3) stored [of sc'] that entry key in blast)
      ultimately show ?thesis using run Some k(1) by auto
    qed
  qed
qed

text \<open>
  C13: what a sorted set stores. \<open>zadd\<close> adds the pair of the member and the score to a set of pairs and returns
  whether the pair is new: a score that a member had before is not removed. \<open>zscore\<close> then returns,
  among the scores the member was ever added with, the one whose bytes (little endian) come first,
  at any time; for a member that was added once this is its score.
\<close>

theorem rds_zadd_then_zscore:
  assumes zset: "zset_at s key Z" "new_version clock s key"
    and ready: "ready_for (op_bytes key (score_field (x, sc)) 0 + n) s"
    and sizes: "elem_size_ok key (score_field (x, sc))" "card Z + 1 < 2 ^ 32"
  shows "\<exists>s'. rds_zadd clock key sc x s = (Inr ((x, sc) \<notin> Z), s') \<and> zset_at s' key (insert (x, sc) Z)
    \<and> ready_for n s' \<and> others_same key s s'
    \<and> (\<forall>clock'. \<exists>sc1. rds_zscore clock' key x s' = (Inr sc1, s') \<and> (x, sc1) \<in> insert (x, sc) Z
         \<and> (\<forall>sc2. (x, sc2) \<in> insert (x, sc) Z \<longrightarrow> le_encode 8 sc1 \<le> le_encode 8 sc2))"
proof -
  obtain s' where s': "rds_zadd clock key sc x s = (Inr ((x, sc) \<notin> Z), s')" "zset_at s' key (insert (x, sc) Z)"
    "ready_for n s'" "others_same key s s'"
    using rds_zadd_ok [OF assms] by blast
  have nv: "new_version clock' s' key" for clock'
    using map_at_stored_key [of ZSET s' key _ "score_field (x, sc)"] s'(2)
    by (simp add: zset_at_def new_version_stored)
  have "\<exists>sc1. rds_zscore clock' key x s' = (Inr sc1, s') \<and> (x, sc1) \<in> insert (x, sc) Z
      \<and> (\<forall>sc2. (x, sc2) \<in> insert (x, sc) Z \<longrightarrow> le_encode 8 sc1 \<le> le_encode 8 sc2)" for clock'
    using rds_zscore_ok [OF s'(2) nv s'(3) elem_size_okD(1) [OF sizes(1)], of x clock'] by blast
  with s' show ?thesis by blast
qed

text \<open>A second score for a member changes nothing that \<open>zscore\<close> shows, when its bytes come later.\<close>

theorem rds_zadd_then_zscore_witness:
  "\<exists>s s'. zset_at s ''h'' {(''x'', 2)} \<and> rds_zadd (\<lambda>_. 7) ''h'' 3 ''x'' s = (Inr True, s')
    \<and> rds_zscore (\<lambda>_. 8) ''h'' ''x'' s' = (Inr 2, s')"
proof -
  obtain s0 where s0: "ready_for 900 s0" "kv_of s0 = Map.empty" using wit_ready by blast
  have size: "elem_size_ok ''h'' (score_field (''x'', c))" for c
    by (simp add: elem_size_ok_def score_field_def MAX_RECORD_SIZE_def)
  have cost: "op_bytes ''h'' (score_field (''x'', c)) 0 = 106" for c by (simp add: op_bytes_def score_field_def)
  have r: "ready_for (op_bytes ''h'' (score_field (''x'', 2)) 0 + 600) s0"
    by (rule eng.ready_less [OF s0(1)]) (simp add: cost)
  have "zset_at s0 ''h'' {}" using map_at_empty(1) [OF s0(2)] by (simp add: zset_at_def)
  from rds_zadd_ok [OF this map_at_empty(2) [OF s0(2)] r size]
  obtain s where s: "zset_at s ''h'' {(''x'', 2)}" "ready_for 600 s" by fastforce
  have nv: "new_version (\<lambda>_. 7) s ''h''"
    using map_at_stored_key [of ZSET s "''h''" _ "score_field (''x'', 2)"] s(1)
    by (simp add: zset_at_def new_version_stored)
  have r: "ready_for (op_bytes ''h'' (score_field (''x'', 3)) 0 + 0) s"
    by (rule eng.ready_less [OF s(2)]) (simp add: cost)
  obtain s' where s': "rds_zadd (\<lambda>_. 7) ''h'' 3 ''x'' s = (Inr ((''x'', 3) \<notin> {(''x'', 2 :: u64)}), s')"
    "\<forall>clock'. \<exists>sc1. rds_zscore clock' ''h'' ''x'' s' = (Inr sc1, s') \<and> (''x'', sc1) \<in> insert (''x'', 3) {(''x'', 2)}
         \<and> (\<forall>sc2. (''x'', sc2) \<in> insert (''x'', 3) {(''x'', 2)} \<longrightarrow> le_encode 8 sc1 \<le> le_encode 8 sc2)"
    using rds_zadd_then_zscore [OF s(1) nv r size] by auto
  obtain sc1 where sc1: "rds_zscore (\<lambda>_. 8) ''h'' ''x'' s' = (Inr sc1, s')" "sc1 = 3 \<or> sc1 = 2"
    "le_encode 8 sc1 \<le> le_encode 8 2"
    using s'(2) by auto
  have "\<not> le_encode 8 3 \<le> le_encode 8 2" by code_simp
  then have "sc1 = 2" using sc1(2,3) by blast
  then show ?thesis using s(1) s'(1) sc1(1) by (intro exI [of _ s] exI [of _ s']) simp
qed

end
