(* ===== verification/Redis_Durable.thy ===== *)
theory Redis_Durable
  imports Redis_Collections
begin

text \<open>
  The Redis data types over a restart. The internal keys of the elements end in the bytes of the
  element, and the engine takes the last 8 bytes of a key that it reads from a data file for a
  transaction number: the elements of the collections do not survive, their metadata does.
\<close>

section \<open>The log behind a state\<close>

definition stored_log :: "options \<Rightarrow> rds \<Rightarrow> log_record list \<Rightarrow> bool" where
  "stored_log opts s rs \<longleftrightarrow>
     (\<exists>logs n. log_files (fst s) (snd s) logs (first_ids n) \<and> disk_log (opt_dir_path opts) (snd s) logs n
        \<and> plain_dir (opt_dir_path opts) (snd s) \<and> session_options opts \<and> db_options (fst s) = opts
        \<and> keys_ok rs \<and> records logs (first_ids n) = rs)"

lemma session_stored_log:
  assumes "session opts m (fst s) (snd s)"
  shows "\<exists>rs. stored_log opts s rs \<and> committed rs = m"
  using session_holds [OF assms] by (auto simp: session_inv_def running_def log_inv_def stored_log_def)

lemma log_files_active:
  assumes "log_files db fs logs (first_ids n)" "n \<le> MAX_SCAN_FILES"
  shows "unat (active_id db) < n"
proof -
  obtain df where "db_active_file db = Some df" "df_file_id df \<in> set (first_ids n)"
    using assms(1) unfolding log_files_def files_hold_def by blast
  then show ?thesis using set_first_ids [OF assms(2)] by (simp add: active_id_def)
qed

lemma stored_log_put:
  assumes log: "stored_log opts s rs" and ready: "ready_for (25 + length k + length v + m) s"
    and k: "key_size_ok k" "key_of (put_record k v) \<noteq> []" and v: "length v \<le> MAX_RECORD_SIZE"
    and put: "db_put k v s = (Inr (), s')"
  shows "stored_log opts s' (rs @ [put_record k v])"
proof -
  let ?r = "put_record k v"
  obtain db fs db' fs' where s: "s = (db, fs)" "s' = (db', fs')" by (cases s, cases s') blast
  have ne: "k \<noteq> []" using k(1) by (simp add: key_size_ok_def)
  obtain logs n where files: "log_files db fs logs (first_ids n)" and disk: "disk_log (opt_dir_path opts) fs logs n"
    and rest: "plain_dir (opt_dir_path opts) fs" "session_options opts" "db_options db = opts" "keys_ok rs"
      "records logs (first_ids n) = rs"
    using log by (auto simp: stored_log_def s)
  have room: "room db fs (length (enc ?r))"
    using ready room_weaken length_enc_records(1) [of k v] by (fastforce simp: ready_for_def s)
  have rd: "readable ?r" using put_record_readable [OF ne _ v] k(1) by (simp add: key_size_ok_def)
  let ?logs = "log_append (active_id db) ?r logs"
  obtain pos db1 fs1 where app: "append_log_record_internal ?r db fs = (Inr pos, db1, fs1)"
    "log_files db1 fs1 ?logs (first_ids n)" "db_options db1 = db_options db"
    "log_of ?logs (first_ids n) = log_of logs (first_ids n) @ [(pos, ?r)]"
    "fs1 = fs_put (data_name db (active_id db)) (encs (logs (active_id db) @ [?r])) fs"
    using log_append_ok [OF files room [folded fits_room] rd] by metis
  have db': "db' = update_index k NORMAL pos db1" "fs' = fs1"
    using put DB_put_update [OF ne app(1)] by (simp_all add: db_put_def s)
  have fr: "fs_frame (get_data_file_name (opt_dir_path opts) (active_id db)) fs fs1"
    using app(5) rest(3) by simp
  have n: "n \<le> MAX_SCAN_FILES" using disk by (simp add: disk_log_def)
  have "log_files db' fs' ?logs (first_ids n)"
    using app(2) by (subst log_files_same [of _ db1]) (simp_all add: db' update_index_def split: prod.splits)
  moreover have "disk_log (opt_dir_path opts) fs1 ?logs n"
    using disk_log_append [OF disk app(2) _ fr log_files_active [OF files n]] app(3) rest(3) by simp
  moreover have "plain_dir (opt_dir_path opts) fs1" by (rule plain_dir_append [OF rest(1) fr])
  moreover have "records ?logs (first_ids n) = rs @ [?r]" using records_append [OF app(4)] rest(5) by simp
  moreover have "keys_ok (rs @ [?r])" using rest(4) k(2) by (simp add: keys_ok_append) (simp add: keys_ok_def)
  moreover have "db_options db' = opts" using app(3) rest(3) by (simp add: db' update_index_def split: prod.splits)
  ultimately show ?thesis using rest(2) by (auto simp: stored_log_def s db'(2))
qed

lemma stored_log_restart:
  assumes "stored_log opts s rs"
  shows "\<exists>s2. DB_open coins opts (crash (snd s)) = (Inr (fst s2), snd s2) \<and> answers s2
    \<and> (\<forall>k. k \<noteq> [] \<longrightarrow> kv_of s2 k = committed rs k)"
proof -
  obtain logs n where log: "log_files (fst s) (snd s) logs (first_ids n)" "disk_log (opt_dir_path opts) (snd s) logs n"
    "plain_dir (opt_dir_path opts) (snd s)" "session_options opts" "db_options (fst s) = opts" "keys_ok rs"
    "records logs (first_ids n) = rs"
    using assms by (auto simp: stored_log_def)
  have "openable opts (crash (snd s)) logs n"
    using files_openable [OF log(1), of "crash (snd s)"] log by simp
  moreover from this obtain db2 fs2 where op: "DB_open coins opts (crash (snd s)) = (Inr db2, fs2)"
    using open_running by blast
  ultimately have inv: "session_inv opts (committed rs) db2 fs2 logs n" using session_inv_open log(7) by blast
  note get = session_gets [OF inv]
  have "kv_of (db2, fs2) k = committed rs k" if "k \<noteq> []" for k
    using get [of k] that by (simp add: kv_of_def db_kv_def split: option.split)
  moreover from this have "answers (db2, fs2)" using get by (simp add: answers_def db_get_def)
  ultimately show ?thesis using op by (intro exI [of _ "(db2, fs2)"]) simp
qed

section \<open>A hash after a restart\<close>

lemma committed_transaction:
  "seq_of (put_record k v) \<noteq> NON_TRANSACTION_SEQ_NO \<Longrightarrow> committed (rs @ [put_record k v]) = committed rs"
  by (simp add: committed_def fun_eq_iff replay_snoc replay_step_def Let_def seq_of_def put_record_def)

lemma le_decode_nonzero:
  assumes "length b = 8" "last b \<noteq> 0"
  shows "le_decode b \<noteq> 0"
proof
  assume "le_decode b = 0"
  then have "b = le_encode 8 0" using le_encode_decode [OF assms(1)] by simp
  moreover have "last (le_encode 8 0) = 0" by code_simp
  ultimately show False using assms(2) by simp
qed

lemma long_key_parts:
  assumes "8 < length k" "last k \<noteq> 0"
  shows "key_of (put_record k v) \<noteq> []" "seq_of (put_record k v) \<noteq> NON_TRANSACTION_SEQ_NO"
proof -
  have "last (drop (length k - 8) k) \<noteq> 0" using assms by (simp add: last_drop)
  then have "le_decode (drop (length k - 8) k) \<noteq> NON_TRANSACTION_SEQ_NO"
    using le_decode_nonzero [of "drop (length k - 8) k"] assms(1) by (simp add: NON_TRANSACTION_SEQ_NO_def)
  then show "key_of (put_record k v) \<noteq> []" "seq_of (put_record k v) \<noteq> NON_TRANSACTION_SEQ_NO"
    using assms(1) by (auto simp: key_of_def seq_of_def put_record_def parse_log_record_key_def Let_def)
qed

lemma last_string_to_bytes:
  assumes "f \<noteq> []" "last f \<noteq> CHR 0x00"
  shows "last (string_to_bytes f) \<noteq> 0"
proof
  assume "last (string_to_bytes f) = 0"
  then have "last (bytes_to_string (string_to_bytes f)) = CHR 0x00"
    using assms(1) by (simp add: bytes_to_string_def last_map char_of_def del: string_bytes_string)
  then show False using assms(2) by simp
qed

text \<open>
  a hash does not survive a restart. In any session, a field set in a new hash is found by \<open>hget\<close>; after the
  process has ended and the database has been opened again the key of the hash is still there
  (\<open>exists\<close> is true), and the field is not: its internal key ends in the bytes of the field, and what
  is read back is taken for a record of a transaction that never ended. The last character of the
  field must not be NUL, and the key of the hash must be one that itself survives.
\<close>

theorem rds_hset_lost_by_restart:
  assumes sess: "session opts m (fst s) (snd s)" and new: "kv_of s (string_to_bytes key) = None" "new_version clock s key"
    and ready: "ready_for (op_bytes key f (length v)) s"
    and sizes: "elem_size_ok key f" "length v \<le> MAX_RECORD_SIZE"
    and key: "plain_key (string_to_bytes key)" and f: "f \<noteq> []" "last f \<noteq> CHR 0x00"
  shows "\<exists>s1 s2. rds_hset clock key f v s = (Inr True, s1) \<and> rds_hget clock' key f s1 = (Inr v, s1)
    \<and> DB_open coins opts (crash (snd s1)) = (Inr (fst s2), snd s2)
    \<and> rds_exists key s2 = (Inr True, s2) \<and> rds_hget clock' key f s2 = (Inl KeyNotFoundError, s2)"
proof -
  let ?m = "new_metadata (clock 1) HASH" and ?kb = "string_to_bytes key" and ?vb = "string_to_bytes v"
  let ?k = "elem_key key ?m f" and ?m1 = "?m\<lparr>md_size := md_size ?m + 1\<rparr>"
  let ?mb = "RedisMetadata_encode ?m1"
  note ne = elem_size_okD(1) [OF sizes(1)]
  have find: "find_metadata clock key HASH s = (Inr ?m, s)"
    using find_metadata_is [OF _ ready ne] new(1) by (simp add: metadata_is_def)
  have none: "kv_of s ?k = None" using new by (simp add: new_version_def elem_key_new [of key _ HASH])
  have has: "db_has ?k s = (Inr False, s)" using db_has_kv [OF ready, of ?k] none by simp
  have r: "ready_for (50 + length ?k + length ?vb + length ?kb + length ?mb + 0) s"
    by (rule eng.ready_less [OF ready]) (use length_metadata_le(1) [of ?m1] in \<open>simp add: op_bytes_def\<close>)
  from eng.put_put [OF r elem_size_okD(3,2) [OF sizes(1)] _ length_metadata_le(2)] sizes(2)
  obtain sa s1 where put: "db_put ?k ?vb s = (Inr (), sa)" "db_put ?kb ?mb sa = (Inr (), s1)" by auto
  have hset: "rds_hset clock key f v s = (Inr True, s1)"
    using find has put by (simp add: rds_hset_def internal_keys put_metadata_def Let_def)
  have empty: "hash_at s key Map.empty" using new(1) by (simp add: hash_at_def map_at_def)
  obtain s1' where "rds_hset clock key f v s = (Inr True, s1')" "hash_at s1' key [f \<mapsto> v]" "ready_for 0 s1'"
    using rds_hset_ok [OF empty new(2) _ sizes, of 0] ready by auto
  then have at: "hash_at s1 key [f \<mapsto> v]" "ready_for 0 s1" using hset by simp_all
  have hget: "rds_hget clock' key f s1 = (Inr v, s1)"
    using rds_hget_ok [OF at(1) hash_at_new_version [OF at(1), of f] at(2) ne] by simp
  obtain rs where rs: "stored_log opts s rs" "committed rs = m" using session_stored_log [OF sess] by blast
  have long: "8 < length ?k" "last ?k \<noteq> 0"
    using ne last_string_to_bytes [OF f] f(1) by (simp_all add: elem_key_def last_append)
  have ra: "ready_for (25 + length ?k + length ?vb + (25 + length ?kb + length ?mb)) s"
    by (rule eng.ready_less [OF r]) simp
  have log_a: "stored_log opts sa (rs @ [put_record ?k ?vb])"
    using stored_log_put [OF rs(1) ra elem_size_okD(3) [OF sizes(1)] long_key_parts(1) [OF long] _ put(1)] sizes(2) by simp
  have ready_a: "ready_for (25 + length ?kb + length ?mb + 0) sa"
    using eng.put_ok [OF ra elem_size_okD(3) [OF sizes(1)]] sizes(2) put(1) by auto
  have "key_of (put_record ?kb ?mb) \<noteq> []" using plain_records(1) [OF key] ne by simp
  from stored_log_put [OF log_a ready_a elem_size_okD(2) [OF sizes(1)] this length_metadata_le(2) put(2)]
  have log1: "stored_log opts s1 ((rs @ [put_record ?k ?vb]) @ [put_record ?kb ?mb])" .
  have com: "committed ((rs @ [put_record ?k ?vb]) @ [put_record ?kb ?mb]) = m(?kb \<mapsto> ?mb)"
    using committed_snoc [OF plain_records(1,2) [OF key], of "rs @ [put_record ?k ?vb]" ?mb]
      committed_transaction [OF long_key_parts(2) [OF long], of rs ?vb] rs(2) by (simp add: put_record_def)
  obtain s2 where s2: "DB_open coins opts (crash (snd s1)) = (Inr (fst s2), snd s2)" "answers s2"
    "\<And>k. k \<noteq> [] \<Longrightarrow> kv_of s2 k = (m(?kb \<mapsto> ?mb)) k"
    using stored_log_restart [OF log1, of coins] unfolding com by blast
  have "m ?k = None" using session_get [OF sess, of ?k] none by (simp add: kv_of_def db_kv_def split: option.splits)
  then have kv: "kv_of s2 ?kb = Some ?mb" "kv_of s2 ?k = None" using s2(3) [of ?kb] s2(3) [of ?k] ne by simp_all
  have "metadata_is clock' HASH s2 key ?m1" by (simp add: metadata_is_def kv(1) new_metadata_ok)
  from find_metadata_answers [OF this s2(2) ne]
  have "rds_hget clock' key f s2 = (Inl KeyNotFoundError, s2)"
    using s2(2) kv(2) by (simp add: rds_hget_def internal_keys answers_def)
  moreover have "rds_exists key s2 = (Inr True, s2)"
    using db_has_answers [OF s2(2)] kv(1) ne by (simp add: rds_exists_def)
  ultimately show ?thesis using hset hget s2(1) by blast
qed

theorem rds_hset_lost_by_restart_witness:
  "\<exists>s s1 s2. session wit_options Map.empty (fst s) (snd s) \<and> rds_hset (\<lambda>_. 7) ''h'' ''f'' ''v'' s = (Inr True, s1)
    \<and> DB_open (\<lambda>_ _. True) wit_options (crash (snd s1)) = (Inr (fst s2), snd s2)
    \<and> rds_hget (\<lambda>_. 8) ''h'' ''f'' s2 = (Inl KeyNotFoundError, s2)"
proof -
  obtain s where s: "session wit_options Map.empty (fst s) (snd s)" "ready_for 900 s" "kv_of s = Map.empty"
    using wit_ready by blast
  have r: "ready_for (op_bytes ''h'' ''f'' (length ''v'')) s"
    by (rule eng.ready_less [OF s(2)]) (simp add: op_bytes_def)
  have "plain_key (string_to_bytes ''h'')" by (rule plain_key_short) simp_all
  from rds_hset_lost_by_restart [OF s(1) _ map_at_empty(2) [OF s(3)] r wit_sizes(1) _ this, where clock' = "\<lambda>_. 8" and coins = "\<lambda>_ _. True"] s(1,3)
  show ?thesis by (fastforce simp: MAX_RECORD_SIZE_def)
qed

end
