(* ===== verification/Redis_Types.thy ===== *)
theory Redis_Types
  imports Redis_Lists Redis_Sorted_Sets
begin

text \<open>
  The types of keys: a key that holds a collection of one type answers the operations of every other
  type with an error, and nothing changes.
\<close>

abbreviation wrong_type :: exn where
  "wrong_type \<equiv> BitcaskException ''Wrong type operation''"

lemma find_metadata_wrong_type:
  assumes "kv_of s (string_to_bytes key) = Some (RedisMetadata_encode m)" "md_ok m" "md_data_type m \<noteq> t"
    and "ready_for n s" "key \<noteq> []"
  shows "find_metadata clock key t s = (Inl wrong_type, s)"
  using assms eng.get_kv [OF assms(4), of "string_to_bytes key"]
  by (simp add: find_metadata_def catch_not_found_def decode_encode_metadata)

lemma rds_get_wrong_type:
  assumes "kv_of s (string_to_bytes key) = Some (RedisMetadata_encode m)" "md_ok m" "md_data_type m \<noteq> STRING"
    and "ready_for n s" "key \<noteq> []"
  shows "rds_get clock key s = Inl wrong_type"
proof -
  have "data_type_of_byte (RedisMetadata_encode m ! 0) = md_data_type m"
    using assms(2) by (simp add: RedisMetadata_encode_def md_ok_def)
  then show ?thesis
    using assms eng.get_kv [OF assms(4), of "string_to_bytes key"]
    by (simp add: rds_get_def length_RedisMetadata_encode split: if_splits)
qed

text \<open>
  C15: types do not mix, except through \<open>set\<close>. Where a key holds the metadata of a collection, \<open>type\<close>
  returns the type of the metadata; \<open>get\<close>, and every one of \<open>hset\<close>, \<open>hget\<close>, \<open>hdel\<close>, \<open>sadd\<close>, \<open>sismember\<close>,
  \<open>srem\<close>, \<open>lpush\<close>, \<open>rpush\<close>, \<open>lpop\<close>, \<open>rpop\<close>, \<open>zadd\<close> and \<open>zscore\<close> that belongs to another type, fails with the
  error of a wrong type and changes nothing. \<open>set\<close> does not look at the type: with a value that is
  not empty, when key and value are not too long and the record fits, it overwrites the metadata;
  the type is then \<open>STRING\<close>, and \<open>get\<close> returns the value.
\<close>

theorem rds_wrong_type:
  assumes stored: "kv_of s (string_to_bytes key) = Some (RedisMetadata_encode m)" "md_ok m"
    and ready: "ready_for n s" "key \<noteq> []"
  shows "(w \<noteq> [] \<and> length w + 9 \<le> MAX_RECORD_SIZE \<and> length key \<le> MAX_RECORD_SIZE \<and> 34 + length key + length w \<le> n \<longrightarrow>
       (\<exists>s'. rds_set clock key w 0 s = (Inr (), s') \<and> rds_type key s' = Inr STRING \<and> rds_get clock key s' = Inr w))
    \<and> rds_type key s = Inr (md_data_type m)
    \<and> (md_data_type m \<noteq> STRING \<longrightarrow> rds_get clock key s = Inl wrong_type)
    \<and> (md_data_type m \<noteq> HASH \<longrightarrow> rds_hset clock key f v s = (Inl wrong_type, s)
         \<and> rds_hget clock key f s = (Inl wrong_type, s) \<and> rds_hdel clock key f s = (Inl wrong_type, s))
    \<and> (md_data_type m \<noteq> SET \<longrightarrow> rds_sadd clock key f s = (Inl wrong_type, s)
         \<and> rds_sismember clock key f s = (Inl wrong_type, s) \<and> rds_srem clock key f s = (Inl wrong_type, s))
    \<and> (md_data_type m \<noteq> LIST \<longrightarrow> rds_lpush clock key v s = (Inl wrong_type, s)
         \<and> rds_rpush clock key v s = (Inl wrong_type, s) \<and> rds_lpop clock key s = (Inl wrong_type, s)
         \<and> rds_rpop clock key s = (Inl wrong_type, s))
    \<and> (md_data_type m \<noteq> ZSET \<longrightarrow> rds_zadd clock key sc f s = (Inl wrong_type, s)
         \<and> rds_zscore clock key f s = (Inl wrong_type, s))"
proof -
  have "data_type_of_byte (RedisMetadata_encode m ! 0) = md_data_type m" "RedisMetadata_encode m \<noteq> []"
    using stored(2) by (simp_all add: RedisMetadata_encode_def md_ok_def)
  then have "rds_type key s = Inr (md_data_type m)"
    using stored(1) ready eng.get_kv [OF ready(1), of "string_to_bytes key"] by (simp add: rds_type_def)
  moreover have "\<exists>s'. rds_set clock key w 0 s = (Inr (), s') \<and> rds_type key s' = Inr STRING \<and> rds_get clock key s' = Inr w"
    if w: "w \<noteq> []" "length w + 9 \<le> MAX_RECORD_SIZE" "length key \<le> MAX_RECORD_SIZE" "34 + length key + length w \<le> n"
  proof -
    have "ready_for (34 + length key + length w + 0) s" by (rule eng.ready_less [OF ready(1)]) (use w(4) in simp)
    moreover have "key_size_ok (string_to_bytes key)" using ready(2) w(3) by (simp add: key_size_ok_def)
    ultimately show ?thesis using rds_set_ok [OF _ _ w(1,2), of key 0 s 0 clock] by auto
  qed
  ultimately show ?thesis
    using find_metadata_wrong_type [OF stored _ ready] rds_get_wrong_type [OF stored _ ready]
    by (simp add: rds_hset_def rds_hget_def rds_hdel_def rds_sadd_def rds_sismember_def rds_srem_def rds_lpush_def
        rds_rpush_def rds_lpop_def rds_rpop_def rds_zadd_def rds_zscore_def)
qed

theorem rds_wrong_type_witness:
  "\<exists>s. hash_at s ''h'' [''f'' \<mapsto> ''v''] \<and> rds_type ''h'' s = Inr HASH
    \<and> rds_lpush (\<lambda>_. 7) ''h'' ''x'' s = (Inl wrong_type, s) \<and> rds_get (\<lambda>_. 7) ''h'' s = Inl wrong_type
    \<and> (\<exists>s'. rds_set (\<lambda>_. 7) ''h'' ''w'' 0 s = (Inr (), s') \<and> rds_type ''h'' s' = Inr STRING)"
proof -
  obtain s where s: "hash_at s ''h'' [''f'' \<mapsto> ''v'']" "ready_for 600 s" using wit_hash by blast
  then have "kv_of s (string_to_bytes ''h'') \<noteq> None"
    using map_at_stored_key [of HASH s "''h''" _ "''f''"] by (simp add: hash_at_def)
  with s(1) obtain m where m: "kv_of s (string_to_bytes ''h'') = Some (RedisMetadata_encode m)" "md_ok m" "md_data_type m = HASH"
    by (auto simp: hash_at_def map_at_def split: option.splits)
  have "(''h'' :: string) \<noteq> []" by simp
  from rds_wrong_type [OF m(1,2) s(2) this, of "''w''" "\<lambda>_. 7" _ "''x''"] show ?thesis
    using s(1) m(3) by (simp add: MAX_RECORD_SIZE_def) blast
qed

end
