(* ===== verification/Redis_Threads.thy ===== *)
theory Redis_Threads
  imports Redis_Collections
begin

text \<open>
  Several clients at once. The Redis server runs every connection in a thread of its own, and
  \<open>RedisDataStructure\<close> (\<open>src/redis_data_structure.cpp\<close>) holds no lock: only the single calls of the
  engine are atomic. Here \<open>hset\<close> is cut at these calls, any number of calls run under any schedule,
  and the lemmas show what all the schedules keep and what some of them lose.
\<close>

section \<open>\<open>hset\<close>, one engine call at a time\<close>

record hset_call =
  hc_clock :: "nat \<Rightarrow> u64"
  hc_key :: string
  hc_field :: string
  hc_value :: string

text \<open>Where a thread stands in \<open>hset\<close>: what its local variables hold before the next engine call.\<close>

datatype hset_pc =
    At_start
  | At_expired
  | At_metadata redis_metadata
  | At_checked redis_metadata bool
  | At_stored redis_metadata
  | Returned "bool res"

fun hset_step :: "hset_call \<Rightarrow> hset_pc \<Rightarrow> rds \<Rightarrow> hset_pc \<times> rds" where
  "hset_step c At_start s =
     (case db_get (string_to_bytes (hc_key c)) s of
        Inl e \<Rightarrow> ((if e = KeyNotFoundError then At_metadata (new_metadata (hc_clock c 1) HASH) else Returned (Inl e)), s)
      | Inr metadata_bytes \<Rightarrow>
          (case RedisMetadata_decode metadata_bytes of
             Inl e \<Rightarrow> (Returned (Inl e), s)
           | Inr metadata \<Rightarrow>
               if md_data_type metadata \<noteq> HASH then (Returned (Inl (BitcaskException ''Wrong type operation'')), s)
               else if is_expired (hc_clock c 0) (md_expire metadata) then (At_expired, s)
               else (At_metadata metadata, s)))"
| "hset_step c At_expired s =
     (case db_remove (string_to_bytes (hc_key c)) s of
        (Inl e, s) \<Rightarrow> ((if e = KeyNotFoundError then At_metadata (new_metadata (hc_clock c 1) HASH) else Returned (Inl e)), s)
      | (Inr _, s) \<Rightarrow> (At_metadata (new_metadata (hc_clock c 1) HASH), s))"
| "hset_step c (At_metadata metadata) s =
     (case db_has (hash_key (hc_key c) metadata (hc_field c)) s of
        (Inl e, s) \<Rightarrow> (Returned (Inl e), s)
      | (Inr field_exists, s) \<Rightarrow> (At_checked metadata field_exists, s))"
| "hset_step c (At_checked metadata field_exists) s =
     (case db_put (hash_key (hc_key c) metadata (hc_field c)) (string_to_bytes (hc_value c)) s of
        (Inl e, s) \<Rightarrow> (Returned (Inl e), s)
      | (Inr _, s) \<Rightarrow> ((if \<not> field_exists then At_stored metadata else Returned (Inr False)), s))"
| "hset_step c (At_stored metadata) s =
     (case put_metadata (hc_key c) (metadata\<lparr>md_size := md_size metadata + 1\<rparr>) s of
        (Inl e, s) \<Rightarrow> (Returned (Inl e), s)
      | (Inr _, s) \<Rightarrow> (Returned (Inr True), s))"
| "hset_step c (Returned r) s = (Returned r, s)"

text \<open>The threads share the store; a schedule says whose turn it is.\<close>

fun hset_run :: "nat list \<Rightarrow> (hset_call \<times> hset_pc) list \<Rightarrow> rds \<Rightarrow> (hset_call \<times> hset_pc) list \<times> rds" where
  "hset_run [] ts s = (ts, s)"
| "hset_run (i # sched) ts s =
     (if i < length ts
      then (case hset_step (fst (ts ! i)) (snd (ts ! i)) s of (pc, s') \<Rightarrow>
              hset_run sched (ts[i := (fst (ts ! i), pc)]) s')
      else hset_run sched ts s)"

definition hset_calls :: "hset_call list \<Rightarrow> (hset_call \<times> hset_pc) list" where
  "hset_calls cs = map (\<lambda>c. (c, At_start)) cs"

lemma hset_run_append: "hset_run (sched @ sched') ts s = (case hset_run sched ts s of (ts, s) \<Rightarrow> hset_run sched' ts s)"
  by (induction sched arbitrary: ts s) (auto split: prod.split)

text \<open>A thread alone, from each of its points on.\<close>

abbreviation alone :: "nat \<Rightarrow> hset_call \<Rightarrow> hset_pc \<Rightarrow> rds \<Rightarrow> (hset_call \<times> hset_pc) list \<times> rds" where
  "alone n c pc s \<equiv> hset_run (replicate n 0) [(c, pc)] s"

definition finished :: "hset_call \<Rightarrow> bool res \<times> rds \<Rightarrow> (hset_call \<times> hset_pc) list \<times> rds" where
  "finished c x = ([(c, Returned (fst x))], snd x)"

lemma alone_Suc: "alone (Suc n) c pc s = (case hset_step c pc s of (pc', s') \<Rightarrow> alone n c pc' s')"
  by (simp split: prod.split)

lemma alone_Returned [simp]: "alone n c (Returned r) s = finished c (r, s)"
  by (induction n) (simp_all add: finished_def)

lemma alone_stored: "alone (Suc n) c (At_stored m) s =
    finished c (bind_res (put_metadata (hc_key c) (m\<lparr>md_size := md_size m + 1\<rparr>) s) (\<lambda>_ s. (Inr True, s)))"
  unfolding alone_Suc hset_step.simps bind_res_def
  by (auto split: prod.split sum.split simp del: replicate.simps)

lemma alone_checked: "alone (Suc (Suc n)) c (At_checked m ex) s =
    finished c (bind_res (db_put (hash_key (hc_key c) m (hc_field c)) (string_to_bytes (hc_value c)) s)
      (\<lambda>_ s. if \<not> ex
         then bind_res (put_metadata (hc_key c) (m\<lparr>md_size := md_size m + 1\<rparr>) s) (\<lambda>_ s. (Inr True, s))
         else (Inr False, s)))"
  unfolding alone_Suc [of "Suc n"] hset_step.simps bind_res_def [of "db_put _ _ _"]
  by (auto split: prod.split sum.split simp: alone_stored simp del: replicate.simps)

definition hset_found :: "hset_call \<Rightarrow> redis_metadata \<Rightarrow> rds \<Rightarrow> bool res \<times> rds" where
  "hset_found c m s =
     bind_res (db_has (hash_key (hc_key c) m (hc_field c)) s)
       (\<lambda>ex s. bind_res (db_put (hash_key (hc_key c) m (hc_field c)) (string_to_bytes (hc_value c)) s)
       (\<lambda>_ s. if \<not> ex
          then bind_res (put_metadata (hc_key c) (m\<lparr>md_size := md_size m + 1\<rparr>) s) (\<lambda>_ s. (Inr True, s))
          else (Inr False, s)))"

lemma alone_metadata: "alone (Suc (Suc (Suc n))) c (At_metadata m) s = finished c (hset_found c m s)"
  unfolding alone_Suc [of "Suc (Suc n)"] hset_step.simps hset_found_def bind_res_def [of "db_has _ _"]
  by (auto split: prod.split sum.split simp: alone_checked simp del: replicate.simps)

lemma alone_expired: "alone (Suc (Suc (Suc (Suc n)))) c At_expired s =
    finished c (bind_res (catch_not_found
      (bind_res (db_remove (string_to_bytes (hc_key c)) s) (\<lambda>_ s. (Inr (new_metadata (hc_clock c 1) HASH), s)))
      (\<lambda>s. (Inr (new_metadata (hc_clock c 1) HASH), s))) (hset_found c))"
  unfolding alone_Suc [of "Suc (Suc (Suc n))"] hset_step.simps
  by (auto split: prod.split sum.split simp: alone_metadata bind_res_def catch_not_found_def simp del: replicate.simps)

text \<open>
  The cut agrees with \<open>rds_hset\<close>, the model of the whole operation: a thread that is not interrupted has
  returned after at most five engine calls, with the same result in the same state.
\<close>

lemma hset_uninterrupted:
  "hset_run [0, 0, 0, 0, 0] (hset_calls [c]) s =
    (case rds_hset (hc_clock c) (hc_key c) (hc_field c) (hc_value c) s of (r, s') \<Rightarrow> ([(c, Returned r)], s'))"
proof -
  let ?n = "Suc (Suc (Suc (Suc 0)))"
  have hset: "rds_hset (hc_clock c) (hc_key c) (hc_field c) (hc_value c) s =
      bind_res (find_metadata (hc_clock c) (hc_key c) HASH s) (hset_found c)"
    unfolding rds_hset_def hset_found_def Let_def by (rule arg_cong [of _ _ "bind_res _"]) (simp add: fun_eq_iff)
  have "hset_run [0, 0, 0, 0, 0] (hset_calls [c]) s = alone (Suc ?n) c At_start s"
    by (simp add: hset_calls_def numeral_eq_Suc)
  also have "\<dots> = finished c (bind_res (find_metadata (hc_clock c) (hc_key c) HASH s) (hset_found c))"
  proof (cases "db_get (string_to_bytes (hc_key c)) s")
    case (Inl e)
    then show ?thesis unfolding alone_Suc [of ?n] hset_step.simps
      by (auto simp: alone_metadata find_metadata_def catch_not_found_def bind_res_def simp del: replicate.simps)
  next
    case (Inr b)
    show ?thesis
    proof (cases "RedisMetadata_decode b")
      case (Inl e)
      then have "e = BitcaskException ''Invalid metadata size''"
        by (simp add: RedisMetadata_decode_def Let_def split: if_splits)
      then show ?thesis using Inl \<open>db_get _ _ = _\<close> unfolding alone_Suc [of ?n] hset_step.simps
        by (simp add: find_metadata_def catch_not_found_def del: replicate.simps)
    next
      case (Inr m)
      then show ?thesis using \<open>db_get _ _ = _\<close> unfolding alone_Suc [of ?n] hset_step.simps
        by (auto simp: find_metadata_def catch_not_found_def alone_metadata alone_expired simp del: replicate.simps)
    qed
  qed
  finally show ?thesis unfolding hset finished_def by (simp split: prod.split)
qed

section \<open>What every schedule keeps\<close>

text \<open>
  A hash with metadata \<open>m0\<close>, up to the count, and the set \<open>F\<close> of fields that are stored under its
  version. A count never exceeds the number of fields that were there when it was read.
\<close>

definition counted :: "redis_metadata \<Rightarrow> nat \<Rightarrow> redis_metadata \<Rightarrow> bool" where
  "counted m0 n m \<longleftrightarrow> (\<exists>x. m = m0\<lparr>md_size := x\<rparr> \<and> 1 \<le> unat x \<and> unat x \<le> n)"

definition hash_stored :: "string \<Rightarrow> redis_metadata \<Rightarrow> string set \<Rightarrow> rds \<Rightarrow> bool" where
  "hash_stored key m0 F s \<longleftrightarrow>
     finite F \<and> F = {f. kv_of s (elem_key key m0 f) \<noteq> None} \<and>
     (\<exists>m. kv_of s (string_to_bytes key) = Some (RedisMetadata_encode m) \<and> counted m0 (card F) m)"

definition plain_hash :: "redis_metadata \<Rightarrow> bool" where
  "plain_hash m \<longleftrightarrow> md_ok m \<and> md_data_type m = HASH \<and> md_expire m = 0"

fun pc_ok :: "redis_metadata \<Rightarrow> string set \<Rightarrow> hset_call \<Rightarrow> hset_pc \<Rightarrow> bool" where
  "pc_ok m0 F c At_start = True"
| "pc_ok m0 F c At_expired = False"
| "pc_ok m0 F c (At_metadata m) = counted m0 (card F) m"
| "pc_ok m0 F c (At_checked m field_exists) =
     counted m0 (card (if field_exists then F else F - {hc_field c})) m"
| "pc_ok m0 F c (At_stored m) \<longleftrightarrow> hc_field c \<in> F \<and> counted m0 (card (F - {hc_field c})) m"
| "pc_ok m0 F c (Returned r) \<longleftrightarrow> hc_field c \<in> F \<and> \<not> isl r"

text \<open>The bytes that a thread may still append to the log.\<close>

fun pc_cost :: "hset_call \<Rightarrow> hset_pc \<Rightarrow> nat" where
  "pc_cost c (At_stored m) = 62 + length (hc_key c)"
| "pc_cost c (Returned r) = 0"
| "pc_cost c _ = op_bytes (hc_key c) (hc_field c) (length (hc_value c))"

definition call_ok :: "string \<Rightarrow> hset_call \<Rightarrow> bool" where
  "call_ok key c \<longleftrightarrow> hc_key c = key \<and> elem_size_ok key (hc_field c) \<and> length (hc_value c) \<le> MAX_RECORD_SIZE"

lemma counted_mono: "counted m0 n m \<Longrightarrow> n \<le> n' \<Longrightarrow> counted m0 n' m"
  by (auto simp: counted_def)

lemma pc_ok_mono: "pc_ok m0 F c pc \<Longrightarrow> F \<subseteq> F' \<Longrightarrow> finite F' \<Longrightarrow> pc_ok m0 F' c pc"
  by (induction m0 F c pc rule: pc_ok.induct)
    (auto split: if_splits intro: counted_mono card_mono Diff_mono)

lemma elem_key_counted: "counted m0 n m \<Longrightarrow> elem_key key m = elem_key key m0"
  by (auto simp: counted_def)

lemma plain_counted: "plain_hash m0 \<Longrightarrow> counted m0 n m \<Longrightarrow> plain_hash m"
  by (auto simp: counted_def plain_hash_def)

lemma counted_Suc:
  assumes "counted m0 n m" "n + 1 < 2 ^ 32"
  shows "counted m0 (n + 1) (m\<lparr>md_size := md_size m + 1\<rparr>)"
proof -
  obtain x where x: "m = m0\<lparr>md_size := x\<rparr>" "1 \<le> unat x" "unat x \<le> n" using assms(1) by (auto simp: counted_def)
  then have "unat (x + 1) = unat x + 1" using assms(2) by (intro unat_u32_plus_1) simp
  then show ?thesis using x unfolding counted_def by (intro exI [of _ "x + 1"]) simp
qed

lemma hash_storedI:
  assumes "finite F" "\<And>f. f \<in> F \<longleftrightarrow> kv_of s (elem_key key m0 f) \<noteq> None"
    "kv_of s (string_to_bytes key) = Some (RedisMetadata_encode m)" "counted m0 (card F) m"
  shows "hash_stored key m0 F s"
  unfolding hash_stored_def using assms by blast

text \<open>What one engine call does to the contents.\<close>

lemma step_start:
  assumes "metadata_is (hc_clock c) HASH s (hc_key c) m" "ready_for n s" "hc_key c \<noteq> []"
  shows "hset_step c At_start s = (At_metadata m, s)"
proof -
  have get: "db_get (string_to_bytes (hc_key c)) s
      = (case kv_of s (string_to_bytes (hc_key c)) of None \<Rightarrow> Inl KeyNotFoundError | Some v \<Rightarrow> Inr v)"
    using eng.get_kv [OF assms(2)] assms(3) by simp
  show ?thesis using assms(1)
    by (cases "kv_of s (string_to_bytes (hc_key c))")
      (auto simp: get metadata_is_def decode_encode_metadata is_expired_def)
qed

lemma step_metadata:
  assumes "ready_for n s"
  shows "hset_step c (At_metadata m) s =
    (At_checked m (kv_of s (elem_key (hc_key c) m (hc_field c)) \<noteq> None), s)"
  using db_has_kv [OF assms] by (simp add: internal_keys)

lemma step_checked:
  assumes "call_ok key c" "ready_for (33 + length key + length (hc_field c) + length (hc_value c) + n) s"
  obtains s' where
    "hset_step c (At_checked m ex) s = (if ex then Returned (Inr False) else At_stored m, s')"
    "kv_of s' = (kv_of s)(elem_key key m (hc_field c) \<mapsto> string_to_bytes (hc_value c))" "ready_for n s'"
proof -
  have c: "hc_key c = key" "elem_size_ok key (hc_field c)" "length (string_to_bytes (hc_value c)) \<le> MAX_RECORD_SIZE"
    using assms(1) by (simp_all add: call_ok_def)
  have "ready_for (25 + length (elem_key key m (hc_field c)) + length (string_to_bytes (hc_value c)) + n) s"
    by (rule eng.ready_less [OF assms(2)]) simp
  from eng.put_ok [OF this elem_size_okD(3) [OF c(2)] c(3)] show ?thesis using that by (auto simp: c(1) internal_keys)
qed

lemma step_stored:
  assumes "call_ok key c" "ready_for (62 + length key + n) s"
  obtains s' where "hset_step c (At_stored m) s = (Returned (Inr True), s')"
    "kv_of s' = (kv_of s)(string_to_bytes key \<mapsto> RedisMetadata_encode (m\<lparr>md_size := md_size m + 1\<rparr>))" "ready_for n s'"
proof -
  have c: "hc_key c = key" "elem_size_ok key (hc_field c)" using assms(1) by (simp_all add: call_ok_def)
  let ?m = "m\<lparr>md_size := md_size m + 1\<rparr>"
  have "ready_for (25 + length (string_to_bytes key) + length (RedisMetadata_encode ?m) + n) s"
    by (rule eng.ready_less [OF assms(2)]) (use length_metadata_le(1) [of ?m] in simp)
  from eng.put_ok [OF this elem_size_okD(2) [OF c(2)] length_metadata_le(2)]
  show ?thesis using that by (auto simp: c(1) put_metadata_def)
qed

lemma stored_metadata:
  assumes "plain_hash m" "kv_of s (string_to_bytes key) = Some (RedisMetadata_encode m)"
  shows "metadata_is clock HASH s key m"
  using assms by (simp add: metadata_is_def plain_hash_def)

text \<open>One engine call of one thread: fields are only added, and the thread stays in step with them.\<close>

definition kept :: "string \<Rightarrow> redis_metadata \<Rightarrow> string set \<Rightarrow> nat \<Rightarrow> hset_call \<Rightarrow> hset_pc \<Rightarrow> rds \<Rightarrow> bool" where
  "kept key m0 F n c pc s \<longleftrightarrow>
     (\<exists>pc' s' F'. hset_step c pc s = (pc', s') \<and> F \<subseteq> F' \<and> F' \<subseteq> insert (hc_field c) F \<and>
        hash_stored key m0 F' s' \<and> pc_ok m0 F' c pc' \<and> ready_for (pc_cost c pc' + n) s')"

lemma hset_step_keeps:
  assumes m0: "plain_hash m0" and st: "hash_stored key m0 F s" and c: "call_ok key c"
    and pc: "pc_ok m0 F c pc" and ready: "ready_for (pc_cost c pc + n) s" and B: "card F < 2 ^ 32"
  shows "kept key m0 F n c pc s"
proof -
  let ?f = "hc_field c" and ?k = "string_to_bytes key"
  have key: "hc_key c = key" and sizes: "elem_size_ok key ?f" "length (hc_value c) \<le> MAX_RECORD_SIZE"
    using c by (simp_all add: call_ok_def)
  note nonempty = elem_size_okD(1) [OF sizes(1)]
  obtain m where F: "finite F" "F = {f. kv_of s (elem_key key m0 f) \<noteq> None}"
    and m: "kv_of s ?k = Some (RedisMetadata_encode m)" "counted m0 (card F) m"
    using st unfolding hash_stored_def by blast
  have same: "kept key m0 F n c pc s"
    if "hset_step c pc s = (pc', s)" "pc_ok m0 F c pc'" "pc_cost c pc' \<le> pc_cost c pc" for pc'
    unfolding kept_def using that st eng.ready_less [OF ready, of "pc_cost c pc' + n"] by auto
  show ?thesis
  proof (cases pc)
    case At_start
    have "hset_step c pc s = (At_metadata m, s)"
      unfolding At_start by (rule step_start [OF _ ready])
        (use stored_metadata [OF plain_counted [OF m0 m(2)] m(1)] key nonempty in simp_all)
    then show ?thesis by (rule same) (simp_all add: m(2) At_start)
  next
    case (At_metadata m')
    then have m': "counted m0 (card F) m'" using pc by simp
    have "hset_step c pc s = (At_checked m' (?f \<in> F), s)"
      unfolding At_metadata step_metadata [OF ready] by (simp add: key F(2) elem_key_counted [OF m'])
    then show ?thesis by (rule same) (use m' in \<open>simp_all add: At_metadata\<close>)
  next
    case (At_checked m' ex)
    then have m': "counted m0 (card (if ex then F else F - {?f})) m'" using pc by simp
    let ?F = "insert ?f F" and ?pc = "if ex then Returned (Inr False) else At_stored m'"
    have "ready_for (33 + length key + length ?f + length (hc_value c) + (62 + length key + n)) s"
      by (rule eng.ready_less [OF ready]) (simp add: At_checked key op_bytes_def)
    from step_checked [OF c this, of m' ex] obtain s' where s': "hset_step c pc s = (?pc, s')"
      "kv_of s' = (kv_of s)(elem_key key m' ?f \<mapsto> string_to_bytes (hc_value c))" "ready_for (62 + length key + n) s'"
      unfolding At_checked by blast
    have "counted m0 (card ?F) m" by (rule counted_mono [OF m(2) card_mono]) (use F(1) in auto)
    then have "hash_stored key m0 ?F s'"
      using F m(1) by (intro hash_storedI [of _ _ _ _ m]) (auto simp: s'(2) elem_key_counted [OF m'])
    moreover have "pc_ok m0 ?F c ?pc" using m' by (cases ex) simp_all
    moreover have "ready_for (pc_cost c ?pc + n) s'" by (rule eng.ready_less [OF s'(3)]) (simp add: key)
    ultimately show ?thesis using s'(1) unfolding kept_def by blast
  next
    case (At_stored m')
    have in': "?f \<in> F" and m': "counted m0 (card (F - {?f})) m'" using pc unfolding At_stored pc_ok.simps by blast+
    have card: "card (F - {?f}) + 1 = card F" using F(1) in' by (metis Suc_eq_plus1 card_Suc_Diff1)
    let ?m = "m'\<lparr>md_size := md_size m' + 1\<rparr>"
    have cnt: "counted m0 (card F) ?m" using counted_Suc [OF m'] B unfolding card by blast
    have "ready_for (62 + length key + n) s" using ready by (simp add: At_stored key)
    from step_stored [OF c this, of m'] obtain s' where s': "hset_step c pc s = (Returned (Inr True), s')"
      "kv_of s' = (kv_of s)(string_to_bytes key \<mapsto> RedisMetadata_encode ?m)" "ready_for n s'"
      unfolding At_stored by blast
    have "hash_stored key m0 F s'" using F cnt by (intro hash_storedI [of _ _ _ _ ?m]) (simp_all add: s'(2))
    then show ?thesis using s'(1,3) in' unfolding kept_def by auto
  next
    case (Returned r)
    then show ?thesis by (intro same [of "Returned r"]) (use pc in simp_all)
  qed (use pc in simp)
qed

text \<open>All the threads together.\<close>

definition threads_ok :: "string \<Rightarrow> redis_metadata \<Rightarrow> string set \<Rightarrow> (hset_call \<times> hset_pc) list \<Rightarrow> bool" where
  "threads_ok key m0 F ts \<longleftrightarrow> (\<forall>(c, pc) \<in> set ts. call_ok key c \<and> pc_ok m0 F c pc)"

definition threads_cost :: "(hset_call \<times> hset_pc) list \<Rightarrow> nat" where
  "threads_cost ts = (\<Sum>(c, pc) \<leftarrow> ts. pc_cost c pc)"

lemma threads_cost_update:
  "i < length ts \<Longrightarrow> threads_cost (ts[i := (c, pc)]) + pc_cost (fst (ts ! i)) (snd (ts ! i)) = threads_cost ts + pc_cost c pc"
  by (induction ts arbitrary: i) (auto simp: threads_cost_def split: nat.split prod.splits)

definition fields_of :: "(hset_call \<times> hset_pc) list \<Rightarrow> string set" where
  "fields_of ts = hc_field ` set (map fst ts)"

lemma hset_run_keeps:
  assumes m0: "plain_hash m0" and st: "hash_stored key m0 F s" and ts: "threads_ok key m0 F ts"
    and ready: "ready_for (threads_cost ts + n) s" and B: "card (F \<union> fields_of ts) < 2 ^ 32"
  shows "\<exists>ts' s' F'. hset_run sched ts s = (ts', s') \<and> hash_stored key m0 F' s' \<and> threads_ok key m0 F' ts'
    \<and> ready_for (threads_cost ts' + n) s' \<and> F \<subseteq> F' \<and> F' \<subseteq> F \<union> fields_of ts \<and> map fst ts' = map fst ts"
  using st ts ready B
proof (induction sched arbitrary: ts s F)
  case (Cons i sched)
  show ?case
  proof (cases "i < length ts")
    case True
    obtain c pc where i: "ts ! i = (c, pc)" by (cases "ts ! i")
    have mem: "(c, pc) \<in> set ts" using True i by (metis nth_mem)
    then have c: "call_ok key c" "pc_ok m0 F c pc" and f: "hc_field c \<in> fields_of ts"
      using Cons.prems(2) by (auto simp: threads_ok_def fields_of_def image_iff intro!: bexI [of _ "(c, pc)"])
    have fin: "finite F" "finite (fields_of ts)"
      using Cons.prems(1) unfolding hash_stored_def fields_of_def by blast (rule finite_imageI [OF finite_set])
    have "threads_cost ts = pc_cost c pc + (threads_cost ts - pc_cost c pc)"
      using threads_cost_update [OF True, of c pc] member_le_sum_list [of "pc_cost c pc" "map (\<lambda>(c, pc). pc_cost c pc) ts"] mem
      by (force simp: threads_cost_def)
    then have ready: "ready_for (pc_cost c pc + (threads_cost ts - pc_cost c pc + n)) s" using Cons.prems(3) by simp
    have "card F < 2 ^ 32" using Cons.prems(4) card_mono [of "F \<union> fields_of ts" F] fin by simp
    from hset_step_keeps [OF m0 Cons.prems(1) c ready this]
    obtain pc' s' F' where k: "hset_step c pc s = (pc', s')" "F \<subseteq> F'" "F' \<subseteq> insert (hc_field c) F"
      "hash_stored key m0 F' s'" "pc_ok m0 F' c pc'" "ready_for (pc_cost c pc' + (threads_cost ts - pc_cost c pc + n)) s'"
      unfolding kept_def by blast
    let ?ts = "ts[i := (c, pc')]"
    have same: "map fst ?ts = map fst ts" using True i by (metis fst_conv list_update_id map_update nth_map)
    have fields: "fields_of ?ts = fields_of ts" unfolding fields_of_def same ..
    have "threads_ok key m0 F' ?ts"
      using Cons.prems(2) c(1) k(2,4,5) set_update_subset_insert [of ts i "(c, pc')"]
      by (auto simp: threads_ok_def hash_stored_def intro: pc_ok_mono)
    moreover have "threads_cost ?ts = pc_cost c pc' + (threads_cost ts - pc_cost c pc)"
      using threads_cost_update [OF True, of c pc'] \<open>threads_cost ts = _\<close> i by simp
    moreover have "F' \<union> fields_of ?ts = F \<union> fields_of ts" using k(2,3) f fields by auto
    ultimately obtain ts' s'' F'' where r: "hset_run sched ?ts s' = (ts', s'')" "hash_stored key m0 F'' s''"
      "threads_ok key m0 F'' ts'" "ready_for (threads_cost ts' + n) s''" "F' \<subseteq> F''" "F'' \<subseteq> F \<union> fields_of ts"
      "map fst ts' = map fst ?ts"
      using Cons.IH [OF k(4), of ?ts] k(6) Cons.prems(4) by (metis add.assoc)
    moreover have "hset_run (i # sched) ts s = (ts', s'')" using True i k(1) r(1) by simp
    ultimately show ?thesis using k(2) same by (metis order.trans)
  qed (use Cons in auto)
qed auto

section \<open>The theorems\<close>

lemma hash_at_stored:
  assumes "hash_at s key h" "dom h \<noteq> {}"
  obtains m where "plain_hash m" "hash_stored key m (dom h) s" "kv_of s (string_to_bytes key) = Some (RedisMetadata_encode m)"
    "unat (md_size m) = card (dom h)"
proof -
  obtain f where "f \<in> dom h" using assms(2) by blast
  then have "h f \<noteq> None" by (simp add: domIff)
  then have "kv_of s (string_to_bytes key) \<noteq> None"
    using assms(1) map_at_stored_key [of HASH s key _ f] by (simp add: hash_at_def)
  then obtain m where m: "finite (dom h)" "kv_of s (string_to_bytes key) = Some (RedisMetadata_encode m)" "plain_hash m"
    "unat (md_size m) = card (dom h)" "\<forall>f. kv_of s (elem_key key m f) = map_option string_to_bytes (h f)"
    using assms(1) by (auto simp: hash_at_def map_at_def plain_hash_def)
  have "card (dom h) \<ge> 1" using assms(2) m(1) by (simp add: Suc_le_eq card_gt_0_iff)
  then have "counted m (card (dom h)) m" using m(4) unfolding counted_def by (intro exI [of _ "md_size m"]) simp
  then have "hash_stored key m (dom h) s" using m by (intro hash_storedI [of _ _ _ _ m]) (auto simp: domIff)
  then show ?thesis using that m by blast
qed

lemma hget_stored:
  assumes "plain_hash m0" "hash_stored key m0 F s" "ready_for n s" "key \<noteq> []" "f \<in> F"
  shows "\<exists>w. rds_hget clock key f s = (Inr w, s)"
proof -
  obtain m where m: "kv_of s (string_to_bytes key) = Some (RedisMetadata_encode m)" "counted m0 (card F) m"
    and F: "F = {f. kv_of s (elem_key key m0 f) \<noteq> None}"
    using assms(2) unfolding hash_stored_def by blast
  have find: "find_metadata clock key HASH s = (Inr m, s)"
    by (rule find_metadata_is [OF stored_metadata [OF plain_counted [OF assms(1) m(2)] m(1)] assms(3,4)])
  have "md_size m \<noteq> 0" using m(2) by (auto simp: counted_def)
  moreover obtain v where "kv_of s (elem_key key m f) = Some v" using assms(5) F elem_key_counted [OF m(2)] by auto
  ultimately show ?thesis using find eng.get_kv [OF assms(3), of "elem_key key m f"] by (simp add: rds_hget_def internal_keys)
qed

definition calls_cost :: "string \<Rightarrow> hset_call list \<Rightarrow> nat" where
  "calls_cost key cs = (\<Sum>c \<leftarrow> cs. op_bytes key (hc_field c) (length (hc_value c)))"

lemma calls_start:
  assumes "\<forall>c \<in> set cs. call_ok key c"
  shows "threads_ok key m F (hset_calls cs)" "threads_cost (hset_calls cs) = calls_cost key cs"
    "fields_of (hset_calls cs) = hc_field ` set cs"
  using assms by (induction cs) (auto simp: hset_calls_def threads_ok_def threads_cost_def calls_cost_def fields_of_def call_ok_def)

text \<open>
  C11: Any number of clients add fields to a hash that is there, in any order of their engine calls.
  Every call that has returned has succeeded and its field can be read, no field that was there is
  lost, and the count in the metadata is never zero and never more than the number of fields.
\<close>

theorem hset_race_keeps:
  assumes "hash_at s key h" "dom h \<noteq> {}" "\<forall>c \<in> set cs. call_ok key c" "key \<noteq> []"
    and "ready_for (calls_cost key cs) s" "card (dom h) + length cs < 2 ^ 32"
    and run: "hset_run sched (hset_calls cs) s = (ts, s')"
  shows "(\<forall>c r clock. (c, Returned r) \<in> set ts \<longrightarrow> \<not> isl r \<and> (\<exists>w. rds_hget clock key (hc_field c) s' = (Inr w, s')))
    \<and> (\<forall>f clock. h f \<noteq> None \<longrightarrow> (\<exists>w. rds_hget clock key f s' = (Inr w, s')))
    \<and> (\<exists>m. kv_of s' (string_to_bytes key) = Some (RedisMetadata_encode m) \<and> 1 \<le> unat (md_size m)
         \<and> unat (md_size m) \<le> card {f. kv_of s' (elem_key key m f) \<noteq> None})"
proof -
  obtain m0 where m0: "plain_hash m0" "hash_stored key m0 (dom h) s" using hash_at_stored [OF assms(1,2)] by blast
  note cs = calls_start [OF assms(3)]
  have "card (dom h \<union> hc_field ` set cs) \<le> card (dom h) + length cs"
    by (rule order.trans [OF card_Un_le]) (use order.trans [OF card_image_le card_length] in simp)
  then have "card (dom h \<union> fields_of (hset_calls cs)) < 2 ^ 32" using assms(6) by (simp add: cs(3))
  from hset_run_keeps [OF m0 cs(1) _ this, of 0 sched] assms(5)
  obtain F' where F': "hash_stored key m0 F' s'" "threads_ok key m0 F' ts" "ready_for (threads_cost ts) s'" "dom h \<subseteq> F'"
    by (auto simp: cs(2) run)
  note get = hget_stored [OF m0(1) F'(1,3) assms(4)]
  have "\<not> isl r \<and> hc_field c \<in> F'" if "(c, Returned r) \<in> set ts" for c r
    using F'(2) that by (auto simp: threads_ok_def)
  moreover obtain m where "kv_of s' (string_to_bytes key) = Some (RedisMetadata_encode m)" "counted m0 (card F') m"
    "F' = {f. kv_of s' (elem_key key m0 f) \<noteq> None}"
    using F'(1) unfolding hash_stored_def by blast
  moreover have "h f \<noteq> None \<Longrightarrow> f \<in> F'" for f using F'(4) by auto
  ultimately show ?thesis using get by (auto simp: counted_def elem_key_simps)
qed

text \<open>Two calls of which both look at the metadata before either writes.\<close>

definition both_read_first :: "nat list" where
  "both_read_first = [0, 1, 0, 0, 0, 1, 1, 1]"

lemma both_read_first_run:
  assumes c: "call_ok key c" "call_ok key d" and ready: "ready_for (calls_cost key [c, d] + n) s"
    and m: "metadata_is (hc_clock c) HASH s key m" "metadata_is (hc_clock d) HASH s key m'"
    and new: "kv_of s (elem_key key m (hc_field c)) = None" "kv_of s (elem_key key m' (hc_field d)) = None"
      "elem_key key m (hc_field c) \<noteq> elem_key key m' (hc_field d)"
  obtains s' where
    "hset_run both_read_first (hset_calls [c, d]) s = ([(c, Returned (Inr True)), (d, Returned (Inr True))], s')"
    "kv_of s' = (kv_of s)(elem_key key m (hc_field c) \<mapsto> string_to_bytes (hc_value c),
       elem_key key m' (hc_field d) \<mapsto> string_to_bytes (hc_value d),
       string_to_bytes key \<mapsto> RedisMetadata_encode (m'\<lparr>md_size := md_size m' + 1\<rparr>))"
    "ready_for n s'"
proof -
  have key: "hc_key c = key" "hc_key d = key" "key \<noteq> []"
    using c elem_size_okD(1) by (auto simp: call_ok_def)
  have start: "hset_step c At_start s = (At_metadata m, s)" "hset_step d At_start s = (At_metadata m', s)"
    using step_start [OF _ ready, of c m] step_start [OF _ ready, of d m'] m key by simp_all
  let ?rest = "op_bytes key (hc_field d) (length (hc_value d)) + n"
  have r0: "ready_for (33 + length key + length (hc_field c) + length (hc_value c) + (62 + length key + ?rest)) s"
    by (rule eng.ready_less [OF ready]) (simp add: calls_cost_def op_bytes_def)
  have c1: "hset_step c (At_metadata m) s = (At_checked m False, s)"
    unfolding step_metadata [OF ready] by (simp add: key new)
  obtain s1 where s1: "hset_step c (At_checked m False) s = (At_stored m, s1)"
    "kv_of s1 = (kv_of s)(elem_key key m (hc_field c) \<mapsto> string_to_bytes (hc_value c))" "ready_for (62 + length key + ?rest) s1"
    using step_checked [OF c(1) r0, of m False] by auto
  obtain s2 where s2: "hset_step c (At_stored m) s1 = (Returned (Inr True), s2)"
    "kv_of s2 = (kv_of s1)(string_to_bytes key \<mapsto> RedisMetadata_encode (m\<lparr>md_size := md_size m + 1\<rparr>))" "ready_for ?rest s2"
    using step_stored [OF c(1) s1(3), of m] by blast
  have d1: "hset_step d (At_metadata m') s2 = (At_checked m' False, s2)"
    unfolding step_metadata [OF s2(3)] using new by (simp add: key s2(2) s1(2))
  have r2: "ready_for (33 + length key + length (hc_field d) + length (hc_value d) + (62 + length key + n)) s2"
    by (rule eng.ready_less [OF s2(3)]) (simp add: op_bytes_def)
  obtain s3 where s3: "hset_step d (At_checked m' False) s2 = (At_stored m', s3)"
    "kv_of s3 = (kv_of s2)(elem_key key m' (hc_field d) \<mapsto> string_to_bytes (hc_value d))" "ready_for (62 + length key + n) s3"
    using step_checked [OF c(2) r2, of m' False] by auto
  obtain s4 where s4: "hset_step d (At_stored m') s3 = (Returned (Inr True), s4)"
    "kv_of s4 = (kv_of s3)(string_to_bytes key \<mapsto> RedisMetadata_encode (m'\<lparr>md_size := md_size m' + 1\<rparr>))" "ready_for n s4"
    using step_stored [OF c(2) s3(3), of m'] by blast
  show ?thesis
  proof (rule that [of s4])
    show "hset_run both_read_first (hset_calls [c, d]) s = ([(c, Returned (Inr True)), (d, Returned (Inr True))], s4)"
      by (simp add: both_read_first_def hset_calls_def start c1 s1(1) s2(1) d1 s3(1) s4(1) del: hset_step.simps)
  qed (auto simp: s4 s3(2) s2(2) s1(2) fun_eq_iff)
qed

text \<open>
  Two clients that create a hash at the same time: both calls return true, but each has made
  a version of its own, and the metadata written last name one of them. The field of the other client
  is not found, at any time after.
\<close>

theorem hset_race_loses_field:
  assumes "kv_of s (string_to_bytes key) = None" "call_ok key c" "call_ok key d"
    and "ready_for (calls_cost key [c, d]) s"
    and "\<forall>f. kv_of s (elem_key key (new_metadata (hc_clock c 1) HASH) f) = None"
      "\<forall>f. kv_of s (elem_key key (new_metadata (hc_clock d 1) HASH) f) = None"
    and "hc_clock c 1 \<noteq> hc_clock d 1" "hc_field c \<noteq> hc_field d"
  shows "\<exists>s'. hset_run both_read_first (hset_calls [c, d]) s = ([(c, Returned (Inr True)), (d, Returned (Inr True))], s')
    \<and> (\<forall>clock. rds_hget clock key (hc_field c) s' = (Inl KeyNotFoundError, s'))
    \<and> (\<forall>clock. rds_hget clock key (hc_field d) s' = (Inr (hc_value d), s'))"
proof -
  let ?m = "new_metadata (hc_clock c 1) HASH" and ?m' = "new_metadata (hc_clock d 1) HASH"
  have md: "metadata_is (hc_clock c) HASH s key ?m" "metadata_is (hc_clock d) HASH s key ?m'"
    using assms(1) by (simp_all add: metadata_is_def)
  have differ: "elem_key key ?m f \<noteq> elem_key key ?m' g" for f g
  proof
    assume "elem_key key ?m f = elem_key key ?m' g"
    then have "le_encode 8 (hc_clock c 1) = le_encode 8 (hc_clock d 1)" by (simp add: elem_key_def)
    then have "le_decode (le_encode 8 (hc_clock c 1)) = le_decode (le_encode 8 (hc_clock d 1))" by simp
    then show False using assms(7) by (simp add: le_decode_encode)
  qed
  have r0: "ready_for (calls_cost key [c, d] + 0) s" using assms(4) by simp
  obtain s' where s': "hset_run both_read_first (hset_calls [c, d]) s = ([(c, Returned (Inr True)), (d, Returned (Inr True))], s')"
    "kv_of s' = (kv_of s)(elem_key key ?m (hc_field c) \<mapsto> string_to_bytes (hc_value c),
       elem_key key ?m' (hc_field d) \<mapsto> string_to_bytes (hc_value d),
       string_to_bytes key \<mapsto> RedisMetadata_encode (?m'\<lparr>md_size := md_size ?m' + 1\<rparr>))" "ready_for 0 s'"
    by (rule both_read_first_run [OF assms(2,3) r0 md spec [OF assms(5)] spec [OF assms(6)] differ])
  let ?n = "?m'\<lparr>md_size := md_size ?m' + 1\<rparr>"
  have "plain_hash ?n" by (simp add: plain_hash_def new_metadata_ok)
  then have "metadata_is clock HASH s' key ?n" for clock by (rule stored_metadata) (simp add: s'(2))
  moreover have "key \<noteq> []" using assms(2) elem_size_okD(1) unfolding call_ok_def by blast
  ultimately have find: "find_metadata clock key HASH s' = (Inr ?n, s')" for clock
    using find_metadata_is [OF _ s'(3)] by blast
  have get: "db_get (elem_key key ?m' f) s' = (case kv_of s' (elem_key key ?m' f) of None \<Rightarrow> Inl KeyNotFoundError | Some v \<Rightarrow> Inr v)" for f
    using eng.get_kv [OF s'(3), of "elem_key key ?m' f"] by simp
  have "kv_of s' (elem_key key ?m' (hc_field c)) = None"
    using assms(6,8) differ [of "hc_field c" "hc_field c"] by (auto simp: s'(2))
  moreover have "kv_of s' (elem_key key ?m' (hc_field d)) = Some (string_to_bytes (hc_value d))" by (simp add: s'(2))
  ultimately have "db_get (elem_key key ?m' (hc_field c)) s' = Inl KeyNotFoundError"
    "db_get (elem_key key ?m' (hc_field d)) s' = Inr (string_to_bytes (hc_value d))" unfolding get by simp_all
  then show ?thesis using s'(1)
    by (intro exI [of _ s']) (simp add: rds_hget_def find internal_keys)
qed

text \<open>
  C12: Two clients that add a new field each, not the same one, to a hash that is there and has a field, in the order in which both read the
  metadata before either writes them (the first client runs to its end between the first and the second engine
  call of the other): both calls return true and both fields are stored, but the count goes up by one
  only. (The bytes fit in the active file and the count does not wrap.) The state holds no hash any more: no map has as
  many fields as the metadata say.
\<close>

theorem hset_race_undercounts:
  assumes "hash_at s key h" "dom h \<noteq> {}" "call_ok key c" "call_ok key d"
    and "ready_for (calls_cost key [c, d]) s" "card (dom h) + 1 < 2 ^ 32"
    and "h (hc_field c) = None" "h (hc_field d) = None" "hc_field c \<noteq> hc_field d"
  shows "\<exists>s' m. hset_run both_read_first (hset_calls [c, d]) s = ([(c, Returned (Inr True)), (d, Returned (Inr True))], s')
    \<and> kv_of s' (string_to_bytes key) = Some (RedisMetadata_encode m) \<and> unat (md_size m) = card (dom h) + 1
    \<and> card {f. kv_of s' (elem_key key m f) \<noteq> None} = card (dom h) + 2 \<and> (\<forall>h'. \<not> hash_at s' key h')"
proof -
  obtain m where m: "plain_hash m" "hash_stored key m (dom h) s" "kv_of s (string_to_bytes key) = Some (RedisMetadata_encode m)"
    "unat (md_size m) = card (dom h)" using hash_at_stored [OF assms(1,2)] by blast
  have fin: "finite (dom h)" and F: "dom h = {f. kv_of s (elem_key key m f) \<noteq> None}"
    using m(2) unfolding hash_stored_def by blast+
  have none: "kv_of s (elem_key key m f) = None" if "h f = None" for f
  proof -
    have "f \<notin> dom h" using that by (simp add: domIff)
    then show ?thesis unfolding F by simp
  qed
  have md: "metadata_is clock HASH s key m" for clock by (rule stored_metadata [OF m(1,3)])
  let ?m = "m\<lparr>md_size := md_size m + 1\<rparr>"
  have r0: "ready_for (calls_cost key [c, d] + 0) s" and differ: "elem_key key m (hc_field c) \<noteq> elem_key key m (hc_field d)"
    using assms(5,9) by simp_all
  obtain s' where s': "hset_run both_read_first (hset_calls [c, d]) s = ([(c, Returned (Inr True)), (d, Returned (Inr True))], s')"
    "kv_of s' = (kv_of s)(elem_key key m (hc_field c) \<mapsto> string_to_bytes (hc_value c),
       elem_key key m (hc_field d) \<mapsto> string_to_bytes (hc_value d), string_to_bytes key \<mapsto> RedisMetadata_encode ?m)" "ready_for 0 s'"
    by (rule both_read_first_run [OF assms(3,4) r0 md md none [OF assms(7)] none [OF assms(8)] differ])
  have size: "unat (md_size ?m) = card (dom h) + 1" using unat_u32_plus_1 [of "md_size m"] assms(6) m(4) by simp
  have key: "kv_of s' (string_to_bytes key) = Some (RedisMetadata_encode ?m)" by (simp add: s'(2))
  have fields: "{f. kv_of s' (elem_key key ?m f) \<noteq> None} = insert (hc_field c) (insert (hc_field d) (dom h))"
    unfolding F by (auto simp: s'(2))
  have card: "card {f. kv_of s' (elem_key key ?m f) \<noteq> None} = card (dom h) + 2"
    unfolding fields using fin assms(7-9) by (simp add: domIff)
  have "\<not> hash_at s' key h'" for h'
  proof
    assume h': "hash_at s' key h'"
    then obtain m2 where m2: "RedisMetadata_encode ?m = RedisMetadata_encode m2" "md_ok m2" "unat (md_size m2) = card (dom h')"
      "\<forall>f. kv_of s' (elem_key key m2 f) = map_option string_to_bytes (h' f)"
      by (auto simp: hash_at_def map_at_def key)
    have "md_ok ?m" using m(1) by (simp add: plain_hash_def)
    then have "m2 = ?m" using decode_encode_metadata m2(1,2) by (metis sum.inject(2))
    then have "dom h' = {f. kv_of s' (elem_key key ?m f) \<noteq> None}" using m2(4) by (auto simp: domIff)
    then have "card (dom h') = card (dom h) + 2" using card by (simp only:)
    then show False using m2(3) size \<open>m2 = ?m\<close> by simp
  qed
  then show ?thesis using s'(1) key size card by blast
qed

section \<open>Witnesses\<close>

definition wit_call :: "u64 \<Rightarrow> string \<Rightarrow> hset_call" where
  "wit_call now f = \<lparr>hc_clock = (\<lambda>_. now), hc_key = ''h'', hc_field = f, hc_value = ''w''\<rparr>"

lemma wit_call_ok: "call_ok ''h'' (wit_call now [c])"
  using wit_sizes(1) by (simp add: call_ok_def wit_call_def MAX_RECORD_SIZE_def)

lemma wit_cost: "calls_cost ''h'' [wit_call a ''x'', wit_call b ''y''] = 198"
  by (simp add: calls_cost_def wit_call_def op_bytes_def)

theorem hset_race_keeps_witness:
  "\<forall>sched. \<exists>s ts s'. hash_at s ''h'' [''f'' \<mapsto> ''v'']
    \<and> hset_run sched (hset_calls [wit_call 7 ''x'', wit_call 7 ''y'']) s = (ts, s')
    \<and> (\<exists>w. rds_hget (\<lambda>_. 8) ''h'' ''f'' s' = (Inr w, s'))"
proof (intro allI)
  fix sched
  obtain s where s: "hash_at s ''h'' [''f'' \<mapsto> ''v'']" "ready_for 600 s" using wit_hash by blast
  have r: "ready_for (calls_cost ''h'' [wit_call 7 ''x'', wit_call 7 ''y'']) s"
    unfolding wit_cost by (rule eng.ready_less [OF s(2)]) simp
  obtain ts s' where run: "hset_run sched (hset_calls [wit_call 7 ''x'', wit_call 7 ''y'']) s = (ts, s')" by fastforce
  have "\<exists>w. rds_hget (\<lambda>_. 8) ''h'' ''f'' s' = (Inr w, s')"
    using hset_race_keeps [OF s(1) _ _ _ r _ run] wit_call_ok by simp
  then show "\<exists>s ts s'. hash_at s ''h'' [''f'' \<mapsto> ''v'']
    \<and> hset_run sched (hset_calls [wit_call 7 ''x'', wit_call 7 ''y'']) s = (ts, s')
    \<and> (\<exists>w. rds_hget (\<lambda>_. 8) ''h'' ''f'' s' = (Inr w, s'))" using s(1) run by blast
qed

theorem hset_race_loses_field_witness:
  "\<exists>s s'. hset_run both_read_first (hset_calls [wit_call 7 ''x'', wit_call 9 ''y'']) s =
      ([(wit_call 7 ''x'', Returned (Inr True)), (wit_call 9 ''y'', Returned (Inr True))], s')
    \<and> rds_hget (\<lambda>_. 10) ''h'' ''x'' s' = (Inl KeyNotFoundError, s')"
proof -
  obtain s where s: "ready_for 900 s" "kv_of s = Map.empty" using wit_ready by blast
  have r: "ready_for (calls_cost ''h'' [wit_call 7 ''x'', wit_call 9 ''y'']) s"
    unfolding wit_cost by (rule eng.ready_less [OF s(1)]) simp
  obtain s' where "hset_run both_read_first (hset_calls [wit_call 7 ''x'', wit_call 9 ''y'']) s =
      ([(wit_call 7 ''x'', Returned (Inr True)), (wit_call 9 ''y'', Returned (Inr True))], s')"
    "\<forall>clock. rds_hget clock ''h'' (hc_field (wit_call 7 ''x'')) s' = (Inl KeyNotFoundError, s')"
    using hset_race_loses_field [OF _ wit_call_ok wit_call_ok r] s(2) by (auto simp: wit_call_def)
  then show ?thesis by (auto simp: wit_call_def)
qed

theorem hset_race_undercounts_witness:
  "\<exists>s s'. hash_at s ''h'' [''f'' \<mapsto> ''v''] \<and> (\<forall>h'. \<not> hash_at s' ''h'' h') \<and>
    hset_run both_read_first (hset_calls [wit_call 7 ''x'', wit_call 9 ''y'']) s =
      ([(wit_call 7 ''x'', Returned (Inr True)), (wit_call 9 ''y'', Returned (Inr True))], s')"
proof -
  obtain s where s: "hash_at s ''h'' [''f'' \<mapsto> ''v'']" "ready_for 600 s" using wit_hash by blast
  have r: "ready_for (calls_cost ''h'' [wit_call 7 ''x'', wit_call 9 ''y'']) s"
    unfolding wit_cost by (rule eng.ready_less [OF s(2)]) simp
  show ?thesis
    using hset_race_undercounts [OF s(1) _ wit_call_ok wit_call_ok r] s(1) by (auto simp: wit_call_def)
qed

end
