(* ===== verification/Strings.thy ===== *)
theory Strings
  imports Text
begin

text \<open>
  The string operations of the C++ library that the servers use: \<open>find\<close>, \<open>substr\<close>, \<open>getline\<close> with a
  separator, \<open>tolower\<close> of the C locale, and the construction of a \<open>std::string\<close> from a C string, which
  ends at the first NUL.
\<close>

section \<open>Definitions\<close>

fun find_in :: "string \<Rightarrow> string \<Rightarrow> nat option" where
  "find_in p [] = (if p = [] then Some 0 else None)"
| "find_in p (c # s) = (if take (length p) (c # s) = p then Some 0 else map_option Suc (find_in p s))"

text \<open>\<open>s.find(p, from)\<close>; \<open>npos\<close> is \<open>None\<close>.\<close>

definition find_from :: "string \<Rightarrow> string \<Rightarrow> nat \<Rightarrow> nat option" where
  "find_from p s from = (if from \<le> length s then map_option ((+) from) (find_in p (drop from s)) else None)"

definition substr :: "string \<Rightarrow> nat \<Rightarrow> nat \<Rightarrow> string res" where
  "substr s pos n = (if length s < pos then 
       Inl (StdException (''basic_string::substr: __pos (which is '' @ show_nat pos @ '') > this->size() (which is '' @ show_nat (length s) @ '')''))
     else Inr (take n (drop pos s)))"

text \<open>\<open>std::getline(stream, line, d)\<close>: the line and what remains, unless the stream is at its end.\<close>

definition getline :: "char \<Rightarrow> string \<Rightarrow> (string \<times> string) option" where
  "getline d s = (if s = [] then None else Some (takeWhile (\<lambda>c. c \<noteq> d) s, drop 1 (dropWhile (\<lambda>c. c \<noteq> d) s)))"

definition tolower :: "char \<Rightarrow> char" where
  "tolower c = (let n = (of_char c :: nat) in if 65 \<le> n \<and> n \<le> 90 then char_of (n + 32) else c)"

definition c_string :: "string \<Rightarrow> string" where
  "c_string buffer = takeWhile (\<lambda>c. c \<noteq> CHR 0x00) buffer"

text \<open>
  \<open>recv(socket, buffer, sizeof(buffer) - 1, 0)\<close> with the buffer of 8192 bytes of the servers: of the bytes that
  have arrived it gives at most 8191.
\<close>

definition RECV_SIZE :: nat where "RECV_SIZE = 8191"

definition recv :: "string \<Rightarrow> string" where
  "recv arrived = take RECV_SIZE arrived"

lemma recv_whole [simp]: "length arrived \<le> RECV_SIZE \<Longrightarrow> recv arrived = arrived"
  by (simp add: recv_def)

definition CRLF :: string where "CRLF = [CHR 0x0D, CHR 0x0A]"

definition quoted :: "string \<Rightarrow> string" where "quoted s = CHR 0x22 # s @ [CHR 0x22]"

section \<open>Lemmas\<close>

lemma length_CRLF [simp]: "length CRLF = 2"
  by (simp add: CRLF_def)

lemma find_in_CRLF:
  "CHR 0x0D \<notin> set s \<Longrightarrow> find_in CRLF (s @ CRLF @ t) = Some (length s)"
  by (induction s) (auto simp: CRLF_def)

lemma find_in_CRLF_None: "CHR 0x0D \<notin> set s \<Longrightarrow> find_in CRLF s = None"
  by (induction s) (auto simp: CRLF_def)

lemma find_in_CRLF_half: "CHR 0x0D \<notin> set s \<Longrightarrow> find_in CRLF (s @ [CHR 0x0D]) = None"
  by (induction s) (auto simp: CRLF_def)

lemma getline_shorter: "getline d s = Some (l, r) \<Longrightarrow> length r < length s"
  using length_dropWhile_le [of "\<lambda>c. c \<noteq> d" s] by (cases s) (auto simp: getline_def)

text \<open>All the lines: \<open>while (std::getline(stream, line, d))\<close>.\<close>

function getlines :: "char \<Rightarrow> string \<Rightarrow> string list" where
  "getlines d s = (case getline d s of None \<Rightarrow> [] | Some (l, r) \<Rightarrow> l # getlines d r)"
  by pat_completeness auto
termination by (relation "measure (length \<circ> snd)") (auto dest: getline_shorter)

declare getlines.simps [simp del]

lemma getlines_Nil [simp]: "getlines d [] = []"
  by (subst getlines.simps) (simp add: getline_def)

lemma getlines_last: "d \<notin> set l \<Longrightarrow> l \<noteq> [] \<Longrightarrow> getlines d l = [l]"
proof -
  assume l: "d \<notin> set l" "l \<noteq> []"
  then have "takeWhile (\<lambda>c. c \<noteq> d) l = l" "dropWhile (\<lambda>c. c \<noteq> d) l = []"
    by (auto simp: takeWhile_eq_all_conv)
  then have "getline d l = Some (l, [])" unfolding getline_def using l(2) by (simp only: drop_Nil if_False)
  then show ?thesis by (subst getlines.simps) simp
qed

lemma getlines_line: "d \<notin> set l \<Longrightarrow> getlines d (l @ d # r) = l # getlines d r"
  by (subst getlines.simps) (auto simp: getline_def takeWhile_tail dropWhile_append)

lemma c_string_id: "CHR 0x00 \<notin> set b \<Longrightarrow> c_string b = b"
  by (auto simp: c_string_def takeWhile_eq_all_conv)

lemma show_nat_no_CR: "CHR 0x0D \<notin> set (show_nat n)"
  using show_nat_digits by fastforce

section \<open>Looking for quoted names\<close>

definition plain :: "string \<Rightarrow> bool" where
  "plain s \<longleftrightarrow> CHR 0x22 \<notin> set s"

lemma length_quoted [simp]: "length (quoted s) = length s + 2"
  by (simp add: quoted_def)

lemma find_in_step: "take (length p) (c # s) \<noteq> p \<Longrightarrow> find_in p (c # s) = map_option Suc (find_in p s)"
  by simp

lemma find_in_skip: "CHR 0x22 \<notin> set x \<Longrightarrow> find_in (quoted p) (x @ y) = map_option ((+) (length x)) (find_in (quoted p) y)"
proof (induction x)
  case Nil
  then show ?case by (cases "find_in (quoted p) y") simp_all
next
  case (Cons c x)
  have "take (length (quoted p)) (c # x @ y) \<noteq> quoted p" using Cons.prems by (auto simp: quoted_def)
  then have "find_in (quoted p) ((c # x) @ y) = map_option Suc (find_in (quoted p) (x @ y))"
    using find_in_step by (simp only: append_Cons)
  then show ?case using Cons by (cases "find_in (quoted p) y") simp_all
qed

lemma find_in_here: "find_in (quoted p) (quoted p @ y) = Some 0"
  by (simp add: quoted_def)

lemma takeWhile_quote: "plain s \<Longrightarrow> takeWhile (\<lambda>c. c \<noteq> CHR 0x22) (s @ CHR 0x22 # rest) = s"
  by (induction s) (auto simp: plain_def)

lemma take_quoted:
  assumes "plain s" "plain p" "s \<noteq> p"
  shows "take (length (quoted p)) (quoted s @ rest) \<noteq> quoted p"
proof
  assume "take (length (quoted p)) (quoted s @ rest) = quoted p"
  then obtain t where "quoted s @ rest = quoted p @ t" by (metis append_take_drop_id)
  then have "s @ CHR 0x22 # rest = p @ CHR 0x22 # t" by (simp add: quoted_def)
  then have "s = p" using takeWhile_quote assms(1,2) by metis
  then show False using assms(3) by simp
qed

lemma find_in_other:
  assumes "plain s" "plain p" "s \<noteq> p" "p \<noteq> []" "rest = [] \<or> hd rest \<noteq> hd p"
  shows "find_in (quoted p) (quoted s @ rest) = map_option ((+) (length (quoted s))) (find_in (quoted p) rest)"
proof -
  have q: "quoted s @ rest = CHR 0x22 # (s @ CHR 0x22 # rest)" by (simp add: quoted_def)
  have "take (length (quoted p)) (CHR 0x22 # rest) \<noteq> quoted p"
    using assms(4,5) by (cases p; cases rest) (auto simp: quoted_def)
  note e = find_in_step [OF this]
  have s: "find_in (quoted p) (s @ CHR 0x22 # rest) = map_option ((+) (length s)) (find_in (quoted p) (CHR 0x22 # rest))"
    by (rule find_in_skip) (use assms(1) in \<open>simp add: plain_def\<close>)
  note o = find_in_step [OF take_quoted [OF assms(1-3), of rest, unfolded q]]
  show ?thesis unfolding q o s e by (cases "find_in (quoted p) rest") simp_all
qed

lemma find_in_char: "c \<notin> set x \<Longrightarrow> find_in [c] (x @ c # y) = Some (length x)"
  by (induction x) auto

lemma find_from_char:
  "c \<notin> set x \<Longrightarrow> n = length pre \<Longrightarrow> find_from [c] (pre @ x @ c # y) n = Some (length pre + length x)"
  using find_in_char [of c x y] by (simp add: find_from_def)

lemma find_from_0: "find_from p s 0 = find_in p s"
  by (cases "find_in p s") (simp_all add: find_from_def)

lemma slice: "n = length a \<Longrightarrow> take (length b) (drop n (a @ b @ c)) = b"
  by simp

text \<open>A text in which a quoted name does not start.\<close>

definition clear :: "string \<Rightarrow> string \<Rightarrow> bool" where
  "clear p x \<longleftrightarrow> (\<forall>y. find_in (quoted p) (x @ y) = map_option ((+) (length x)) (find_in (quoted p) y))"

lemma shift_twice: "map_option ((+) a) (map_option ((+) b) z) = map_option ((+) (a + b :: nat)) z"
  by (cases z) simp_all

lemma clear_text: "CHR 0x22 \<notin> set x \<Longrightarrow> clear p x"
  by (simp add: clear_def find_in_skip)

lemma clear_append: "clear p x \<Longrightarrow> clear p x' \<Longrightarrow> clear p (x @ x')"
  by (simp add: clear_def shift_twice)

lemma clear_quoted:
  assumes "clear p x" "plain s" "s \<noteq> p" "plain p" "p \<noteq> []" "x \<noteq> []" "hd x \<noteq> hd p"
  shows "clear p (quoted s @ x)"
proof -
  have "find_in (quoted p) (quoted s @ (x @ y)) = map_option ((+) (length (quoted s))) (find_in (quoted p) (x @ y))" for y
    by (rule find_in_other) (use assms in auto)
  then show ?thesis using assms(1) by (simp add: clear_def shift_twice)
qed

lemma clear_found: "clear p x \<Longrightarrow> find_in (quoted p) (x @ quoted p @ y) = Some (length x)"
  by (simp add: clear_def find_in_here del: append_assoc)

end
