(* ===== verification/Json.thy ===== *)
theory Json
  imports Db_Backup Redis_Data Strings
begin

text \<open>
  The parts of JSON texts that the RPC server and the HTTP server print with the same code: lists
  with commas and the statistics of the database.
\<close>

section \<open>Definitions\<close>

text \<open>The elements, with commas between them.\<close>

fun commas :: "string list \<Rightarrow> string" where
  "commas [] = []"
| "commas [x] = x"
| "commas (x # y # xs) = x @ '','' @ commas (y # xs)"

definition stat_text :: "stat_info \<Rightarrow> string" where
  "stat_text st =
     ''{'' @ quoted ''key_num'' @ '':'' @ show_nat (unat (st_key_num st)) @ '',''
     @ quoted ''data_file_num'' @ '':'' @ show_nat (unat (st_data_file_num st)) @ '',''
     @ quoted ''reclaimable_size'' @ '':'' @ show_int (st_reclaimable_size st) @ '',''
     @ quoted ''disk_size'' @ '':'' @ show_int (st_disk_size st) @ ''}''"

end
