(* ===== verification/Redis_Server.thy ===== *)
theory Redis_Server
  imports Redis_Data Strings
begin

text \<open>
  The Redis server (\<open>src/redis_server.cpp\<close>): replies and their wire format, the parser of requests,
  the command table with its handlers, and the loop over what a connection receives. A connection
  is the list of the buffers that \<open>recv\<close> returns (at most 8191 bytes each) and the list of the
  texts that it sends. The clock gives the times that the calls of a command take; the two
  conversions between numbers with a point and text are parameters of the model.
\<close>

section \<open>Replies\<close>

datatype redis_response_type = SIMPLE_STRING | ERROR | INTEGER | BULK_STRING | ARRAY

datatype redis_response =
  RedisResponse (rr_type: redis_response_type) (rr_value: string) (rr_integer: u64) (rr_array: "redis_response list")

definition simple_string :: "string \<Rightarrow> redis_response" where
  "simple_string str = RedisResponse SIMPLE_STRING str 0 []"

definition error_response :: "string \<Rightarrow> redis_response" where
  "error_response msg = RedisResponse ERROR msg 0 []"

definition integer_response :: "u64 \<Rightarrow> redis_response" where
  "integer_response value = RedisResponse INTEGER [] value []"

definition bulk_string :: "string \<Rightarrow> redis_response" where
  "bulk_string str = RedisResponse BULK_STRING str 0 []"

definition null_bulk_string :: redis_response where
  "null_bulk_string = RedisResponse BULK_STRING [] (- 1) []"

definition array_response :: "redis_response list \<Rightarrow> redis_response" where
  "array_response arr = RedisResponse ARRAY [] 0 arr"

fun serialize :: "redis_response \<Rightarrow> string" where
  "serialize (RedisResponse t value i arr) =
     (case t of
        SIMPLE_STRING \<Rightarrow> ''+'' @ value @ CRLF
      | ERROR \<Rightarrow> ''-'' @ value @ CRLF
      | INTEGER \<Rightarrow> '':'' @ show_int (sint i) @ CRLF
      | BULK_STRING \<Rightarrow>
          if i = - 1 then ''$-1'' @ CRLF else ''$'' @ show_nat (length value) @ CRLF @ value @ CRLF
      | ARRAY \<Rightarrow> ''*'' @ show_nat (length arr) @ CRLF @ concat (map serialize arr))"

section \<open>The parser\<close>

text \<open>
  A position moves by a length that may be negative: it is computed in 64 bits. The end of an argument is the sum
  \<open>offset + str_length + 2\<close>, and \<open>str_length + 2\<close> is computed as an \<open>int\<close> when the position moves.
\<close>

definition moved :: "nat \<Rightarrow> int \<Rightarrow> nat" where
  "moved offset n = unat (word_of_int (int offset + n) :: u64)"

fun parse_args :: "nat \<Rightarrow> string \<Rightarrow> nat \<Rightarrow> string list \<Rightarrow> string list res \<times> nat" where
  "parse_args 0 data offset args = (Inr args, offset)"
| "parse_args (Suc n) data offset args =
     (if offset \<ge> length data \<or> data ! offset \<noteq> CHR ''$'' then (Inr [], offset)
      else (case find_from CRLF data (offset + 1) of
        None \<Rightarrow> (Inr [], offset + 1)
      | Some newline_pos \<Rightarrow>
          (case stoi (take (newline_pos - (offset + 1)) (drop (offset + 1) data)) of
             Inl e \<Rightarrow> (Inl e, offset + 1)
           | Inr str_length \<Rightarrow>
               let offset = newline_pos + 2 in
               if moved offset (str_length + 2) > length data then (Inr [], offset)
               else (case substr data offset (unat (word_of_int str_length :: u64)) of
                  Inl e \<Rightarrow> (Inl e, offset)
                | Inr arg \<Rightarrow>
                    if str_length + 2 \<ge> 2 ^ 31 then (Inl UndefinedBehaviour, offset)
                    else parse_args n data (moved offset (str_length + 2)) (args @ [arg])))))"

definition parse_single_command :: "string \<Rightarrow> nat \<Rightarrow> string list res \<times> nat" where
  "parse_single_command data offset =
     (if offset \<ge> length data \<or> data ! offset \<noteq> CHR ''*'' then (Inr [], offset)
      else (case find_from CRLF data (offset + 1) of
        None \<Rightarrow> (Inr [], offset + 1)
      | Some newline_pos \<Rightarrow>
          (case stoi (take (newline_pos - (offset + 1)) (drop (offset + 1) data)) of
             Inl e \<Rightarrow> (Inl e, offset + 1)
           | Inr arg_count \<Rightarrow> parse_args (nat arg_count) data (newline_pos + 2) [])))"

text \<open>\<open>parse_commands\<close>; with fuel, since a position may move back.\<close>

fun parse_commands :: "nat \<Rightarrow> string \<Rightarrow> nat \<Rightarrow> string list list res" where
  "parse_commands 0 data offset = Inl OutOfFuel"
| "parse_commands (Suc n) data offset =
     (if \<not> offset < length data then Inr []
      else (case parse_single_command data offset of
        (Inl e, _) \<Rightarrow> Inl e
      | (Inr args, offset) \<Rightarrow>
          if args = [] then Inr [] else map_sum id ((#) args) (parse_commands n data offset)))"

section \<open>The handlers\<close>

text \<open>\<open>std::stod\<close> and \<open>std::to_string(double)\<close>, on bit patterns.\<close>

datatype stod_error = InvalidArgument | OutOfRange

record float_lib =
  fl_stod :: "string \<Rightarrow> stod_error + double_bits"
  fl_to_string :: "double_bits \<Rightarrow> string"

type_synonym clocks = "nat \<Rightarrow> nat \<Rightarrow> u64"
type_synonym handler = "clocks \<Rightarrow> string list \<Rightarrow> rds \<Rightarrow> redis_response res \<times> rds"

definition wrong_arguments :: "string \<Rightarrow> rds \<Rightarrow> redis_response res \<times> rds" where
  "wrong_arguments name s =
     (Inr (error_response (''ERR wrong number of arguments for '' @ [CHR 0x27] @ name @ [CHR 0x27] @ '' command'')), s)"

text \<open>\<open>catch (const KeyNotFoundError&)\<close> and \<open>catch (const std::exception&)\<close>.\<close>

definition catch_null :: "redis_response res \<times> rds \<Rightarrow> redis_response res \<times> rds" where
  "catch_null m = catch_not_found m (\<lambda>s. (Inr null_bulk_string, s))"

definition catch_std :: "redis_response res \<times> rds \<Rightarrow> redis_response res \<times> rds" where
  "catch_std m =
     (case m of
        (Inl e, s) \<Rightarrow> (if catchable e then (Inr (error_response (''ERR '' @ exn_what e)), s) else (Inl e, s))
      | (Inr r, s) \<Rightarrow> (Inr r, s))"

definition int_of_bool :: "bool \<Rightarrow> redis_response" where
  "int_of_bool b = integer_response (if b then 1 else 0)"

definition handle_set :: handler where
  "handle_set clock args s =
     (if length args < 3 then wrong_arguments ''set'' s
      else catch_std (bind_res (rds_set (clock 0) (args ! 1) (args ! 2) 0 s)
             (\<lambda>_ s. (Inr (simple_string ''OK''), s))))"

definition handle_get :: handler where
  "handle_get clock args s =
     (if length args \<noteq> 2 then wrong_arguments ''get'' s
      else catch_std (catch_null (bind_res (rds_get (clock 0) (args ! 1) s, s)
             (\<lambda>value s. (Inr (bulk_string value), s)))))"

fun del_loop :: "string list \<Rightarrow> u64 \<Rightarrow> rds \<Rightarrow> u64 res \<times> rds" where
  "del_loop [] deleted_count s = (Inr deleted_count, s)"
| "del_loop (key # keys) deleted_count s =
     bind_res (rds_del key s)
       (\<lambda>deleted s. del_loop keys (if deleted then deleted_count + 1 else deleted_count) s)"

definition handle_del :: handler where
  "handle_del clock args s =
     (if length args < 2 then wrong_arguments ''del'' s
      else bind_res (del_loop (drop 1 args) 0 s) (\<lambda>n s. (Inr (integer_response n), s)))"

definition handle_exists :: handler where
  "handle_exists clock args s =
     (if length args \<noteq> 2 then wrong_arguments ''exists'' s
      else bind_res (rds_exists (args ! 1) s) (\<lambda>b s. (Inr (int_of_bool b), s)))"

definition type_name :: "redis_data_type \<Rightarrow> string" where
  "type_name t =
     (case t of STRING \<Rightarrow> ''string'' | HASH \<Rightarrow> ''hash'' | SET \<Rightarrow> ''set'' | LIST \<Rightarrow> ''list'' | ZSET \<Rightarrow> ''zset''
      | OTHER_DATA_TYPE b \<Rightarrow> [])"

definition handle_type :: handler where
  "handle_type clock args s =
     (if length args \<noteq> 2 then wrong_arguments ''type'' s
      else catch_std (catch_not_found
             (bind_res (rds_type (args ! 1) s, s) (\<lambda>t s. (Inr (simple_string (type_name t)), s)))
             (\<lambda>s. (Inr (simple_string ''none''), s))))"

text \<open>The pairs of a field and a value that follow the key; call \<open>n\<close> of the command.\<close>

fun hset_loop :: "clocks \<Rightarrow> nat \<Rightarrow> string \<Rightarrow> string list \<Rightarrow> u64 \<Rightarrow> rds \<Rightarrow> u64 res \<times> rds" where
  "hset_loop clock n key (field # value # rest) new_fields s =
     bind_res (rds_hset (clock n) key field value s)
       (\<lambda>is_new s. hset_loop clock (n + 1) key rest (if is_new then new_fields + 1 else new_fields) s)"
| "hset_loop clock n key rest new_fields s = (Inr new_fields, s)"

definition handle_hset :: handler where
  "handle_hset clock args s =
     (if length args < 4 \<or> odd (length args) then wrong_arguments ''hset'' s
      else catch_std (bind_res (hset_loop clock 0 (args ! 1) (drop 2 args) 0 s)
             (\<lambda>n s. (Inr (integer_response n), s))))"

definition handle_hget :: handler where
  "handle_hget clock args s =
     (if length args \<noteq> 3 then wrong_arguments ''hget'' s
      else catch_std (catch_null (bind_res (rds_hget (clock 0) (args ! 1) (args ! 2) s)
             (\<lambda>value s. (Inr (bulk_string value), s)))))"

text \<open>A command with a key and an argument whose result is a truth value.\<close>

definition handle_bool ::
    "string \<Rightarrow> ((nat \<Rightarrow> u64) \<Rightarrow> string \<Rightarrow> string \<Rightarrow> rds \<Rightarrow> bool res \<times> rds) \<Rightarrow> handler" where
  "handle_bool name f clock args s =
     (if length args \<noteq> 3 then wrong_arguments name s
      else catch_std (bind_res (f (clock 0) (args ! 1) (args ! 2) s) (\<lambda>b s. (Inr (int_of_bool b), s))))"

definition handle_hdel :: handler where "handle_hdel = handle_bool ''hdel'' rds_hdel"
definition handle_sadd :: handler where "handle_sadd = handle_bool ''sadd'' rds_sadd"
definition handle_sismember :: handler where "handle_sismember = handle_bool ''sismember'' rds_sismember"
definition handle_srem :: handler where "handle_srem = handle_bool ''srem'' rds_srem"

definition handle_lpush :: handler where
  "handle_lpush clock args s =
     (if length args \<noteq> 3 then wrong_arguments ''lpush'' s
      else catch_std (bind_res (rds_lpush (clock 0) (args ! 1) (args ! 2) s)
             (\<lambda>n s. (Inr (integer_response (ucast n)), s))))"

definition handle_rpush :: handler where
  "handle_rpush clock args s =
     (if length args \<noteq> 3 then wrong_arguments ''rpush'' s
      else catch_std (bind_res (rds_rpush (clock 0) (args ! 1) (args ! 2) s)
             (\<lambda>n s. (Inr (integer_response (ucast n)), s))))"

definition handle_lpop :: handler where
  "handle_lpop clock args s =
     (if length args \<noteq> 2 then wrong_arguments ''lpop'' s
      else catch_std (catch_null (bind_res (rds_lpop (clock 0) (args ! 1) s)
             (\<lambda>value s. (Inr (bulk_string value), s)))))"

definition handle_rpop :: handler where
  "handle_rpop clock args s =
     (if length args \<noteq> 2 then wrong_arguments ''rpop'' s
      else catch_std (catch_null (bind_res (rds_rpop (clock 0) (args ! 1) s)
             (\<lambda>value s. (Inr (bulk_string value), s)))))"

definition handle_zadd :: "float_lib \<Rightarrow> handler" where
  "handle_zadd fl clock args s =
     (if length args \<noteq> 4 then wrong_arguments ''zadd'' s
      else (case fl_stod fl (args ! 2) of
        Inl InvalidArgument \<Rightarrow> (Inr (error_response ''ERR value is not a valid float''), s)
      | Inl OutOfRange \<Rightarrow> (Inr (error_response ''ERR stod''), s)
      | Inr score \<Rightarrow>
          catch_std (bind_res (rds_zadd (clock 0) (args ! 1) score (args ! 3) s)
            (\<lambda>b s. (Inr (int_of_bool b), s)))))"

definition handle_zscore :: "float_lib \<Rightarrow> handler" where
  "handle_zscore fl clock args s =
     (if length args \<noteq> 3 then wrong_arguments ''zscore'' s
      else catch_std (catch_null (bind_res (rds_zscore (clock 0) (args ! 1) (args ! 2) s)
             (\<lambda>score s. (Inr (bulk_string (fl_to_string fl score)), s)))))"

definition handle_ping :: handler where
  "handle_ping clock args s =
     (if length args = 1 then (Inr (simple_string ''PONG''), s)
      else if length args = 2 then (Inr (bulk_string (args ! 1)), s)
      else wrong_arguments ''ping'' s)"

definition handle_quit :: handler where
  "handle_quit clock args s = (Inr (simple_string ''OK''), s)"

section \<open>The command table\<close>

type_synonym handlers = "string \<rightharpoonup> handler"

definition register_command :: "string \<Rightarrow> handler \<Rightarrow> handlers \<Rightarrow> handlers" where
  "register_command command h hs = hs(map tolower command \<mapsto> h)"

definition setup_default_handlers :: "float_lib \<Rightarrow> handlers" where
  "setup_default_handlers fl =
     fold (\<lambda>(command, h). register_command command h)
       [(''SET'', handle_set), (''GET'', handle_get), (''DEL'', handle_del), (''EXISTS'', handle_exists),
        (''TYPE'', handle_type), (''HSET'', handle_hset), (''HGET'', handle_hget), (''HDEL'', handle_hdel),
        (''SADD'', handle_sadd), (''SISMEMBER'', handle_sismember), (''SREM'', handle_srem),
        (''LPUSH'', handle_lpush), (''RPUSH'', handle_rpush), (''LPOP'', handle_lpop), (''RPOP'', handle_rpop),
        (''ZADD'', handle_zadd fl), (''ZSCORE'', handle_zscore fl), (''PING'', handle_ping), (''QUIT'', handle_quit)]
       Map.empty"

section \<open>Connections\<close>

definition run_command :: "handlers \<Rightarrow> clocks \<Rightarrow> string list \<Rightarrow> rds \<Rightarrow> redis_response res \<times> rds" where
  "run_command hs clock args s =
     (let cmd = map tolower (hd args) in
      case hs cmd of
        Some h \<Rightarrow> h clock args s
      | None \<Rightarrow> (Inr (error_response (''ERR unknown command '' @ [CHR 0x27] @ cmd @ [CHR 0x27])), s))"

text \<open>
  The loop over the data that has come in: how it ends (at a position, with \<open>QUIT\<close>, or with an
  exception), the number of commands so far, the state, and what was sent.
\<close>

datatype loop_end = LoopBreak nat | LoopQuit | LoopThrow exn

fun process_data :: "nat \<Rightarrow> handlers \<Rightarrow> (nat \<Rightarrow> clocks) \<Rightarrow> nat \<Rightarrow> string \<Rightarrow> nat \<Rightarrow> rds
    \<Rightarrow> loop_end \<times> nat \<times> rds \<times> string list" where
  "process_data 0 hs clock j data processed s = (LoopThrow OutOfFuel, j, s, [])"
| "process_data (Suc fuel) hs clock j data processed s =
     (if \<not> processed < length data then (LoopBreak processed, j, s, [])
      else if data ! processed = CHR ''*'' then
        (case parse_single_command data processed of
           (Inl e, _) \<Rightarrow> (LoopThrow e, j, s, [])
         | (Inr args, offset) \<Rightarrow>
             if args = [] then (LoopBreak offset, j, s, [])
             else (case run_command hs (clock j) args s of
                (Inl e, s) \<Rightarrow> (LoopThrow e, j + 1, s, [])
              | (Inr response, s) \<Rightarrow>
                  if map tolower (hd args) = ''quit'' then (LoopQuit, j + 1, s, [serialize response])
                  else if offset = processed then (LoopBreak offset, j + 1, s, [serialize response])
                  else (case process_data fuel hs clock (j + 1) data offset s of
                     (e, j, s, out) \<Rightarrow> (e, j, s, serialize response # out))))
      else process_data fuel hs clock j data (processed + 1) s)"

text \<open>
  A connection waits for more with the data not yet processed, or is closed; \<open>Stuck\<close> where the
  loop does not come to an end, or where the program has no defined behaviour.
\<close>

datatype conn_status = Open string | Closed | Stuck exn

definition handle_buffer :: "nat \<Rightarrow> handlers \<Rightarrow> (nat \<Rightarrow> clocks) \<Rightarrow> nat \<Rightarrow> string \<Rightarrow> string \<Rightarrow> rds
    \<Rightarrow> conn_status \<times> nat \<times> rds \<times> string list" where
  "handle_buffer fuel hs clock j accumulated buffer s =
     (let data = accumulated @ c_string buffer in
      case process_data fuel hs clock j data 0 s of
        (LoopBreak processed, j, s, out) \<Rightarrow> (Open (drop processed data), j, s, out)
      | (LoopQuit, j, s, out) \<Rightarrow> (Closed, j, s, out)
      | (LoopThrow e, j, s, out) \<Rightarrow>
          if catchable e then (Closed, j, s, out @ [serialize (error_response (''ERR '' @ exn_what e))])
          else (Stuck e, j, s, out))"

text \<open>
  The buffers that the calls of \<open>recv\<close> gave so far, each of 1 to 8191 bytes (\<open>RECV_SIZE\<close>); when there are no
  more the connection is at an end. \<open>handle_buffer\<close> itself does not depend on the size of a buffer.
\<close>

fun handle_connection :: "nat \<Rightarrow> handlers \<Rightarrow> (nat \<Rightarrow> clocks) \<Rightarrow> nat \<Rightarrow> string \<Rightarrow> string list \<Rightarrow> rds
    \<Rightarrow> conn_status \<times> rds \<times> string list" where
  "handle_connection fuel hs clock j accumulated [] s = (Open accumulated, s, [])"
| "handle_connection fuel hs clock j accumulated (buffer # buffers) s =
     (case handle_buffer fuel hs clock j accumulated buffer s of
        (Open rest, j, s, out) \<Rightarrow>
          (case handle_connection fuel hs clock j rest buffers s of (st, s, out') \<Rightarrow> (st, s, out @ out'))
      | (st, j, s, out) \<Rightarrow> (st, s, out))"

end
