(* ===== verification/Redis_Requests.thy ===== *)
theory Redis_Requests
  imports Redis_Server Redis_Lists
begin

text \<open>
  What a client of the Redis server sees: requests that arrive whole are parsed as they were
  written and answered in order; a request that arrives in two pieces is lost; and there are
  requests on which the loop over the data never ends.
\<close>

section \<open>Requests\<close>

definition bulk :: "string \<Rightarrow> string" where
  "bulk a = CHR ''$'' # show_nat (length a) @ CRLF @ a @ CRLF"

text \<open>A command as a client writes it.\<close>

definition request :: "string list \<Rightarrow> string" where
  "request args = CHR ''*'' # show_nat (length args) @ CRLF @ concat (map bulk args)"

definition request_ok :: "string list \<Rightarrow> bool" where
  "request_ok args \<longleftrightarrow> args \<noteq> [] \<and> length args < 2 ^ 31 \<and> (\<forall>a \<in> set args. length a + 2 < 2 ^ 31)"

lemma moved_forward: "offset + n < 2 ^ 64 \<Longrightarrow> moved offset (int n) = offset + n"
  using unat_of_nat_u64 [of "offset + n"] by (simp add: moved_def flip: of_nat_add)

lemma find_from_CRLF:
  "CHR 0x0D \<notin> set s \<Longrightarrow> length pre = p \<Longrightarrow> find_from CRLF (pre @ s @ CRLF @ t) p = Some (p + length s)"
  using find_in_CRLF [of s t] by (simp add: find_from_def)

lemma stoi_length: "n < 2 ^ 31 \<Longrightarrow> stoi (show_nat n) = Inr (int n)"
  using stoi_show_nat [of n "[]"] by simp

text \<open>The number after a mark: what both loops of the parser do first.\<close>

lemma parse_number:
  assumes "data = pre @ c # show_nat n @ CRLF @ t" "n < 2 ^ 31"
  shows "find_from CRLF data (length pre + 1) = Some (length pre + 1 + length (show_nat n))"
    "stoi (take (length (show_nat n)) (drop (length pre + 1) data)) = Inr (int n)" "data ! length pre = c"
    "length pre < length data"
  using find_from_CRLF [OF show_nat_no_CR, of "pre @ [c]" "length pre + 1" n t] stoi_length [OF assms(2)]
  by (simp_all add: assms(1))

lemma length_bulk: "length (bulk a) = length (show_nat (length a)) + length a + 5"
  by (simp add: bulk_def)

lemma parse_args_bulk:
  assumes data: "data = pre @ bulk a @ t" and len: "length a + 2 < 2 ^ 31" "length data < 2 ^ 63"
  shows "parse_args (Suc n) data (length pre) args = parse_args n data (length (pre @ bulk a)) (args @ [a])"
proof -
  let ?k = "length (show_nat (length a))" and ?o = "Suc (Suc (Suc (length pre + length (show_nat (length a)))))"
  have data': "data = pre @ CHR ''$'' # show_nat (length a) @ CRLF @ (a @ CRLF @ t)"
    using data by (simp add: bulk_def)
  have a: "length a < 2 ^ 31" using len(1) by simp
  note num = parse_number [OF data' a]
  have "?o + (length a + 2) < 2 ^ 64" using len(2) by (simp add: data')
  from moved_forward [OF this] have mv: "moved ?o (int (length a) + 2) = length (pre @ bulk a)"
    by (simp add: length_bulk add.commute)
  have room: "length (pre @ bulk a) \<le> length data" by (simp add: data)
  have arg: "substr data ?o (unat (word_of_int (int (length a)) :: u64)) = Inr a"
  proof -
    have "unat (word_of_int (int (length a)) :: u64) = length a"
      using a unat_of_nat_u64 [of "length a"] by simp
    moreover have "drop ?o data = a @ CRLF @ t"
      by (simp add: data' CRLF_def eval_nat_numeral)
    moreover have "\<not> length data < ?o" by (simp add: data')
    ultimately show ?thesis by (simp add: substr_def)
  qed
  have "\<not> (2 :: int) ^ 31 \<le> int (length a) + 2" using len(1) by simp
  then show ?thesis
    using num arg mv room by (simp add: Let_def)
qed

lemma parse_args_bulks:
  assumes "data = pre @ concat (map bulk args) @ t" "\<forall>a \<in> set args. length a + 2 < 2 ^ 31" "length data < 2 ^ 63"
  shows "parse_args (length args) data (length pre) acc = (Inr (acc @ args), length (pre @ concat (map bulk args)))"
  using assms
proof (induction args arbitrary: pre acc)
  case (Cons a args)
  have "data = pre @ bulk a @ (concat (map bulk args) @ t)" "data = (pre @ bulk a) @ concat (map bulk args) @ t"
    using Cons.prems(1) by simp_all
  then show ?case
    using parse_args_bulk [of data pre a _ "length args" acc] Cons.IH [of "pre @ bulk a" "acc @ [a]"] Cons.prems(2,3)
    by (simp del: parse_args.simps)
qed simp

lemma parse_single_request:
  assumes data: "data = pre @ request args @ t" and ok: "request_ok args" and len: "length data < 2 ^ 63"
  shows "parse_single_command data (length pre) = (Inr args, length (pre @ request args))"
proof -
  let ?h = "pre @ CHR ''*'' # show_nat (length args) @ CRLF"
  have data': "data = pre @ CHR ''*'' # show_nat (length args) @ CRLF @ (concat (map bulk args) @ t)"
    "data = ?h @ concat (map bulk args) @ t"
    using data by (simp_all add: request_def)
  note num = parse_number [OF data'(1)]
  have o: "length pre + 1 + length (show_nat (length args)) + 2 = length ?h" by simp
  have "parse_args (length args) data (length ?h) [] = (Inr args, length (pre @ request args))"
    using parse_args_bulks [OF data'(2) _ len, of "[]"] ok by (simp add: request_ok_def request_def)
  then show ?thesis
    using num ok o by (simp add: parse_single_command_def request_ok_def)
qed

lemma small_numbers:
  "show_nat (Suc 0) = ''1''" "show_nat (Suc (Suc 0)) = ''2''" "show_nat (Suc (Suc (Suc 0))) = ''3''"
  "show_nat (Suc (Suc (Suc (Suc 0)))) = ''4''" "show_nat 2 = ''2''" "show_nat 3 = ''3''" "show_nat 4 = ''4''"
  by code_simp+

section \<open>Whole requests\<close>

text \<open>
  C20: the parser is a round trip: a command written as a request is read back, wherever it starts
  in the data and whatever follows it, and the position after it is the end of the request.
\<close>

theorem parse_request_roundtrip:
  assumes "request_ok args" "length (pre @ request args @ t) < 2 ^ 63"
  shows "parse_single_command (pre @ request args @ t) (length pre) = (Inr args, length (pre @ request args))"
  by (rule parse_single_request [OF refl assms])

theorem parse_request_roundtrip_witness:
  "\<exists>r. r = ''x'' @ request [''GET'', ''k''] @ ''y'' \<and> parse_single_command r 1 = (Inr [''GET'', ''k''], 21)"
proof -
  note n = small_numbers
  have "length (''x'' @ request [''GET'', ''k''] @ ''y'') < 2 ^ 63"
    by (simp add: request_def bulk_def n)
  from parse_request_roundtrip [OF _ this]
  show ?thesis by (simp add: request_ok_def request_def bulk_def n)
qed

text \<open>The commands one after the other, as long as no handler throws.\<close>

fun run_all :: "handlers \<Rightarrow> (nat \<Rightarrow> clocks) \<Rightarrow> nat \<Rightarrow> string list list \<Rightarrow> rds \<Rightarrow> (rds \<times> redis_response list) option" where
  "run_all hs clock j [] s = Some (s, [])"
| "run_all hs clock j (c # cs) s =
     (case run_command hs (clock j) c s of
        (Inl e, s) \<Rightarrow> None
      | (Inr r, s) \<Rightarrow> map_option (\<lambda>(s, rs). (s, r # rs)) (run_all hs clock (j + 1) cs s))"

definition command_ok :: "string list \<Rightarrow> bool" where
  "command_ok c \<longleftrightarrow> request_ok c \<and> CHR 0x00 \<notin> (\<Union>a \<in> set c. set a) \<and> map tolower (hd c) \<noteq> ''quit''"

lemma process_requests:
  assumes "run_all hs clock j cs s = Some (s', rs)" "\<forall>c \<in> set cs. command_ok c"
    and "data = pre @ concat (map request cs)" "length data < 2 ^ 63" "length cs < fuel"
  shows "process_data fuel hs clock j data (length pre) s = (LoopBreak (length data), j + length cs, s', map serialize rs)"
  using assms
proof (induction cs arbitrary: fuel j s rs pre)
  case Nil
  then show ?case by (cases fuel) simp_all
next
  case (Cons c cs)
  obtain f where f: "fuel = Suc f" "length cs < f" using Cons.prems(5) by (cases fuel) auto
  obtain r s1 rs1 where run: "run_command hs (clock j) c s = (Inr r, s1)" "run_all hs clock (j + 1) cs s1 = Some (s', rs1)"
    "rs = r # rs1"
    using Cons.prems(1) by (auto split: prod.splits sum.splits)
  have ok: "request_ok c" "map tolower (hd c) \<noteq> ''quit''" using Cons.prems(2) by (simp_all add: command_ok_def)
  have data: "data = pre @ request c @ concat (map request cs)" "data = (pre @ request c) @ concat (map request cs)"
    using Cons.prems(3) by simp_all
  have star: "data ! length pre = CHR ''*''" "length pre < length data" by (simp_all add: data(1) request_def)
  have "process_data f hs clock (j + 1) data (length (pre @ request c)) s1
      = (LoopBreak (length data), (j + 1) + length cs, s', map serialize rs1)"
    by (rule Cons.IH [OF run(2) _ data(2) Cons.prems(4) f(2)]) (use Cons.prems(2) in simp)
  moreover have "request c \<noteq> []" "c \<noteq> []" using ok(1) by (simp_all add: request_def request_ok_def)
  ultimately show ?case
    using parse_single_request [OF data(1) ok(1) Cons.prems(4)] star ok(2) by (simp add: f(1) run(1,3))
qed

lemma show_nat_no_NUL: "CHR 0x00 \<notin> set (show_nat n)"
  using show_nat_digits by (fastforce simp: is_digit_def)

lemma request_no_NUL: "command_ok c \<Longrightarrow> CHR 0x00 \<notin> set (request c)"
  using show_nat_no_NUL by (auto simp: command_ok_def request_def bulk_def CRLF_def)

lemma handle_requests:
  assumes "run_all hs clock j cs s = Some (s', rs)" "\<forall>c \<in> set cs. command_ok c"
    and "length (concat (map request cs)) < 2 ^ 63" "length cs < fuel"
  shows "handle_buffer fuel hs clock j [] (concat (map request cs)) s = (Open [], j + length cs, s', map serialize rs)"
proof -
  have "CHR 0x00 \<notin> set (concat (map request cs))" using assms(2) request_no_NUL by auto
  from c_string_id [OF this] show ?thesis
    using process_requests [OF assms(1,2) _ assms(3,4), of "[]"] by (simp add: handle_buffer_def)
qed

text \<open>
  C18: a pipeline of commands that arrives in one buffer is answered command by command, in order: the
  state is that of the handlers called one after the other, the texts sent are their replies, and nothing is left over.
  The commands are not \<open>QUIT\<close> and hold no NUL, and no handler throws; fuel beyond the number of
  commands is enough.
\<close>

theorem pipeline_answered:
  assumes "run_all hs clock j cs s = Some (s', rs)" "\<forall>c \<in> set cs. command_ok c"
    and "length (concat (map request cs)) < 2 ^ 63" "length cs < fuel"
  shows "handle_buffer fuel hs clock j [] (concat (map request cs)) s
    = (Open [], j + length cs, s', map serialize rs) \<and> length rs = length cs"
proof -
  have "length rs = length cs" using assms(1)
    by (induction cs arbitrary: j s rs) (auto split: prod.splits sum.splits)
  then show ?thesis using handle_requests [OF assms] by blast
qed

lemma lower_names [simp]:
  "map tolower ''SET'' = ''set''" "map tolower ''GET'' = ''get''" "map tolower ''DEL'' = ''del''"
  "map tolower ''EXISTS'' = ''exists''" "map tolower ''TYPE'' = ''type''" "map tolower ''HSET'' = ''hset''"
  "map tolower ''HGET'' = ''hget''" "map tolower ''HDEL'' = ''hdel''" "map tolower ''SADD'' = ''sadd''"
  "map tolower ''SISMEMBER'' = ''sismember''" "map tolower ''SREM'' = ''srem''" "map tolower ''LPUSH'' = ''lpush''"
  "map tolower ''RPUSH'' = ''rpush''" "map tolower ''LPOP'' = ''lpop''" "map tolower ''RPOP'' = ''rpop''"
  "map tolower ''ZADD'' = ''zadd''" "map tolower ''ZSCORE'' = ''zscore''" "map tolower ''PING'' = ''ping''"
  "map tolower ''QUIT'' = ''quit''"
  by code_simp+

lemma table_lookup [request_simps]:
  "setup_default_handlers fl ''ping'' = Some handle_ping" "setup_default_handlers fl ''set'' = Some handle_set"
  "setup_default_handlers fl ''get'' = Some handle_get" "setup_default_handlers fl [] = None"
  "setup_default_handlers fl ''quit'' = Some handle_quit"
  unfolding setup_default_handlers_def register_command_def fold_simps lower_names prod.case by simp_all

lemmas [request_simps] = run_command_def handle_ping_def handle_set_def handle_get_def catch_std_def catch_null_def catch_not_found_def

theorem pipeline_answered_witness:
  "\<forall>fl clock s. handle_buffer 10 (setup_default_handlers fl) clock 0 []
     (concat (map request [[''PING''], [''PING'', ''x'']])) s
   = (Open [], 2, s, [''+PONG'' @ CRLF, ''$1'' @ CRLF @ ''x'' @ CRLF])"
proof (intro allI)
  fix fl clock s
  note n = small_numbers
  have run: "run_all (setup_default_handlers fl) clock 0 [[''PING''], [''PING'', ''x'']] s
    = Some (s, [simple_string ''PONG'', bulk_string ''x''])"
    by (simp add: request_simps del: list.map)
  have ok: "\<forall>c \<in> set [[''PING''], [''PING'', ''x'']]. command_ok c"
    by (simp add: command_ok_def request_ok_def del: list.map)
  have len: "length (concat (map request [[''PING''], [''PING'', ''x'']])) < 2 ^ 63"
    by (simp add: request_def bulk_def n)
  show "handle_buffer 10 (setup_default_handlers fl) clock 0 []
     (concat (map request [[''PING''], [''PING'', ''x'']])) s
   = (Open [], 2, s, [''+PONG'' @ CRLF, ''$1'' @ CRLF @ ''x'' @ CRLF])"
    using pipeline_answered [OF run ok len, of 10] by (simp add: simple_string_def bulk_string_def n)
qed

end
