(* ===== verification/Redis_Connection.thy ===== *)
theory Redis_Connection
  imports Redis_Requests
begin

text \<open>
  Connections of the Redis server that do not go well: a request that is split over two buffers,
  data on which the loop never ends; and a dialogue that does.
\<close>

section \<open>Requests in two pieces\<close>

lemma find_in_CRLF_short:
  assumes "r = take k (show_nat n @ CRLF @ t)" "k \<le> length (show_nat n) + 1"
  shows "find_in CRLF r = None"
proof (cases "k \<le> length (show_nat n)")
  case True
  then have "r = take k (show_nat n)" using assms(1) by simp
  then have "CHR 0x0D \<notin> set r" using show_nat_no_CR by (meson in_set_takeD)
  then show ?thesis by (rule find_in_CRLF_None)
next
  case False
  then have "k = length (show_nat n) + 1" using assms(2) by simp
  then have "r = show_nat n @ [CHR 0x0D]" using assms(1) by (simp add: CRLF_def)
  then show ?thesis using find_in_CRLF_half [OF show_nat_no_CR] by simp
qed

text \<open>Where a bulk string is cut off, the parser gives up at a position after its start.\<close>

lemma parse_args_cut:
  assumes data: "data = pre @ take k (bulk a)" and k: "k < length (bulk a)"
    and len: "length a + 2 < 2 ^ 31" "length data < 2 ^ 63"
  shows "\<exists>off. parse_args (Suc n) data (length pre) args = (Inr [], off) \<and> length pre \<le> off \<and> off \<le> length data"
proof (cases k)
  case 0
  then show ?thesis using data by simp
next
  case (Suc j)
  let ?s = "show_nat (length a)"
  have data': "data = pre @ CHR ''$'' # take j (?s @ CRLF @ a @ CRLF)" using data Suc by (simp add: bulk_def)
  have at: "data ! length pre = CHR ''$''" "length pre < length data" by (simp_all add: data')
  show ?thesis
  proof (cases "j \<le> length ?s + 1")
    case True
    have "find_from CRLF data (Suc (length pre)) = None"
      using find_in_CRLF_short [OF refl True, of "a @ CRLF"] by (simp add: find_from_def data')
    then show ?thesis using at by simp
  next
    case False
    define i where "i = j - (length ?s + 2)"
    have i: "j = length ?s + 2 + i" using False by (simp add: i_def)
    have i2: "i < length a + 2" using k Suc i by (simp add: length_bulk)
    have "take j (?s @ CRLF @ a @ CRLF) = ?s @ CRLF @ take i (a @ CRLF)" by (simp add: i)
    then have d: "data = pre @ CHR ''$'' # ?s @ CRLF @ take i (a @ CRLF)" using data' by simp
    have a: "length a < 2 ^ 31" using len(1) by simp
    note num = parse_number [OF d a]
    let ?o = "Suc (Suc (Suc (length pre + length ?s)))"
    have end_: "length data = ?o + i" using i2 by (simp add: d)
    have "?o + (length a + 2) < 2 ^ 64" using len end_ by simp
    from moved_forward [OF this] have "moved ?o (int (length a) + 2) > length data" using i2 end_ by (simp add: add.commute)
    then show ?thesis using num end_ by (simp add: Let_def)
  qed
qed

lemma parse_args_prefix:
  assumes "data = pre @ p" "concat (map bulk args) = p @ q" "q \<noteq> []"
    and "\<forall>a \<in> set args. length a + 2 < 2 ^ 31" "length data < 2 ^ 63"
  shows "\<exists>off. parse_args (length args) data (length pre) acc = (Inr [], off) \<and> length pre \<le> off \<and> off \<le> length data"
  using assms
proof (induction args arbitrary: pre p acc)
  case (Cons a args)
  have eq: "bulk a @ concat (map bulk args) = p @ q" using Cons.prems(2) by simp
  show ?case
  proof (cases "length p < length (bulk a)")
    case True
    have "p = take (length p) (bulk a @ concat (map bulk args))" by (simp add: eq)
    then have "p = take (length p) (bulk a)" using True by simp
    then have "data = pre @ take (length p) (bulk a)" using Cons.prems(1) by simp
    from parse_args_cut [OF this True] Cons.prems(4,5) show ?thesis by (simp del: parse_args.simps)
  next
    case False
    have "take (length (bulk a)) p = take (length (bulk a)) (bulk a @ concat (map bulk args))" using False by (simp add: eq)
    then obtain p' where p: "p = bulk a @ p'" by (metis append_eq_conv_conj append_take_drop_id)
    then have C: "concat (map bulk args) = p' @ q" using eq by simp
    have d: "data = pre @ bulk a @ p'" "data = (pre @ bulk a) @ p'" using Cons.prems(1) p by simp_all
    show ?thesis
      using parse_args_bulk [OF d(1), of "length args" acc] Cons.IH [OF d(2) C Cons.prems(3), of "acc @ [a]"] Cons.prems(4,5)
      by (simp del: parse_args.simps) (meson le_trans le_add1)
  qed
qed simp

lemma parse_single_prefix:
  assumes req: "request args = p @ q" "p \<noteq> []" "q \<noteq> []" and ok: "request_ok args" and len: "length (request args) < 2 ^ 63"
  shows "\<exists>off. parse_single_command p 0 = (Inr [], off) \<and> 0 < off \<and> off \<le> length p"
proof -
  let ?s = "show_nat (length args)" and ?C = "concat (map bulk args)"
  obtain r where p: "p = CHR ''*'' # r" and r: "r @ q = ?s @ CRLF @ ?C"
    using req(1,2) by (cases p) (simp_all add: request_def)
  show ?thesis
  proof (cases "length r \<le> length ?s + 1")
    case True
    have "r = take (length r) (?s @ CRLF @ ?C)" by (simp flip: r)
    from find_in_CRLF_short [OF this True] show ?thesis by (simp add: parse_single_command_def p find_from_def)
  next
    case False
    then have "take (length ?s + 2) r = take (length ?s + 2) (?s @ CRLF @ ?C)" by (simp flip: r)
    then have "take (length ?s + 2) r = ?s @ CRLF" by simp
    then obtain p' where r': "r = (?s @ CRLF) @ p'" by (metis append_take_drop_id)
    then have C: "?C = p' @ q" using r by simp
    have d: "p = [] @ CHR ''*'' # ?s @ CRLF @ p'" "p = (CHR ''*'' # ?s @ CRLF) @ p'" using p r' by simp_all
    have n: "length args < 2 ^ 31" "\<forall>a \<in> set args. length a + 2 < 2 ^ 31" using ok by (simp_all add: request_ok_def)
    have "length p < 2 ^ 63" using len req(1) by simp
    from parse_args_prefix [OF d(2) C req(3) n(2) this, of "[]"] obtain off where
      off: "parse_args (length args) p (Suc (Suc (Suc (length ?s)))) [] = (Inr [], off)" "0 < off" "off \<le> length p" by auto
    show ?thesis using parse_number [OF d(1) n(1)] off by (simp add: parse_single_command_def)
  qed
qed

lemma process_no_star:
  assumes "CHR ''*'' \<notin> set (drop k data)" "k \<le> length data" "length data - k < fuel"
  shows "process_data fuel hs clock j data k s = (LoopBreak (length data), j, s, [])"
  using assms
proof (induction fuel arbitrary: k)
  case (Suc f)
  show ?case
  proof (cases "k < length data")
    case True
    have "data ! k \<noteq> CHR ''*''" using Suc.prems(1) True by (metis Cons_nth_drop_Suc list.set_intros(1))
    moreover have "CHR ''*'' \<notin> set (drop (Suc k) data)"
      using Suc.prems(1) set_drop_subset_set_drop [of k "Suc k" data] by auto
    ultimately show ?thesis using Suc.IH [of "Suc k"] True Suc.prems(3) by simp
  qed (use Suc.prems(2) in simp)
qed simp

lemma not_star: "CHR ''*'' \<notin> set (show_nat n)" "CHR ''*'' \<notin> set CRLF"
proof -
  show "CHR ''*'' \<notin> set (show_nat n)" using show_nat_digits [of "CHR ''*''" n] by (auto simp: is_digit_def)
qed (simp add: CRLF_def)

text \<open>
  a request that arrives in two pieces is lost. Wherever it is cut, the first piece makes the
  parser give up after its start, and the connection forgets what was read up to there; the rest
  is skipped when the second piece comes. No reply is sent and the data is unchanged, although
  the same request in one piece is answered. (The arguments hold neither \<open>*\<close> nor NUL.)
\<close>

theorem split_request_lost:
  assumes ok: "request_ok args" and chars: "\<forall>a \<in> set args. CHR ''*'' \<notin> set a \<and> CHR 0x00 \<notin> set a"
    and k: "0 < k" "k < length (request args)" and len: "length (request args) < 2 ^ 63" "length (request args) < fuel"
  shows "handle_connection fuel hs clock j [] [take k (request args), drop k (request args)] s = (Open [], s, [])"
proof -
  let ?r = "request args" and ?p = "take k (request args)" and ?q = "drop k (request args)"
  have "CHR 0x00 \<notin> set ?r" using chars show_nat_no_NUL by (auto simp: request_def bulk_def CRLF_def)
  then have c: "c_string ?p = ?p" "c_string ?q = ?q" by (auto intro!: c_string_id dest: in_set_takeD in_set_dropD)
  have ne: "?p \<noteq> []" "?q \<noteq> []" using k by auto
  obtain off where off: "parse_single_command ?p 0 = (Inr [], off)" "0 < off" "off \<le> length ?p"
    using parse_single_prefix [of args ?p ?q] ne ok len(1) by auto
  obtain f where f: "fuel = Suc f" using len(2) by (cases fuel) auto
  have star: "?p ! 0 = CHR ''*''" using k by (simp add: request_def)
  have "handle_buffer fuel hs clock j [] ?p s = (Open (drop off ?p), j, s, [])"
    using off(1) star ne by (simp add: handle_buffer_def c f)
  moreover have "handle_buffer fuel hs clock j (drop off ?p) ?q s = (Open [], j, s, [])"
  proof -
    have app: "drop off ?p @ ?q = drop off ?r"
      using off(3) by (metis append_take_drop_id drop_append diff_is_0_eq' drop_0)
    have "CHR ''*'' \<notin> set (tl ?r)" using chars not_star by (auto simp: request_def bulk_def)
    moreover have "drop off ?r = drop (off - 1) (tl ?r)" using off(2) by (cases off) (simp_all add: drop_Suc)
    ultimately have "CHR ''*'' \<notin> set (drop off ?r)" by (auto dest: in_set_dropD)
    then have "process_data fuel hs clock j (drop off ?r) 0 s = (LoopBreak (length (drop off ?r)), j, s, [])"
      by (intro process_no_star) (use len(2) in auto)
    then show ?thesis by (simp add: handle_buffer_def c app)
  qed
  ultimately show ?thesis by simp
qed

theorem split_request_lost_witness:
  "\<forall>fl clock s. handle_connection 100 (setup_default_handlers fl) clock 0 []
     [take 9 (request [''SET'', ''k'', ''v'']), drop 9 (request [''SET'', ''k'', ''v''])] s = (Open [], s, [])"
proof (intro allI)
  fix fl clock s
  have len: "length (request [''SET'', ''k'', ''v'']) = 27" by (simp add: request_def bulk_def small_numbers)
  show "handle_connection 100 (setup_default_handlers fl) clock 0 []
     [take 9 (request [''SET'', ''k'', ''v'']), drop 9 (request [''SET'', ''k'', ''v''])] s = (Open [], s, [])"
    by (rule split_request_lost) (simp_all add: request_ok_def len)
qed

section \<open>A loop without end\<close>

definition endless :: string where
  "endless = ''x*1'' @ CRLF @ ''$-13'' @ CRLF"

lemma endless_simps:
  "length endless = 11" "endless ! 0 = CHR ''x''" "endless ! 1 = CHR ''*''" "endless ! 5 = CHR ''$''" "c_string endless = endless"
  "find_from CRLF endless 2 = Some 3" "take 1 (drop 2 endless) = ''1''" "find_from CRLF endless 6 = Some 9"
  "take 3 (drop 6 endless) = ''-13''" "stoi ''1'' = Inr 1" "stoi ''-13'' = Inr (- 13)" "drop 11 endless = []"
  by code_simp+

lemma endless_command: "parse_single_command endless 1 = (Inr [[]], 0)"
proof -
  have "moved 11 (- 11) = 0" by (simp add: moved_def)
  moreover have "substr endless 11 n = Inr []" for n by (simp add: substr_def endless_simps)
  ultimately have "parse_args 1 endless 5 [] = (Inr [[]], 0)"
    using endless_simps by (simp add: Let_def numeral_eq_Suc)
  then show ?thesis using endless_simps by (simp add: parse_single_command_def numeral_eq_Suc)
qed

definition unknown_empty :: redis_response where
  "unknown_empty = error_response (''ERR unknown command '' @ [CHR 0x27, CHR 0x27])"

lemma process_endless:
  assumes "hs [] = None"
  shows "process_data (2 * n) hs clock j endless 0 s = (LoopThrow OutOfFuel, j + n, s, replicate n (serialize unknown_empty))"
proof (induction n arbitrary: j)
  case (Suc n)
  have "process_data (Suc (2 * n)) hs clock j endless 1 s
      = (LoopThrow OutOfFuel, j + Suc n, s, replicate (Suc n) (serialize unknown_empty))"
    using Suc.IH [of "Suc j"] assms endless_command endless_simps
    by (simp add: run_command_def unknown_empty_def)
  then show ?case using endless_simps by simp
qed simp

text \<open>
  C19: eleven bytes make the server loop for ever: the negative length of an argument moves the
  position back to the start of the data, the command (with an empty name) is parsed again and
  again, and each round sends one more error reply. However many rounds are allowed, the loop over
  the data does not come to an end, and twice as many rounds send twice as many replies.
\<close>

theorem endless_loop:
  "\<exists>j' out. handle_buffer (2 * n) (setup_default_handlers fl) clock j [] endless s = (Stuck OutOfFuel, j', s, out)
    \<and> length out = n \<and> set out \<subseteq> {''-ERR unknown command '' @ [CHR 0x27, CHR 0x27] @ CRLF}"
  using process_endless [of "setup_default_handlers fl" n clock j s]
  by (auto simp: handle_buffer_def endless_simps table_lookup catchable_def unknown_empty_def error_response_def)

section \<open>A dialogue\<close>

text \<open>
  C17: \<open>SET\<close> and \<open>GET\<close> over a connection: a client that sends a \<open>SET\<close> of a value and a \<open>GET\<close> of the
  same key, in one buffer, reads \<open>OK\<close> and then the value, whatever the clock says, and the
  connection stays open with nothing left over. Key and value are not empty and hold no NUL, and the
  bytes fit.
\<close>

theorem set_get_over_connection:
  assumes ready: "ready_for (34 + length k + length v + n) s" and key: "key_size_ok (string_to_bytes k)"
    and v: "v \<noteq> []" "length v + 9 \<le> MAX_RECORD_SIZE"
    and chars: "CHR 0x00 \<notin> set k" "CHR 0x00 \<notin> set v"
    and sizes: "length k + 2 < 2 ^ 31" "length v + 2 < 2 ^ 31" "2 < fuel"
  shows "\<exists>s'. handle_buffer fuel (setup_default_handlers fl) clock j []
      (request [''SET'', k, v] @ request [''GET'', k]) s
    = (Open [], j + 2, s', [''+OK'' @ CRLF, ''$'' @ show_nat (length v) @ CRLF @ v @ CRLF]) \<and> ready_for n s'"
proof -
  let ?hs = "setup_default_handlers fl" and ?cs = "[[''SET'', k, v], [''GET'', k]]"
  obtain s' where s': "rds_set (clock j 0) k v 0 s = (Inr (), s')" "ready_for n s'" "\<And>c. rds_get c k s' = Inr v"
    using rds_set_ok [OF ready key v, of 0 "clock j 0"] by auto
  have run: "run_all ?hs clock j ?cs s = Some (s', [simple_string ''OK'', bulk_string v])"
    using s'(1,3)
    by (simp add: request_simps del: list.map)
  have ok: "\<forall>c \<in> set ?cs. command_ok c"
    using chars sizes by (simp add: command_ok_def request_ok_def del: list.map)
  have short: "length (show_nat m) \<le> Suc m" for m
  proof (induction m rule: show_nat.induct)
    case (1 m)
    then show ?case by (subst show_nat.simps) (cases "m < 10", simp, fastforce)
  qed
  have "length (concat (map request ?cs)) < 2 ^ 63"
    using sizes short [of "length k"] short [of "length v"] by (simp add: request_def bulk_def small_numbers)
  from handle_requests [OF run ok this, of fuel] show ?thesis
    using sizes(3) s'(2) by (simp add: simple_string_def bulk_string_def)
qed

theorem set_get_over_connection_witness:
  "\<forall>fl clock. \<exists>s s'. kv_of s = Map.empty \<and> handle_buffer 3 (setup_default_handlers fl) clock 0 []
      (request [''SET'', ''k'', ''v''] @ request [''GET'', ''k'']) s
    = (Open [], 2, s', [''+OK'' @ CRLF, ''$1'' @ CRLF @ ''v'' @ CRLF])"
proof (intro allI)
  fix fl clock
  obtain s where s: "ready_for 900 s" "kv_of s = Map.empty" using wit_ready by blast
  have r: "ready_for (34 + length ''k'' + length ''v'' + 0) s" by (rule eng.ready_less [OF s(1)]) simp
  have k: "key_size_ok (string_to_bytes ''k'')" by (simp add: key_size_ok_def MAX_RECORD_SIZE_def)
  obtain s' where "handle_buffer 3 (setup_default_handlers fl) clock 0 []
      (request [''SET'', ''k'', ''v''] @ request [''GET'', ''k'']) s
    = (Open [], 0 + 2, s', [''+OK'' @ CRLF, ''$'' @ show_nat (length ''v'') @ CRLF @ ''v'' @ CRLF])"
    using set_get_over_connection [OF r k, of 3 fl clock 0] by (auto simp: MAX_RECORD_SIZE_def)
  then show "\<exists>s s'. kv_of s = Map.empty \<and> handle_buffer 3 (setup_default_handlers fl) clock 0 []
      (request [''SET'', ''k'', ''v''] @ request [''GET'', ''k'']) s
    = (Open [], 2, s', [''+OK'' @ CRLF, ''$1'' @ CRLF @ ''v'' @ CRLF])" using s(2) by (intro exI [of _ s] exI [of _ s']) (simp add: small_numbers)
qed

end
