(* ===== verification/Rpc_Server.thy ===== *)
theory Rpc_Server
  imports Db_Merge Json
begin

text \<open>
  The RPC server (\<open>src/rpc_server.cpp\<close>): the parser of requests, the replies, the table of methods
  with its handlers over the engine, and what a connection receives and sends: one buffer of at most 8191
  bytes, one text. The merge needs two inputs from outside, the random levels of a skip list and the free
  disk space; they are the environment.
\<close>

section \<open>Requests and replies\<close>

record rpc_request =
  rq_method :: string
  rq_params :: "string list"
  rq_id :: string

record rpc_response =
  rp_result :: string
  rp_error :: string
  rp_id :: string

definition RpcResponse_new :: rpc_response where
  "RpcResponse_new = \<lparr>rp_result = [], rp_error = [], rp_id = []\<rparr>"

definition RpcResponse_serialize :: "rpc_response \<Rightarrow> string" where
  "RpcResponse_serialize r =
     ''{'' @ (if rp_result r \<noteq> [] then quoted ''result'' @ '': '' @ quoted (rp_result r)
             else quoted ''result'' @ '': null'')
     @ (if rp_error r \<noteq> [] then '', '' @ quoted ''error'' @ '': '' @ quoted (rp_error r)
        else '', '' @ quoted ''error'' @ '': null'')
     @ '', '' @ quoted ''id'' @ '': '' @ quoted (rp_id r) @ ''}''"

text \<open>The text between the quotes that follow the \<open>n\<close> characters of a name.\<close>

definition quoted_after :: "string \<Rightarrow> string \<Rightarrow> string option" where
  "quoted_after name data =
     (case find_from name data 0 of
        None \<Rightarrow> None
      | Some name_pos \<Rightarrow>
          (case find_from [CHR 0x22] data (name_pos + length name) of
             None \<Rightarrow> None
           | Some start \<Rightarrow>
               (case find_from [CHR 0x22] data (start + 1) of
                  None \<Rightarrow> None
                | Some end_pos \<Rightarrow> Some (take (end_pos - (start + 1)) (drop (start + 1) data)))))"

text \<open>A parameter without quotes, blanks and tabs.\<close>

definition clean_param :: "string \<Rightarrow> string" where
  "clean_param param = [c \<leftarrow> param. \<not> (c = CHR 0x22 \<or> c = CHR '' '' \<or> c = CHR 0x09)]"

definition params_of :: "string \<Rightarrow> string list" where
  "params_of data =
     (case find_from (quoted ''params'') data 0 of
        None \<Rightarrow> []
      | Some params_pos \<Rightarrow>
          (case find_from ''['' data params_pos of
             None \<Rightarrow> []
           | Some array_start \<Rightarrow>
               (case find_from '']'' data array_start of
                  None \<Rightarrow> []
                | Some array_end \<Rightarrow>
                    [p \<leftarrow> map clean_param (getlines (CHR '','') (take (array_end - array_start - 1) (drop (array_start + 1) data))).
                       p \<noteq> []])))"

definition RpcServer_parse_request :: "string \<Rightarrow> rpc_request" where
  "RpcServer_parse_request data =
     \<lparr>rq_method = (case quoted_after (quoted ''method'') data of None \<Rightarrow> [] | Some m \<Rightarrow> m),
      rq_params = params_of data,
      rq_id = (case quoted_after (quoted ''id'') data of None \<Rightarrow> [] | Some i \<Rightarrow> i)\<rparr>"

section \<open>The methods\<close>

record rpc_env =
  env_coins :: "nat \<Rightarrow> nat \<Rightarrow> bool"
  env_available_size :: u64

type_synonym rpc_handler = "rpc_env \<Rightarrow> rpc_request \<Rightarrow> rds \<Rightarrow> rpc_response res \<times> rds"

definition rpc_result :: "string \<Rightarrow> rpc_response" where
  "rpc_result r = RpcResponse_new\<lparr>rp_result := r\<rparr>"

definition rpc_error :: "string \<Rightarrow> rpc_response" where
  "rpc_error e = RpcResponse_new\<lparr>rp_error := e\<rparr>"

text \<open>\<open>catch (const std::exception& e)\<close> of the method with a name.\<close>

definition rpc_catch :: "string \<Rightarrow> rpc_response res \<times> rds \<Rightarrow> rpc_response res \<times> rds" where
  "rpc_catch name m =
     (case m of
        (Inl e, s) \<Rightarrow> (if catchable e then (Inr (rpc_error (name @ '' failed: '' @ exn_what e)), s) else (Inl e, s))
      | (Inr r, s) \<Rightarrow> (Inr r, s))"

definition RpcServer_handle_put :: rpc_handler where
  "RpcServer_handle_put env request s =
     (if length (rq_params request) < 2
      then (Inr (rpc_error ''PUT requires 2 parameters: key and value''), s)
      else rpc_catch ''PUT''
             (bind_res (db_put (string_to_bytes (rq_params request ! 0)) (string_to_bytes (rq_params request ! 1)) s)
                (\<lambda>_ s. (Inr (rpc_result ''OK''), s))))"

definition RpcServer_handle_get :: rpc_handler where
  "RpcServer_handle_get env request s =
     (if length (rq_params request) < 1
      then (Inr (rpc_error ''GET requires 1 parameter: key''), s)
      else rpc_catch ''GET''
             (catch_not_found
                (bind_res (db_get (string_to_bytes (rq_params request ! 0)) s, s)
                   (\<lambda>value s. (Inr (rpc_result (bytes_to_string value)), s)))
                (\<lambda>s. (Inr (rpc_error ''Key not found''), s))))"

definition RpcServer_handle_delete :: rpc_handler where
  "RpcServer_handle_delete env request s =
     (if length (rq_params request) < 1
      then (Inr (rpc_error ''DELETE requires 1 parameter: key''), s)
      else rpc_catch ''DELETE''
             (bind_res (db_remove (string_to_bytes (rq_params request ! 0)) s)
                (\<lambda>_ s. (Inr (rpc_result ''OK''), s))))"

definition RpcServer_json_escape_char :: "char \<Rightarrow> string" where
  "RpcServer_json_escape_char c =
     (if c = CHR 0x22 then [CHR 0x5C, CHR 0x22] else if c = CHR 0x5C then [CHR 0x5C, CHR 0x5C]
      else if c = CHR 0x0A then [CHR 0x5C, CHR ''n''] else if c = CHR 0x0D then [CHR 0x5C, CHR ''r'']
      else if c = CHR 0x09 then [CHR 0x5C, CHR ''t''] else [c])"

definition RpcServer_json_escape :: "string \<Rightarrow> string" where
  "RpcServer_json_escape str = concat (map RpcServer_json_escape_char str)"

definition RpcServer_handle_list_keys :: rpc_handler where
  "RpcServer_handle_list_keys env request s =
     (Inr (rpc_result (''['' @ commas (map (\<lambda>k. quoted (RpcServer_json_escape (bytes_to_string k))) (DB_list_keys (fst s))) @ '']'')), s)"

definition RpcServer_handle_stat :: rpc_handler where
  "RpcServer_handle_stat env request s = (Inr (rpc_result (stat_text (DB_stat (fst s) (snd s)))), s)"

definition RpcServer_handle_backup :: rpc_handler where
  "RpcServer_handle_backup env request s =
     (if length (rq_params request) < 1
      then (Inr (rpc_error ''BACKUP requires 1 parameter: backup_directory''), s)
      else rpc_catch ''BACKUP''
             (bind_res (DB_backup (rq_params request ! 0) (fst s) (snd s)) (\<lambda>_ s. (Inr (rpc_result ''OK''), s))))"

definition RpcServer_handle_merge :: rpc_handler where
  "RpcServer_handle_merge env request s =
     rpc_catch ''MERGE''
       (bind_res (DB_merge (env_coins env) (env_available_size env) (fst s) (snd s))
          (\<lambda>_ s. (Inr (rpc_result ''OK''), s)))"

definition RpcServer_handle_ping :: rpc_handler where
  "RpcServer_handle_ping env request s = (Inr (rpc_result ''PONG''), s)"

type_synonym rpc_handlers = "string \<rightharpoonup> rpc_handler"

definition RpcServer_register_method :: "string \<Rightarrow> rpc_handler \<Rightarrow> rpc_handlers \<Rightarrow> rpc_handlers" where
  "RpcServer_register_method name h hs = hs(name \<mapsto> h)"

definition RpcServer_setup_default_handlers :: rpc_handlers where
  "RpcServer_setup_default_handlers =
     fold (\<lambda>(name, h). RpcServer_register_method name h)
       [(''put'', RpcServer_handle_put), (''get'', RpcServer_handle_get), (''delete'', RpcServer_handle_delete), (''list_keys'', RpcServer_handle_list_keys),
        (''stat'', RpcServer_handle_stat), (''backup'', RpcServer_handle_backup), (''merge'', RpcServer_handle_merge), (''ping'', RpcServer_handle_ping)]
       Map.empty"

section \<open>Connections\<close>

text \<open>
  What is sent for the bytes that have arrived when the connection is served; nothing when there are
  none. There is one call of \<open>recv\<close>: what lies beyond its buffer is never read.
\<close>

definition RpcServer_handle_connection :: "rpc_handlers \<Rightarrow> rpc_env \<Rightarrow> string \<Rightarrow> rds \<Rightarrow> string res \<times> rds" where
  "RpcServer_handle_connection hs env arrived s =
     (let buffer = recv arrived in
      if buffer = [] then (Inr [], s)
      else
        (let request = RpcServer_parse_request (c_string buffer);
             (r, s) = (case hs (rq_method request) of
                 Some h \<Rightarrow> h env request s
               | None \<Rightarrow> (Inr (rpc_error (''Method not found: '' @ rq_method request)), s))
         in case r of
              Inr response \<Rightarrow> (Inr (RpcResponse_serialize (response\<lparr>rp_id := rq_id request\<rparr>)), s)
            | Inl e \<Rightarrow>
                (if catchable e
                 then (Inr (RpcResponse_serialize (rpc_error (''Internal server error: '' @ exn_what e))), s)
                 else (Inl e, s))))"

end
