(* ===== verification/Rpc_Requests.thy ===== *)
theory Rpc_Requests
  imports Rpc_Server Redis_Collections
begin

text \<open>
  What the RPC server reads from a request, and what a client sees: a request in the documented
  form is read as it was written when its texts are plain, and a value put is the value got.
\<close>

section \<open>Fields of a request\<close>

text \<open>The text in quotes that follows a name and \<open>: \<close>.\<close>

lemma quoted_after_found:
  assumes "find_in name (pre @ name @ '': '' @ quoted v @ post) = Some (length pre)" "plain v"
  shows "quoted_after name (pre @ name @ '': '' @ quoted v @ post) = Some v"
proof -
  let ?data = "pre @ name @ '': '' @ quoted v @ post" and ?n = "length pre + length name"
  have "find_from name ?data 0 = Some (length pre)" using assms(1) by (simp add: find_from_def)
  moreover have "find_from [CHR 0x22] ?data ?n = Some (?n + 2)"
    using find_from_char [of "CHR 0x22" "'': ''" ?n "pre @ name" "v @ CHR 0x22 # post"] by (simp add: quoted_def)
  moreover have "find_from [CHR 0x22] ?data (?n + 3) = Some (?n + 3 + length v)"
    using find_from_char [of "CHR 0x22" v "?n + 3" "pre @ name @ '': '' @ [CHR 0x22]" post] assms(2)
    by (simp add: quoted_def plain_def)
  moreover have "take (length v) (drop (?n + 3) ?data) = v" by (simp add: quoted_def)
  ultimately show ?thesis by (simp add: quoted_after_def eval_nat_numeral)
qed

section \<open>Requests in the documented form\<close>

definition rpc_params :: "string list \<Rightarrow> string" where
  "rpc_params ps = (case ps of [] \<Rightarrow> [] | p # ps \<Rightarrow> quoted p @ concat (map (\<lambda>q. '', '' @ quoted q) ps))"

definition rpc_text :: "string \<Rightarrow> string list \<Rightarrow> string \<Rightarrow> string" where
  "rpc_text m ps i =
     ''{'' @ quoted ''method'' @ '': '' @ quoted m @ '', '' @ quoted ''params'' @ '': ['' @ rpc_params ps @ ''], ''
     @ quoted ''id'' @ '': '' @ quoted i @ ''}''"

text \<open>A parameter that is not empty and holds no quote, comma, bracket, blank or tab, and is not \<open>id\<close>.\<close>

definition param_ok :: "string \<Rightarrow> bool" where
  "param_ok p \<longleftrightarrow> p \<noteq> [] \<and> p \<noteq> ''id''
     \<and> set p \<inter> {CHR 0x22, CHR '','', CHR '']'', CHR '' '', CHR 0x09} = {}"

lemma param_plain: "param_ok p \<Longrightarrow> plain p"
  by (auto simp: param_ok_def plain_def)

lemma clean_quoted: "param_ok p \<Longrightarrow> clean_param (quoted p) = p" "param_ok p \<Longrightarrow> clean_param ('' '' @ quoted p) = p"
proof -
  assume "param_ok p"
  then have "[c \<leftarrow> p. \<not> (c = CHR 0x22 \<or> c = CHR '' '' \<or> c = CHR 0x09)] = p"
    by (intro filter_True) (auto simp: param_ok_def)
  then show "clean_param (quoted p) = p" "clean_param ('' '' @ quoted p) = p"
    by (simp_all add: clean_param_def quoted_def)
qed

lemma getlines_params:
  assumes "\<forall>p \<in> set ps. param_ok p"
  shows "map clean_param (getlines (CHR '','') (rpc_params ps)) = ps"
proof (cases ps)
  case Nil
  then show ?thesis by (simp add: rpc_params_def)
next
  case (Cons p qs)
  have comma: "CHR '','' \<notin> set (quoted q)" "CHR '','' \<notin> set ('' '' @ quoted q)" if "param_ok q" for q
    using that by (auto simp: param_ok_def quoted_def)
  have rest: "map clean_param (getlines (CHR '','') (x @ concat (map (\<lambda>q. '', '' @ quoted q) qs))) = clean_param x # qs"
    if "CHR '','' \<notin> set x" "x \<noteq> []" "\<forall>q \<in> set qs. param_ok q" for x qs
    using that
  proof (induction qs arbitrary: x)
    case Nil
    then show ?case by (simp add: getlines_last)
  next
    case (Cons q qs)
    have "x @ concat (map (\<lambda>q. '', '' @ quoted q) (q # qs))
        = x @ CHR '','' # (('' '' @ quoted q) @ concat (map (\<lambda>q. '', '' @ quoted q) qs))" by simp
    then show ?case
      using Cons.IH [of "'' '' @ quoted q"] Cons.prems comma(2) clean_quoted(2) by (simp add: getlines_line)
  qed
  show ?thesis
    using rest [of "quoted p" qs] assms comma(1) clean_quoted(1) Cons by (simp add: rpc_params_def quoted_def)
qed

lemma clear_params:
  assumes "\<forall>q \<in> set ps. param_ok q"
  shows "clear ''id'' (rpc_params ps @ ''], '')"
proof -
  have id: "plain ''id''" by (simp add: plain_def)
  have tail: "clear ''id'' (concat (map (\<lambda>q. '', '' @ quoted q) qs) @ ''], '')" if "\<forall>q \<in> set qs. param_ok q" for qs
    using that
  proof (induction qs)
    case Nil
    then show ?case by (simp add: clear_text)
  next
    case (Cons q qs)
    let ?x = "concat (map (\<lambda>q. '', '' @ quoted q) qs) @ ''], ''"
    have "clear ''id'' (quoted q @ ?x)"
      by (rule clear_quoted [OF Cons.IH])
        (use Cons.prems param_plain id in \<open>cases qs; auto simp: param_ok_def\<close>)+
    from clear_append [OF clear_text [of "'', ''"] this] show ?case by simp
  qed
  show ?thesis
  proof (cases ps)
    case (Cons q qs)
    let ?x = "concat (map (\<lambda>q. '', '' @ quoted q) qs) @ ''], ''"
    have "clear ''id'' (quoted q @ ?x)"
      by (rule clear_quoted [OF tail]) (use Cons assms param_plain id in \<open>cases qs; auto simp: param_ok_def\<close>)+
    then show ?thesis by (simp add: rpc_params_def Cons)
  qed (simp add: rpc_params_def clear_text)
qed

lemma params_no_bracket: "\<forall>q \<in> set ps. param_ok q \<Longrightarrow> CHR '']'' \<notin> set (rpc_params ps)"
  by (cases ps) (auto simp: rpc_params_def param_ok_def quoted_def)

lemma parse_rpc_text:
  assumes m: "plain m" "m \<noteq> ''params''" "m \<noteq> ''id''" and ps: "\<forall>p \<in> set ps. param_ok p" and i: "plain i"
  shows "RpcServer_parse_request (rpc_text m ps i) = \<lparr>rq_method = m, rq_params = ps, rq_id = i\<rparr>"
proof -
  let ?p1 = "''{'' @ quoted ''method'' @ '': '' @ quoted m @ '', ''" and ?id = "quoted ''id'' @ '': '' @ quoted i @ ''}''"
  let ?p2 = "?p1 @ quoted ''params'' @ '': ['' @ rpc_params ps @ ''], ''"
  have pl: "plain ''method''" "plain ''params''" "plain ''id''" by (simp_all add: plain_def)
  have c1: "clear n (quoted m @ '', '')" if "n = ''params'' \<or> n = ''id''" for n
    by (rule clear_quoted [OF clear_text]) (use that m pl in auto)
  have c2: "clear n ?p1" if "n = ''params'' \<or> n = ''id''" for n
  proof -
    have "clear n (quoted ''method'' @ ('': '' @ quoted m @ '', ''))"
      by (rule clear_quoted [OF clear_append [OF clear_text c1]]) (use that pl in auto)
    from clear_append [OF clear_text [of "''{''"] this] show ?thesis by simp
  qed
  have c3: "clear ''id'' ?p2"
  proof -
    have "clear ''id'' (quoted ''params'' @ ('': ['' @ (rpc_params ps @ ''], '')))"
      by (rule clear_quoted [OF clear_append [OF clear_text clear_params [OF ps]]]) (use pl in auto)
    then show ?thesis using clear_append [OF c2] by simp
  qed
  have shape: "rpc_text m ps i = ''{'' @ quoted ''method'' @ '': '' @ quoted m @ ('', '' @ quoted ''params'' @ '': ['' @ rpc_params ps @ ''], '' @ ?id)"
    "rpc_text m ps i = ?p1 @ quoted ''params'' @ ('': ['' @ rpc_params ps @ ''], '' @ ?id)"
    "rpc_text m ps i = ?p2 @ quoted ''id'' @ '': '' @ quoted i @ ''}''"
    by (simp_all add: rpc_text_def)
  have "quoted_after (quoted ''method'') (rpc_text m ps i) = Some m"
    unfolding shape(1) by (rule quoted_after_found [OF clear_found [OF clear_text] m(1)]) simp
  moreover have "quoted_after (quoted ''id'') (rpc_text m ps i) = Some i"
    unfolding shape(3) by (rule quoted_after_found [OF clear_found [OF c3] i])
  moreover have "params_of (rpc_text m ps i) = ps"
  proof -
    let ?d = "rpc_text m ps i" and ?n = "length ?p1"
    have "find_from (quoted ''params'') ?d 0 = Some ?n"
      unfolding shape(2) find_from_0 by (rule clear_found [OF c2]) simp
    moreover have "find_from ''['' ?d ?n = Some (?n + 10)"
      using find_from_char [of "CHR ''[''" "quoted ''params'' @ '': ''" ?n ?p1 "rpc_params ps @ ''], '' @ ?id"]
      by (simp add: rpc_text_def quoted_def)
    moreover have "find_from '']'' ?d (?n + 10) = Some (?n + 11 + length (rpc_params ps))"
      using find_from_char [of "CHR '']''" "''['' @ rpc_params ps" "?n + 10" "?p1 @ quoted ''params'' @ '': ''" "'', '' @ ?id"]
        params_no_bracket [OF ps] by (simp add: rpc_text_def)
    moreover have "take (length (rpc_params ps)) (drop (?n + 11) ?d) = rpc_params ps"
      using slice [of "?n + 11" "?p1 @ quoted ''params'' @ '': [''" "rpc_params ps" "''], '' @ ?id"]
      by (simp add: rpc_text_def)
    moreover have "[p \<leftarrow> ps. p \<noteq> []] = ps" using ps by (intro filter_True) (auto simp: param_ok_def)
    ultimately show ?thesis using getlines_params [OF ps] by (simp add: params_of_def)
  qed
  ultimately show ?thesis by (simp add: RpcServer_parse_request_def)
qed

text \<open>
  An RPC request in the documented form is read as it was written: the method, the parameters in
  order and the identifier. The method and the identifier hold no quote and are not the name of
  another field; a parameter is not empty and holds no quote, comma, bracket or blank.
\<close>

theorem rpc_request_roundtrip:
  assumes "plain m" "m \<noteq> ''params''" "m \<noteq> ''id''" "\<forall>p \<in> set ps. param_ok p" "plain i"
  shows "RpcServer_parse_request (rpc_text m ps i) = \<lparr>rq_method = m, rq_params = ps, rq_id = i\<rparr>"
  by (rule parse_rpc_text [OF assms])

theorem rpc_request_roundtrip_witness:
  "RpcServer_parse_request (rpc_text ''put'' [''k'', ''v''] ''1'') = \<lparr>rq_method = ''put'', rq_params = [''k'', ''v''], rq_id = ''1''\<rparr>"
  by (rule rpc_request_roundtrip) (simp_all add: plain_def param_ok_def)

section \<open>Put, then get\<close>

lemma rpc_table [request_simps]:
  "RpcServer_setup_default_handlers ''put'' = Some RpcServer_handle_put"
  "RpcServer_setup_default_handlers ''get'' = Some RpcServer_handle_get"
  by (simp_all add: RpcServer_setup_default_handlers_def RpcServer_register_method_def)

lemmas [request_simps] = RpcServer_handle_connection_def RpcServer_handle_put_def RpcServer_handle_get_def
  rpc_catch_def rpc_result_def RpcResponse_new_def catch_not_found_def

lemma rpc_text_c_string:
  assumes "\<forall>x \<in> set (m # i # ps). CHR 0x00 \<notin> set x"
  shows "c_string (rpc_text m ps i) = rpc_text m ps i" "rpc_text m ps i \<noteq> []"
proof -
  have "CHR 0x00 \<notin> set (rpc_params ps)" using assms by (cases ps) (auto simp: rpc_params_def quoted_def)
  then show "c_string (rpc_text m ps i) = rpc_text m ps i" using assms by (auto intro!: c_string_id simp: rpc_text_def quoted_def)
qed (simp add: rpc_text_def)

lemma rpc_put_get_ok:
  assumes ready: "ready_for (25 + length k + length v + n) s" and key: "key_size_ok (string_to_bytes k)"
    and v: "length v \<le> MAX_RECORD_SIZE" and p: "param_ok k" "param_ok v" "plain i"
    and chars: "CHR 0x00 \<notin> set k \<union> set v \<union> set i"
    and one: "length (rpc_text ''put'' [k, v] i) \<le> RECV_SIZE" "length (rpc_text ''get'' [k] i) \<le> RECV_SIZE"
  shows "\<exists>s'. RpcServer_handle_connection RpcServer_setup_default_handlers env (rpc_text ''put'' [k, v] i) s
      = (Inr (RpcResponse_serialize \<lparr>rp_result = ''OK'', rp_error = [], rp_id = i\<rparr>), s') \<and> ready_for n s'
    \<and> RpcServer_handle_connection RpcServer_setup_default_handlers env (rpc_text ''get'' [k] i) s'
      = (Inr (RpcResponse_serialize \<lparr>rp_result = v, rp_error = [], rp_id = i\<rparr>), s')"
proof -
  have "ready_for (25 + length (string_to_bytes k) + length (string_to_bytes v) + n) s" using ready by simp
  from eng.put_ok [OF this key] v obtain s' where s': "db_put (string_to_bytes k) (string_to_bytes v) s = (Inr (), s')"
    "kv_of s' = (kv_of s)(string_to_bytes k \<mapsto> string_to_bytes v)" "ready_for n s'" by auto
  have get: "db_get (string_to_bytes k) s' = Inr (string_to_bytes v)"
    using eng.get_kv [OF s'(3), of "string_to_bytes k"] key by (simp add: s'(2) key_size_ok_def)
  have parse: "RpcServer_parse_request (rpc_text ''put'' [k, v] i) = \<lparr>rq_method = ''put'', rq_params = [k, v], rq_id = i\<rparr>"
    "RpcServer_parse_request (rpc_text ''get'' [k] i) = \<lparr>rq_method = ''get'', rq_params = [k], rq_id = i\<rparr>"
    by (rule parse_rpc_text; use p in \<open>simp add: plain_def\<close>)+
  note c = rpc_text_c_string [of "''put''" i "[k, v]"] rpc_text_c_string [of "''get''" i "[k]"]
  have "RpcServer_handle_connection RpcServer_setup_default_handlers env (rpc_text ''put'' [k, v] i) s
      = (Inr (RpcResponse_serialize \<lparr>rp_result = ''OK'', rp_error = [], rp_id = i\<rparr>), s')"
    using c chars s'(1) recv_whole [OF one(1)]
    by (simp add: request_simps parse)
  moreover have "RpcServer_handle_connection RpcServer_setup_default_handlers env (rpc_text ''get'' [k] i) s'
      = (Inr (RpcResponse_serialize \<lparr>rp_result = v, rp_error = [], rp_id = i\<rparr>), s')"
    using c chars get recv_whole [OF one(2)]
    by (simp add: request_simps parse)
  ultimately show ?thesis using s'(3) by blast
qed

text \<open>
  C22: a value put over RPC is the value got over RPC: the reply to \<open>put\<close> is \<open>OK\<close>, the reply to a
  \<open>get\<close> of the same key afterwards carries the value, both with the identifier of the request. The
  requests have the documented form and at most 8191 bytes (all that the server reads of one), and
  arrive at once. Key and value are not empty, are not \<open>id\<close>, and hold no blank, tab, comma,
  quote or closing bracket (the server drops blanks and tabs and takes the others for its syntax); the
  identifier holds no quote; none holds a NUL. The record fits in the active file (\<open>ready_for\<close>).
\<close>

theorem rpc_put_then_get:
  assumes "ready_for (25 + length k + length v + n) s" "key_size_ok (string_to_bytes k)"
    "length v \<le> MAX_RECORD_SIZE" "param_ok k" "param_ok v" "plain i" "CHR 0x00 \<notin> set k \<union> set v \<union> set i"
    "length (rpc_text ''put'' [k, v] i) \<le> RECV_SIZE" "length (rpc_text ''get'' [k] i) \<le> RECV_SIZE"
  shows "\<exists>s'. RpcServer_handle_connection RpcServer_setup_default_handlers env (rpc_text ''put'' [k, v] i) s
      = (Inr (RpcResponse_serialize \<lparr>rp_result = ''OK'', rp_error = [], rp_id = i\<rparr>), s') \<and> ready_for n s'
    \<and> RpcServer_handle_connection RpcServer_setup_default_handlers env (rpc_text ''get'' [k] i) s'
      = (Inr (RpcResponse_serialize \<lparr>rp_result = v, rp_error = [], rp_id = i\<rparr>), s')"
  by (rule rpc_put_get_ok [OF assms])

theorem rpc_put_then_get_witness:
  "\<forall>env. \<exists>s s' t. kv_of s = Map.empty
    \<and> RpcServer_handle_connection RpcServer_setup_default_handlers env (rpc_text ''put'' [''k'', ''v''] ''1'') s = (Inr t, s')
    \<and> RpcServer_handle_connection RpcServer_setup_default_handlers env (rpc_text ''get'' [''k''] ''1'') s'
      = (Inr (RpcResponse_serialize \<lparr>rp_result = ''v'', rp_error = [], rp_id = ''1''\<rparr>), s')"
proof (intro allI)
  fix env
  obtain s where s: "ready_for 900 s" "kv_of s = Map.empty" using wit_ready by blast
  have r: "ready_for (25 + length ''k'' + length ''v'' + 0) s" by (rule eng.ready_less [OF s(1)]) simp
  have k: "key_size_ok (string_to_bytes ''k'')" by (simp add: key_size_ok_def MAX_RECORD_SIZE_def)
  have len: "length (rpc_text ''put'' [''k'', ''v''] ''1'') \<le> RECV_SIZE" "length (rpc_text ''get'' [''k''] ''1'') \<le> RECV_SIZE"
    by (simp_all add: rpc_text_def rpc_params_def quoted_def RECV_SIZE_def)
  from rpc_put_then_get [OF r k _ _ _ _ _ len, of env] s(2)
  show "\<exists>s s' t. kv_of s = Map.empty
    \<and> RpcServer_handle_connection RpcServer_setup_default_handlers env (rpc_text ''put'' [''k'', ''v''] ''1'') s = (Inr t, s')
    \<and> RpcServer_handle_connection RpcServer_setup_default_handlers env (rpc_text ''get'' [''k''] ''1'') s'
      = (Inr (RpcResponse_serialize \<lparr>rp_result = ''v'', rp_error = [], rp_id = ''1''\<rparr>), s')"
    by (fastforce simp: MAX_RECORD_SIZE_def param_ok_def plain_def)
qed

end
