(* ===== verification/Http_Server.thy ===== *)
theory Http_Server
  imports Json
begin

text \<open>
  The HTTP server (\<open>src/http_server.cpp\<close>): the parser of requests with query parameters and URL
  decoding, the routes with their handlers over the engine, the replies, and what a connection
  receives and sends: one buffer of at most 8191 bytes, one text.
\<close>

section \<open>Requests and replies\<close>

record http_request =
  hr_method :: string
  hr_path :: string
  hr_headers :: "string \<rightharpoonup> string"
  hr_query_params :: "string \<rightharpoonup> string"
  hr_body :: string

text \<open>The headers of a reply in the order of the map.\<close>

record http_response =
  hs_status_code :: int
  hs_headers :: "(string \<times> string) list"
  hs_body :: string

definition HttpRequest_new :: http_request where
  "HttpRequest_new =
     \<lparr>hr_method = [], hr_path = [], hr_headers = Map.empty, hr_query_params = Map.empty, hr_body = []\<rparr>"

definition HttpResponse_new :: http_response where
  "HttpResponse_new =
     \<lparr>hs_status_code = 200, hs_headers = [(''Content-Type'', ''application/json'')], hs_body = []\<rparr>"

section \<open>URL decoding\<close>

definition hex_digit :: "char \<Rightarrow> nat option" where
  "hex_digit c =
     (let n = (of_char c :: nat) in
      if 48 \<le> n \<and> n \<le> 57 then Some (n - 48) else if 97 \<le> n \<and> n \<le> 102 then Some (n - 87)
      else if 65 \<le> n \<and> n \<le> 70 then Some (n - 55) else None)"

text \<open>
  \<open>stream >> std::hex >> hex_value\<close> on two characters: white space is skipped, a sign is taken, a
  number that is not there is 0; with white space only the variable keeps no value.
\<close>

definition hex_value :: "char \<Rightarrow> char \<Rightarrow> int option" where
  "hex_value a b =
     (let one = (case hex_digit b of None \<Rightarrow> 0 | Some n \<Rightarrow> int n) in
      if is_space a then (if is_space b then None else Some one)
      else if a = CHR ''+'' then Some one else if a = CHR ''-'' then Some (- one)
      else (case hex_digit a of
         None \<Rightarrow> Some 0
       | Some m \<Rightarrow> (case hex_digit b of None \<Rightarrow> Some (int m) | Some n \<Rightarrow> Some (int (16 * m + n)))))"

definition char_of_int :: "int \<Rightarrow> char" where
  "char_of_int i = char_of (nat (i mod 256))"

fun url_decode :: "string \<Rightarrow> string res" where
  "url_decode (CHR 0x25 # a # b # s) =
     (case hex_value a b of
        None \<Rightarrow> Inl UndefinedBehaviour
      | Some v \<Rightarrow> map_sum id ((#) (char_of_int v)) (url_decode s))"
| "url_decode (c # s) = map_sum id ((#) (if c = CHR ''+'' then CHR '' '' else c)) (url_decode s)"
| "url_decode [] = Inr []"

section \<open>The parser\<close>

fun params_loop :: "string list \<Rightarrow> (string \<rightharpoonup> string) \<Rightarrow> (string \<rightharpoonup> string) res" where
  "params_loop [] params = Inr params"
| "params_loop (pair # pairs) params =
     (case find_from ''='' pair 0 of
        None \<Rightarrow> params_loop pairs params
      | Some eq_pos \<Rightarrow>
          (case url_decode (take eq_pos pair) of
             Inl e \<Rightarrow> Inl e
           | Inr key \<Rightarrow>
               (case url_decode (drop (eq_pos + 1) pair) of
                  Inl e \<Rightarrow> Inl e
                | Inr value \<Rightarrow> params_loop pairs (params(key \<mapsto> value)))))"

definition parse_query_params :: "string \<Rightarrow> (string \<rightharpoonup> string) res" where
  "parse_query_params query = params_loop (getlines (CHR ''&'') query) Map.empty"

text \<open>\<open>stream >> word\<close>: the word and the rest.\<close>

definition read_word :: "string \<Rightarrow> string \<times> string" where
  "read_word s = (let s = dropWhile is_space s in (takeWhile (Not \<circ> is_space) s, dropWhile (Not \<circ> is_space) s))"

definition is_blank :: "char \<Rightarrow> bool" where
  "is_blank c \<longleftrightarrow> c = CHR '' '' \<or> c = CHR 0x09 \<or> c = CHR 0x0D"

definition trim_end :: "string \<Rightarrow> string" where
  "trim_end s = rev (dropWhile is_blank (rev s))"

definition add_header :: "string \<Rightarrow> (string \<rightharpoonup> string) \<Rightarrow> (string \<rightharpoonup> string)" where
  "add_header line headers =
     (case find_from '':'' line 0 of
        None \<Rightarrow> headers
      | Some colon_pos \<Rightarrow>
          headers(trim_end (take colon_pos line) \<mapsto> trim_end (dropWhile is_blank (drop (colon_pos + 1) line))))"

text \<open>The headers up to an empty line, and what remains of the stream.\<close>

function header_loop :: "string \<Rightarrow> (string \<rightharpoonup> string) \<Rightarrow> (string \<rightharpoonup> string) \<times> string" where
  "header_loop s headers =
     (case getline (CHR 0x0A) s of
        None \<Rightarrow> (headers, [])
      | Some (line, rest) \<Rightarrow>
          if line = [CHR 0x0D] \<or> line = [] then (headers, rest) else header_loop rest (add_header line headers))"
  by pat_completeness auto
termination by (relation "measure (length \<circ> fst)") (auto dest: getline_shorter)

declare header_loop.simps [simp del]

definition join_lines :: "string list \<Rightarrow> string" where
  "join_lines ls = fold (\<lambda>line body. if body \<noteq> [] then body @ CHR 0x0A # line else line) ls []"

definition HttpServer_parse_request :: "string \<Rightarrow> http_request res" where
  "HttpServer_parse_request data =
     (let (line, rest) = (case getline (CHR 0x0A) data of None \<Rightarrow> ([], []) | Some (l, r) \<Rightarrow> (l, r));
          (req_method, line) = read_word line;
          (url, _) = read_word line;
          (headers, rest) = header_loop rest Map.empty;
          body = join_lines (getlines (CHR 0x0A) rest);
          path_params = (case find_from ''?'' url 0 of
              None \<Rightarrow> Inr (url, Map.empty)
            | Some query_pos \<Rightarrow>
                map_sum id (Pair (take query_pos url)) (parse_query_params (drop (query_pos + 1) url)))
      in case path_params of
           Inl e \<Rightarrow> Inl e
         | Inr (path, params) \<Rightarrow>
             Inr \<lparr>hr_method = req_method, hr_path = path, hr_headers = headers, hr_query_params = params, hr_body = body\<rparr>)"

definition status_text :: "int \<Rightarrow> string" where
  "status_text code =
     (if code = 200 then ''OK'' else if code = 400 then ''Bad Request'' else if code = 404 then ''Not Found''
      else if code = 405 then ''Method Not Allowed'' else if code = 500 then ''Internal Server Error'' else ''Unknown'')"

definition build_response :: "http_response \<Rightarrow> string" where
  "build_response r =
     ''HTTP/1.1 '' @ show_int (hs_status_code r) @ '' '' @ status_text (hs_status_code r) @ CRLF
     @ concat (map (\<lambda>(key, value). key @ '': '' @ value @ CRLF) (hs_headers r))
     @ ''Content-Length: '' @ show_nat (length (hs_body r)) @ CRLF @ CRLF @ hs_body r"

section \<open>The handlers\<close>

definition HttpServer_json_escape_char :: "char \<Rightarrow> string" where
  "HttpServer_json_escape_char c =
     (if c = CHR 0x22 then [CHR 0x5C, CHR 0x22] else if c = CHR 0x5C then [CHR 0x5C, CHR 0x5C]
      else if c = CHR 0x08 then [CHR 0x5C, CHR ''b''] else if c = CHR 0x0C then [CHR 0x5C, CHR ''f'']
      else if c = CHR 0x0A then [CHR 0x5C, CHR ''n''] else if c = CHR 0x0D then [CHR 0x5C, CHR ''r'']
      else if c = CHR 0x09 then [CHR 0x5C, CHR ''t''] else [c])"

definition HttpServer_json_escape :: "string \<Rightarrow> string" where
  "HttpServer_json_escape str = concat (map HttpServer_json_escape_char str)"

definition bytes_to_json_string :: "bytes \<Rightarrow> string" where
  "bytes_to_json_string b = HttpServer_json_escape (bytes_to_string b)"

definition json_string_to_bytes :: "string \<Rightarrow> bytes" where
  "json_string_to_bytes json_str = string_to_bytes json_str"

type_synonym http_handler = "http_request \<Rightarrow> rds \<Rightarrow> http_response res \<times> rds"

definition http_reply :: "int \<Rightarrow> string \<Rightarrow> http_response" where
  "http_reply code body = HttpResponse_new\<lparr>hs_status_code := code, hs_body := body\<rparr>"

definition error_body :: "string \<Rightarrow> string" where
  "error_body msg = ''{'' @ quoted ''error'' @ '': '' @ quoted msg @ ''}''"

text \<open>\<open>catch (const std::exception&)\<close> with its message.\<close>

definition http_catch :: "string \<Rightarrow> http_response res \<times> rds \<Rightarrow> http_response res \<times> rds" where
  "http_catch msg m =
     (case m of
        (Inl e, s) \<Rightarrow> (if catchable e then (Inr (http_reply 500 (error_body msg)), s) else (Inl e, s))
      | (Inr r, s) \<Rightarrow> (Inr r, s))"

text \<open>The value of a field of the body; the message when it is not found. A quote ends it, escaped or not.\<close>

definition field_value :: "string \<Rightarrow> string \<Rightarrow> string \<Rightarrow> string \<Rightarrow> string \<Rightarrow> string + string" where
  "field_value name missing no_colon no_value body =
     (case find_from (quoted name) body 0 of
        None \<Rightarrow> Inl missing
      | Some pos \<Rightarrow>
          (case find_from '':'' body pos of
             None \<Rightarrow> Inl no_colon
           | Some colon \<Rightarrow>
               (case find_from [CHR 0x22] body colon of
                  None \<Rightarrow> Inl no_value
                | Some start \<Rightarrow>
                    (case find_from [CHR 0x22] body (start + 1) of
                       None \<Rightarrow> Inl no_value
                     | Some end_pos \<Rightarrow> Inr (take (end_pos - (start + 1)) (drop (start + 1) body))))))"

definition status_ok :: string where
  "status_ok = ''{'' @ quoted ''status'' @ '': '' @ quoted ''OK'' @ ''}''"

definition HttpServer_handle_put :: http_handler where
  "HttpServer_handle_put request s =
     (if hr_body request = [] then (Inr (http_reply 400 (error_body ''Empty request body'')), s)
      else (case field_value ''key'' ''Missing key field'' ''Invalid key format'' ''Invalid key value format'' (hr_body request) of
        Inl msg \<Rightarrow> (Inr (http_reply 400 (error_body msg)), s)
      | Inr key \<Rightarrow>
          (case field_value ''value'' ''Missing value field'' ''Invalid value format'' ''Invalid value format'' (hr_body request) of
             Inl msg \<Rightarrow> (Inr (http_reply 400 (error_body msg)), s)
           | Inr value \<Rightarrow>
               http_catch ''Failed to put data''
                 (bind_res (db_put (string_to_bytes key) (string_to_bytes value) s)
                    (\<lambda>_ s. (Inr (http_reply 200 status_ok), s))))))"

definition HttpServer_handle_get :: http_handler where
  "HttpServer_handle_get request s =
     (case hr_query_params request ''key'' of
        None \<Rightarrow> (Inr (http_reply 400 (error_body ''Missing key parameter'')), s)
      | Some key \<Rightarrow>
          http_catch ''Failed to get data''
            (catch_not_found
               (bind_res (db_get (string_to_bytes key) s, s)
                  (\<lambda>value s. (Inr (http_reply 200
                     (''{'' @ quoted ''key'' @ '': '' @ quoted (HttpServer_json_escape key) @ '', ''
                      @ quoted ''value'' @ '': '' @ quoted (HttpServer_json_escape (bytes_to_string value)) @ ''}'')), s)))
               (\<lambda>s. (Inr (http_reply 404 (error_body ''Key not found'')), s))))"

definition HttpServer_handle_delete :: http_handler where
  "HttpServer_handle_delete request s =
     (case hr_query_params request ''key'' of
        None \<Rightarrow> (Inr (http_reply 400 (error_body ''Missing key parameter'')), s)
      | Some key \<Rightarrow>
          http_catch ''Failed to delete data''
            (bind_res (db_remove (string_to_bytes key) s) (\<lambda>_ s. (Inr (http_reply 200 status_ok), s))))"

definition HttpServer_handle_list_keys :: http_handler where
  "HttpServer_handle_list_keys request s =
     (Inr (http_reply 200
        (''['' @ commas (map (\<lambda>k. quoted (HttpServer_json_escape (bytes_to_string k))) (DB_list_keys (fst s))) @ '']'')), s)"

definition HttpServer_handle_stat :: http_handler where
  "HttpServer_handle_stat request s = (Inr (http_reply 200 (stat_text (DB_stat (fst s) (snd s)))), s)"

section \<open>Routes\<close>

type_synonym routes = "string \<rightharpoonup> string \<rightharpoonup> http_handler"

definition register_handler :: "string \<Rightarrow> string \<Rightarrow> http_handler \<Rightarrow> routes \<Rightarrow> routes" where
  "register_handler req_method path h routes =
     routes(req_method \<mapsto> (case routes req_method of None \<Rightarrow> [path \<mapsto> h] | Some paths \<Rightarrow> paths(path \<mapsto> h)))"

definition HttpServer_setup_default_handlers :: routes where
  "HttpServer_setup_default_handlers =
     fold (\<lambda>(req_method, path, h). register_handler req_method path h)
       [(''POST'', ''/bitcask/put'', HttpServer_handle_put), (''GET'', ''/bitcask/get'', HttpServer_handle_get),
        (''DELETE'', ''/bitcask/delete'', HttpServer_handle_delete), (''GET'', ''/bitcask/listkeys'', HttpServer_handle_list_keys),
        (''GET'', ''/bitcask/stat'', HttpServer_handle_stat)]
       Map.empty"

definition dispatch :: "routes \<Rightarrow> http_request \<Rightarrow> rds \<Rightarrow> http_response res \<times> rds" where
  "dispatch routes request s =
     (case routes (hr_method request) of
        None \<Rightarrow> (Inr (http_reply 405 (error_body ''Method not allowed'')), s)
      | Some paths \<Rightarrow>
          (case paths (hr_path request) of
             None \<Rightarrow> (Inr (http_reply 404 (error_body ''Not found'')), s)
           | Some h \<Rightarrow> h request s))"

text \<open>
  What is sent for the bytes that have arrived when the connection is served; nothing when there are
  none. There is one call of \<open>recv\<close>: what lies beyond its buffer is never read.
\<close>

definition HttpServer_handle_connection :: "routes \<Rightarrow> string \<Rightarrow> rds \<Rightarrow> string res \<times> rds" where
  "HttpServer_handle_connection routes arrived s =
     (let buffer = recv arrived in
      if buffer = [] then (Inr [], s)
      else
        (case bind_res (HttpServer_parse_request (c_string buffer), s) (dispatch routes) of
           (Inr response, s) \<Rightarrow> (Inr (build_response response), s)
         | (Inl e, s) \<Rightarrow>
             (if catchable e
              then (Inr (build_response (http_reply 500 (error_body ''Internal server error''))), s)
              else (Inl e, s))))"

end
