(* ===== verification/Http_Requests.thy ===== *)
theory Http_Requests
  imports Http_Server Redis_Collections
begin

text \<open>
  What the HTTP server reads from a request, and what a client sees: URL decoding undoes the percent
  encoding of every text, the lines of a request are taken apart as they were put together, and a
  value that was stored with a \<open>POST\<close> is what a \<open>GET\<close> of its key answers.
\<close>

section \<open>URLs\<close>

definition hex_char :: "nat \<Rightarrow> char" where
  "hex_char d = (if d < 10 then char_of (48 + d) else char_of (87 + d))"

definition percent :: "char \<Rightarrow> string" where
  "percent c = (let n = (of_char c :: nat) in [CHR 0x25, hex_char (n div 16), hex_char (n mod 16)])"

definition url_encode :: "string \<Rightarrow> string" where
  "url_encode s = concat (map percent s)"

definition url_char :: "char \<Rightarrow> bool" where
  "url_char c \<longleftrightarrow> \<not> is_space c \<and> c \<noteq> CHR ''&'' \<and> c \<noteq> CHR ''?'' \<and> c \<noteq> CHR 0x00"

lemma hex_char_facts:
  assumes "d < 16"
  shows "hex_digit (hex_char d) = Some d" "hex_char d \<noteq> CHR ''+''" "hex_char d \<noteq> CHR ''-''" "url_char (hex_char d)"
proof -
  have n: "(of_char (hex_char d) :: nat) = (if d < 10 then 48 + d else 87 + d)"
    using assms by (simp add: hex_char_def)
  then show "hex_digit (hex_char d) = Some d" using assms by (simp add: hex_digit_def Let_def)
  have other: "hex_char d \<noteq> c" if "(of_char c :: nat) < 48" for c
  proof
    assume "hex_char d = c"
    then have "(of_char c :: nat) = (if d < 10 then 48 + d else 87 + d)" using n by simp
    then show False using that by (simp split: if_splits)
  qed
  show "hex_char d \<noteq> CHR ''+''" "hex_char d \<noteq> CHR ''-''" by (rule other; simp)+
  have "hex_char d \<noteq> CHR ''&''" "hex_char d \<noteq> CHR 0x00" by (rule other; simp)+
  moreover have "hex_char d \<noteq> CHR ''?''"
  proof
    assume "hex_char d = CHR ''?''"
    then have "(if d < 10 then 48 + d else 87 + d) = 63" using n by simp
    then show False by (simp split: if_splits)
  qed
  ultimately show "url_char (hex_char d)" using n by (simp add: url_char_def is_space_def)
qed

lemma of_char_less: "(of_char c :: nat) < 256"
  using nat_of_char_less_256 by simp

lemma hex_value_percent: "hex_value (hex_char (n div 16)) (hex_char (n mod 16)) = Some (int n)" if "n < 256"
proof -
  have d: "n div 16 < 16" "n mod 16 < 16" using that by auto
  show ?thesis
    using hex_char_facts [OF d(1)] hex_char_facts(1) [OF d(2)]
    by (simp add: hex_value_def url_char_def Let_def)
qed

lemma decode_encode_url: "url_decode (url_encode s) = Inr s"
proof (induction s)
  case (Cons c s)
  have "char_of_int (int (of_char c)) = c" using of_char_less [of c] by (simp add: char_of_int_def nat_mod_as_int)
  then show ?case
    using Cons hex_value_percent [OF of_char_less [of c]] by (simp add: url_encode_def percent_def Let_def)
qed (simp add: url_encode_def)

lemma url_encode_chars: "c \<in> set (url_encode s) \<Longrightarrow> url_char c"
proof -
  assume "c \<in> set (url_encode s)"
  then obtain x where "x \<in> set s" "c \<in> set (percent x)" by (auto simp: url_encode_def)
  moreover have "(of_char x :: nat) div 16 < 16" using of_char_less [of x] by linarith
  moreover have "url_char (CHR 0x25)" by code_simp
  ultimately show ?thesis using hex_char_facts(4) by (auto simp: percent_def Let_def)
qed

section \<open>Requests\<close>

definition http_text :: "string \<Rightarrow> string \<Rightarrow> string list \<Rightarrow> string \<Rightarrow> string" where
  "http_text req_method url hdrs body =
     req_method @ '' '' @ url @ '' HTTP/1.1'' @ CRLF @ concat (map (\<lambda>h. h @ CRLF) hdrs) @ CRLF @ body"

definition word_ok :: "string \<Rightarrow> bool" where
  "word_ok w \<longleftrightarrow> w \<noteq> [] \<and> (\<forall>c \<in> set w. \<not> is_space c)"

lemma read_word_ok:
  assumes "word_ok w"
  shows "read_word (w @ CHR '' '' # r) = (w, CHR '' '' # r)" "read_word (CHR '' '' # w @ CHR '' '' # r) = (w, CHR '' '' # r)"
proof -
  have sp: "is_space (CHR '' '')" by code_simp
  obtain c u where w: "w = c # u" "\<not> is_space c" using assms by (cases w) (auto simp: word_ok_def)
  have "takeWhile (Not \<circ> is_space) (w @ CHR '' '' # r) = w" "dropWhile (Not \<circ> is_space) (w @ CHR '' '' # r) = CHR '' '' # r"
    using assms sp by (induction w) (auto simp: word_ok_def)
  then show "read_word (w @ CHR '' '' # r) = (w, CHR '' '' # r)" "read_word (CHR '' '' # w @ CHR '' '' # r) = (w, CHR '' '' # r)"
    using w sp by (simp_all add: read_word_def)
qed

lemma getline_ok: "d \<notin> set l \<Longrightarrow> getline d (l @ d # r) = Some (l, r)"
  by (induction l) (auto simp: getline_def)

lemma header_loop_ok:
  assumes "\<forall>h \<in> set hdrs. h \<noteq> [] \<and> CHR 0x0A \<notin> set h"
  shows "\<exists>H. header_loop (concat (map (\<lambda>h. h @ CRLF) hdrs) @ CRLF @ body) hs = (H, body)"
  using assms
proof (induction hdrs arbitrary: hs)
  case Nil
  have "getline (CHR 0x0A) (CRLF @ body) = Some ([CHR 0x0D], body)"
    using getline_ok [of "CHR 0x0A" "[CHR 0x0D]" body] by (simp add: CRLF_def)
  then show ?case by (simp add: header_loop.simps)
next
  case (Cons h hdrs)
  let ?rest = "concat (map (\<lambda>h. h @ CRLF) hdrs) @ CRLF @ body"
  have "getline (CHR 0x0A) ((h @ CRLF) @ ?rest) = Some (h @ [CHR 0x0D], ?rest)"
    using getline_ok [of "CHR 0x0A" "h @ [CHR 0x0D]" ?rest] Cons.prems by (simp add: CRLF_def)
  moreover have "h @ [CHR 0x0D] \<noteq> [CHR 0x0D]" "h @ [CHR 0x0D] \<noteq> []" using Cons.prems by auto
  ultimately have "header_loop ((h @ CRLF) @ ?rest) hs = header_loop ?rest (add_header (h @ [CHR 0x0D]) hs)"
    by (subst header_loop.simps) simp
  then show ?case using Cons by simp
qed

lemma join_one_line: "CHR 0x0A \<notin> set body \<Longrightarrow> join_lines (getlines (CHR 0x0A) body) = body"
  by (cases "body = []") (simp_all add: join_lines_def getlines_last)

definition http_ok :: "string \<Rightarrow> string \<Rightarrow> string list \<Rightarrow> string \<Rightarrow> bool" where
  "http_ok req_method url hdrs body \<longleftrightarrow>
     word_ok req_method \<and> word_ok url \<and> (\<forall>h \<in> set hdrs. h \<noteq> [] \<and> CHR 0x0A \<notin> set h) \<and> CHR 0x0A \<notin> set body
     \<and> CHR 0x00 \<notin> set (http_text req_method url hdrs body)"

lemma parse_http_text:
  assumes ok: "http_ok req_method url hdrs body"
    and path: "(case find_from ''?'' url 0 of None \<Rightarrow> Inr (url, Map.empty)
        | Some q \<Rightarrow> map_sum id (Pair (take q url)) (parse_query_params (drop (q + 1) url))) = Inr (path, params)"
  shows "\<exists>H. HttpServer_parse_request (http_text req_method url hdrs body)
    = Inr \<lparr>hr_method = req_method, hr_path = path, hr_headers = H, hr_query_params = params, hr_body = body\<rparr>"
proof -
  let ?line = "req_method @ '' '' @ url @ '' HTTP/1.1'' @ [CHR 0x0D]"
  let ?rest = "concat (map (\<lambda>h. h @ CRLF) hdrs) @ CRLF @ body"
  have sp: "is_space (CHR 0x0A)" by code_simp
  have w: "word_ok req_method" "word_ok url" using ok by (simp_all add: http_ok_def)
  then have "CHR 0x0A \<notin> set ?line" using sp by (auto simp: word_ok_def)
  from getline_ok [OF this, of ?rest]
  have line: "getline (CHR 0x0A) (http_text req_method url hdrs body) = Some (?line, ?rest)"
    by (simp add: http_text_def CRLF_def)
  let ?line1 = "CHR '' '' # url @ CHR '' '' # ''HTTP/1.1'' @ [CHR 0x0D]"
  have words: "read_word ?line = (req_method, ?line1)" "read_word ?line1 = (url, CHR '' '' # ''HTTP/1.1'' @ [CHR 0x0D])"
    using read_word_ok(1) [OF w(1)] read_word_ok(2) [OF w(2)] by simp_all
  obtain H where H: "header_loop ?rest Map.empty = (H, body)" using header_loop_ok [of hdrs body Map.empty] ok unfolding http_ok_def by blast
  have "join_lines (getlines (CHR 0x0A) body) = body" using join_one_line ok by (simp add: http_ok_def)
  then show ?thesis
    unfolding HttpServer_parse_request_def Let_def line option.case prod.case words H path by simp
qed

section \<open>Put, then get\<close>

lemma field_value_found:
  assumes "find_in (quoted name) (pre @ quoted name @ '': '' @ quoted v @ post) = Some (length pre)"
    "plain v" "CHR '':'' \<notin> set name"
  shows "field_value name e1 e2 e3 (pre @ quoted name @ '': '' @ quoted v @ post) = Inr v"
proof -
  let ?data = "pre @ quoted name @ '': '' @ quoted v @ post" and ?n = "length pre + length (quoted name)"
  have "find_from (quoted name) ?data 0 = Some (length pre)" using assms(1) by (simp add: find_from_0)
  moreover have "find_from '':'' ?data (length pre) = Some ?n"
    using find_from_char [of "CHR '':''" "quoted name" "length pre" pre "'' '' @ quoted v @ post"] assms(3)
    by (simp add: quoted_def)
  moreover have "find_from [CHR 0x22] ?data ?n = Some (?n + 2)"
    using find_from_char [of "CHR 0x22" "'': ''" ?n "pre @ quoted name" "v @ CHR 0x22 # post"] by (simp add: quoted_def)
  moreover have "find_from [CHR 0x22] ?data (?n + 3) = Some (?n + 3 + length v)"
    using find_from_char [of "CHR 0x22" v "?n + 3" "pre @ quoted name @ '': '' @ [CHR 0x22]" post] assms(2)
    by (simp add: quoted_def plain_def)
  moreover have "take (length v) (drop (?n + 3) ?data) = v"
    using slice [of "?n + 3" "pre @ quoted name @ '': '' @ [CHR 0x22]" v "CHR 0x22 # post"] by (simp add: quoted_def)
  ultimately show ?thesis by (simp add: field_value_def eval_nat_numeral)
qed

definition put_body :: "string \<Rightarrow> string \<Rightarrow> string" where
  "put_body k v = ''{'' @ quoted ''key'' @ '': '' @ quoted k @ '', '' @ quoted ''value'' @ '': '' @ quoted v @ ''}''"

lemma put_body_fields:
  assumes "plain k" "plain v" "k \<noteq> ''value''"
  shows "field_value ''key'' e1 e2 e3 (put_body k v) = Inr k" "field_value ''value'' e1 e2 e3 (put_body k v) = Inr v"
proof -
  let ?p = "''{'' @ quoted ''key'' @ '': '' @ quoted k @ '', ''"
  have pl: "plain ''key''" "plain ''value''" by (simp_all add: plain_def)
  show "field_value ''key'' e1 e2 e3 (put_body k v) = Inr k"
    unfolding put_body_def by (rule field_value_found [OF clear_found [OF clear_text] assms(1)]) simp_all
  have "clear ''value'' (quoted k @ '', '')" by (rule clear_quoted [OF clear_text]) (use assms pl in auto)
  then have "clear ''value'' (quoted ''key'' @ ('': '' @ (quoted k @ '', '')))"
    by (intro clear_quoted [OF clear_append [OF clear_text]]) (use pl in auto)
  from clear_append [OF clear_text [of "''{''"] this] have c: "clear ''value'' ?p" by simp
  have shape: "put_body k v = ?p @ quoted ''value'' @ '': '' @ quoted v @ ''}''" by (simp add: put_body_def)
  show "field_value ''value'' e1 e2 e3 (put_body k v) = Inr v"
    unfolding shape by (rule field_value_found [OF clear_found [OF c] assms(2)]) simp
qed

lemma get_url_params:
  "(case find_from ''?'' (''/bitcask/get?key='' @ url_encode k) 0 of None \<Rightarrow> Inr (''/bitcask/get?key='' @ url_encode k, Map.empty)
     | Some q \<Rightarrow> map_sum id (Pair (take q (''/bitcask/get?key='' @ url_encode k)))
         (parse_query_params (drop (q + 1) (''/bitcask/get?key='' @ url_encode k))))
   = Inr (''/bitcask/get'', [''key'' \<mapsto> k])"
proof -
  have q: "find_from ''?'' (''/bitcask/get?key='' @ url_encode k) 0 = Some 12"
    using find_from_char [of "CHR ''?''" "''/bitcask/get''" 0 "[]" "''key='' @ url_encode k"] by simp
  have "CHR ''&'' \<notin> set (''key='' @ url_encode k)" using url_encode_chars [of "CHR ''&''" k] by (auto simp: url_char_def)
  then have l: "getlines (CHR ''&'') (''key='' @ url_encode k) = [''key='' @ url_encode k]" by (rule getlines_last) simp
  have e: "find_from ''='' (''key='' @ url_encode k) 0 = Some 3"
    using find_from_char [of "CHR ''=''" "''key''" 0 "[]" "url_encode k"] by simp
  have "parse_query_params (''key='' @ url_encode k) = Inr [''key'' \<mapsto> k]"
    using l e decode_encode_url [of k] by (simp add: parse_query_params_def)
  moreover have "take 12 (''/bitcask/get?key='' @ url_encode k) = ''/bitcask/get''"
    "drop 13 (''/bitcask/get?key='' @ url_encode k) = ''key='' @ url_encode k" by simp_all
  ultimately show ?thesis by (simp add: q del: append_Cons)
qed

lemma http_routes [request_simps]:
  "HttpServer_setup_default_handlers ''POST'' = Some [''/bitcask/put'' \<mapsto> HttpServer_handle_put]"
  "HttpServer_setup_default_handlers ''GET'' = Some [''/bitcask/get'' \<mapsto> HttpServer_handle_get,
     ''/bitcask/listkeys'' \<mapsto> HttpServer_handle_list_keys, ''/bitcask/stat'' \<mapsto> HttpServer_handle_stat]"
  by (simp_all add: HttpServer_setup_default_handlers_def register_handler_def)

lemmas [request_simps] = HttpServer_handle_connection_def dispatch_def HttpServer_handle_put_def HttpServer_handle_get_def
  http_catch_def catch_not_found_def

lemma http_ok_text: "http_ok m u h b \<Longrightarrow> c_string (http_text m u h b) = http_text m u h b \<and> http_text m u h b \<noteq> []"
  by (auto simp: http_ok_def c_string_id http_text_def word_ok_def)

definition get_body :: "string \<Rightarrow> string \<Rightarrow> string" where
  "get_body k v = ''{'' @ quoted ''key'' @ '': '' @ quoted (HttpServer_json_escape k) @ '', ''
     @ quoted ''value'' @ '': '' @ quoted (HttpServer_json_escape v) @ ''}''"

text \<open>
  C21: a value stored over HTTP is the value answered over HTTP, when each request has at most 8191 bytes
  (all that the server reads of it) and arrives at once: a \<open>POST\<close> of the documented body is
  answered with status 200, and a \<open>GET\<close> of the percent-encoded key afterwards with status 200 and a
  body that carries key and value with their JSON escapes, whatever the other header lines are. Key
  and value hold no quote (the server takes the first quote for the end, escaped or not) and the
  key is not \<open>value\<close>; lines and NUL are excluded by \<open>http_ok\<close>. Key and value have at most 64 MB, the key is
  not empty, and the record fits in the active file (\<open>ready_for\<close>).
\<close>

theorem http_put_then_get:
  assumes ready: "ready_for (25 + length k + length v + n) s" and key: "key_size_ok (string_to_bytes k)"
    and v: "length v \<le> MAX_RECORD_SIZE" and pl: "plain k" "plain v" "k \<noteq> ''value''"
    and post: "http_ok ''POST'' ''/bitcask/put'' hdrs (put_body k v)"
    and get: "http_ok ''GET'' (''/bitcask/get?key='' @ url_encode k) hdrs' []"
    and one: "length (http_text ''POST'' ''/bitcask/put'' hdrs (put_body k v)) \<le> RECV_SIZE"
      "length (http_text ''GET'' (''/bitcask/get?key='' @ url_encode k) hdrs' []) \<le> RECV_SIZE"
  shows "\<exists>s'. HttpServer_handle_connection HttpServer_setup_default_handlers
        (http_text ''POST'' ''/bitcask/put'' hdrs (put_body k v)) s
      = (Inr (build_response (http_reply 200 status_ok)), s') \<and> ready_for n s'
    \<and> HttpServer_handle_connection HttpServer_setup_default_handlers
        (http_text ''GET'' (''/bitcask/get?key='' @ url_encode k) hdrs' []) s'
      = (Inr (build_response (http_reply 200 (get_body k v))), s')"
proof -
  have "ready_for (25 + length (string_to_bytes k) + length (string_to_bytes v) + n) s" using ready by simp
  from eng.put_ok [OF this key] v obtain s' where s': "db_put (string_to_bytes k) (string_to_bytes v) s = (Inr (), s')"
    "kv_of s' = (kv_of s)(string_to_bytes k \<mapsto> string_to_bytes v)" "ready_for n s'" by auto
  have val: "db_get (string_to_bytes k) s' = Inr (string_to_bytes v)"
    using eng.get_kv [OF s'(3), of "string_to_bytes k"] key by (simp add: s'(2) key_size_ok_def)
  have "find_from ''?'' ''/bitcask/put'' 0 = None" by code_simp
  then obtain H where P: "HttpServer_parse_request (http_text ''POST'' ''/bitcask/put'' hdrs (put_body k v))
    = Inr \<lparr>hr_method = ''POST'', hr_path = ''/bitcask/put'', hr_headers = H, hr_query_params = Map.empty, hr_body = put_body k v\<rparr>"
    using parse_http_text [OF post, of "''/bitcask/put''" Map.empty] by auto
  obtain H' where G: "HttpServer_parse_request (http_text ''GET'' (''/bitcask/get?key='' @ url_encode k) hdrs' [])
    = Inr \<lparr>hr_method = ''GET'', hr_path = ''/bitcask/get'', hr_headers = H', hr_query_params = [''key'' \<mapsto> k], hr_body = []\<rparr>"
    using parse_http_text [OF get get_url_params] by blast
  have "put_body k v \<noteq> []" by (simp add: put_body_def)
  then have "HttpServer_handle_connection HttpServer_setup_default_handlers
        (http_text ''POST'' ''/bitcask/put'' hdrs (put_body k v)) s
      = (Inr (build_response (http_reply 200 status_ok)), s')"
    using http_ok_text [OF post] P s'(1) put_body_fields [OF pl] recv_whole [OF one(1)]
    by (simp add: request_simps)
  moreover have "HttpServer_handle_connection HttpServer_setup_default_handlers
        (http_text ''GET'' (''/bitcask/get?key='' @ url_encode k) hdrs' []) s'
      = (Inr (build_response (http_reply 200 (get_body k v))), s')"
    using http_ok_text [OF get] G val recv_whole [OF one(2)]
    by (simp add: request_simps get_body_def)
  ultimately show ?thesis using s'(3) by blast
qed

theorem http_put_then_get_witness:
  "\<exists>s s' t. kv_of s = Map.empty
    \<and> HttpServer_handle_connection HttpServer_setup_default_handlers
        (http_text ''POST'' ''/bitcask/put'' [''Host: h''] (put_body ''k'' ''v'')) s = (Inr t, s')
    \<and> HttpServer_handle_connection HttpServer_setup_default_handlers
        (http_text ''GET'' (''/bitcask/get?key='' @ url_encode ''k'') [] []) s'
      = (Inr (build_response (http_reply 200 (get_body ''k'' ''v''))), s')"
proof -
  obtain s where s: "ready_for 900 s" "kv_of s = Map.empty" using wit_ready by blast
  have r: "ready_for (25 + length ''k'' + length ''v'' + 0) s" by (rule eng.ready_less [OF s(1)]) simp
  have k: "key_size_ok (string_to_bytes ''k'')" by (simp add: key_size_ok_def MAX_RECORD_SIZE_def)
  have enc: "url_encode ''k'' = ''%6b''" by code_simp
  have w: "word_ok ''POST''" "word_ok ''/bitcask/put''" "word_ok ''GET''" "word_ok (''/bitcask/get?key='' @ ''%6b'')"
    by (simp_all add: word_ok_def is_space_def)
  have ok: "http_ok ''POST'' ''/bitcask/put'' [''Host: h''] (put_body ''k'' ''v'')"
    "http_ok ''GET'' (''/bitcask/get?key='' @ url_encode ''k'') [] []"
    unfolding http_ok_def enc using w by (simp_all add: http_text_def put_body_def quoted_def CRLF_def)
  have len: "length (http_text ''POST'' ''/bitcask/put'' [''Host: h''] (put_body ''k'' ''v'')) \<le> RECV_SIZE"
    "length (http_text ''GET'' (''/bitcask/get?key='' @ url_encode ''k'') [] []) \<le> RECV_SIZE"
    unfolding enc by (simp_all add: http_text_def put_body_def quoted_def RECV_SIZE_def)
  from http_put_then_get [OF r k _ _ _ _ ok len] s(2) show ?thesis
    by (fastforce simp: MAX_RECORD_SIZE_def plain_def)
qed

end
