(* ===== verification/Server_Life.thy ===== *)
theory Server_Life
  imports Prelude
begin

text \<open>
  The life of a server (\<open>start\<close>, \<open>stop\<close> and the destructor of \<open>HttpServer\<close>, \<open>RpcServer\<close> and
  \<open>RedisServer\<close>, which repeat the same code): the thread that accepts connections, a detached thread
  for every client, and the thread that calls \<open>start\<close> and \<open>stop\<close>, as a step relation. What the
  operating system answers is an input of the steps. The lemmas show what stopping guarantees and
  what it does not.
\<close>

section \<open>States\<close>

text \<open>
  Where the accepting thread stands (\<open>No_thread\<close>: \<open>server_thread_\<close> is not joinable), and where the
  thread that owns the server does; the flag says that it runs the destructor.
\<close>

datatype loop_pc = No_thread | Testing | Accepting | Accepted int | Finished

datatype owner_pc = Outside | Closing bool | Forgetting bool | Joining bool | Destroyed | Aborted

record server =
  sv_host :: string
  sv_port :: int
  sv_socket :: int
  sv_running :: bool
  sv_loop :: loop_pc
  sv_owner :: owner_pc
  sv_bound :: "(u32 \<times> 16 word) option"
  sv_fds :: "int set"
  sv_clients :: "int set"

text \<open>\<open>sv_fds\<close> are the descriptors open in the process that belong to the server, \<open>sv_clients\<close> those
  of the connections that a detached thread is handling.\<close>

definition server_new :: "string \<Rightarrow> int \<Rightarrow> server" where
  "server_new host port =
     \<lparr>sv_host = host, sv_port = port, sv_socket = -1, sv_running = False, sv_loop = No_thread,
      sv_owner = Outside, sv_bound = None, sv_fds = {}, sv_clients = {}\<rparr>"

section \<open>\<open>start\<close>\<close>

datatype server_class = HTTP_SERVER | RPC_SERVER | REDIS_SERVER

fun socket_message :: "server_class \<Rightarrow> string" where
  "socket_message RPC_SERVER = ''Failed to create RPC socket''"
| "socket_message _ = ''Failed to create socket''"

fun bind_message :: "server_class \<Rightarrow> string" where
  "bind_message RPC_SERVER = ''Failed to bind RPC socket''"
| "bind_message _ = ''Failed to bind socket''"

fun listen_message :: "server_class \<Rightarrow> string" where
  "listen_message RPC_SERVER = ''Failed to listen on RPC socket''"
| "listen_message _ = ''Failed to listen on socket''"

text \<open>
  The answers of \<open>socket\<close> (a descriptor or -1), \<open>inet_pton\<close> (the address, or none when the text is no
  address), \<open>bind\<close> and \<open>listen\<close>.
\<close>

record os_answers =
  os_socket :: int
  os_address :: "u32 option"
  os_bind :: bool
  os_listen :: bool

text \<open>
  The structure of the address is zeroed first, and the result of \<open>inet_pton\<close> is not looked at.
  Assigning to a joinable \<open>std::thread\<close> calls \<open>std::terminate\<close>.
\<close>

definition start_server :: "server_class \<Rightarrow> os_answers \<Rightarrow> server \<Rightarrow> unit res \<times> server" where
  "start_server k a s =
     (let s = s\<lparr>sv_socket := os_socket a\<rparr> in
      if os_socket a = -1 then (Inl (BitcaskException (socket_message k)), s)
      else
        let s = s\<lparr>sv_fds := insert (os_socket a) (sv_fds s)\<rparr>;
            addr = (case os_address a of Some x \<Rightarrow> x | None \<Rightarrow> 0, word_of_int (sv_port s))
        in
        if \<not> os_bind a
        then (Inl (BitcaskException (bind_message k)), s\<lparr>sv_fds := sv_fds s - {sv_socket s}\<rparr>)
        else
          let s = s\<lparr>sv_bound := Some addr\<rparr> in
          if \<not> os_listen a
          then (Inl (BitcaskException (listen_message k)), s\<lparr>sv_fds := sv_fds s - {sv_socket s}\<rparr>)
          else
            let s = s\<lparr>sv_running := True\<rparr> in
            if sv_loop s \<noteq> No_thread then (Inl Terminated, s)
            else (Inr (), s\<lparr>sv_loop := Testing\<rparr>))"

definition HttpServer_start :: "os_answers \<Rightarrow> server \<Rightarrow> unit res \<times> server" where
  "HttpServer_start = start_server HTTP_SERVER"

definition RpcServer_start :: "os_answers \<Rightarrow> server \<Rightarrow> unit res \<times> server" where
  "RpcServer_start = start_server RPC_SERVER"

definition RedisServer_start :: "os_answers \<Rightarrow> server \<Rightarrow> unit res \<times> server" where
  "RedisServer_start = start_server REDIS_SERVER"

section \<open>The accepting thread, and \<open>stop\<close>\<close>

text \<open>
  One step of the loop; \<open>answer\<close> is what \<open>accept\<close> gives when it returns. On a descriptor that is not
  open it fails at once, and the loop is back at its test.
\<close>

definition accept_step :: "int \<Rightarrow> server \<Rightarrow> server" where
  "accept_step answer s =
     (case sv_loop s of
        Testing \<Rightarrow>
          if \<not> sv_running s then s\<lparr>sv_loop := Finished\<rparr>
          else if sv_socket s \<in> sv_fds s then s\<lparr>sv_loop := Accepting\<rparr> else s
      | Accepting \<Rightarrow>
          if answer = -1 then s\<lparr>sv_loop := Testing\<rparr>
          else s\<lparr>sv_loop := Accepted answer, sv_fds := insert answer (sv_fds s)\<rparr>
      | Accepted client \<Rightarrow> s\<lparr>sv_loop := Testing, sv_clients := insert client (sv_clients s)\<rparr>
      | _ \<Rightarrow> s)"

definition client_step :: "int \<Rightarrow> server \<Rightarrow> server" where
  "client_step client s = s\<lparr>sv_clients := sv_clients s - {client}, sv_fds := sv_fds s - {client}\<rparr>"

definition stopped :: "bool \<Rightarrow> owner_pc" where
  "stopped destructor = (if destructor then Destroyed else Outside)"

text \<open>One step of \<open>stop\<close>, called by the owner or by the destructor; \<open>None\<close> while \<open>join\<close> waits.\<close>

definition stop_step :: "bool \<Rightarrow> server \<Rightarrow> server option" where
  "stop_step destructor s =
     (case sv_owner s of
        Outside \<Rightarrow>
          Some (if sv_running s then s\<lparr>sv_running := False, sv_owner := Closing destructor\<rparr>
                else s\<lparr>sv_owner := stopped destructor\<rparr>)
      | Closing d \<Rightarrow>
          Some (if sv_socket s \<noteq> -1 then s\<lparr>sv_fds := sv_fds s - {sv_socket s}, sv_owner := Forgetting d\<rparr>
                else s\<lparr>sv_owner := Joining d\<rparr>)
      | Forgetting d \<Rightarrow> Some (s\<lparr>sv_socket := -1, sv_owner := Joining d\<rparr>)
      | Joining d \<Rightarrow>
          (case sv_loop s of
             No_thread \<Rightarrow> Some (s\<lparr>sv_owner := stopped d\<rparr>)
           | Finished \<Rightarrow> Some (s\<lparr>sv_loop := No_thread, sv_owner := stopped d\<rparr>)
           | _ \<Rightarrow> None)
      | _ \<Rightarrow> None)"

section \<open>All the threads\<close>

text \<open>
  A new descriptor is none that is open. \<open>again\<close> says whether the owner may call \<open>start\<close> on a server
  that is running.
\<close>

inductive server_step :: "server_class \<Rightarrow> bool \<Rightarrow> server \<Rightarrow> server \<Rightarrow> bool" for k again where
  start: "sv_owner s = Outside \<Longrightarrow> again \<or> \<not> sv_running s \<Longrightarrow> os_socket a = -1 \<or> os_socket a \<ge> 0 \<and> os_socket a \<notin> sv_fds s \<Longrightarrow>
    start_server k a s = (r, s') \<Longrightarrow>
    server_step k again s (if r = Inl Terminated then s'\<lparr>sv_owner := Aborted\<rparr> else s')"
| stop: "stop_step d s = Some s' \<Longrightarrow> server_step k again s s'"
| accept: "sv_owner s \<noteq> Aborted \<Longrightarrow> answer = -1 \<or> answer \<ge> 0 \<and> answer \<notin> sv_fds s \<Longrightarrow>
    server_step k again s (accept_step answer s)"
| client: "sv_owner s \<noteq> Aborted \<Longrightarrow> c \<in> sv_clients s \<Longrightarrow> server_step k again s (client_step c s)"

inductive server_reachable :: "server_class \<Rightarrow> bool \<Rightarrow> server \<Rightarrow> bool" for k again where
  new: "server_reachable k again (server_new host port)"
| step: "server_reachable k again s \<Longrightarrow> server_step k again s s' \<Longrightarrow> server_reachable k again s'"

inductive_cases server_stepE: "server_step k again s s'"

section \<open>Invariants\<close>

definition stopping :: "server \<Rightarrow> bool" where
  "stopping s \<longleftrightarrow> (case sv_owner s of Closing _ \<Rightarrow> True | Forgetting _ \<Rightarrow> True | Joining _ \<Rightarrow> True | _ \<Rightarrow> False)"

text \<open>Outside \<open>stop\<close> a server that does not run has no accepting thread.\<close>

definition thread_inv :: "server \<Rightarrow> bool" where
  "thread_inv s \<longleftrightarrow>
     (sv_owner s = Outside \<and> \<not> sv_running s \<longrightarrow> sv_loop s = No_thread) \<and>
     (stopping s \<longrightarrow> \<not> sv_running s) \<and>
     (sv_owner s = Destroyed \<longrightarrow> \<not> sv_running s \<and> sv_loop s = No_thread)"

definition pending :: "server \<Rightarrow> int set" where
  "pending s = (case sv_loop s of Accepted c \<Rightarrow> {c} | _ \<Rightarrow> {})"

definition listening :: "server \<Rightarrow> int set" where
  "listening s = (if sv_running s \<or> (\<exists>d. sv_owner s = Closing d) then {sv_socket s} else {})"

text \<open>Every open descriptor has one use, when \<open>start\<close> is not called on a running server.\<close>

definition fds_inv :: "server \<Rightarrow> bool" where
  "fds_inv s \<longleftrightarrow>
     sv_fds s = listening s \<union> pending s \<union> sv_clients s \<and> (listening s \<union> pending s) \<inter> sv_clients s = {} \<and>
     listening s \<inter> pending s = {} \<and> -1 \<notin> sv_fds s"

lemmas server_defs = thread_inv_def stopping_def fds_inv_def pending_def listening_def

lemma start_server_cases:
  assumes "start_server k a s = (r, s')"
  obtains (failed) e where "r = Inl e" "e \<noteq> Terminated" "sv_running s' = sv_running s" "sv_loop s' = sv_loop s"
      "sv_owner s' = sv_owner s" "sv_clients s' = sv_clients s"
      "sv_fds s' = (if os_socket a = -1 then sv_fds s else sv_fds s - {os_socket a})"
  | (terminated) "r = Inl Terminated" "sv_loop s \<noteq> No_thread"
      "sv_clients s' = sv_clients s" "sv_running s'" "sv_owner s' = sv_owner s"
  | (started) "r = Inr ()" "sv_loop s = No_thread" "sv_loop s' = Testing" "sv_running s'" "sv_owner s' = sv_owner s"
      "sv_socket s' = os_socket a" "os_socket a \<noteq> -1" "sv_fds s' = insert (os_socket a) (sv_fds s)" "sv_clients s' = sv_clients s"
  using assms that by (auto simp: start_server_def Let_def split: if_splits)

lemma thread_inv_step: "server_step k again s s' \<Longrightarrow> thread_inv s \<Longrightarrow> thread_inv s'"
proof (erule server_stepE)
  fix a r s''
  assume inv: "thread_inv s" and own: "sv_owner s = Outside" and st: "start_server k a s = (r, s'')"
    and s': "s' = (if r = Inl Terminated then s''\<lparr>sv_owner := Aborted\<rparr> else s'')"
  from st show "thread_inv s'" by (cases rule: start_server_cases) (use inv own s' in \<open>auto simp: server_defs\<close>)
next
  fix d
  assume "thread_inv s" "stop_step d s = Some s'"
  then show "thread_inv s'"
    by (auto simp: server_defs stop_step_def stopped_def split: owner_pc.splits loop_pc.splits if_splits)
next
  fix answer
  assume "thread_inv s" "s' = accept_step answer s"
  then show "thread_inv s'" by (auto simp: server_defs accept_step_def split: loop_pc.splits owner_pc.splits)
qed (auto simp: server_defs client_step_def split: owner_pc.splits)

lemma fds_inv_same:
  "fds_inv s \<Longrightarrow> sv_fds s' = sv_fds s \<Longrightarrow> sv_clients s' = sv_clients s \<Longrightarrow> listening s' = listening s \<Longrightarrow>
   pending s' = pending s \<Longrightarrow> fds_inv s'"
  unfolding fds_inv_def by (elim conjE) (intro conjI; simp)

lemma fds_inv_stop:
  assumes "stop_step d s = Some s'" "thread_inv s" "fds_inv s"
  shows "fds_inv s' \<and> sv_owner s' \<noteq> Aborted"
proof (cases "sv_owner s")
  case Outside
  show ?thesis
  proof (cases "sv_running s")
    case True
    then have "s' = s\<lparr>sv_running := False, sv_owner := Closing d\<rparr>" using assms(1) Outside by (simp add: stop_step_def)
    then show ?thesis by (simp add: fds_inv_same [OF assms(3)] listening_def pending_def True)
  next
    case False
    then have "s' = s\<lparr>sv_owner := stopped d\<rparr>" using assms(1) Outside by (simp add: stop_step_def)
    then show ?thesis by (simp add: fds_inv_same [OF assms(3)] listening_def pending_def stopped_def False Outside)
  qed
next
  case (Closing d')
  have run: "\<not> sv_running s" using assms(2) Closing by (simp add: thread_inv_def stopping_def)
  have fds: "sv_fds s = insert (sv_socket s) (pending s \<union> sv_clients s)" "sv_socket s \<notin> pending s \<union> sv_clients s"
    "pending s \<inter> sv_clients s = {}" "-1 \<notin> sv_fds s"
    using assms(3) Closing by (auto simp: fds_inv_def listening_def)
  then have "sv_socket s \<noteq> -1" by auto
  then have s': "s' = s\<lparr>sv_fds := sv_fds s - {sv_socket s}, sv_owner := Forgetting d'\<rparr>"
    using assms(1) Closing by (simp add: stop_step_def)
  have "listening s' = {}" "pending s' = pending s" by (simp_all add: s' listening_def pending_def run)
  then show ?thesis using fds by (auto simp: fds_inv_def s')
next
  case (Forgetting d')
  then have s': "s' = s\<lparr>sv_socket := -1, sv_owner := Joining d'\<rparr>" using assms(1) by (simp add: stop_step_def)
  have run: "\<not> sv_running s" using assms(2) Forgetting by (simp add: thread_inv_def stopping_def)
  then show ?thesis by (simp add: fds_inv_same [OF assms(3)] s' listening_def pending_def Forgetting)
next
  case (Joining d')
  have run: "\<not> sv_running s" using assms(2) Joining by (simp add: thread_inv_def stopping_def)
  have "pending s' = pending s" "sv_owner s' = stopped d'" "sv_fds s' = sv_fds s" "sv_clients s' = sv_clients s"
    "sv_running s' = sv_running s"
    using assms(1) Joining by (auto simp: stop_step_def pending_def split: loop_pc.splits)
  then show ?thesis using Joining run by (simp add: fds_inv_same [OF assms(3)] listening_def stopped_def)
qed (use assms(1) in \<open>simp_all add: stop_step_def\<close>)

lemma fds_inv_accept:
  assumes "answer = -1 \<or> answer \<ge> 0 \<and> answer \<notin> sv_fds s" "fds_inv s"
  shows "fds_inv (accept_step answer s)"
  using assms by (cases "sv_loop s") (auto simp: accept_step_def fds_inv_def listening_def pending_def)

lemma fds_inv_start:
  assumes "start_server k a s = (r, s')" "os_socket a = -1 \<or> os_socket a \<ge> 0 \<and> os_socket a \<notin> sv_fds s"
    and "thread_inv s" "fds_inv s" "sv_owner s = Outside" "\<not> sv_running s"
  shows "fds_inv s' \<and> r \<noteq> Inl Terminated \<and> sv_owner s' = Outside"
proof -
  have loop: "sv_loop s = No_thread" using assms(3,5,6) by (simp add: thread_inv_def)
  have fds: "sv_fds s = sv_clients s" "-1 \<notin> sv_clients s"
    using assms(4-6) loop by (auto simp: fds_inv_def listening_def pending_def)
  from assms(1) show ?thesis
  proof (cases rule: start_server_cases)
    case (failed e)
    then show ?thesis using assms(2,5,6) fds loop by (auto simp: fds_inv_def listening_def pending_def)
  next
    case started
    then show ?thesis using assms(2,5) fds by (auto simp: fds_inv_def listening_def pending_def)
  qed (use loop in simp)
qed

lemma fds_inv_step:
  "server_step k False s s' \<Longrightarrow> thread_inv s \<and> fds_inv s \<and> sv_owner s \<noteq> Aborted \<Longrightarrow> fds_inv s' \<and> sv_owner s' \<noteq> Aborted"
proof (erule server_stepE)
  fix a r s''
  assume "thread_inv s \<and> fds_inv s \<and> sv_owner s \<noteq> Aborted" "sv_owner s = Outside" "False \<or> \<not> sv_running s"
    "os_socket a = -1 \<or> os_socket a \<ge> 0 \<and> os_socket a \<notin> sv_fds s" "start_server k a s = (r, s'')"
    and s': "s' = (if r = Inl Terminated then s''\<lparr>sv_owner := Aborted\<rparr> else s'')"
  then show ?thesis using fds_inv_start [of k a s r s''] by simp
next
  fix d
  assume "thread_inv s \<and> fds_inv s \<and> sv_owner s \<noteq> Aborted" "stop_step d s = Some s'"
  then show ?thesis using fds_inv_stop by blast
next
  fix answer
  assume "thread_inv s \<and> fds_inv s \<and> sv_owner s \<noteq> Aborted" "s' = accept_step answer s"
    "answer = -1 \<or> answer \<ge> 0 \<and> answer \<notin> sv_fds s"
  then show ?thesis using fds_inv_accept by (auto simp: accept_step_def split: loop_pc.split)
next
  fix c
  assume "thread_inv s \<and> fds_inv s \<and> sv_owner s \<noteq> Aborted" "s' = client_step c s" "c \<in> sv_clients s"
  then show ?thesis by (auto simp: client_step_def fds_inv_def listening_def pending_def split: loop_pc.splits)
qed

lemma reachable_thread: "server_reachable k again s \<Longrightarrow> thread_inv s"
proof (induction rule: server_reachable.induct)
  case (step s s')
  then show ?case by (blast intro: thread_inv_step)
qed (simp add: server_new_def thread_inv_def stopping_def)

lemma reachable_fds: "server_reachable k False s \<Longrightarrow> fds_inv s \<and> sv_owner s \<noteq> Aborted"
proof (induction rule: server_reachable.induct)
  case (step s s')
  then show ?case using fds_inv_step reachable_thread by blast
qed (simp add: server_new_def fds_inv_def listening_def pending_def)

section \<open>What stopping guarantees\<close>

text \<open>
  C23: What holds in every state that steps of the owner, of the accepting thread and of the clients can
  reach, in any order and whatever the socket calls answer. If \<open>start\<close> is not called on a running
  server, the process is never aborted. When \<open>stop\<close> has returned, or the destructor, there is no
  accepting thread, and (again if \<open>start\<close> was not called on a running server) the only descriptors
  still open are those of clients whose threads have not ended.
\<close>

theorem server_stopped:
  assumes "server_reachable k again s"
  shows "(\<not> again \<longrightarrow> sv_owner s \<noteq> Aborted)
    \<and> (sv_owner s = Destroyed \<or> sv_owner s = Outside \<and> \<not> sv_running s \<longrightarrow>
         sv_loop s = No_thread \<and> \<not> sv_running s \<and> (\<not> again \<longrightarrow> sv_fds s = sv_clients s))"
proof -
  have "sv_fds s = sv_clients s" if "\<not> again" "sv_loop s = No_thread" "\<not> sv_running s" "sv_owner s = Destroyed \<or> sv_owner s = Outside"
    using reachable_fds [of k s] assms that by (auto simp: fds_inv_def listening_def pending_def)
  then show ?thesis
    using reachable_thread [OF assms] reachable_fds [of k s] assms by (auto simp: thread_inv_def)
qed

text \<open>Some steps, to build states that can be reached.\<close>

definition wit_answers :: os_answers where
  "wit_answers = \<lparr>os_socket = 3, os_address = None, os_bind = True, os_listen = True\<rparr>"

definition wit_started :: "string \<Rightarrow> int \<Rightarrow> server" where
  "wit_started host port = (server_new host port)\<lparr>sv_socket := 3, sv_fds := {3}, sv_bound := Some (0, word_of_int port),
     sv_running := True, sv_loop := Testing\<rparr>"

lemma wit_start: "start_server k wit_answers (server_new host port) = (Inr (), wit_started host port)"
  by (simp add: start_server_def wit_answers_def server_new_def wit_started_def)

lemma wit_started_reachable: "server_reachable k False (wit_started host port)"
proof -
  have "server_step k False (server_new host port)
      (if (Inr () :: unit res) = Inl Terminated then (wit_started host port)\<lparr>sv_owner := Aborted\<rparr> else wit_started host port)"
    by (rule server_step.start [OF _ _ _ wit_start]) (simp_all add: server_new_def wit_answers_def)
  then have "server_step k False (server_new host port) (wit_started host port)" by simp
  with server_reachable.new show ?thesis by (rule server_reachable.step)
qed

text \<open>A schedule of steps: the accepting thread with an answer, or the owner in \<open>stop\<close>.\<close>

datatype life_event = Loop int | Stop bool

fun life_run :: "life_event list \<Rightarrow> server \<Rightarrow> server option" where
  "life_run [] s = Some s"
| "life_run (Loop answer # es) s =
     (if sv_owner s \<noteq> Aborted \<and> (answer = -1 \<or> answer \<ge> 0 \<and> answer \<notin> sv_fds s) then life_run es (accept_step answer s) else None)"
| "life_run (Stop d # es) s = Option.bind (stop_step d s) (life_run es)"

lemma life_run_reachable: "server_reachable k again s \<Longrightarrow> life_run es s = Some s' \<Longrightarrow> server_reachable k again s'"
proof (induction es s rule: life_run.induct)
  case (2 answer es s)
  then show ?case using server_reachable.step [OF 2(2) server_step.accept] by (auto split: if_splits)
next
  case (3 d es s)
  then show ?case using server_reachable.step [OF 3(2) server_step.stop] by (auto simp: bind_eq_Some_conv)
qed simp

definition stop_while_serving :: "life_event list" where
  "stop_while_serving =
     [Loop (-1), Loop 4, Loop (-1), Stop True, Stop True, Stop True, Loop (-1), Stop True]"

text \<open>A server that served a connection and was destroyed while the client thread still runs.\<close>

definition served :: "string \<Rightarrow> int \<Rightarrow> server" where
  "served host port = (wit_started host port)\<lparr>sv_socket := -1, sv_fds := {4}, sv_clients := {4}, sv_running := False,
     sv_loop := No_thread, sv_owner := Destroyed\<rparr>"

lemma served_run: "life_run stop_while_serving (wit_started host port) = Some (served host port)"
  by (simp add: stop_while_serving_def accept_step_def stop_step_def stopped_def wit_started_def server_new_def insert_Diff_if
      served_def)

text \<open>
  The threads of the clients are detached and nothing waits for them: the destructor of a server can
  have returned while a connection is still being handled, by code that uses the server.
\<close>

theorem client_outlives_server:
  "\<exists>s c. server_reachable k False s \<and> sv_owner s = Destroyed \<and> c \<in> sv_clients s"
  using life_run_reachable [OF wit_started_reachable served_run] by (fastforce simp: served_def)

theorem server_stopped_witness:
  "life_run stop_while_serving (wit_started ''::'' 80) = Some (served ''::'' 80) \<and> sv_fds (wit_started ''::'' 80) = {3}
    \<and> sv_loop (wit_started ''::'' 80) = Testing \<and> sv_loop (served ''::'' 80) = No_thread
    \<and> sv_fds (served ''::'' 80) = sv_clients (served ''::'' 80)"
proof -
  have "server_reachable HTTP_SERVER False (served ''::'' 80)"
    by (rule life_run_reachable [OF wit_started_reachable served_run])
  from server_stopped [OF this] show ?thesis
    by (intro conjI) (rule served_run, simp_all add: wit_started_def served_def)
qed

text \<open>
  C24: \<open>stop\<close> of a running server returns once the accepting thread has made three more steps, whatever
  \<open>accept\<close> answers in them: the thread sees the flag at its next test, and \<open>join\<close> then returns.
\<close>

theorem stop_returns:
  assumes "sv_owner s = Outside" "sv_running s" "sv_socket s \<noteq> -1" "sv_loop s \<noteq> No_thread"
  shows "\<exists>s1 s2 s3. stop_step d s = Some s1 \<and> stop_step d s1 = Some s2 \<and> stop_step d s2 = Some s3 \<and>
    (\<forall>a1 a2 a3. \<exists>s'. stop_step d (accept_step a3 (accept_step a2 (accept_step a1 s3))) = Some s' \<and>
       sv_owner s' = stopped d \<and> sv_loop s' = No_thread \<and> \<not> sv_running s')"
proof -
  have ends: "\<not> sv_running t \<Longrightarrow> sv_loop t \<noteq> No_thread \<Longrightarrow>
      sv_loop (accept_step a3 (accept_step a2 (accept_step a1 t))) = Finished \<and>
      sv_owner (accept_step a3 (accept_step a2 (accept_step a1 t))) = sv_owner t \<and>
      \<not> sv_running (accept_step a3 (accept_step a2 (accept_step a1 t)))" for t a1 a2 a3
    by (cases "sv_loop t") (simp_all add: accept_step_def)
  let ?s1 = "s\<lparr>sv_running := False, sv_owner := Closing d\<rparr>"
  let ?s2 = "?s1\<lparr>sv_fds := sv_fds ?s1 - {sv_socket ?s1}, sv_owner := Forgetting d\<rparr>"
  let ?s3 = "?s2\<lparr>sv_socket := -1, sv_owner := Joining d\<rparr>"
  have "stop_step d s = Some ?s1" "stop_step d ?s1 = Some ?s2" "stop_step d ?s2 = Some ?s3"
    using assms by (simp_all add: stop_step_def)
  moreover have "\<exists>s'. stop_step d (accept_step a3 (accept_step a2 (accept_step a1 ?s3))) = Some s' \<and>
       sv_owner s' = stopped d \<and> sv_loop s' = No_thread \<and> \<not> sv_running s'" for a1 a2 a3
    using ends [of ?s3 a3 a2 a1] assms(4) by (simp add: stop_step_def)
  ultimately show ?thesis by blast
qed

theorem stop_returns_witness:
  "\<forall>d a1 a2 a3. \<exists>s1 s2 s3 s'. stop_step d (wit_started ''::'' 80) = Some s1 \<and> stop_step d s1 = Some s2 \<and> stop_step d s2 = Some s3 \<and>
     stop_step d (accept_step a3 (accept_step a2 (accept_step a1 s3))) = Some s' \<and> sv_owner s' = stopped d"
proof (intro allI)
  fix d a1 a2 a3
  show "\<exists>s1 s2 s3 s'. stop_step d (wit_started ''::'' 80) = Some s1 \<and> stop_step d s1 = Some s2 \<and> stop_step d s2 = Some s3 \<and>
     stop_step d (accept_step a3 (accept_step a2 (accept_step a1 s3))) = Some s' \<and> sv_owner s' = stopped d"
    using stop_returns [of "wit_started ''::'' 80" d] by (fastforce simp: wit_started_def server_new_def)
qed

text \<open>Until then it waits: nothing but a connection, or an error, ends the call of \<open>accept\<close>.\<close>

lemma stop_waits: "sv_owner s = Joining d' \<Longrightarrow> sv_loop s = Accepting \<Longrightarrow> stop_step d s = None"
  by (simp add: stop_step_def)

section \<open>What \<open>start\<close> does not check\<close>

text \<open>
  C25: \<open>start\<close> on a running server whose thread is at the test of its loop, when \<open>socket\<close> succeeds. If
  \<open>bind\<close> fails (the server itself occupies the port) or \<open>listen\<close>, it throws, but \<open>server_socket_\<close> now names a
  descriptor that is closed: the server goes on running, and its thread, until the descriptor is used
  again or the server is stopped, only tests the flag and never accepts a connection. If everything succeeds,
  assigning to the running thread aborts the process.
\<close>

theorem second_start:
  assumes "sv_running s" "sv_loop s = Testing" "os_socket a \<noteq> -1"
  shows "if os_bind a \<and> os_listen a then fst (start_server k a s) = Inl Terminated
    else \<exists>e s'. start_server k a s = (Inl (BitcaskException e), s') \<and> sv_running s' \<and>
      (\<forall>answers. fold accept_step answers s' = s')"
proof (cases "os_bind a \<and> os_listen a")
  case True
  then show ?thesis using assms by (simp add: start_server_def Let_def)
next
  case False
  have stuck: "fold accept_step answers t = t" if "accept_step 0 t = t" "sv_loop t = Testing" for answers t
    using that by (induction answers) (auto simp: accept_step_def)
  define e where "e = (if os_bind a then listen_message k else bind_message k)"
  define s' where "s' = snd (start_server k a s)"
  have "start_server k a s = (Inl (BitcaskException e), s')" "sv_running s'" "sv_loop s' = Testing"
    "accept_step 0 s' = s'"
    using assms False by (auto simp: e_def s'_def start_server_def Let_def accept_step_def)
  then show ?thesis using False stuck by auto
qed

theorem second_start_witness:
  "\<exists>e s'. HttpServer_start \<lparr>os_socket = 5, os_address = None, os_bind = False, os_listen = True\<rparr> (wit_started ''::'' 80) =
     (Inl (BitcaskException e), s') \<and> (\<forall>answers. fold accept_step answers s' = s')"
  using second_start [of "wit_started ''::'' 80" "\<lparr>os_socket = 5, os_address = None, os_bind = False, os_listen = True\<rparr>" HTTP_SERVER]
  by (auto simp: wit_started_def server_new_def HttpServer_start_def)

text \<open>
  A host that is no numeric address (\<open>localhost\<close>) makes the server listen on every interface, and a port
  beyond 16 bits on another port.
\<close>

lemma start_binds_any:
  assumes "os_address a = None" "start_server k a s = (Inr (), s')"
  shows "sv_bound s' = Some (0, word_of_int (sv_port s))"
  using assms by (auto simp: start_server_def Let_def split: if_splits)

end
