(* ===== verification/Test_Utils.thy ===== *)
theory Test_Utils
  imports Crc32 File_System Text Complex_Main "HOL-Library.Multiset"
begin

text \<open>
  The utilities of the tests and benchmarks (\<open>include/bitcask/test_utils.h\<close>, \<open>src/test_utils.cpp\<close>):
  the generator of test data, and the helper functions and timer of \<open>TestUtils\<close>. The engine
  \<open>std::mt19937\<close> is a stream of numbers with the count of those that were used; what the standard
  says of the distributions is that a value lies in their range, and every stream is allowed. The
  lemmas show what the generated data satisfy for every stream.
\<close>

section \<open>Random numbers\<close>

record rng =
  rng_numbers :: "nat \<Rightarrow> nat"
  rng_used :: nat

text \<open>A function that draws numbers; \<open>None\<close>: it does not return.\<close>

type_synonym 'a draws = "rng \<Rightarrow> ('a \<times> rng) option"

definition give :: "'a \<Rightarrow> 'a draws" where
  "give a g = Some (a, g)"

definition draw_then :: "'a draws \<Rightarrow> ('a \<Rightarrow> 'b draws) \<Rightarrow> 'b draws" where
  "draw_then m f g = (case m g of None \<Rightarrow> None | Some (a, g) \<Rightarrow> f a g)"

fun for_each :: "('i \<Rightarrow> 'a draws) \<Rightarrow> 'i list \<Rightarrow> 'a list draws" where
  "for_each f [] = give []"
| "for_each f (i # is) = draw_then (f i) (\<lambda>a. draw_then (for_each f is) (\<lambda>as. give (a # as)))"

definition next_number :: "rng \<Rightarrow> nat \<times> rng" where
  "next_number g = (rng_numbers g (rng_used g), g\<lparr>rng_used := rng_used g + 1\<rparr>)"

text \<open>\<open>std::uniform_int_distribution(lo, hi)\<close> and \<open>std::uniform_real_distribution(lo, hi)\<close>\<close>

definition uniform_int :: "int \<Rightarrow> int \<Rightarrow> int draws" where
  "uniform_int lo hi g =
     (case next_number g of (n, g) \<Rightarrow> give (lo + int n mod (hi - lo + 1)) g)"

definition uniform_nat :: "nat \<Rightarrow> nat \<Rightarrow> nat draws" where
  "uniform_nat lo hi = draw_then (uniform_int (int lo) (int hi)) (\<lambda>i. give (nat i))"

definition uniform_real :: "rat \<Rightarrow> rat \<Rightarrow> rat draws" where
  "uniform_real lo hi g =
     (case next_number g of (n, g) \<Rightarrow> give (lo + (hi - lo) * (of_nat (n mod 2 ^ 53) / 2 ^ 53)) g)"

text \<open>\<open>std::shuffle\<close>: every position is swapped with one that is not after it.\<close>

definition swap_at :: "nat \<Rightarrow> nat \<Rightarrow> 'a list \<Rightarrow> 'a list" where
  "swap_at i j xs = xs[i := xs ! j, j := xs ! i]"

fun shuffle_from :: "nat list \<Rightarrow> 'a list \<Rightarrow> 'a list draws" where
  "shuffle_from [] xs = give xs"
| "shuffle_from (i # is) xs = draw_then (uniform_nat 0 i) (\<lambda>j. shuffle_from is (swap_at i j xs))"

definition shuffle :: "'a list \<Rightarrow> 'a list draws" where
  "shuffle xs = shuffle_from [1..<length xs] xs"

section \<open>\<open>TestDataGenerator\<close>\<close>

text \<open>\<open>engine\<close> is what \<open>std::mt19937\<close> yields from a seed; \<open>now\<close> is the time.\<close>

definition TestDataGenerator_new :: "(nat \<Rightarrow> nat \<Rightarrow> nat) \<Rightarrow> nat \<Rightarrow> u32 \<Rightarrow> rng" where
  "TestDataGenerator_new engine now seed =
     \<lparr>rng_numbers = engine (if seed = 0 then now else unat seed), rng_used = 0\<rparr>"

text \<open>\<open>do { byte_val = byte_dist_(rng_); } while (!allow_zero && byte_val == 0)\<close>\<close>

partial_function (option) draw_byte :: "bool \<Rightarrow> rng \<Rightarrow> (u8 \<times> rng) option" where
  "draw_byte allow_zero g =
     (case next_number g of (n, g) \<Rightarrow>
        (let byte_val = of_nat (n mod 256) in
         if \<not> allow_zero \<and> byte_val = 0 then draw_byte allow_zero g else Some (byte_val, g)))"

definition generate_random_data :: "nat \<Rightarrow> bool \<Rightarrow> bytes draws" where
  "generate_random_data len allow_zero = for_each (\<lambda>_. draw_byte allow_zero) [0..<len]"

definition random_bytes :: "nat \<Rightarrow> bytes draws" where
  "random_bytes len = generate_random_data len True"

definition random_string :: "nat \<Rightarrow> string \<Rightarrow> string draws" where
  "random_string len charset =
     (if charset = [] then give []
      else for_each (\<lambda>_. draw_then (uniform_nat 0 (length charset - 1)) (\<lambda>i. give (charset ! i))) [0..<len])"

definition alphanumeric :: string where
  "alphanumeric = ''ABCDEFGHIJKLMNOPQRSTUVWXYZabcdefghijklmnopqrstuvwxyz0123456789''"

definition random_key :: "nat \<Rightarrow> nat \<Rightarrow> bytes draws" where
  "random_key min_length max_length =
     draw_then (uniform_nat min_length max_length) (\<lambda>len.
       draw_then (random_string len alphanumeric) (\<lambda>key_str. give (string_to_bytes key_str)))"

definition random_value :: "nat \<Rightarrow> nat \<Rightarrow> bytes draws" where
  "random_value min_length max_length =
     draw_then (uniform_nat min_length max_length) (\<lambda>len. generate_random_data len True)"

definition random_int :: "int \<Rightarrow> int \<Rightarrow> int draws" where
  "random_int lo hi = uniform_int lo hi"

definition random_double :: "rat \<Rightarrow> rat \<Rightarrow> rat draws" where
  "random_double lo hi = uniform_real lo hi"

text \<open>Pairs of a key and a value; the default lengths are those of the header.\<close>

definition random_kv_pairs :: "nat \<Rightarrow> nat \<Rightarrow> nat \<Rightarrow> (bytes \<times> bytes) list draws" where
  "random_kv_pairs n_pairs key_size value_size =
     for_each (\<lambda>_.
       draw_then (if key_size = 0 then random_key 8 32 else random_key key_size key_size) (\<lambda>key.
       draw_then (if value_size = 0 then random_value 64 1024 else random_value value_size value_size) (\<lambda>v.
       give (key, v)))) [0..<n_pairs]"

definition ordered_key :: "string \<Rightarrow> nat \<Rightarrow> bytes" where
  "ordered_key key_prefix i = string_to_bytes (key_prefix @ pad_left 10 (CHR ''0'') (show_nat i))"

definition ordered_kv_pairs :: "nat \<Rightarrow> string \<Rightarrow> nat \<Rightarrow> (bytes \<times> bytes) list draws" where
  "ordered_kv_pairs n_pairs key_prefix value_size =
     for_each (\<lambda>i. draw_then (random_value value_size value_size) (\<lambda>v. give (ordered_key key_prefix i, v)))
       [0..<n_pairs]"

definition duplicate_key_pairs :: "bytes list \<Rightarrow> nat \<Rightarrow> (bytes \<times> bytes) list draws" where
  "duplicate_key_pairs base_keys repeat_factor =
     draw_then (for_each (\<lambda>key. draw_then (random_value 64 1024) (\<lambda>v. give (key, v)))
                  (concat (replicate repeat_factor base_keys)))
       shuffle"

definition binary_safe_data :: "nat \<Rightarrow> bytes draws" where
  "binary_safe_data len = shuffle (map (\<lambda>i. of_nat (i mod 256)) [0..<len])"

record performance_data =
  pt_kv_pairs :: "(bytes \<times> bytes) list"
  pt_operations :: "bool list"
  pt_indices :: "nat list"

definition performance_operation :: "nat \<Rightarrow> rat \<Rightarrow> nat \<Rightarrow> (bool \<times> nat) draws" where
  "performance_operation n_pairs write_ratio i =
     draw_then (uniform_real 0 1) (\<lambda>x.
       if x < write_ratio then give (True, i)
       else draw_then (uniform_nat 0 (n_pairs - 1)) (\<lambda>j. give (False, j)))"

definition performance_test_data :: "nat \<Rightarrow> nat \<Rightarrow> nat \<Rightarrow> rat \<Rightarrow> performance_data draws" where
  "performance_test_data n_pairs key_size value_size write_ratio =
     draw_then (random_kv_pairs n_pairs key_size value_size) (\<lambda>pairs.
       draw_then (for_each (performance_operation n_pairs write_ratio) [0..<n_pairs]) (\<lambda>ops.
         give \<lparr>pt_kv_pairs = pairs, pt_operations = map fst ops, pt_indices = map snd ops\<rparr>))"

section \<open>\<open>TestUtils\<close>\<close>

definition bytes_equal :: "bytes \<Rightarrow> bytes \<Rightarrow> bool" where
  "bytes_equal a b \<longleftrightarrow> a = b"

text \<open>\<open>utils::create_dir\<close> returns true whatever \<open>mkdir\<close> answered.\<close>

definition create_dir :: "string \<Rightarrow> fsys \<Rightarrow> bool \<times> fsys" where
  "create_dir path fs = (True, create_directory path fs)"

definition create_temp_dir :: "nat \<Rightarrow> string \<Rightarrow> fsys \<Rightarrow> string \<times> fsys" where
  "create_temp_dir now prefix fs =
     (let full_path = ''/tmp/'' @ prefix @ show_nat now in
      case create_dir full_path fs of (ok, fs) \<Rightarrow> (if ok then full_path else [], fs))"

text \<open>\<open>remove_directory\<close> fails only if the directory cannot be opened: the modelled system removes the rest.\<close>

definition remove_dir :: "string \<Rightarrow> fsys \<Rightarrow> bool \<times> fsys" where
  "remove_dir dir_path fs = (directory_exists dir_path fs, remove_directory dir_path fs)"

definition get_dir_size :: "string \<Rightarrow> fsys \<Rightarrow> u64" where
  "get_dir_size dir_path fs = dir_size dir_path fs"

text \<open>
  The build with zlib, and the built-in routine, compute the same checksum (\<open>Crc32\<close>); the external
  library, when the build finds it, computes another.
\<close>

definition checksum :: "bytes \<Rightarrow> u32" where
  "checksum data = Crc32c data"

text \<open>
  Division with rounding to nearest, ties to even, which is how \<open>static_cast<double>\<close> and the output
  of a number with two decimals round. A \<open>double\<close> has 53 significant bits; dividing it by 1024 is
  exact, so that the number in \<open>size\<close> is a natural number divided by a power of 1024.
\<close>

definition round_half_even :: "nat \<Rightarrow> nat \<Rightarrow> nat" where
  "round_half_even a b =
     (let q = a div b; r = a mod b in if 2 * r < b \<or> 2 * r = b \<and> even q then q else q + 1)"

fun lost_bits :: "nat \<Rightarrow> nat" where
  "lost_bits n = (if n < 2 ^ 53 then 0 else Suc (lost_bits (n div 2)))"

declare lost_bits.simps [simp del]

definition double_of_nat :: "nat \<Rightarrow> nat" where
  "double_of_nat n = round_half_even n (2 ^ lost_bits n) * 2 ^ lost_bits n"

function unit_loop :: "nat \<Rightarrow> nat \<Rightarrow> nat" where
  "unit_loop d unit_index =
     (if d \<ge> 1024 ^ Suc unit_index \<and> unit_index < 4 then unit_loop d (Suc unit_index) else unit_index)"
  by pat_completeness auto
termination
  by (relation "measure (\<lambda>(d, unit_index). 4 - unit_index)") auto

declare unit_loop.simps [simp del]

definition show_fixed2 :: "nat \<Rightarrow> nat \<Rightarrow> string" where
  "show_fixed2 a b =
     (let hundredths = round_half_even (100 * a) b in
      show_nat (hundredths div 100) @ ''.'' @ pad_left 2 (CHR ''0'') (show_nat (hundredths mod 100)))"

definition format_bytes :: "nat \<Rightarrow> string" where
  "format_bytes n =
     (let d = double_of_nat n; unit_index = unit_loop d 0 in
      show_fixed2 d (1024 ^ unit_index) @ '' '' @ [''B'', ''KB'', ''MB'', ''GB'', ''TB''] ! unit_index)"

text \<open>The timer; times are in nanoseconds.\<close>

record timer =
  tm_start_time :: int
  tm_end_time :: int
  tm_started :: bool
  tm_stopped :: bool

definition Timer_new :: timer where
  "Timer_new = \<lparr>tm_start_time = 0, tm_end_time = 0, tm_started = False, tm_stopped = False\<rparr>"

definition Timer_start :: "int \<Rightarrow> timer \<Rightarrow> timer" where
  "Timer_start now t = t\<lparr>tm_start_time := now, tm_started := True, tm_stopped := False\<rparr>"

definition Timer_stop :: "int \<Rightarrow> timer \<Rightarrow> timer" where
  "Timer_stop now t = (if tm_started t then t\<lparr>tm_end_time := now, tm_stopped := True\<rparr> else t)"

text \<open>The duration in microseconds, cut towards zero; the clock need not be monotone.\<close>

definition timer_us :: "int \<Rightarrow> timer \<Rightarrow> int" where
  "timer_us now t =
     (let d = (if tm_stopped t then tm_end_time t else now) - tm_start_time t in
      if d < 0 then - ((- d) div 1000) else d div 1000)"

definition elapsed_us :: "int \<Rightarrow> timer \<Rightarrow> int" where
  "elapsed_us now t = (if \<not> tm_started t then 0 else timer_us now t)"

definition elapsed_ms :: "int \<Rightarrow> timer \<Rightarrow> rat" where
  "elapsed_ms now t = (if \<not> tm_started t then 0 else of_int (timer_us now t) / 1000)"

section \<open>What is generated\<close>

text \<open>Whatever the numbers are, \<open>m\<close> returns something that satisfies \<open>P\<close>.\<close>

definition yields :: "'a draws \<Rightarrow> ('a \<Rightarrow> bool) \<Rightarrow> bool" where
  "yields m P \<longleftrightarrow> (\<forall>g. \<exists>a g'. m g = Some (a, g') \<and> P a)"

lemma yields_give [simp]: "yields (give a) P \<longleftrightarrow> P a"
  by (simp add: yields_def give_def)

lemma yields_True: "yields m (\<lambda>_. True) \<longleftrightarrow> (\<forall>g. m g \<noteq> None)"
  by (auto simp: yields_def)

lemma yields_then: "yields m P \<Longrightarrow> (\<And>a. P a \<Longrightarrow> yields (f a) Q) \<Longrightarrow> yields (draw_then m f) Q"
  unfolding yields_def draw_then_def by (fastforce split: option.split)

lemma yields_mono: "yields m P \<Longrightarrow> (\<And>a. P a \<Longrightarrow> Q a) \<Longrightarrow> yields m Q"
  unfolding yields_def by blast

lemma yields_for_each:
  "(\<And>i. i \<in> set is \<Longrightarrow> yields (f i) (P i)) \<Longrightarrow> yields (for_each f is) (list_all2 P is)"
proof (induction "is")
  case (Cons i "is")
  then have "yields (f i) (P i)" "yields (for_each f is) (list_all2 P is)" by simp_all
  then show ?case by (auto intro!: yields_then [where P = "P i"] yields_then [where P = "list_all2 P is"])
qed simp

lemma list_all2_all: "list_all2 (\<lambda>_. P) is as \<Longrightarrow> length as = length is \<and> (\<forall>a \<in> set as. P a)"
  by (induction rule: list_all2_induct) simp_all

lemma yields_uniform_int: "lo \<le> hi \<Longrightarrow> yields (uniform_int lo hi) (\<lambda>i. lo \<le> i \<and> i \<le> hi)"
  by (auto simp: yields_def uniform_int_def give_def next_number_def)
    (smt (verit) pos_mod_bound)

lemma yields_uniform_nat: "lo \<le> hi \<Longrightarrow> yields (uniform_nat lo hi) (\<lambda>i. lo \<le> i \<and> i \<le> hi)"
  unfolding uniform_nat_def by (rule yields_then [OF yields_uniform_int]) auto

lemma mset_swap_at: "i < length xs \<Longrightarrow> j < length xs \<Longrightarrow> mset (swap_at i j xs) = mset xs"
  by (simp add: swap_at_def Multiset.mset_swap)

lemma swap_at_length: "length (swap_at i j xs) = length xs"
  by (simp add: swap_at_def)

lemma yields_shuffle_from:
  "\<forall>i \<in> set is. i < length ys \<Longrightarrow> yields (shuffle_from is ys) (\<lambda>zs. mset zs = mset ys)"
proof (induction "is" arbitrary: ys)
  case (Cons i "is")
  have "yields (shuffle_from is (swap_at i j ys)) (\<lambda>zs. mset zs = mset ys)" if "j \<le> i" for j
  proof -
    have "mset (swap_at i j ys) = mset ys" "length (swap_at i j ys) = length ys"
      using Cons.prems that by (simp_all add: mset_swap_at swap_at_length)
    then show ?thesis using Cons.IH [of "swap_at i j ys"] Cons.prems by simp
  qed
  then show ?case by (auto intro: yields_then [OF yields_uniform_nat [of 0]])
qed simp

lemma yields_shuffle: "yields (shuffle xs) (\<lambda>ys. mset ys = mset xs)"
  unfolding shuffle_def by (rule yields_shuffle_from) simp

lemma yields_byte: "yields (draw_byte True) (\<lambda>_. True)"
  by (subst yields_def, subst draw_byte.simps) (simp add: next_number_def)

lemma yields_data: "yields (generate_random_data n True) (\<lambda>b. length b = n)"
  unfolding generate_random_data_def
  by (rule yields_mono [OF yields_for_each [where P = "\<lambda>_ _. True"]]) (auto simp: yields_byte dest: list_all2_lengthD)

lemma yields_value: "lo \<le> hi \<Longrightarrow> yields (random_value lo hi) (\<lambda>b. lo \<le> length b \<and> length b \<le> hi)"
  unfolding random_value_def by (rule yields_then [OF yields_uniform_nat], assumption, rule yields_mono [OF yields_data]) simp

lemma yields_string:
  "yields (random_string n charset) (\<lambda>s. set s \<subseteq> set charset \<and> length s = (if charset = [] then 0 else n))"
proof (cases "charset = []")
  case False
  have "yields (draw_then (uniform_nat 0 (length charset - 1)) (\<lambda>i. give (charset ! i))) (\<lambda>c. c \<in> set charset)"
    by (rule yields_then [OF yields_uniform_nat [of 0]]) (use False in \<open>auto intro!: nth_mem\<close>, cases charset, auto)
  then have "yields (random_string n charset) (list_all2 (\<lambda>_ c. c \<in> set charset) [0..<n])"
    unfolding random_string_def using False by (auto intro: yields_for_each)
  then show ?thesis
    by (rule yields_mono) (use False in \<open>auto dest!: list_all2_all\<close>)
qed (simp add: random_string_def)

text \<open>A key consists of letters and digits, and is never empty when the lower bound is not 0.\<close>

lemma yields_key:
  assumes "lo \<le> hi"
  shows "yields (random_key lo hi) (\<lambda>b. lo \<le> length b \<and> length b \<le> hi \<and> (\<exists>s. b = string_to_bytes s \<and> set s \<subseteq> set alphanumeric))"
  unfolding random_key_def
  by (rule yields_then [OF yields_uniform_nat [OF assms]], rule yields_then [OF yields_string])
    (auto simp: alphanumeric_def)

lemma yields_pairs:
  assumes "0 < key_size" "0 < value_size"
  shows "yields (random_kv_pairs n key_size value_size)
    (\<lambda>ps. length ps = n \<and> (\<forall>p \<in> set ps. length (fst p) = key_size \<and> length (snd p) = value_size))"
proof -
  let ?P = "\<lambda>_ p. length (fst p) = key_size \<and> length (snd p) = value_size"
  have "yields (random_kv_pairs n key_size value_size) (list_all2 ?P [0..<n])"
    unfolding random_kv_pairs_def using assms
    by (auto intro!: yields_for_each yields_then [OF yields_key] yields_then [OF yields_value])
  then show ?thesis by (rule yields_mono) (auto dest!: list_all2_all)
qed

text \<open>Every index of the operations is one of a pair.\<close>

lemma yields_performance:
  assumes "0 < key_size" "0 < value_size"
  shows "yields (performance_test_data n key_size value_size ratio)
    (\<lambda>d. length (pt_kv_pairs d) = n \<and> length (pt_operations d) = n \<and> length (pt_indices d) = n \<and> (\<forall>i \<in> set (pt_indices d). i < n))"
proof -
  have real: "yields (uniform_real 0 1) (\<lambda>_. True)"
    unfolding yields_True by (simp add: uniform_real_def give_def next_number_def)
  have "yields (performance_operation n ratio i) (\<lambda>r. snd r < n)" if "i < n" for i
  proof -
    have "yields (draw_then (uniform_nat 0 (n - 1)) (\<lambda>j. give (False, j))) (\<lambda>r. snd r < n)"
      by (rule yields_then [OF yields_uniform_nat [of 0]]) (use that in auto)
    then show ?thesis unfolding performance_operation_def
      by (intro yields_then [OF real]) (simp add: that)
  qed
  then have "yields (for_each (performance_operation n ratio) [0..<n]) (list_all2 (\<lambda>_ r. snd r < n) [0..<n])"
    by (intro yields_for_each) simp
  then show ?thesis unfolding performance_test_data_def
    by (rule_tac yields_then [OF yields_pairs [OF assms]], rule_tac yields_then, assumption)
      (auto dest!: list_all2_all)
qed

text \<open>Every base key occurs \<open>repeat_factor\<close> times as often as in the list; the data of all bytes.\<close>

lemma yields_duplicates:
  "yields (duplicate_key_pairs ks n) (\<lambda>ps. mset (map fst ps) = repeat_mset n (mset ks))"
proof -
  let ?ks = "concat (replicate n ks)"
  have pairs: "yields (for_each (\<lambda>k. draw_then (random_value 64 1024) (\<lambda>v. give (k, v))) ?ks) (list_all2 (\<lambda>k p. fst p = k) ?ks)"
    by (intro yields_for_each yields_then [OF yields_value]) simp_all
  have ks: "mset ?ks = repeat_mset n (mset ks)" by (induction n) simp_all
  have fst: "list_all2 (\<lambda>k p. fst p = k) xs ps \<Longrightarrow> map fst ps = xs" for xs :: "bytes list" and ps :: "(bytes \<times> bytes) list"
    by (induction rule: list_all2_induct) simp_all
  show ?thesis unfolding duplicate_key_pairs_def
  proof (rule yields_then [OF pairs])
    fix ps :: "(bytes \<times> bytes) list"
    assume "list_all2 (\<lambda>k p. fst p = k) ?ks ps"
    then have "map fst ps = ?ks" by (rule fst)
    then have "mset qs = mset ps \<Longrightarrow> mset (map fst qs) = repeat_mset n (mset ks)" for qs
      using ks by (metis mset_map)
    then show "yields (shuffle ps) (\<lambda>ps. mset (map fst ps) = repeat_mset n (mset ks))"
      by (rule yields_mono [OF yields_shuffle])
  qed
qed

lemma yields_binary_safe: "yields (binary_safe_data n) (\<lambda>b. mset b = mset (map (\<lambda>i. of_nat (i mod 256)) [0..<n]))"
  unfolding binary_safe_data_def by (rule yields_shuffle)

text \<open>
  Without zero bytes, the loop that draws a byte returns when another byte than zero comes, and does not
  when none does.
\<close>

lemma draw_byte_returns: "rng_numbers g (rng_used g + n) mod 256 \<noteq> 0 \<Longrightarrow> \<exists>b g'. draw_byte False g = Some (b, g') \<and> b \<noteq> 0"
proof (induction n arbitrary: g)
  case 0
  then have "(of_nat (rng_numbers g (rng_used g) mod 256) :: u8) \<noteq> 0" by (simp add: word_of_nat_eq_0_iff mod_eq_0_iff_dvd [symmetric])
  then show ?case by (subst draw_byte.simps) (simp add: next_number_def)
next
  case (Suc n)
  have "\<exists>b g'. draw_byte False (g\<lparr>rng_used := rng_used g + 1\<rparr>) = Some (b, g') \<and> b \<noteq> 0" using Suc by simp
  then show ?case by (subst draw_byte.simps) (simp add: next_number_def Let_def)
qed

lemma draw_byte_nonzero: "draw_byte z g = Some y \<Longrightarrow> \<not> z \<longrightarrow> (\<exists>n. rng_numbers g (rng_used g + n) mod 256 \<noteq> 0)"
proof (erule draw_byte.raw_induct [where P = "\<lambda>z g y. \<not> z \<longrightarrow> (\<exists>n. rng_numbers g (rng_used g + n) mod 256 \<noteq> 0)", rotated])
  fix draw z g y
  assume 1: "\<And>z g y. draw z g = Some y \<Longrightarrow> \<not> z \<longrightarrow> (\<exists>n. rng_numbers g (rng_used g + n) mod 256 \<noteq> 0)"
    "(case next_number g of (n, g) \<Rightarrow> let byte_val = of_nat (n mod 256) in
       if \<not> z \<and> byte_val = 0 then draw z g else Some (byte_val, g)) = Some y"
  show "\<not> z \<longrightarrow> (\<exists>n. rng_numbers g (rng_used g + n) mod 256 \<noteq> 0)"
  proof (intro impI)
    assume z: "\<not> z"
    show "\<exists>n. rng_numbers g (rng_used g + n) mod 256 \<noteq> 0"
    proof (cases "rng_numbers g (rng_used g + 0) mod 256 = 0")
      case True
      then have "draw z (g\<lparr>rng_used := rng_used g + 1\<rparr>) = Some y" using 1(2) z by (simp add: next_number_def Let_def)
      from 1(1) [OF this] z obtain n where "rng_numbers g (rng_used g + (1 + n)) mod 256 \<noteq> 0" by auto
      then show ?thesis by (rule exI)
    qed blast
  qed
qed

lemma draw_byte_loops: "\<forall>n. rng_numbers g (rng_used g + n) mod 256 = 0 \<Longrightarrow> draw_byte False g = None"
  using draw_byte_nonzero [of False g] by (cases "draw_byte False g") auto

section \<open>Ordered keys\<close>

lemma less_same_prefix: "(p @ a :: 'a :: order list) < p @ b \<longleftrightarrow> a < b"
  by (induction p) simp_all

lemma digits_val_Cons: "digits_val (c # s) = digit_val c * 10 ^ length s + digits_val s"
  by (induction s rule: rev_induct) (simp_all add: digits_val_def algebra_simps)

lemma digits_val_less: "(\<forall>c \<in> set s. is_digit c) \<Longrightarrow> digits_val s < 10 ^ length s"
proof (induction s)
  case (Cons c s)
  have "digit_val c \<le> 9" using Cons.prems by (simp add: is_digit_def digit_val_def le_diff_conv)
  then have "digit_val c * 10 ^ length s \<le> 9 * 10 ^ length s" by simp
  moreover have "digits_val s < 10 ^ length s" using Cons by simp
  ultimately have "digit_val c * 10 ^ length s + digits_val s < 10 * 10 ^ length s" by linarith
  then show ?case by (simp add: digits_val_Cons)
qed simp

lemma byte_less: "(word_of_nat (of_char c) :: u8) < word_of_nat (of_char d) \<longleftrightarrow> (of_char c :: nat) < of_char d"
  by (simp add: word_less_nat_alt unat_of_nat take_bit_eq_mod)

lemma digits_less:
  assumes "length s = length t" "\<forall>c \<in> set s. is_digit c" "\<forall>c \<in> set t. is_digit c" "digits_val s < digits_val t"
  shows "string_to_bytes s < string_to_bytes t"
  using assms
proof (induction s t rule: list_induct2)
  case (Cons c s d t)
  consider "digit_val c < digit_val d" | "digit_val c = digit_val d" | "digit_val d < digit_val c" by linarith
  then show ?case
  proof cases
    case 1
    then have "(of_char c :: nat) < of_char d" unfolding digit_val_def by linarith
    then show ?thesis by (simp add: string_to_bytes_def byte_less)
  next
    case 2
    moreover have "48 \<le> (of_char c :: nat)" "48 \<le> (of_char d :: nat)" using Cons.prems by (simp_all add: is_digit_def)
    ultimately have "(of_char c :: nat) = of_char d" unfolding digit_val_def by linarith
    then have "c = d" by simp
    then show ?thesis using Cons 2 by (simp add: string_to_bytes_def digits_val_Cons)
  next
    case 3
    then have "digit_val c \<ge> digit_val d + 1" by simp
    then have "digit_val c * 10 ^ length t \<ge> (digit_val d + 1) * 10 ^ length t" by (rule mult_right_mono) simp
    then show ?thesis using Cons digits_val_less [of t] by (simp add: digits_val_Cons)
  qed
qed simp

lemma string_to_bytes_append: "string_to_bytes (s @ t) = string_to_bytes s @ string_to_bytes t"
  by (simp add: string_to_bytes_def)

lemma digit_char_zero: "digit_char 0 = CHR ''0''"
  by code_simp

lemma show_nat_step:
  "n < 10 \<Longrightarrow> show_nat n = [digit_char n]" "10 \<le> n \<Longrightarrow> show_nat n = show_nat (n div 10) @ [digit_char (n mod 10)]"
  by (subst show_nat.simps, simp)+

lemma length_show_nat: "n < 10 ^ k \<Longrightarrow> 0 < k \<Longrightarrow> length (show_nat n) \<le> k"
proof (induction n arbitrary: k rule: show_nat.induct)
  case (1 n)
  show ?case
  proof (cases "n < 10")
    case True
    then show ?thesis using 1 by (subst show_nat.simps) simp
  next
    case False
    then obtain k' where k: "k = Suc k'" "0 < k'" using 1 by (cases k; cases "k - 1") auto
    then have "n div 10 < 10 ^ k'" using 1 by (simp add: less_mult_imp_div_less)
    then show ?thesis using 1 False k by (subst show_nat.simps) simp
  qed
qed

text \<open>
  The keys of \<open>ordered_kv_pairs\<close> are increasing in the order of the index, as long as their numbers
  fit into the ten digits: at most ten thousand millions. All values have the length asked for,
  whatever the random numbers are.
\<close>

theorem ordered_kv_pairs_sorted:
  assumes "n \<le> 10 ^ 10"
  shows "\<exists>ps g'. ordered_kv_pairs n key_prefix value_size g = Some (ps, g') \<and> length ps = n
    \<and> sorted (map fst ps) \<and> distinct (map fst ps) \<and> (\<forall>p \<in> set ps. length (snd p) = value_size)"
proof -
  let ?P = "\<lambda>i p. fst p = ordered_key key_prefix i \<and> length (snd p) = value_size"
  have "yields (ordered_kv_pairs n key_prefix value_size) (list_all2 ?P [0..<n])"
    unfolding ordered_kv_pairs_def by (intro yields_for_each yields_then [OF yields_value [OF order_refl]]) simp
  then obtain ps g' where run: "ordered_kv_pairs n key_prefix value_size g = Some (ps, g')" and ps: "list_all2 ?P [0..<n] ps"
    unfolding yields_def by blast
  have nth: "length ps = n" "\<And>i. i < n \<Longrightarrow> ?P i (ps ! i)" using ps by (simp_all add: list_all2_conv_all_nth)
  have pad: "length (pad_left 10 (CHR ''0'') (show_nat i)) = 10" "digits_val (pad_left 10 (CHR ''0'') (show_nat i)) = i"
    "\<forall>c \<in> set (pad_left 10 (CHR ''0'') (show_nat i)). is_digit c" if "i < n" for i
    using that assms length_show_nat [of i 10] digits_val_zeros [of _ "show_nat i"] pad_left_digits [of _ 10 i]
    by (auto simp: pad_left_def digit_char_zero)
  have less: "map fst ps ! i < map fst ps ! j" if "i < j" "j < n" for i j
  proof -
    have "ordered_key key_prefix i < ordered_key key_prefix j"
      unfolding ordered_key_def string_to_bytes_append less_same_prefix
      by (rule digits_less) (use that pad [of i] pad [of j] in auto)
    then show ?thesis using nth that by simp
  qed
  then have "sorted_wrt (<) (map fst ps)" by (simp add: sorted_wrt_iff_nth_less nth(1))
  then have "sorted (map fst ps) \<and> distinct (map fst ps)" by (simp add: strict_sorted_iff)
  moreover have "\<forall>p \<in> set ps. length (snd p) = value_size" using nth by (metis in_set_conv_nth)
  ultimately show ?thesis using run nth(1) by blast
qed

theorem ordered_kv_pairs_sorted_witness:
  "\<exists>ps g'. ordered_kv_pairs 3 ''key_'' 16 \<lparr>rng_numbers = (\<lambda>i. i), rng_used = 0\<rparr> = Some (ps, g') \<and> sorted (map fst ps)"
  using ordered_kv_pairs_sorted [of 3 "''key_''" 16 "\<lparr>rng_numbers = (\<lambda>i. i), rng_used = 0\<rparr>"] by auto

text \<open>One more pair, and the last key is smaller than the one before.\<close>

lemma ordered_keys_limit: "ordered_key p (10 ^ 10) < ordered_key p (10 ^ 10 - 1)"
  unfolding ordered_key_def string_to_bytes_append less_same_prefix
  by (simp add: pad_left_def show_nat_step string_to_bytes_def byte_less of_char_digit)

section \<open>The helpers\<close>

text \<open>The unit is the greatest that the number reaches, up to terabytes.\<close>

lemma unit_loop_range: "k \<le> 4 \<Longrightarrow> d \<ge> 1024 ^ k \<or> k = 0 \<Longrightarrow>
    unit_loop d k \<le> 4 \<and> (d \<ge> 1024 ^ unit_loop d k \<or> unit_loop d k = 0) \<and> (unit_loop d k < 4 \<longrightarrow> d < 1024 ^ Suc (unit_loop d k))"
proof (induction d k rule: unit_loop.induct)
  case (1 d k)
  then show ?case by (subst (1 2 3 4 5) unit_loop.simps) auto
qed

text \<open>Rounding is to the nearest: by at most half of the divisor.\<close>

lemma round_half_even_nearest:
  assumes "0 < b"
  shows "2 * \<bar>int (round_half_even a b * b) - int a\<bar> \<le> int b"
proof -
  have "int a = int (a div b) * int b + int (a mod b)" by (metis div_mult_mod_eq of_nat_add of_nat_mult)
  moreover have "a mod b < b" using assms by simp
  ultimately show ?thesis by (auto simp: round_half_even_def Let_def algebra_simps)
qed

lemma double_of_nat_exact: "n < 2 ^ 53 \<Longrightarrow> double_of_nat n = n"
  by (simp add: double_of_nat_def lost_bits.simps round_half_even_def)

text \<open>The rounded number can reach the next unit.\<close>

lemma unit_loop_step:
  "1024 ^ Suc k \<le> d \<Longrightarrow> k < 4 \<Longrightarrow> unit_loop d k = unit_loop d (Suc k)"
  "\<not> (1024 ^ Suc k \<le> d \<and> k < 4) \<Longrightarrow> unit_loop d k = k"
  by (subst unit_loop.simps, simp)+

lemma digit_chars: "digit_char 0 = CHR ''0''" "digit_char 1 = CHR ''1''" "digit_char 2 = CHR ''2''" "digit_char 4 = CHR ''4''"
  "digit_char 5 = CHR ''5''"
  by code_simp+

lemma format_bytes_examples:
  "format_bytes 0 = ''0.00 B''" "format_bytes 1536 = ''1.50 KB''" "format_bytes 1048575 = ''1024.00 KB''"
  unfolding format_bytes_def Let_def show_fixed2_def
  by (simp_all add: double_of_nat_exact unit_loop_step round_half_even_def show_nat_step pad_left_def digit_chars [simplified])

lemma timer_measures:
  "tm_started t \<Longrightarrow> tm_start_time t \<le> b \<Longrightarrow> elapsed_us now (Timer_stop b t) = (b - tm_start_time t) div 1000"
  "elapsed_us now (Timer_stop b Timer_new) = 0"
  "a \<le> now \<Longrightarrow> elapsed_us now (Timer_start a t) = (now - a) div 1000"
  by (simp_all add: elapsed_us_def timer_us_def Timer_stop_def Timer_start_def Timer_new_def)

lemma elapsed_units: "elapsed_ms now t = of_int (elapsed_us now t) / 1000"
  by (simp add: elapsed_ms_def elapsed_us_def)

text \<open>\<open>create_temp_dir\<close> never answers that it failed, even when the directory could not be made.\<close>

lemma create_temp_dir_claims: "fst (create_temp_dir now prefix fs) = ''/tmp/'' @ prefix @ show_nat now"
  by (simp add: create_temp_dir_def create_dir_def Let_def)

end
