(* ===== verification/Spec2Isabelle.thy ===== *)
theory Spec2Isabelle
  imports Prelude Varint Crc32 Log_Record File_System Io_Manager Text Data_File Index Bplus_Tree
    Skip_List Indexer Art_Node Art_Tree Art_Iterator Db Db_Load Db_Log Db_Open Write_Batch Db_Running Db_Session
    Db_Iterator Db_Backup Db_Merge Merge_Correct
    Redis_Data Redis_Engine Redis_Correct Redis_Collections Redis_Lists Redis_Sorted_Sets Redis_Durable Redis_Types Redis_Threads
    Strings Json Redis_Server Redis_Requests Redis_Connection Rpc_Server Rpc_Requests Http_Server Http_Requests Server_Life Test_Utils
begin

text \<open>
  A verification of the key-value store RaftBitcask (C++, \<open>src/src\<close> and \<open>src/include/bitcask\<close>): a
  log-structured engine in the style of Bitcask, the Redis data types on top of it, and three servers.

  \<^bold>\<open>The program and the theories.\<close> A database appends every write to the active data file and
  keeps an index from keys to positions in memory; opening it reads the data files again. Bottom up:

  \<^item> \<open>Prelude\<close> (\<open>common.h\<close>): machine integers, byte strings, the exceptions as a datatype, results as
    sums, \<open>bind_res\<close> for calls that may throw and change a state, little-endian numbers. \<open>Text\<close> and
    \<open>Strings\<close>: what the code uses of the C++ string library.
  \<^item> \<open>Varint\<close>, \<open>Crc32\<close>, \<open>Log_Record\<close> (\<open>log_record.cpp\<close>): the encoding of records and positions, the
    header decoder and the checksums.
  \<^item> \<open>File_System\<close> (\<open>utils.cpp\<close>), \<open>Io_Manager\<close> (\<open>io_manager.cpp\<close>, \<open>mmap_io.cpp\<close>), \<open>Data_File\<close>
    (\<open>data_file.cpp\<close>): an explicit file system (files as byte strings, directories, locks, the page
    size of the machine), the two I/O managers, and data files with their records.
  \<^item> \<open>Index\<close>, \<open>Bplus_Tree\<close>, \<open>Skip_List\<close>, \<open>Indexer\<close> (\<open>index.cpp\<close>, \<open>bplus_tree_index.cpp\<close>,
    \<open>skiplist_index.cpp\<close>, the part of \<open>art_index.cpp\<close> that is used): the four indexes and their
    iterators behind one type, as behind the factory \<open>create_indexer\<close>. The random levels of the skip
    list are a stream of coins.
  \<^item> \<open>Art_Node\<close>, \<open>Art_Tree\<close>, \<open>Art_Iterator\<close> (\<open>art_index.cpp\<close>): the adaptive radix tree, with its four classes of
    nodes, that \<open>ARTIndex\<close> contains and does not use: its public operations work on a \<open>std::map\<close>.
  \<^item> \<open>Db\<close>, \<open>Db_Load\<close>, \<open>Db_Open\<close>, \<open>Db_Backup\<close>, \<open>Db_Merge\<close> (\<open>db.cpp\<close>), \<open>Write_Batch\<close> (\<open>write_batch.cpp\<close>) and
    \<open>Db_Iterator\<close> (\<open>iterator.cpp\<close>): the engine. The state is the record \<open>db\<close>, the fields of class \<open>DB\<close>,
    next to the file system; an operation takes both and returns its result and both.
  \<^item> \<open>Redis_Data\<close> (\<open>redis_data_structure.cpp\<close>): strings, hashes, sets, lists and sorted sets over the
    engine; the state \<open>rds\<close> is the database with its file system, and the clock is a parameter.
  \<^item> \<open>Redis_Server\<close> (\<open>redis_server.cpp\<close>), \<open>Rpc_Server\<close> (\<open>rpc_server.cpp\<close>), \<open>Http_Server\<close>
    (\<open>http_server.cpp\<close>), \<open>Json\<close> (the code that the last two share): parsers of requests, tables of
    handlers, the handlers, replies, and the handling of a connection as a function from the buffers
    received to the texts sent.
  \<^item> \<open>Server_Life\<close> (\<open>start\<close>, \<open>stop\<close> and the threads of the three servers) and \<open>Redis_Threads\<close> (\<open>hset\<close> called
    by several clients): threads as step relations and schedules, what the socket calls answer as an
    input of the steps.
  \<^item> \<open>Test_Utils\<close> (\<open>test_utils.cpp\<close>): the generator of test data over a stream of random numbers.

  \<^bold>\<open>What the lemmas show.\<close> The interfaces are locales, each interpreted on the model's own definitions:
  \<open>indexer\<close> and \<open>index_iterator\<close> (every index is a finite map with an ordered iteration),
  \<open>seekable_iterator\<close>, \<open>io_content\<close> (both managers read what was written), \<open>child_table\<close>
  (each class of radix nodes is a map from bytes to children) and \<open>kv_engine\<close> (what the
  Redis data types use of the engine: a map, and a budget of bytes that the active file takes).

  \<^item> Codecs: round trips, exact sizes, the agreement of the table-driven checksum with the polynomial
    division and of the two checksum routines; a one-byte change is detected.
  \<^item> \<open>Db\<close>: the invariant \<open>db_inv\<close> (every index entry points to a record of its key in a file) and the
    refinement of \<open>put\<close>, \<open>get\<close>, \<open>remove\<close>, \<open>fold\<close>, \<open>list_keys\<close> to a map. \<open>Db_Log\<close> relates the files to the list
    of records in them and the contents to the replay of that list; \<open>Db_Open\<close> shows that opening computes
    the replay, and \<open>Db_Running\<close> the invariant \<open>running\<close> of an open database, closing and restarting.
  \<^item> \<open>Db_Session\<close>: the states that sequences of operations, commits, orderly and disorderly restarts and
    interrupted commits reach, as an inductive relation with the map the user expects; by rule induction
    \<open>get\<close> and \<open>list_keys\<close> answer from that map. A session keeps to limits, outside of which the claims are
    false of the code or not covered: \<open>mmap_at_startup\<close> off (it is on by default), no B+ tree, keys
    that survive a restart (shorter than 8 bytes or ending in 8 zero bytes), no rotation.
  \<^item> \<open>Db_Backup\<close> and \<open>Merge_Correct\<close>: a backup opens to the same contents; a merge keeps the contents and
    leaves one record per key.
  \<^item> \<open>Art_Tree\<close>: over keys of which none is a prefix of another and none is longer than 256 bytes the radix
    tree is a map; on other keys it loses entries. \<open>Art_Iterator\<close>: its iterator meets them in order.
  \<^item> \<open>Redis_Engine\<close> to \<open>Redis_Types\<close>: a hash is a map, a set a set, a list a double-ended queue, a string is there until
    it expires, types do not mix; what a sorted set really stores; and that elements do not
    survive a restart (\<open>Redis_Durable\<close>).
  \<^item> \<open>Redis_Requests\<close>, \<open>Redis_Connection\<close>, \<open>Rpc_Requests\<close>, \<open>Http_Requests\<close>: requests are read as they were
    written, and what was put is what is got, through parser, handler, data type and engine.
  \<^item> \<open>Redis_Threads\<close>: a call of \<open>hset\<close> that is not interrupted is \<open>rds_hset\<close>; under every schedule the fields of
    a hash that is there are kept and those of the calls that returned are found; the count of the fields,
    and a hash that two clients create at once, are not safe.
  \<^item> \<open>Server_Life\<close>: invariants of the threads and of the open descriptors over all orders of steps; \<open>stop\<close> returns
    after three steps of the accepting thread and leaves none behind, but clients that are being served.
  \<^item> \<open>Test_Utils\<close>: sizes, ranges and order of the generated data, whatever the random numbers are.

  Theorems also state what the code does where that is not what it means to do: rotation that
  overwrites the first data file, keys of more than 8 bytes that are lost at the next opening, a
  reversed iteration with a prefix, a checksum that is not enforced, \<open>hdel\<close> of a missing field, a
  request split in two, a request on which the loop does not end.

  \<^bold>\<open>Bounds and fuel.\<close> Loops that recursion over data does not cover take fuel, with lemmas that it is
  enough: reading a data file takes its length plus one (each round moves forward, \<open>load_files_returns\<close>),
  scanning for files \<open>MAX_SCAN_FILES\<close> (the bound in the code), loops over an index one more than its
  size, the Redis loop over received data any number beyond the commands (\<open>pipeline_answered\<close>), and
  \<open>endless_loop\<close> shows data for which none is enough. Integers keep their width; hypotheses such as
  \<open>room\<close> and \<open>ready_for\<close> bound what is appended by the size at which a file is rotated, and record and
  element sizes by \<open>MAX_RECORD_SIZE\<close>, so that no sum wraps.

  \<^bold>\<open>Not modelled.\<close> A single call of the engine is atomic, as its mutex makes it; the interleavings of \<open>hset\<close>
  and of the threads of a server are modelled, the other operations of the Redis data run one after the
  other. The code that handles a connection sends every reply whole (no partial \<open>send\<close>); the
  bytes that have arrived at a call of \<open>recv\<close>, which takes at most 8191 of them, are an input. \<open>fsync\<close> has no effect
  (a restart finds the file system as it was); there are no file permissions, symbolic links or I/O
  errors of the operating system. The free space of the disk, the coins of the skip list and the
  random numbers are inputs; \<open>std::stod\<close> and \<open>std::to_string(double)\<close> are parameters, and the ratio in
  \<open>should_merge\<close> is computed exactly. When the build finds zlib instead of \<open>libcrc32c\<close>, zlib's \<open>crc32\<close> takes the
  place of the built-in routine that \<open>Crc32\<close> models, and computes the same function.
  \<open>split_internal\<close> of the B+ tree only marks a node, and is never called. \<open>art_index_complete.cpp\<close> and
  \<open>art_index_fixed.cpp\<close> repeat functions of \<open>art_index.cpp\<close>.
\<close>

end
